(* ===== verification/Prelude.thy ===== *)
theory Prelude
  imports Main "HOL-Library.Word" "HOL-Library.Monad_Syntax"
begin

unbundle bit_operations_syntax

text \<open>
  Shared vocabulary of the development: machine integers as words, byte buffers, and the
  memory operations the C sources use on them. A buffer is a list of bytes. Reading, writing or
  moving memory outside the buffer has no defined behaviour in C, so these operations return
  \<open>None\<close> there, and a theorem that a routine returns \<open>Some\<close> shows that it stays within bounds.
  Bytes that \<^verbatim>\<open>zmalloc\<close> or \<^verbatim>\<open>zrealloc\<close> hand out uninitialised come from an argument
  \<open>junk\<close>, over which every theorem is general.
\<close>

type_synonym u8 = "8 word"
type_synonym u16 = "16 word"
type_synonym u32 = "32 word"
type_synonym u64 = "64 word"
type_synonym bytes = "u8 list"

named_theorems mem_simps \<open>reading back what was written to a buffer\<close>

section \<open>Buffers\<close>

definition mem_rd :: "bytes \<Rightarrow> nat \<Rightarrow> nat \<Rightarrow> bytes option" where
  "mem_rd m off n = (if off + n \<le> length m then Some (take n (drop off m)) else None)"

definition mem_wr :: "bytes \<Rightarrow> nat \<Rightarrow> bytes \<Rightarrow> bytes option" where
  "mem_wr m off bs =
     (if off + length bs \<le> length m
      then Some (take off m @ bs @ drop (off + length bs) m) else None)"

definition mem_move :: "bytes \<Rightarrow> nat \<Rightarrow> nat \<Rightarrow> nat \<Rightarrow> bytes option" where
  "mem_move m dst src n = do { bs \<leftarrow> mem_rd m src n; mem_wr m dst bs }"

definition mem_byte :: "bytes \<Rightarrow> nat \<Rightarrow> u8 option" where
  "mem_byte m i = (if i < length m then Some (m ! i) else None)"

definition zrealloc :: "(nat \<Rightarrow> u8) \<Rightarrow> bytes \<Rightarrow> nat \<Rightarrow> bytes" where
  "zrealloc junk m n = take n m @ map junk [length m..<n]"

lemma length_zrealloc [simp]: "length (zrealloc junk m n) = n"
  by (simp add: zrealloc_def)

lemma zrealloc_grow: "zrealloc junk m (length m + n) = m @ map junk [length m..<length m + n]"
  by (simp add: zrealloc_def)

lemma zrealloc_shrink: "n \<le> length m \<Longrightarrow> zrealloc junk m n = take n m"
  by (simp add: zrealloc_def)

lemma length_mem_wr: "mem_wr m off bs = Some m' \<Longrightarrow> length m' = length m"
  by (auto simp: mem_wr_def split: if_splits)

lemma mem_rd_append [mem_simps]:
  "off = length a \<Longrightarrow> n = length b \<Longrightarrow> mem_rd (a @ b @ c) off n = Some b"
  by (simp add: mem_rd_def)

lemma mem_wr_append [mem_simps]:
  "off = length a \<Longrightarrow> length bs = length b \<Longrightarrow> mem_wr (a @ b @ c) off bs = Some (a @ bs @ c)"
  by (simp add: mem_wr_def)

lemma mem_byte_append [mem_simps]: "i = length a \<Longrightarrow> mem_byte (a @ x # c) i = Some x"
  by (simp add: mem_byte_def nth_append)

section \<open>Little-endian integers\<close>

fun le_enc :: "nat \<Rightarrow> nat \<Rightarrow> bytes" where
  "le_enc 0 x = []"
| "le_enc (Suc n) x = word_of_nat x # le_enc n (x div 256)"

lemma le_enc_numeral [simp]:
  "le_enc (numeral k) x = word_of_nat x # le_enc (pred_numeral k) (x div 256)"
  by (simp only: numeral_eq_Suc [of k] le_enc.simps)

fun le_dec :: "bytes \<Rightarrow> nat" where
  "le_dec [] = 0"
| "le_dec (b # bs) = unat b + 256 * le_dec bs"

lemma length_le_enc [simp]: "length (le_enc n x) = n"
  by (induction n arbitrary: x) auto

lemma unat_byte [simp]: "unat (word_of_nat x :: u8) = x mod 256"
  by (simp add: unat_of_nat)

lemma le_dec_enc_mod: "le_dec (le_enc n x) = x mod 256 ^ n"
proof (induction n arbitrary: x)
  case 0
  then show ?case by simp
next
  case (Suc n)
  have "x mod (256 * 256 ^ n) = 256 * (x div 256 mod 256 ^ n) + x mod 256"
    by (rule mod_mult2_eq)
  then show ?case by (simp add: Suc)
qed

lemma le_dec_enc [simp]: "x < 256 ^ n \<Longrightarrow> le_dec (le_enc n x) = x"
  by (simp add: le_dec_enc_mod)

lemma le_dec_bound: "le_dec bs < 256 ^ length bs"
proof (induction bs)
  case Nil
  then show ?case by simp
next
  case (Cons b bs)
  have "unat b < 256" using unsigned_less [of b, where ?'a = nat] by simp
  with Cons show ?case by simp
qed

lemma sint_inj:
  assumes "sint v = sint w"
  shows "v = w"
proof -
  have "word_of_int (sint v) = v" "word_of_int (sint w) = w" by simp_all
  with assms show ?thesis by metis
qed

lemma word_eq_of_nat: "unat w = n \<Longrightarrow> w = word_of_nat n"
  by auto

lemma sint_eq_unat:
  fixes w :: "'a::len word"
  assumes "unat w < 2 ^ (LENGTH('a) - 1)"
  shows "sint w = int (unat w)"
proof -
  have "int (unat w) < int (2 ^ (LENGTH('a) - 1))"
    using assms by (simp only: of_nat_less_iff)
  then have "uint w < 2 ^ (LENGTH('a) - 1)" by simp
  moreover have "- (2 ^ (LENGTH('a) - 1)) \<le> uint w"
    by (rule order_trans [of _ 0]) simp_all
  ultimately have "signed_take_bit (LENGTH('a) - 1) (uint w) = uint w"
    by (rule signed_take_bit_int_eq_self [rotated])
  then show ?thesis by (simp add: sint_uint)
qed

text \<open>A signed integer of \<open>n\<close> bytes, sign-extended to 64 bits as C does on conversion.\<close>

definition sext :: "nat \<Rightarrow> bytes \<Rightarrow> u64" where
  "sext n bs = word_of_int (signed_take_bit (8 * n - 1) (int (le_dec bs)))"

definition fits_signed :: "nat \<Rightarrow> u64 \<Rightarrow> bool" where
  "fits_signed n v \<longleftrightarrow> - (2 ^ (8 * n - 1)) \<le> sint v \<and> sint v < 2 ^ (8 * n - 1)"

lemma sext_le_enc:
  assumes "0 < n" "n \<le> 8" "fits_signed n v"
  shows "sext n (le_enc n (unat v)) = v"
proof -
  have pow: "(256::nat) ^ n = 2 ^ (8 * n)"
    by (simp add: power_mult)
  have "int (le_dec (le_enc n (unat v))) = uint v mod 2 ^ (8 * n)"
    by (simp add: le_dec_enc_mod pow zmod_int)
  also have "\<dots> = take_bit (8 * n) (uint v)"
    by (simp add: take_bit_eq_mod)
  also have "\<dots> = take_bit (8 * n) (take_bit 64 (sint v))"
    by (simp add: uint_sint)
  also have "\<dots> = take_bit (8 * n) (sint v)"
    using assms(2) by (simp add: min_def)
  finally have "signed_take_bit (8 * n - 1) (int (le_dec (le_enc n (unat v))))
      = signed_take_bit (8 * n - 1) (sint v)"
    using assms(1) by (auto simp: signed_take_bit_take_bit)
  also have "\<dots> = sint v"
    using assms(3) by (simp add: fits_signed_def signed_take_bit_int_eq_self)
  finally show ?thesis
    by (simp add: sext_def)
qed

section \<open>Arrays of equal-sized cells\<close>

text \<open>A buffer that holds an array is the concatenation of its cells, each of \<open>e\<close> bytes.\<close>

lemma length_cells: "\<forall>c \<in> set cs. length c = e \<Longrightarrow> length (concat cs) = length cs * e"
  by (induction cs) auto

lemma take_cells:
  assumes "\<forall>c \<in> set cs. length c = e" and "i \<le> length cs"
  shows "take (i * e) (concat cs) = concat (take i cs)"
  using assms
proof (induction cs arbitrary: i)
  case Nil
  then show ?case by simp
next
  case (Cons c cs)
  then show ?case by (cases i) auto
qed

lemma drop_cells:
  assumes "\<forall>c \<in> set cs. length c = e" and "i \<le> length cs"
  shows "drop (i * e) (concat cs) = concat (drop i cs)"
  using assms
proof (induction cs arbitrary: i)
  case Nil
  then show ?case by simp
next
  case (Cons c cs)
  then show ?case by (cases i) auto
qed

lemma mem_rd_cells:
  assumes "\<forall>c \<in> set cs. length c = e" and "i + n \<le> length cs"
  shows "mem_rd (concat cs) (i * e) (n * e) = Some (concat (take n (drop i cs)))"
proof -
  have "(i + n) * e \<le> length cs * e"
    using assms(2) by (rule mult_le_mono1)
  then have "i * e + n * e \<le> length (concat cs)"
    by (simp add: length_cells [OF assms(1)] add_mult_distrib)
  moreover have "take (n * e) (drop (i * e) (concat cs)) = concat (take n (drop i cs))"
  proof -
    have "\<forall>c \<in> set (drop i cs). length c = e" using assms(1) by (auto dest: in_set_dropD)
    then show ?thesis using assms by (simp add: drop_cells take_cells)
  qed
  ultimately show ?thesis by (simp add: mem_rd_def)
qed

lemma mem_wr_cells:
  assumes "\<forall>c \<in> set cs. length c = e" and "\<forall>c \<in> set ds. length c = e"
    and "i + length ds \<le> length cs"
  shows "mem_wr (concat cs) (i * e) (concat ds)
    = Some (concat (take i cs @ ds @ drop (i + length ds) cs))"
proof -
  have "(i + length ds) * e \<le> length cs * e"
    using assms(3) by (rule mult_le_mono1)
  then have "i * e + length (concat ds) \<le> length (concat cs)"
    by (simp add: length_cells [OF assms(1)] length_cells [OF assms(2)] add_mult_distrib)
  moreover have "drop (i * e + length (concat ds)) (concat cs) = concat (drop (i + length ds) cs)"
    using drop_cells [OF assms(1,3)] by (simp add: length_cells [OF assms(2)] add_mult_distrib)
  ultimately show ?thesis
    using assms by (simp add: mem_wr_def take_cells)
qed

lemma mem_rd_cell:
  assumes "\<forall>c \<in> set cs. length c = e" and "i < length cs"
  shows "mem_rd (concat cs) (i * e) e = Some (cs ! i)"
  using mem_rd_cells [OF assms(1), of i 1] assms(2)
  by (simp add: Cons_nth_drop_Suc [symmetric])

lemma mem_wr_cell:
  assumes "\<forall>c \<in> set cs. length c = e" and "length d = e" and "i < length cs"
  shows "mem_wr (concat cs) (i * e) d = Some (concat (cs[i := d]))"
  using mem_wr_cells [OF assms(1), of "[d]" i] assms(2,3)
  by (simp add: upd_conv_take_nth_drop)

section \<open>String literals\<close>

definition str :: "string \<Rightarrow> bytes" where
  "str s = map of_char s"

lemma str_simps [simp]: "str [] = []" "str (c # s) = of_char c # str s" "length (str s) = length s"
  by (simp_all add: str_def)

end
