(* ===== verification/Interfaces.thy ===== *)
theory Interfaces
  imports Prelude
begin

text \<open>
  The contracts between the data structures and the code that uses them. A data structure's
  operations are partial (\<open>None\<close> is undefined behaviour in C), so a contract promises that they
  return. Each locale is interpreted in the theory of every component that provides it.
\<close>

section \<open>A set of members with a capacity\<close>

fun add_list :: "('s \<Rightarrow> 'a \<Rightarrow> ('s \<times> bool) option) \<Rightarrow> 's \<Rightarrow> 'a list \<Rightarrow> ('s \<times> nat) option" where
  "add_list add s [] = Some (s, 0)"
| "add_list add s (x # xs) = do {
     (s', added) \<leftarrow> add s x;
     (s'', n) \<leftarrow> add_list add s' xs;
     Some (s'', n + (if added then 1 else 0))
   }"

fun remove_list :: "('s \<Rightarrow> 'a \<Rightarrow> ('s \<times> bool) option) \<Rightarrow> 's \<Rightarrow> 'a list \<Rightarrow> ('s \<times> nat) option" where
  "remove_list rem s [] = Some (s, 0)"
| "remove_list rem s (x # xs) = do {
     (s', removed) \<leftarrow> rem s x;
     (s'', n) \<leftarrow> remove_list rem s' xs;
     Some (s'', n + (if removed then 1 else 0))
   }"

locale member_set =
  fixes new :: 's
    and add :: "'s \<Rightarrow> 'a \<Rightarrow> ('s \<times> bool) option"
    and rem :: "'s \<Rightarrow> 'a \<Rightarrow> ('s \<times> bool) option"
    and find :: "'s \<Rightarrow> 'a \<Rightarrow> bool option"
    and rel :: "'s \<Rightarrow> 'a set \<Rightarrow> bool"
    and cap :: nat
  assumes rel_finite: "rel s A \<Longrightarrow> finite A"
    and new_rel: "rel new {}"
    and add_rel: "rel s A \<Longrightarrow> card A + 1 < cap \<Longrightarrow>
      \<exists>s'. add s x = Some (s', x \<notin> A) \<and> rel s' (insert x A)"
    and rem_rel: "rel s A \<Longrightarrow> \<exists>s'. rem s x = Some (s', x \<in> A) \<and> rel s' (A - {x})"
    and find_rel: "rel s A \<Longrightarrow> find s x = Some (x \<in> A)"
begin

lemma add_list_rel:
  assumes "rel s A" "card A + length xs < cap"
  shows "\<exists>s'. add_list add s xs = Some (s', card (set xs - A)) \<and> rel s' (A \<union> set xs)"
  using assms
proof (induction xs arbitrary: s A)
  case Nil
  then show ?case by simp
next
  case (Cons x xs)
  have fin: "finite A" using rel_finite [OF Cons.prems(1)] .
  obtain s1 where s1: "add s x = Some (s1, x \<notin> A)" "rel s1 (insert x A)"
    using add_rel [OF Cons.prems(1), of x] Cons.prems(2) by auto
  have "card (insert x A) + length xs < cap"
    using card_insert_le_m1 [of "card A + 1" A x] Cons.prems(2) fin by (simp add: card_insert_if)
  then obtain s2 where s2: "add_list add s1 xs = Some (s2, card (set xs - insert x A))"
    "rel s2 (insert x A \<union> set xs)"
    using Cons.IH [OF s1(2)] by blast
  have "card (set (x # xs) - A) = card (set xs - insert x A) + (if x \<notin> A then 1 else 0)"
  proof (cases "x \<in> A")
    case True
    then have eq: "set (x # xs) - A = set xs - insert x A" by auto
    show ?thesis unfolding eq using True by simp
  next
    case False
    then have eq: "set (x # xs) - A = insert x (set xs - insert x A)" by auto
    have "card (insert x (set xs - insert x A)) = Suc (card (set xs - insert x A))"
      by (rule card_insert_disjoint) auto
    then show ?thesis unfolding eq using False by simp
  qed
  then show ?case using s1 s2 by simp
qed

lemma remove_list_rel:
  assumes "rel s A"
  shows "\<exists>s'. remove_list rem s xs = Some (s', card (A \<inter> set xs)) \<and> rel s' (A - set xs)"
  using assms
proof (induction xs arbitrary: s A)
  case Nil
  then show ?case by simp
next
  case (Cons x xs)
  obtain s1 where s1: "rem s x = Some (s1, x \<in> A)" "rel s1 (A - {x})"
    using rem_rel [OF Cons.prems, of x] by auto
  obtain s2 where s2: "remove_list rem s1 xs = Some (s2, card ((A - {x}) \<inter> set xs))"
    "rel s2 (A - {x} - set xs)"
    using Cons.IH [OF s1(2)] by blast
  have "card (A \<inter> set (x # xs)) = card ((A - {x}) \<inter> set xs) + (if x \<in> A then 1 else 0)"
  proof (cases "x \<in> A")
    case True
    then have eq: "A \<inter> set (x # xs) = insert x ((A - {x}) \<inter> set xs)" by auto
    have "card (insert x ((A - {x}) \<inter> set xs)) = Suc (card ((A - {x}) \<inter> set xs))"
      by (rule card_insert_disjoint) auto
    then show ?thesis unfolding eq using True by simp
  next
    case False
    then have eq: "A \<inter> set (x # xs) = (A - {x}) \<inter> set xs" by auto
    show ?thesis unfolding eq using False by simp
  qed
  moreover have "A - set (x # xs) = A - {x} - set xs" by auto
  ultimately show ?case using s1 s2 by simp
qed

lemma find_after_add_list:
  assumes "rel s A" "card A + length xs < cap"
  shows "\<exists>s' n. add_list add s xs = Some (s', n) \<and> (\<forall>y. find s' y = Some (y \<in> A \<or> y \<in> set xs))"
proof -
  obtain s' where "add_list add s xs = Some (s', card (set xs - A))" "rel s' (A \<union> set xs)"
    using add_list_rel [OF assms] by blast
  moreover have "find s' y = Some (y \<in> A \<or> y \<in> set xs)" for y
    using find_rel [OF calculation(2), of y] by simp
  ultimately show ?thesis by blast
qed

end

section \<open>A finite map with a capacity\<close>

text \<open>A client's use of a map: a sequence of lookups, insertions and removals with their answers.
  An operation of the structure may change its representation, also a lookup.\<close>

datatype ('k, 'v) map_op = Put 'k 'v | Add 'k 'v | Del 'k | Get 'k

datatype 'v map_answer = Flag bool | Found "'v option"

fun map_op_spec :: "('k, 'v) map_op \<Rightarrow> ('k \<rightharpoonup> 'v) \<Rightarrow> ('k \<rightharpoonup> 'v) \<times> 'v map_answer" where
  "map_op_spec (Put k v) m = (m(k \<mapsto> v), Flag (m k = None))"
| "map_op_spec (Add k v) m = (if m k = None then m(k \<mapsto> v) else m, Flag (m k = None))"
| "map_op_spec (Del k) m = (m(k := None), Flag (m k \<noteq> None))"
| "map_op_spec (Get k) m = (m, Found (m k))"

fun map_run_spec :: "('k, 'v) map_op list \<Rightarrow> ('k \<rightharpoonup> 'v) \<Rightarrow> ('k \<rightharpoonup> 'v) \<times> 'v map_answer list" where
  "map_run_spec [] m = (m, [])"
| "map_run_spec (x # xs) m =
     (let (m', a) = map_op_spec x m; (m'', as) = map_run_spec xs m' in (m'', a # as))"

type_synonym ('s, 'k, 'v) map_impl =
  "('s \<Rightarrow> 'k \<Rightarrow> 'v \<Rightarrow> ('s \<times> bool) option) \<times> ('s \<Rightarrow> 'k \<Rightarrow> 'v \<Rightarrow> ('s \<times> bool) option) \<times>
   ('s \<Rightarrow> 'k \<Rightarrow> ('s \<times> bool) option) \<times> ('s \<Rightarrow> 'k \<Rightarrow> ('s \<times> 'v option) option)"

fun map_op_run :: "('s, 'k, 'v) map_impl \<Rightarrow> ('k, 'v) map_op \<Rightarrow> 's \<Rightarrow> ('s \<times> 'v map_answer) option" where
  "map_op_run (put, add, del, get) (Put k v) s = map_option (\<lambda>(s, b). (s, Flag b)) (put s k v)"
| "map_op_run (put, add, del, get) (Add k v) s = map_option (\<lambda>(s, b). (s, Flag b)) (add s k v)"
| "map_op_run (put, add, del, get) (Del k) s = map_option (\<lambda>(s, b). (s, Flag b)) (del s k)"
| "map_op_run (put, add, del, get) (Get k) s = map_option (\<lambda>(s, v). (s, Found v)) (get s k)"

fun map_run :: "('s, 'k, 'v) map_impl \<Rightarrow> ('k, 'v) map_op list \<Rightarrow> 's \<Rightarrow> ('s \<times> 'v map_answer list) option" where
  "map_run impl [] s = Some (s, [])"
| "map_run impl (x # xs) s = do {
     (s', a) \<leftarrow> map_op_run impl x s;
     (s'', as) \<leftarrow> map_run impl xs s';
     Some (s'', a # as)
   }"

locale bounded_map =
  fixes new :: 's
    and put :: "'s \<Rightarrow> 'k \<Rightarrow> 'v \<Rightarrow> ('s \<times> bool) option"
    and add :: "'s \<Rightarrow> 'k \<Rightarrow> 'v \<Rightarrow> ('s \<times> bool) option"
    and del :: "'s \<Rightarrow> 'k \<Rightarrow> ('s \<times> bool) option"
    and get :: "'s \<Rightarrow> 'k \<Rightarrow> ('s \<times> 'v option) option"
    and rel :: "'s \<Rightarrow> ('k \<rightharpoonup> 'v) \<Rightarrow> bool"
    and cap :: nat
  assumes rel_fin: "rel s m \<Longrightarrow> finite (dom m)"
    and new_map: "rel new Map.empty"
    and put_map: "rel s m \<Longrightarrow> card (dom m) < cap \<Longrightarrow>
      \<exists>s'. put s k v = Some (s', m k = None) \<and> rel s' (m(k \<mapsto> v))"
    and add_map: "rel s m \<Longrightarrow> card (dom m) < cap \<Longrightarrow>
      \<exists>s'. add s k v = Some (s', m k = None) \<and> rel s' (if m k = None then m(k \<mapsto> v) else m)"
    and del_map: "rel s m \<Longrightarrow> \<exists>s'. del s k = Some (s', m k \<noteq> None) \<and> rel s' (m(k := None))"
    and get_map: "rel s m \<Longrightarrow> \<exists>s'. get s k = Some (s', m k) \<and> rel s' m"
begin

lemma op_refines:
  assumes "rel s m" "card (dom m) < cap"
  shows "\<exists>s'. map_op_run (put, add, del, get) x s = Some (s', snd (map_op_spec x m)) \<and>
    rel s' (fst (map_op_spec x m))"
proof (cases x)
  case (Put k v)
  then show ?thesis using put_map [OF assms, of k v] by auto
next
  case (Add k v)
  then show ?thesis using add_map [OF assms, of k v] by auto
next
  case (Del k)
  then show ?thesis using del_map [OF assms(1), of k] by auto
next
  case (Get k)
  then show ?thesis using get_map [OF assms(1), of k] by auto
qed

lemma card_dom_op:
  assumes "finite (dom m)"
  shows "card (dom (fst (map_op_spec x m))) \<le> Suc (card (dom m))"
proof (cases x)
  case (Del k)
  then show ?thesis using assms card_Diff1_le [of "dom m" k] by (simp add: dom_fun_upd)
qed (use assms in \<open>auto simp: card_insert_if\<close>)

text \<open>Every sequence of operations that cannot exceed the capacity returns, gives the answers of
  the map, and ends in a state that stands for the resulting map.\<close>

lemma run_refines:
  assumes "rel s m" "card (dom m) + length xs \<le> cap"
  shows "\<exists>s'. map_run (put, add, del, get) xs s = Some (s', snd (map_run_spec xs m)) \<and>
    rel s' (fst (map_run_spec xs m))"
  using assms
proof (induction xs arbitrary: s m)
  case Nil
  then show ?case by simp
next
  case (Cons x xs)
  obtain m1 a where m1: "map_op_spec x m = (m1, a)" by fastforce
  have "card (dom m) < cap" using Cons.prems(2) by simp
  then obtain s1 where s1: "map_op_run (put, add, del, get) x s = Some (s1, a)" "rel s1 m1"
    using op_refines [OF Cons.prems(1), of x] m1 by auto
  have "card (dom m1) \<le> Suc (card (dom m))"
    using card_dom_op [OF rel_fin [OF Cons.prems(1)], of x] m1 by simp
  then have "card (dom m1) + length xs \<le> cap" using Cons.prems(2) by simp
  from Cons.IH [OF s1(2) this] obtain s2 where
    "map_run (put, add, del, get) xs s1 = Some (s2, snd (map_run_spec xs m1))"
    "rel s2 (fst (map_run_spec xs m1))" by blast
  then show ?case using s1 m1 by (simp add: case_prod_unfold Let_def)
qed

end

section \<open>Operations that allocate\<close>

text \<open>A structure on a heap, whose operations get the addresses of the memory that they may allocate
  with their arguments, refines an abstract state as long as the addresses are not in use.\<close>

fun op_run :: "('o \<Rightarrow> 's \<Rightarrow> ('s \<times> 'a) option) \<Rightarrow> 'o list \<Rightarrow> 's \<Rightarrow> ('s \<times> 'a list) option" where
  "op_run step [] s = Some (s, [])"
| "op_run step (x # xs) s = do {
     (s', a) \<leftarrow> step x s;
     (s'', as) \<leftarrow> op_run step xs s';
     Some (s'', a # as)
   }"

fun op_run_spec :: "('o \<Rightarrow> 'm \<Rightarrow> 'm \<times> 'a) \<Rightarrow> 'o list \<Rightarrow> 'm \<Rightarrow> 'm \<times> 'a list" where
  "op_run_spec spec [] m = (m, [])"
| "op_run_spec spec (x # xs) m = (let (m', a) = spec x m; (m'', as) = op_run_spec spec xs m' in (m'', a # as))"

fun fresh_for :: "('o \<Rightarrow> nat set) \<Rightarrow> nat set \<Rightarrow> 'o list \<Rightarrow> bool" where
  "fresh_for addrs U [] = True"
| "fresh_for addrs U (x # xs) = (addrs x \<inter> U = {} \<and> fresh_for addrs (U \<union> addrs x) xs)"

lemma fresh_for_mono: "fresh_for addrs U xs \<Longrightarrow> V \<subseteq> U \<Longrightarrow> fresh_for addrs V xs"
proof (induction xs arbitrary: U V)
  case (Cons x xs)
  have "addrs x \<inter> V = {}" using Cons.prems by auto
  moreover have "fresh_for addrs (V \<union> addrs x) xs" using Cons.IH [of "U \<union> addrs x" "V \<union> addrs x"] Cons.prems by auto
  ultimately show ?case by simp
qed simp

locale heap_structure =
  fixes step :: "'o \<Rightarrow> 's \<Rightarrow> ('s \<times> 'a) option"
    and spec :: "'o \<Rightarrow> 'm \<Rightarrow> 'm \<times> 'a"
    and rel :: "'s \<Rightarrow> 'm \<Rightarrow> bool"
    and used :: "'s \<Rightarrow> nat set"
    and addrs :: "'o \<Rightarrow> nat set"
    and msize :: "'m \<Rightarrow> nat"
    and cap :: nat
  assumes step_rel: "rel s m \<Longrightarrow> addrs x \<inter> used s = {} \<Longrightarrow> msize m < cap \<Longrightarrow>
      \<exists>s'. step x s = Some (s', snd (spec x m)) \<and> rel s' (fst (spec x m)) \<and> used s' \<subseteq> used s \<union> addrs x"
    and msize_step: "rel s m \<Longrightarrow> msize (fst (spec x m)) \<le> Suc (msize m)"
begin

lemma run_rel:
  assumes "rel s m" "fresh_for addrs (used s) xs" "msize m + length xs \<le> cap"
  shows "\<exists>s'. op_run step xs s = Some (s', snd (op_run_spec spec xs m)) \<and> rel s' (fst (op_run_spec spec xs m))"
  using assms
proof (induction xs arbitrary: s m)
  case (Cons x xs)
  obtain m1 a where m1: "spec x m = (m1, a)" by fastforce
  have "addrs x \<inter> used s = {}" "msize m < cap" using Cons.prems(2,3) by simp_all
  then obtain s1 where s1: "step x s = Some (s1, a)" "rel s1 m1" "used s1 \<subseteq> used s \<union> addrs x"
    using step_rel [OF Cons.prems(1)] m1 by fastforce
  have "fresh_for addrs (used s1) xs" using fresh_for_mono [OF _ s1(3), of addrs xs] Cons.prems(2) by simp
  moreover have "msize m1 + length xs \<le> cap" using msize_step [OF Cons.prems(1), of x] m1 Cons.prems(3) by simp
  ultimately obtain s2 where "op_run step xs s1 = Some (s2, snd (op_run_spec spec xs m1))" "rel s2 (fst (op_run_spec spec xs m1))"
    using Cons.IH [OF s1(2)] by blast
  then show ?case using s1(1) m1 by (simp add: case_prod_unfold Let_def)
qed simp

end

end
