(* ===== verification/Intset.thy ===== *)
theory Intset
  imports Interfaces
begin

text \<open>
  The integer set of \<^verbatim>\<open>intset.c\<close>: a sorted array of 16, 32 or 64 bit integers in one
  allocation, whose encoding grows to fit the widest member. The record keeps the array as the
  bytes the C code stores, so every access is checked against the bytes \<^verbatim>\<open>intsetResize\<close>
  allocated. \<open>intset_rel\<close> relates an intset to the list of its members in order, and each
  operation is shown to act on that list as insertion, removal and lookup in a sorted set.
\<close>

section \<open>The data and the operations\<close>

record intset =
  encoding :: u32
  is_length :: u32
  contents :: bytes

definition INTSET_ENC_INT16 :: nat where "INTSET_ENC_INT16 = 2"
definition INTSET_ENC_INT32 :: nat where "INTSET_ENC_INT32 = 4"
definition INTSET_ENC_INT64 :: nat where "INTSET_ENC_INT64 = 8"

lemmas intset_enc_defs = INTSET_ENC_INT16_def INTSET_ENC_INT32_def INTSET_ENC_INT64_def

definition intsetValueEncoding :: "u64 \<Rightarrow> nat" where
  "intsetValueEncoding v =
     (if sint v < - (2 ^ 31) \<or> sint v > 2 ^ 31 - 1 then INTSET_ENC_INT64
      else if sint v < - (2 ^ 15) \<or> sint v > 2 ^ 15 - 1 then INTSET_ENC_INT32
      else INTSET_ENC_INT16)"

definition intsetGetEncoded :: "intset \<Rightarrow> nat \<Rightarrow> nat \<Rightarrow> u64 option" where
  "intsetGetEncoded is pos enc =
     (if enc = INTSET_ENC_INT64 then
        do { b \<leftarrow> mem_rd (contents is) (pos * 8) 8; Some (sext 8 b) }
      else if enc = INTSET_ENC_INT32 then
        do { b \<leftarrow> mem_rd (contents is) (pos * 4) 4; Some (sext 4 b) }
      else
        do { b \<leftarrow> mem_rd (contents is) (pos * 2) 2; Some (sext 2 b) })"

definition intsetGet_raw :: "intset \<Rightarrow> nat \<Rightarrow> u64 option" where
  "intsetGet_raw is pos = intsetGetEncoded is pos (unat (encoding is))"

definition intsetSet :: "intset \<Rightarrow> nat \<Rightarrow> u64 \<Rightarrow> intset option" where
  "intsetSet is pos v =
     (let enc = unat (encoding is) in
      if enc = INTSET_ENC_INT64 then
        do { m \<leftarrow> mem_wr (contents is) (pos * 8) (le_enc 8 (unat v)); Some (is\<lparr>contents := m\<rparr>) }
      else if enc = INTSET_ENC_INT32 then
        do { m \<leftarrow> mem_wr (contents is) (pos * 4) (le_enc 4 (unat v)); Some (is\<lparr>contents := m\<rparr>) }
      else
        do { m \<leftarrow> mem_wr (contents is) (pos * 2) (le_enc 2 (unat v)); Some (is\<lparr>contents := m\<rparr>) })"

definition intsetNew :: intset where
  "intsetNew = \<lparr>encoding = word_of_nat INTSET_ENC_INT16, is_length = 0, contents = []\<rparr>"

text \<open>The size is computed in a \<^verbatim>\<open>uint32_t\<close>, so the product wraps around.\<close>

definition intsetResize :: "(nat \<Rightarrow> u8) \<Rightarrow> intset \<Rightarrow> u32 \<Rightarrow> intset" where
  "intsetResize junk is len =
     (let size = len * encoding is
      in is\<lparr>contents := zrealloc junk (contents is) (unat size)\<rparr>)"

partial_function (option) intsetSearch_loop ::
  "intset \<Rightarrow> u64 \<Rightarrow> int \<Rightarrow> int \<Rightarrow> int \<Rightarrow> u64 \<Rightarrow> (int \<times> int \<times> u64) option" where
  "intsetSearch_loop is value mn mx mid cur =
     (if mx \<ge> mn then
        let mid' = (mn + mx) mod 2 ^ 32 div 2 in
        Option.bind (intsetGet_raw is (nat mid')) (\<lambda>cur'.
          if sint value > sint cur' then intsetSearch_loop is value (mid' + 1) mx mid' cur'
          else if sint value < sint cur' then intsetSearch_loop is value mn (mid' - 1) mid' cur'
          else Some (mn, mid', cur'))
      else Some (mn, mid, cur))"

definition intsetSearch :: "intset \<Rightarrow> u64 \<Rightarrow> (bool \<times> nat) option" where
  "intsetSearch is value =
     (let mx = sint (is_length is - 1) in
      if is_length is = 0 then Some (False, 0)
      else if mx < 0 then None \<comment> \<open>a negative array index\<close>
      else do {
        hi \<leftarrow> intsetGet_raw is (nat mx);
        if sint value > sint hi then Some (False, unat (is_length is))
        else do {
          lo \<leftarrow> intsetGet_raw is 0;
          if sint value < sint lo then Some (False, 0)
          else do {
            (mn, mid, cur) \<leftarrow> intsetSearch_loop is value 0 mx (-1) (-1);
            if value = cur then Some (True, nat mid) else Some (False, nat mn)
          }
        }
      })"

fun intsetUpgrade_loop :: "nat \<Rightarrow> nat \<Rightarrow> nat \<Rightarrow> intset \<Rightarrow> intset option" where
  "intsetUpgrade_loop 0 curenc prepend is = Some is"
| "intsetUpgrade_loop (Suc len) curenc prepend is = do {
     v \<leftarrow> intsetGetEncoded is len curenc;
     is' \<leftarrow> intsetSet is (len + prepend) v;
     intsetUpgrade_loop len curenc prepend is'
   }"

definition intsetUpgradeAndAdd :: "(nat \<Rightarrow> u8) \<Rightarrow> intset \<Rightarrow> u64 \<Rightarrow> intset option" where
  "intsetUpgradeAndAdd junk is value =
     (let curenc = unat (encoding is);
          newenc = intsetValueEncoding value;
          len = unat (is_length is);
          prepend = (if sint value < 0 then 1 else 0);
          is1 = is\<lparr>encoding := word_of_nat newenc\<rparr>;
          is2 = intsetResize junk is1 (is_length is1 + 1)
      in do {
        is3 \<leftarrow> intsetUpgrade_loop len curenc prepend is2;
        is4 \<leftarrow> (if prepend = 1 then intsetSet is3 0 value
                else intsetSet is3 (unat (is_length is3)) value);
        Some (is4\<lparr>is_length := is_length is4 + 1\<rparr>)
      })"

definition intsetMoveTail :: "intset \<Rightarrow> nat \<Rightarrow> nat \<Rightarrow> intset option" where
  "intsetMoveTail is from to =
     (let bytes = is_length is - word_of_nat from;
          enc = unat (encoding is);
          sz = (if enc = INTSET_ENC_INT64 then 8 else if enc = INTSET_ENC_INT32 then 4 else 2)
      in do {
        m \<leftarrow> mem_move (contents is) (to * sz) (from * sz) (unat (bytes * word_of_nat sz));
        Some (is\<lparr>contents := m\<rparr>)
      })"

definition intsetAdd :: "(nat \<Rightarrow> u8) \<Rightarrow> intset \<Rightarrow> u64 \<Rightarrow> (intset \<times> bool) option" where
  "intsetAdd junk is value =
     (let valenc = intsetValueEncoding value in
      if valenc > unat (encoding is) then
        do { is' \<leftarrow> intsetUpgradeAndAdd junk is value; Some (is', True) }
      else do {
        (found, pos) \<leftarrow> intsetSearch is value;
        if found then Some (is, False)
        else do {
          is1 \<leftarrow> Some (intsetResize junk is (is_length is + 1));
          is2 \<leftarrow> (if pos < unat (is_length is1) then intsetMoveTail is1 pos (pos + 1) else Some is1);
          is3 \<leftarrow> intsetSet is2 pos value;
          Some (is3\<lparr>is_length := is_length is3 + 1\<rparr>, True)
        }
      })"

definition intsetRemove :: "(nat \<Rightarrow> u8) \<Rightarrow> intset \<Rightarrow> u64 \<Rightarrow> (intset \<times> bool) option" where
  "intsetRemove junk is value =
     (let valenc = intsetValueEncoding value in
      if valenc \<le> unat (encoding is) then do {
        (found, pos) \<leftarrow> intsetSearch is value;
        if found then do {
          len \<leftarrow> Some (is_length is);
          is1 \<leftarrow> (if pos < unat (len - 1) then intsetMoveTail is (pos + 1) pos else Some is);
          is2 \<leftarrow> Some (intsetResize junk is1 (len - 1));
          Some (is2\<lparr>is_length := len - 1\<rparr>, True)
        } else Some (is, False)
      } else Some (is, False))"

definition intsetFind :: "intset \<Rightarrow> u64 \<Rightarrow> bool option" where
  "intsetFind is value =
     (let valenc = intsetValueEncoding value in
      if valenc \<le> unat (encoding is) then do { (found, _) \<leftarrow> intsetSearch is value; Some found }
      else Some False)"

definition intsetRandom :: "intset \<Rightarrow> nat \<Rightarrow> u64 option" where
  "intsetRandom is r =
     (if unat (is_length is) = 0 then None \<comment> \<open>division by zero\<close>
      else intsetGet_raw is (r mod unat (is_length is)))"

definition intsetGet :: "intset \<Rightarrow> nat \<Rightarrow> u64 option option" where
  "intsetGet is pos =
     (if pos < unat (is_length is) then do { v \<leftarrow> intsetGet_raw is pos; Some (Some v) }
      else Some None)"

definition intsetLen :: "intset \<Rightarrow> u32" where
  "intsetLen is = is_length is"

definition intsetBlobLen :: "intset \<Rightarrow> nat" where
  "intsetBlobLen is = 8 + unat (is_length is * encoding is)"

section \<open>Representation\<close>

abbreviation slt :: "u64 \<Rightarrow> u64 \<Rightarrow> bool" where
  "slt a b \<equiv> sint a < sint b"

definition cells :: "nat \<Rightarrow> u64 list \<Rightarrow> bytes list" where
  "cells e xs = map (\<lambda>v. le_enc e (unat v)) xs"

definition enc_ok :: "nat \<Rightarrow> bool" where
  "enc_ok e \<longleftrightarrow> e = 2 \<or> e = 4 \<or> e = 8"

definition intset_rel :: "intset \<Rightarrow> u64 list \<Rightarrow> bool" where
  "intset_rel is xs \<longleftrightarrow>
     enc_ok (unat (encoding is)) \<and>
     unat (is_length is) = length xs \<and> length xs < 2 ^ 29 \<and>
     contents is = concat (cells (unat (encoding is)) xs) \<and>
     (\<forall>v \<in> set xs. fits_signed (unat (encoding is)) v) \<and>
     sorted_wrt slt xs"

lemma length_cell: "\<forall>c \<in> set (cells e xs). length c = e"
  by (auto simp: cells_def)

lemma length_cells_list [simp]: "length (cells e xs) = length xs"
  by (simp add: cells_def)

lemma cells_simps [simp]:
  "cells e (xs @ ys) = cells e xs @ cells e ys"
  "cells e (x # xs) = le_enc e (unat x) # cells e xs"
  "cells e [] = []"
  by (simp_all add: cells_def)

lemma take_cells_list: "take n (cells e xs) = cells e (take n xs)"
  by (simp add: cells_def take_map)

lemma drop_cells_list: "drop n (cells e xs) = cells e (drop n xs)"
  by (simp add: cells_def drop_map)

lemma intsetGetEncoded_eq:
  "enc_ok e \<Longrightarrow>
   intsetGetEncoded is pos e = map_option (sext e) (mem_rd (contents is) (pos * e) e)"
  by (auto simp: enc_ok_def intsetGetEncoded_def intset_enc_defs map_option_case
      split: Option.bind_splits option.splits)

lemma intsetSet_eq:
  "enc_ok e \<Longrightarrow> unat (encoding is) = e \<Longrightarrow>
   intsetSet is pos v =
     map_option (\<lambda>m. is\<lparr>contents := m\<rparr>) (mem_wr (contents is) (pos * e) (le_enc e (unat v)))"
  by (auto simp: enc_ok_def intsetSet_def intset_enc_defs map_option_case
      split: Option.bind_splits option.splits)

lemma sext_cell: "enc_ok e \<Longrightarrow> fits_signed e v \<Longrightarrow> sext e (le_enc e (unat v)) = v"
  by (auto simp: enc_ok_def intro!: sext_le_enc)

lemma intsetGet_raw_rel:
  assumes "intset_rel is xs" "i < length xs"
  shows "intsetGet_raw is i = Some (xs ! i)"
proof -
  let ?e = "unat (encoding is)"
  have "mem_rd (contents is) (i * ?e) ?e = Some (cells ?e xs ! i)"
    using assms mem_rd_cell [OF length_cell, of i ?e xs] by (simp add: intset_rel_def)
  moreover have "cells ?e xs ! i = le_enc ?e (unat (xs ! i))"
    using assms(2) by (simp add: cells_def)
  ultimately show ?thesis
    using assms by (simp add: intsetGet_raw_def intsetGetEncoded_eq intset_rel_def sext_cell)
qed

lemma intset_rel_nth_mono:
  "intset_rel is xs \<Longrightarrow> i < j \<Longrightarrow> j < length xs \<Longrightarrow> slt (xs ! i) (xs ! j)"
  by (auto simp: intset_rel_def sorted_wrt_iff_nth_less)

section \<open>Binary search\<close>

text \<open>
  The bounds of the search enclose every place where the value can be. The cursor starts with
  the value \<open>-1\<close>, which may be the value that is looked for, so the invariant also says that it
  has been overwritten by a member once the bounds have crossed.
\<close>

definition search_inv :: "u64 list \<Rightarrow> u64 \<Rightarrow> int \<Rightarrow> int \<Rightarrow> u64 \<Rightarrow> bool" where
  "search_inv xs v mn mx cur \<longleftrightarrow>
     0 \<le> mn \<and> mn \<le> mx + 1 \<and> mx < int (length xs) \<and>
     (\<forall>i < length xs. int i < mn \<longrightarrow> slt (xs ! i) v) \<and>
     (\<forall>i < length xs. mx < int i \<longrightarrow> slt v (xs ! i)) \<and>
     (mn \<le> mx \<or> cur \<noteq> v)"

definition search_post :: "u64 list \<Rightarrow> u64 \<Rightarrow> nat \<Rightarrow> bool" where
  "search_post xs v p \<longleftrightarrow>
     p \<le> length xs \<and> (\<forall>i < p. slt (xs ! i) v) \<and>
     (\<forall>i < length xs. p \<le> i \<longrightarrow> sint v \<le> sint (xs ! i))"

lemma intsetSearch_loop_rel:
  assumes "intset_rel is xs" "search_inv xs v mn mx cur"
  shows "\<exists>mn' mid' cur'. intsetSearch_loop is v mn mx mid cur = Some (mn', mid', cur') \<and>
    (if v = cur' then 0 \<le> mid' \<and> mid' < int (length xs) \<and> xs ! nat mid' = v
     else search_inv xs v mn' (mn' - 1) cur')"
  using assms(2)
proof (induction "nat (mx - mn + 1)" arbitrary: mn mx mid cur rule: less_induct)
  case less
  show ?case
  proof (cases "mn \<le> mx")
    case False
    with less.prems have "mx = mn - 1" "cur \<noteq> v" by (auto simp: search_inv_def)
    with False less.prems show ?thesis by (simp add: intsetSearch_loop.simps)
  next
    case True
    have len: "length xs < 2 ^ 29" using assms(1) by (simp add: intset_rel_def)
    have bnd: "0 \<le> mn" "mx < int (length xs)" using less.prems by (auto simp: search_inv_def)
    then obtain k where k: "(mn + mx) mod 4294967296 div 2 = int k"
      and m: "mn \<le> int k" "int k \<le> mx" "k < length xs"
      using True len zero_le_imp_eq_int [of "(mn + mx) div 2"] by auto
    then have get: "intsetGet_raw is k = Some (xs ! k)"
      using intsetGet_raw_rel [OF assms(1)] by blast
    note step = intsetSearch_loop.simps [of "is" v mn mx mid cur]
    consider "slt (xs ! k) v" | "slt v (xs ! k)" | "sint v = sint (xs ! k)"
      by linarith
    then show ?thesis
    proof cases
      case 1
      have "slt (xs ! i) v" if "int i < int k + 1" "i < length xs" for i
        using that 1 m intset_rel_nth_mono [OF assms(1), of i k] by (cases "i = k") auto
      then have "search_inv xs v (int k + 1) mx (xs ! k)"
        using less.prems m 1 unfolding search_inv_def by auto
      then show ?thesis
        using less.hyps [of mx "int k + 1"] step True m get 1 k by (simp add: Let_def)
    next
      case 2
      have "slt v (xs ! i)" if "int k - 1 < int i" "i < length xs" for i
        using that 2 m intset_rel_nth_mono [OF assms(1), of k i] by (cases "i = k") auto
      moreover have "xs ! k \<noteq> v" using 2 by auto
      ultimately have "search_inv xs v mn (int k - 1) (xs ! k)"
        using less.prems m unfolding search_inv_def by auto
      then show ?thesis
        using less.hyps [of "int k - 1" mn] step True m get 2 k by (simp add: Let_def)
    next
      case 3
      then have "v = xs ! k" by (rule sint_inj)
      then show ?thesis using step True m get 3 k by (simp add: Let_def)
    qed
  qed
qed

lemma search_post_not_member:
  "search_inv xs v mn (mn - 1) cur \<Longrightarrow> v \<notin> set xs \<and> search_post xs v (nat mn)"
proof -
  assume inv: "search_inv xs v mn (mn - 1) cur"
  then have lt: "slt (xs ! i) v" if "int i < mn" "i < length xs" for i
    using that by (simp add: search_inv_def)
  from inv have gt: "slt v (xs ! i)" if "mn \<le> int i" "i < length xs" for i
    using that by (simp add: search_inv_def)
  have "v \<notin> set xs"
  proof
    assume "v \<in> set xs"
    then obtain i where "i < length xs" "v = xs ! i" by (auto simp: in_set_conv_nth)
    then show False using lt [of i] gt [of i] by (cases "int i < mn") auto
  qed
  moreover have "search_post xs v (nat mn)"
    using inv lt gt unfolding search_post_def search_inv_def
    by (auto simp: less_imp_le)
  ultimately show ?thesis by simp
qed

lemma search_post_member:
  assumes "intset_rel is xs" "k < length xs" "xs ! k = v"
  shows "search_post xs v k"
  unfolding search_post_def
proof (intro conjI allI impI)
  show "k \<le> length xs" using assms(2) by simp
next
  fix i assume "i < k"
  then show "slt (xs ! i) v" using intset_rel_nth_mono [OF assms(1)] assms(2,3) by blast
next
  fix i assume "i < length xs" "k \<le> i"
  then show "sint v \<le> sint (xs ! i)"
    using intset_rel_nth_mono [OF assms(1), of k i] assms(3) by (cases "i = k") auto
qed

lemma intsetSearch_rel:
  assumes "intset_rel is xs"
  shows "\<exists>p. intsetSearch is v = Some (v \<in> set xs, p) \<and> search_post xs v p \<and>
    (v \<in> set xs \<longrightarrow> p < length xs \<and> xs ! p = v)"
proof (cases "xs = []")
  case True
  with assms show ?thesis
    by (simp add: intset_rel_def intsetSearch_def search_post_def unat_eq_zero)
next
  case False
  let ?mx = "sint (is_length is - 1)"
  have len: "unat (is_length is) = length xs" "length xs < 2 ^ 29"
    using assms by (auto simp: intset_rel_def)
  have nz: "is_length is \<noteq> 0" using len False by auto
  then have "unat (is_length is - 1) = length xs - 1"
    using len(1) by (simp add: unat_minus_one)
  then have mx: "?mx = int (length xs - 1)"
    using len(2) by (simp add: sint_eq_unat)
  have hi: "intsetGet_raw is (nat ?mx) = Some (xs ! (length xs - 1))"
    and lo: "intsetGet_raw is 0 = Some (xs ! 0)"
    using intsetGet_raw_rel [OF assms] False mx by auto
  have hi_max: "sint (xs ! i) \<le> sint (xs ! (length xs - 1))"
    and lo_min: "sint (xs ! 0) \<le> sint (xs ! i)" if "i < length xs" for i
    using that False intset_rel_nth_mono [OF assms, of i "length xs - 1"]
      intset_rel_nth_mono [OF assms, of 0 i]
    by (cases "i = length xs - 1"; force)+
  show ?thesis
  proof (cases "slt (xs ! (length xs - 1)) v \<or> slt v (xs ! 0)")
    case True
    then have "v \<notin> set xs"
      using hi_max lo_min by (force simp: in_set_conv_nth)
    moreover have "slt v (xs ! 0) \<Longrightarrow> \<not> slt (xs ! (length xs - 1)) v"
      using hi_max [of 0] False by auto
    moreover have "search_post xs v (length xs)" if "slt (xs ! (length xs - 1)) v"
      using that hi_max by (auto simp: search_post_def intro: order.strict_trans1)
    moreover have "search_post xs v 0" if "slt v (xs ! 0)"
      unfolding search_post_def using that lo_min order.strict_implies_order order_trans
      by (metis le0 less_zeroE)
    ultimately show ?thesis
      using True nz mx hi lo len by (auto simp: intsetSearch_def Let_def)
  next
    case outside: False
    have "search_inv xs v 0 (int (length xs - 1)) (- 1)"
      using False by (auto simp: search_inv_def)
    then obtain mn mid cur where
      loop: "intsetSearch_loop is v 0 ?mx (- 1) (- 1) = Some (mn, mid, cur)"
      and res: "if v = cur then 0 \<le> mid \<and> mid < int (length xs) \<and> xs ! nat mid = v
                else search_inv xs v mn (mn - 1) cur"
      using intsetSearch_loop_rel [OF assms] mx by metis
    have eq: "intsetSearch is v = Some (if v = cur then (True, nat mid) else (False, nat mn))"
      using outside nz mx hi lo loop by (simp add: intsetSearch_def Let_def not_less)
    show ?thesis
    proof (cases "v = cur")
      case True
      with res have "nat mid < length xs" "xs ! nat mid = v" by auto
      then show ?thesis
        using eq True search_post_member [OF assms, of "nat mid" v] by (auto simp: in_set_conv_nth)
    next
      case False
      with res show ?thesis using eq search_post_not_member by simp
    qed
  qed
qed

section \<open>Growing, shrinking and widening\<close>

lemma intset_rel_size:
  assumes "intset_rel is xs"
  shows "length (contents is) = length xs * unat (encoding is)"
  using assms length_cells [OF length_cell] by (simp add: intset_rel_def)

lemma unat_size:
  assumes "enc_ok (unat e)" "n < 2 ^ 29"
  shows "unat (word_of_nat n * e :: u32) = n * unat e"
proof -
  have "n * unat e < 2 ^ 32"
  proof -
    have "unat e \<le> 8" using assms(1) by (auto simp: enc_ok_def)
    then have "n * unat e \<le> n * 8" by (rule mult_le_mono2)
    also have "\<dots> < 2 ^ 32" using assms(2) by simp
    finally show ?thesis .
  qed
  moreover from this assms have "n mod 2 ^ 32 = n" by simp
  ultimately show ?thesis by (simp add: unat_word_ariths unat_of_nat)
qed

lemma intsetResize_grow:
  assumes "intset_rel is xs" "length xs + 1 < 2 ^ 29"
  shows "\<exists>j. length j = unat (encoding is) \<and>
    contents (intsetResize junk is (is_length is + 1)) = concat (cells (unat (encoding is)) xs @ [j])"
proof -
  have "is_length is = word_of_nat (length xs)"
    using assms(1) by (simp add: intset_rel_def word_eq_of_nat)
  then have "is_length is + 1 = word_of_nat (length xs + 1)" by simp
  then have sz: "unat ((is_length is + 1) * encoding is) = length (contents is) + unat (encoding is)"
    using unat_size [of "encoding is" "length xs + 1"] assms intset_rel_size [OF assms(1)]
    by (simp add: intset_rel_def add.commute)
  show ?thesis
    using assms(1)
    by (intro exI [of _ "map junk [length (contents is)..<length (contents is) + unat (encoding is)]"])
       (simp add: intsetResize_def Let_def sz zrealloc_grow, simp add: intset_rel_def)
qed

lemma intsetResize_frame [simp]:
  "encoding (intsetResize junk is n) = encoding is"
  "is_length (intsetResize junk is n) = is_length is"
  by (simp_all add: intsetResize_def Let_def)

lemma intsetMoveTail_eq:
  assumes "enc_ok (unat (encoding is))" "unat (is_length is) = n" "n < 2 ^ 29" "from \<le> n"
  shows "intsetMoveTail is from to =
    map_option (\<lambda>m. is\<lparr>contents := m\<rparr>)
      (mem_move (contents is) (to * unat (encoding is)) (from * unat (encoding is))
        ((n - from) * unat (encoding is)))"
proof -
  have "is_length is = word_of_nat n" using assms(2) by (rule word_eq_of_nat)
  then have len: "is_length is - word_of_nat from = word_of_nat (n - from)"
    using assms(4) by (simp add: of_nat_diff)
  have e: "word_of_nat (unat (encoding is)) = encoding is" by simp
  have "unat ((is_length is - word_of_nat from) * word_of_nat (unat (encoding is)))
      = (n - from) * unat (encoding is)"
    unfolding len e by (rule unat_size) (use assms in auto)
  moreover have "(if unat (encoding is) = INTSET_ENC_INT64 then 8
      else if unat (encoding is) = INTSET_ENC_INT32 then 4 else 2) = unat (encoding is)"
    using assms(1) by (auto simp: enc_ok_def intset_enc_defs)
  ultimately show ?thesis
    by (simp add: intsetMoveTail_def Let_def map_conv_bind_option comp_def)
qed

text \<open>Widening in place: cells are rewritten from the last to the first, so the narrow cells that
  are still to be read are never overwritten.\<close>

lemma intsetUpgrade_loop_eq:
  assumes "enc_ok e" "enc_ok f" "e \<le> f" "\<forall>v \<in> set xs. fits_signed e v"
  shows "unat (encoding is) = f \<Longrightarrow> k \<le> length xs \<Longrightarrow>
    contents is = P @ concat (cells f (drop k xs)) @ T \<Longrightarrow> length P = (k + pre) * f \<Longrightarrow>
    take (k * e) P = concat (cells e (take k xs)) \<Longrightarrow>
    \<exists>P0. length P0 = pre * f \<and>
      intsetUpgrade_loop k e pre is = Some (is\<lparr>contents := P0 @ concat (cells f xs) @ T\<rparr>)"
proof (induction k arbitrary: "is" P)
  case 0
  then have "is\<lparr>contents := P @ concat (cells f xs) @ T\<rparr> = is" by (cases "is") simp
  then show ?case using 0 by (intro exI [of _ P]) simp
next
  case (Suc j)
  let ?v = "xs ! j"
  have jle: "j * e \<le> (j + pre) * f"
    using assms(3) by (simp add: mult_le_mono)
  have j: "j < length xs" using Suc.prems(2) by simp
  have "take (Suc j * e) P = concat (cells e (take j xs)) @ le_enc e (unat ?v)"
    using Suc.prems(5) j by (simp add: take_Suc_conv_app_nth)
  then obtain Q where P: "P = concat (cells e (take j xs)) @ le_enc e (unat ?v) @ Q"
    by (metis append.assoc append_take_drop_id)
  have "length (concat (cells e (take j xs))) = j * e"
    using length_cells [OF length_cell, of e "take j xs"] j by simp
  then have "mem_rd (contents is) (j * e) e = Some (le_enc e (unat ?v))"
    using P Suc.prems(3) mem_rd_append [of "j * e" "concat (cells e (take j xs))" e
        "le_enc e (unat ?v)" "Q @ concat (cells f (drop (Suc j) xs)) @ T"] by simp
  then have get: "intsetGetEncoded is j e = Some ?v"
    using assms(1,4) j by (simp add: intsetGetEncoded_eq sext_cell)
  define P' where "P' = take ((j + pre) * f) P"
  define is' where "is' = is\<lparr>contents := P' @ concat (cells f (drop j xs)) @ T\<rparr>"
  have P'_len: "length P' = (j + pre) * f"
    using Suc.prems(4) by (simp add: P'_def)
  have "P = P' @ drop ((j + pre) * f) P" by (simp add: P'_def)
  then have "contents is = P' @ drop ((j + pre) * f) P @ concat (cells f (drop (Suc j) xs)) @ T"
    using Suc.prems(3) by (metis append.assoc)
  moreover have "length (drop ((j + pre) * f) P) = f"
    using Suc.prems(4) by simp
  ultimately have "mem_wr (contents is) ((j + pre) * f) (le_enc f (unat ?v))
      = Some (P' @ le_enc f (unat ?v) @ concat (cells f (drop (Suc j) xs)) @ T)"
    using P'_len by (simp add: mem_wr_append)
  then have set: "intsetSet is (j + pre) ?v = Some is'"
    using intsetSet_eq [OF assms(2) Suc.prems(1)] j
    by (simp add: is'_def Cons_nth_drop_Suc [symmetric])
  have "take (j * e) P' = concat (cells e (take j xs))"
    using Suc.prems(5) jle P \<open>length (concat (cells e (take j xs))) = j * e\<close>
    by (simp add: P'_def)
  then obtain P0 where "length P0 = pre * f"
    "intsetUpgrade_loop j e pre is' = Some (is'\<lparr>contents := P0 @ concat (cells f xs) @ T\<rparr>)"
    using Suc.IH [of is' P'] Suc.prems(1) j P'_len by (auto simp: is'_def)
  then show ?case
    using get set by (auto simp: is'_def)
qed

lemma fits_signed_valueEncoding: "fits_signed (intsetValueEncoding v) v"
  using sint_greater_eq [of v] sint_less [of v]
  by (auto simp: intsetValueEncoding_def fits_signed_def intset_enc_defs)

lemma enc_ok_valueEncoding: "enc_ok (intsetValueEncoding v)"
  by (simp add: intsetValueEncoding_def enc_ok_def intset_enc_defs)

lemma valueEncoding_le_iff:
  "enc_ok e \<Longrightarrow> intsetValueEncoding v \<le> e \<longleftrightarrow> fits_signed e v"
  using sint_greater_eq [of v] sint_less [of v]
  by (auto simp: enc_ok_def intsetValueEncoding_def fits_signed_def intset_enc_defs)

lemma fits_signed_mono:
  "enc_ok e \<Longrightarrow> enc_ok f \<Longrightarrow> e \<le> f \<Longrightarrow> fits_signed e v \<Longrightarrow> fits_signed f v"
  by (auto simp: enc_ok_def fits_signed_def)

lemma fits_signed_outside:
  "fits_signed e x \<Longrightarrow> \<not> fits_signed e v \<Longrightarrow> if sint v < 0 then slt v x else slt x v"
  by (auto simp: fits_signed_def)

section \<open>The operations on the list of members\<close>

lemma intset_relI:
  assumes "enc_ok (unat (encoding is))" "unat (is_length is) = length xs" "length xs < 2 ^ 29"
    "contents is = concat (cells (unat (encoding is)) xs)"
    "\<And>v. v \<in> set xs \<Longrightarrow> fits_signed (unat (encoding is)) v" "sorted_wrt slt xs"
  shows "intset_rel is xs"
  using assms by (simp add: intset_rel_def)

lemma unat_length_Suc:
  assumes "intset_rel is xs" "length xs + 1 < 2 ^ 29"
  shows "unat (is_length is + 1) = length xs + 1"
proof -
  have "is_length is + 1 = word_of_nat (length xs + 1)"
    using assms(1) by (simp add: intset_rel_def word_eq_of_nat)
  then show ?thesis using assms(2) by (simp only: unat_of_nat) simp
qed

lemma intsetNew_rel: "intset_rel intsetNew []"
  by (rule intset_relI) (simp_all add: intsetNew_def intset_enc_defs enc_ok_def)

lemma intsetResize_wide:
  assumes rel: "intset_rel is xs" and len: "length xs + 1 < 2 ^ 29"
    and f: "enc_ok f" "unat (encoding is) < f" and pre: "pre \<le> 1"
    and is1: "is1 = is\<lparr>encoding := word_of_nat f\<rparr>"
    and is2: "is2 = intsetResize junk is1 (is_length is1 + 1)"
  shows "unat (encoding is2) = f \<and> (\<exists>P T. contents is2 = P @ T \<and>
    length P = (length xs + pre) * f \<and> length T = (1 - pre) * f \<and>
    take (length xs * unat (encoding is)) P = concat (cells (unat (encoding is)) xs))"
proof -
  let ?e = "unat (encoding is)" and ?n = "(length xs + 1) * f"
  have enc: "unat (encoding is1) = f" using f by (auto simp: is1 enc_ok_def unat_of_nat)
  have "is_length is1 + 1 = word_of_nat (length xs + 1)"
    using rel by (simp add: is1 intset_rel_def word_eq_of_nat)
  then have c2: "contents is2 = zrealloc junk (contents is) ?n"
    using unat_size [of "encoding is1" "length xs + 1"] enc f len
    by (simp add: is2 is1 intsetResize_def Let_def add.commute)
  have "length xs * ?e \<le> (length xs + pre) * f"
    using f by (simp add: mult_le_mono)
  moreover have "(length xs + pre) * f \<le> ?n"
    by (rule mult_le_mono1) (use pre in simp)
  ultimately have le: "length xs * ?e \<le> (length xs + pre) * f" "(length xs + pre) * f \<le> ?n"
    by blast+
  then have "take (length xs * ?e) (contents is2) = concat (cells ?e xs)"
    using intset_rel_size [OF rel] rel by (simp add: c2 zrealloc_def, simp add: intset_rel_def)
  with le have "take (length xs * ?e) (take ((length xs + pre) * f) (contents is2))
      = concat (cells ?e xs)"
    by (simp add: min_def)
  moreover have "length (contents is2) = ?n" by (simp add: c2)
  moreover have "?n - (length xs + pre) * f = (1 - pre) * f"
    unfolding diff_mult_distrib [symmetric] by simp
  ultimately show ?thesis
    using enc le
    by (intro conjI exI [of _ "take ((length xs + pre) * f) (contents is2)"]
        exI [of _ "drop ((length xs + pre) * f) (contents is2)"])
       (simp_all add: is2)
qed

lemma intsetUpgradeAndAdd_rel:
  assumes rel: "intset_rel is xs" and len: "length xs + 1 < 2 ^ 29"
    and wide: "unat (encoding is) < intsetValueEncoding v"
  shows "\<exists>is'. intsetUpgradeAndAdd junk is v = Some is' \<and>
    intset_rel is' (if sint v < 0 then v # xs else xs @ [v])"
proof -
  let ?e = "unat (encoding is)" and ?f = "intsetValueEncoding v"
  let ?pre = "if sint v < 0 then 1 else (0::nat)"
  define is1 where "is1 = is\<lparr>encoding := word_of_nat ?f\<rparr>"
  define is2 where "is2 = intsetResize junk is1 (is_length is1 + 1)"
  have e: "enc_ok ?e" and f: "enc_ok ?f" using rel enc_ok_valueEncoding by (auto simp: intset_rel_def)
  have fits: "\<forall>x \<in> set xs. fits_signed ?e x" using rel by (simp add: intset_rel_def)
  have pre: "?pre \<le> 1" by simp
  obtain P T where enc: "unat (encoding is2) = ?f" and
    PT: "contents is2 = P @ T" "length P = (length xs + ?pre) * ?f" "length T = (1 - ?pre) * ?f"
    and "take (length xs * ?e) P = concat (cells ?e xs)"
    using intsetResize_wide [OF rel len f wide pre is1_def is2_def] by blast
  then obtain P0 where P0: "length P0 = ?pre * ?f" and
    loop: "intsetUpgrade_loop (length xs) ?e ?pre is2
      = Some (is2\<lparr>contents := P0 @ concat (cells ?f xs) @ T\<rparr>)"
    using intsetUpgrade_loop_eq [OF e f less_imp_le [OF wide] fits enc, of "length xs" P T ?pre]
      PT by auto
  let ?ys = "if sint v < 0 then v # xs else xs @ [v]"
  let ?is3 = "is2\<lparr>contents := P0 @ concat (cells ?f xs) @ T\<rparr>"
  let ?is4 = "is2\<lparr>contents := concat (cells ?f ?ys)\<rparr>"
  have lx: "length (concat (cells ?f xs)) = length xs * ?f"
    using length_cells [OF length_cell, of ?f xs] by simp
  have il: "is_length is2 = is_length is" "unat (is_length is) = length xs"
    using rel by (simp_all add: is2_def is1_def intset_rel_def)
  have set: "intsetSet ?is3 (if ?pre = 1 then 0 else length xs) v = Some ?is4"
  proof (cases "sint v < 0")
    case True
    with PT P0 show ?thesis
      using intsetSet_eq [OF f, of ?is3 0 v] enc
        mem_wr_append [of 0 "[]" "le_enc ?f (unat v)" P0 "concat (cells ?f xs)"] by simp
  next
    case False
    with PT P0 lx show ?thesis
      using intsetSet_eq [OF f, of ?is3 "length xs" v] enc
        mem_wr_append [of "length xs * ?f" "concat (cells ?f xs)" "le_enc ?f (unat v)" T "[]"] by simp
  qed
  have is2': "intsetResize junk is1 (is_length is + 1) = is2" by (simp add: is2_def is1_def)
  have eq: "intsetUpgradeAndAdd junk is v = Some (?is4\<lparr>is_length := is_length ?is4 + 1\<rparr>)"
    using loop set il is2'
    by (auto simp: intsetUpgradeAndAdd_def Let_def is1_def [symmetric] split: if_splits)
  have "\<not> fits_signed ?e v" using valueEncoding_le_iff [OF e, of v] wide by (simp add: not_le)
  then have "sorted_wrt slt ?ys"
    using rel fits fits_signed_outside [of ?e _ v] by (auto simp: intset_rel_def sorted_wrt_append)
  moreover have "\<And>x. x \<in> set ?ys \<Longrightarrow> fits_signed ?f x"
    using fits fits_signed_mono [OF e f less_imp_le [OF wide]] fits_signed_valueEncoding
    by (auto split: if_splits)
  ultimately have "intset_rel (?is4\<lparr>is_length := is_length ?is4 + 1\<rparr>) ?ys"
    using enc f il unat_length_Suc [OF rel len] len by (intro intset_relI) auto
  with eq show ?thesis by blast
qed

lemma search_post_split:
  assumes "search_post xs v p"
  shows "\<forall>x \<in> set (take p xs). slt x v" "\<forall>x \<in> set (drop p xs). sint v \<le> sint x"
  using assms by (auto simp: search_post_def in_set_conv_nth)

lemma sorted_insert:
  assumes "sorted_wrt slt xs" "v \<notin> set xs" "search_post xs v p"
  shows "sorted_wrt slt (take p xs @ v # drop p xs)"
proof -
  have gt: "slt v x" if "x \<in> set (drop p xs)" for x
  proof -
    have "sint v \<le> sint x" using search_post_split(2) [OF assms(3)] that by blast
    moreover have "sint v \<noteq> sint x" using assms(2) that sint_inj in_set_dropD by metis
    ultimately show ?thesis by simp
  qed
  have "sorted_wrt slt (take p xs @ drop p xs)" using assms(1) by simp
  then show ?thesis
    using gt search_post_split(1) [OF assms(3)] unfolding sorted_wrt_append by auto
qed

lemma intsetInsert_rel:
  assumes rel: "intset_rel is xs" and len: "length xs + 1 < 2 ^ 29"
    and fits: "fits_signed (unat (encoding is)) v"
    and new: "v \<notin> set xs" and post: "search_post xs v p"
    and is1: "is1 = intsetResize junk is (is_length is + 1)"
  shows "\<exists>is2 is3. (if p < unat (is_length is1) then intsetMoveTail is1 p (p + 1) else Some is1)
      = Some is2 \<and> intsetSet is2 p v = Some is3 \<and>
    intset_rel (is3\<lparr>is_length := is_length is3 + 1\<rparr>) (take p xs @ v # drop p xs)"
proof -
  let ?e = "unat (encoding is)"
  let ?ys = "take p xs @ v # drop p xs"
  obtain j where j: "length j = ?e" "contents is1 = concat (cells ?e xs @ [j])"
    using intsetResize_grow [OF rel len] is1 by auto
  have e: "enc_ok ?e" "unat (is_length is) = length xs" using rel by (auto simp: intset_rel_def)
  have f: "encoding is1 = encoding is" "is_length is1 = is_length is" by (simp_all add: is1)
  have p: "p \<le> length xs" using post by (simp add: search_post_def)
  have lens: "\<forall>c \<in> set (cells ?e xs @ [j]). length c = ?e" using j(1) length_cell by auto
  obtain c where c: "length c = ?e" and
    moved: "(if p < unat (is_length is1) then intsetMoveTail is1 p (p + 1) else Some is1)
      = Some (is1\<lparr>contents := concat (cells ?e (take p xs) @ [c] @ cells ?e (drop p xs))\<rparr>)"
  proof (cases "p < length xs")
    case True
    have "mem_rd (contents is1) (p * ?e) ((length xs - p) * ?e)
        = Some (concat (cells ?e (drop p xs)))"
      using mem_rd_cells [OF lens, of p "length xs - p"] p j(2)
      by (simp add: take_cells_list drop_cells_list)
    moreover have "take (p + 1) (cells ?e xs @ [j]) = cells ?e (take p xs) @ [le_enc ?e (unat (xs ! p))]"
      using True by (simp add: take_cells_list take_Suc_conv_app_nth)
    then have "mem_wr (contents is1) ((p + 1) * ?e) (concat (cells ?e (drop p xs)))
        = Some (concat (cells ?e (take p xs) @ [le_enc ?e (unat (xs ! p))] @ cells ?e (drop p xs)))"
      using mem_wr_cells [OF lens length_cell, of "p + 1" "drop p xs"] True
      unfolding j(2) [symmetric] by simp
    ultimately have "intsetMoveTail is1 p (p + 1) = Some (is1\<lparr>contents :=
        concat (cells ?e (take p xs) @ [le_enc ?e (unat (xs ! p))] @ cells ?e (drop p xs))\<rparr>)"
      using intsetMoveTail_eq [of is1 "length xs" p "p + 1"] e f p len
      by (simp add: mem_move_def)
    then show ?thesis using that [of "le_enc ?e (unat (xs ! p))"] True e f by simp
  next
    case False
    then show ?thesis using that [of j] p j e f by simp
  qed
  let ?is2 = "is1\<lparr>contents := concat (cells ?e (take p xs) @ [c] @ cells ?e (drop p xs))\<rparr>"
  have "intsetSet ?is2 p v = Some (is1\<lparr>contents := concat (cells ?e ?ys)\<rparr>)"
    using intsetSet_eq [OF e(1), of ?is2 p v] f p c length_cell
      mem_wr_cell [of "cells ?e (take p xs) @ [c] @ cells ?e (drop p xs)" ?e "le_enc ?e (unat v)" p]
    by (auto simp: list_update_append)
  moreover have "intset_rel (is1\<lparr>contents := concat (cells ?e ?ys), is_length := is_length is1 + 1\<rparr>) ?ys"
  proof (rule intset_relI)
    show "sorted_wrt slt ?ys"
      using rel new post by (simp add: intset_rel_def sorted_insert)
  qed (use e f len fits rel unat_length_Suc [OF rel len] p in
      \<open>auto simp: intset_rel_def dest: in_set_takeD in_set_dropD\<close>)
  ultimately show ?thesis using moved by auto
qed

lemma intsetAdd_rel:
  assumes rel: "intset_rel is xs" and len: "length xs + 1 < 2 ^ 29"
  shows "\<exists>is' xs'. intsetAdd junk is v = Some (is', v \<notin> set xs) \<and>
    intset_rel is' xs' \<and> set xs' = insert v (set xs)"
proof (cases "unat (encoding is) < intsetValueEncoding v")
  case True
  have "enc_ok (unat (encoding is))" using rel by (simp add: intset_rel_def)
  then have "\<not> fits_signed (unat (encoding is)) v" using True valueEncoding_le_iff by force
  then have "v \<notin> set xs" using rel by (auto simp: intset_rel_def)
  moreover obtain is' where "intsetUpgradeAndAdd junk is v = Some is'"
    "intset_rel is' (if sint v < 0 then v # xs else xs @ [v])"
    using intsetUpgradeAndAdd_rel [OF rel len True] by blast
  ultimately show ?thesis
    using True by (intro exI [of _ is'] exI [of _ "if sint v < 0 then v # xs else xs @ [v]"])
      (simp add: intsetAdd_def)
next
  case False
  have e: "enc_ok (unat (encoding is))" using rel by (simp add: intset_rel_def)
  have fits: "fits_signed (unat (encoding is)) v" using False valueEncoding_le_iff [OF e] by force
  obtain p where search: "intsetSearch is v = Some (v \<in> set xs, p)" and post: "search_post xs v p"
    using intsetSearch_rel [OF rel] by blast
  show ?thesis
  proof (cases "v \<in> set xs")
    case True
    then show ?thesis
      using False search rel by (intro exI [of _ "is"] exI [of _ xs])
        (auto simp: intsetAdd_def insert_absorb)
  next
    case new: False
    obtain is2 is3 where
      "(if p < unat (is_length (intsetResize junk is (is_length is + 1)))
        then intsetMoveTail (intsetResize junk is (is_length is + 1)) p (p + 1)
        else Some (intsetResize junk is (is_length is + 1))) = Some is2"
      "intsetSet is2 p v = Some is3"
      "intset_rel (is3\<lparr>is_length := is_length is3 + 1\<rparr>) (take p xs @ v # drop p xs)"
      using intsetInsert_rel [OF rel len fits new post refl] by blast
    moreover from this have "intsetAdd junk is v = Some (is3\<lparr>is_length := is_length is3 + 1\<rparr>, True)"
      using False new search by (simp add: intsetAdd_def)
    moreover have "set (take p xs @ v # drop p xs) = insert v (set (take p xs @ drop p xs))"
      by (simp del: append_take_drop_id)
    then have "set (take p xs @ v # drop p xs) = insert v (set xs)"
      by simp
    ultimately show ?thesis using new
      by (intro exI [of _ "is3\<lparr>is_length := is_length is3 + 1\<rparr>"] exI [of _ "take p xs @ v # drop p xs"])
         simp
  qed
qed

lemma intsetMoveDown_eq:
  assumes rel: "intset_rel is xs" and p: "p < length xs"
  shows "\<exists>t. (if p < length xs - 1 then intsetMoveTail is (p + 1) p else Some is)
    = Some (is\<lparr>contents := concat (cells (unat (encoding is)) (take p xs @ drop (p + 1) xs)) @ t\<rparr>)"
proof -
  let ?e = "unat (encoding is)" and ?ys = "take p xs @ drop (p + 1) xs"
  have e: "enc_ok ?e" "unat (is_length is) = length xs" "length xs < 2 ^ 29"
    and c: "contents is = concat (cells ?e xs)" using rel by (auto simp: intset_rel_def)
  show ?thesis
  proof (cases "p < length xs - 1")
    case True
    have "mem_rd (contents is) ((p + 1) * ?e) ((length xs - (p + 1)) * ?e)
        = Some (concat (cells ?e (drop (p + 1) xs)))"
      using mem_rd_cells [OF length_cell [of ?e xs], of "p + 1" "length xs - (p + 1)"] True c
      by (simp add: drop_cells_list take_cells_list)
    moreover have "mem_wr (contents is) (p * ?e) (concat (cells ?e (drop (p + 1) xs)))
        = Some (concat (cells ?e ?ys) @ concat (cells ?e (drop (length xs - 1) xs)))"
      using mem_wr_cells [OF length_cell [of ?e xs] length_cell [of ?e "drop (p + 1) xs"], of p] p c
      by (simp add: drop_cells_list take_cells_list)
    ultimately have "intsetMoveTail is (p + 1) p
        = Some (is\<lparr>contents := concat (cells ?e ?ys) @ concat (cells ?e (drop (length xs - 1) xs))\<rparr>)"
      using intsetMoveTail_eq [of "is" "length xs" "p + 1" p] e p by (simp add: mem_move_def)
    then show ?thesis using True by auto
  next
    case False
    then have "Suc p = length xs" using p by simp
    then have "xs = ?ys @ [xs ! p]"
      using take_Suc_conv_app_nth [OF p] by simp
    then have "contents is = concat (cells ?e ?ys) @ le_enc ?e (unat (xs ! p))"
      using c by (metis append.right_neutral cells_simps concat.simps concat_append)
    then have "is\<lparr>contents := concat (cells ?e ?ys) @ le_enc ?e (unat (xs ! p))\<rparr> = is"
      by (cases "is") simp
    then show ?thesis using False by (metis if_False)
  qed
qed

lemma intsetShrink_rel:
  assumes rel: "intset_rel is xs" and p: "p < length xs"
  shows "\<exists>is1. (if p < unat (is_length is - 1) then intsetMoveTail is (p + 1) p else Some is)
      = Some is1 \<and>
    intset_rel ((intsetResize junk is1 (is_length is - 1))\<lparr>is_length := is_length is - 1\<rparr>)
      (take p xs @ drop (p + 1) xs)"
proof -
  let ?e = "unat (encoding is)" and ?ys = "take p xs @ drop (p + 1) xs"
  have e: "enc_ok ?e" "unat (is_length is) = length xs" "length xs < 2 ^ 29"
    using rel by (auto simp: intset_rel_def)
  have "is_length is \<noteq> 0" using e(2) p by auto
  then have n1: "unat (is_length is - 1) = length xs - 1"
    using e(2) by (simp add: unat_minus_one)
  obtain t where moved: "(if p < length xs - 1 then intsetMoveTail is (p + 1) p else Some is)
      = Some (is\<lparr>contents := concat (cells ?e ?ys) @ t\<rparr>)"
    using intsetMoveDown_eq [OF rel p] by blast
  let ?is1 = "is\<lparr>contents := concat (cells ?e ?ys) @ t\<rparr>"
  have "length (concat (cells ?e ?ys)) = (length xs - 1) * ?e"
    using length_cells [OF length_cell, of ?e ?ys] p by simp
  moreover have "unat ((is_length is - 1) * encoding is) = (length xs - 1) * ?e"
    using unat_size [OF e(1), of "length xs - 1"] e(3) word_eq_of_nat [OF n1] by simp
  ultimately have "contents (intsetResize junk ?is1 (is_length is - 1)) = concat (cells ?e ?ys)"
    by (simp add: intsetResize_def Let_def zrealloc_def)
  moreover have "sorted_wrt slt ?ys"
  proof -
    have "sorted_wrt slt (take p xs @ drop p xs)" using rel by (simp add: intset_rel_def)
    moreover have "drop p xs = xs ! p # drop (p + 1) xs" using p by (simp add: Cons_nth_drop_Suc)
    ultimately show ?thesis unfolding sorted_wrt_append by auto
  qed
  ultimately have "intset_rel ((intsetResize junk ?is1 (is_length is - 1))\<lparr>is_length := is_length is - 1\<rparr>) ?ys"
    using e n1 p rel
    by (intro intset_relI) (auto simp: intset_rel_def dest: in_set_takeD in_set_dropD)
  with moved n1 show ?thesis by auto
qed

lemma set_remove_nth:
  assumes "intset_rel is xs" "p < length xs"
  shows "set (take p xs @ drop (p + 1) xs) = set xs - {xs ! p}"
proof -
  have "sorted_wrt slt (take p xs @ xs ! p # drop (p + 1) xs)"
    using assms by (simp add: intset_rel_def id_take_nth_drop [symmetric])
  moreover have "set xs = set (take p xs @ xs ! p # drop (p + 1) xs)"
    using assms(2) by (simp add: id_take_nth_drop [symmetric])
  ultimately show ?thesis unfolding sorted_wrt_append by auto
qed

lemma intsetRemove_rel:
  assumes rel: "intset_rel is xs"
  shows "\<exists>is' xs'. intsetRemove junk is v = Some (is', v \<in> set xs) \<and>
    intset_rel is' xs' \<and> set xs' = set xs - {v}"
proof -
  have e: "enc_ok (unat (encoding is))" using rel by (simp add: intset_rel_def)
  have narrow: "intsetValueEncoding v \<le> unat (encoding is)" if "v \<in> set xs"
    using that rel valueEncoding_le_iff [OF e] by (auto simp: intset_rel_def)
  obtain p where search: "intsetSearch is v = Some (v \<in> set xs, p)"
    and p: "v \<in> set xs \<Longrightarrow> p < length xs \<and> xs ! p = v"
    using intsetSearch_rel [OF rel] by blast
  show ?thesis
  proof (cases "v \<in> set xs")
    case False
    then have "intsetRemove junk is v = Some (is, False)"
      using search by (simp add: intsetRemove_def)
    then show ?thesis using False rel by auto
  next
    case True
    obtain is1 where
      "(if p < unat (is_length is - 1) then intsetMoveTail is (p + 1) p else Some is) = Some is1"
      and r: "intset_rel ((intsetResize junk is1 (is_length is - 1))\<lparr>is_length := is_length is - 1\<rparr>)
        (take p xs @ drop (p + 1) xs)"
      using intsetShrink_rel [OF rel] p True by blast
    then have "intsetRemove junk is v =
        Some ((intsetResize junk is1 (is_length is - 1))\<lparr>is_length := is_length is - 1\<rparr>, True)"
      using search True narrow by (simp add: intsetRemove_def)
    then show ?thesis
      using r True p set_remove_nth [OF rel, of p] by auto
  qed
qed

lemma intsetFind_rel:
  assumes rel: "intset_rel is xs"
  shows "intsetFind is v = Some (v \<in> set xs)"
proof -
  have e: "enc_ok (unat (encoding is))" using rel by (simp add: intset_rel_def)
  have "intsetValueEncoding v \<le> unat (encoding is)" if "v \<in> set xs"
    using that rel valueEncoding_le_iff [OF e] by (auto simp: intset_rel_def)
  then show ?thesis
    using intsetSearch_rel [OF rel, of v] by (auto simp: intsetFind_def)
qed

section \<open>The set contract\<close>

definition intset_set_rel :: "intset \<Rightarrow> u64 set \<Rightarrow> bool" where
  "intset_set_rel is A \<longleftrightarrow> (\<exists>xs. intset_rel is xs \<and> set xs = A)"

lemma intset_rel_distinct: "intset_rel is xs \<Longrightarrow> distinct xs"
  unfolding intset_rel_def by (metis less_irrefl sorted_wrt_mono_rel strict_sorted_iff
      distinct_conv_nth sorted_wrt_iff_nth_less linorder_neqE_nat)

interpretation intset_ms: member_set intsetNew "intsetAdd junk" "intsetRemove junk" intsetFind
  intset_set_rel "2 ^ 29"
proof unfold_locales
  show "finite A" if "intset_set_rel s A" for s A
    using that by (auto simp: intset_set_rel_def)
  show "intset_set_rel intsetNew {}"
    using intsetNew_rel by (auto simp: intset_set_rel_def)
  show "\<exists>s'. intsetAdd junk s x = Some (s', x \<notin> A) \<and> intset_set_rel s' (insert x A)"
    if "intset_set_rel s A" "card A + 1 < 2 ^ 29" for s A x
  proof -
    from that(1) obtain xs where xs: "intset_rel s xs" "set xs = A"
      by (auto simp: intset_set_rel_def)
    then have "length xs + 1 < 2 ^ 29"
      using that(2) distinct_card [OF intset_rel_distinct [OF xs(1)]] by simp
    then show ?thesis
      using intsetAdd_rel [OF xs(1), of junk x] xs(2) by (auto simp: intset_set_rel_def)
  qed
  show "\<exists>s'. intsetRemove junk s x = Some (s', x \<in> A) \<and> intset_set_rel s' (A - {x})"
    if "intset_set_rel s A" for s A x
    using that intsetRemove_rel [of s _ junk x] by (auto simp: intset_set_rel_def)
  show "intsetFind s x = Some (x \<in> A)" if "intset_set_rel s A" for s A x
    using that intsetFind_rel by (auto simp: intset_set_rel_def)
qed

section \<open>Properties\<close>

text \<open>A sample: the members -3 and 5 with the 16 bit encoding.\<close>

definition sample_intset :: intset where
  "sample_intset = \<lparr>encoding = 2, is_length = 2, contents = [0xFD, 0xFF, 5, 0]\<rparr>"

lemma sample_intset_rel: "intset_rel sample_intset [- 3, 5]"
  by (rule intset_relI)
    (auto simp: sample_intset_def enc_ok_def fits_signed_def cells_def)

text \<open>C11. \<^verbatim>\<open>intsetAdd\<close> never touches memory outside its allocation, whatever the uninitialised bytes
  are. It reports whether the value is new, and the result is a well-formed intset (sorted, no
  duplicates, every member within the encoding) that holds exactly the old members and the value,
  also when the encoding is widened in place.\<close>

theorem intsetAdd_correct:
  assumes "intset_rel is xs" "length xs + 1 < 2 ^ 29"
  shows "\<exists>is' xs'. intsetAdd junk is v = Some (is', v \<notin> set xs) \<and>
    intset_rel is' xs' \<and> set xs' = insert v (set xs)"
  using assms by (rule intsetAdd_rel)

theorem intsetAdd_correct_witness:
  "\<exists>is' xs'. intsetAdd (\<lambda>_. 0) sample_intset 100000 = Some (is', 100000 \<notin> set [- 3, 5 :: u64]) \<and>
    intset_rel is' xs' \<and> set xs' = insert 100000 (set [- 3, 5 :: u64])"
  using intsetAdd_correct [OF sample_intset_rel, of "\<lambda>_. 0" 100000] by simp

text \<open>C12. \<^verbatim>\<open>intsetRemove\<close> stays within its allocation, reports whether the value was a member, and
  leaves a well-formed intset of the other members.\<close>

theorem intsetRemove_correct:
  assumes "intset_rel is xs"
  shows "\<exists>is' xs'. intsetRemove junk is v = Some (is', v \<in> set xs) \<and>
    intset_rel is' xs' \<and> set xs' = set xs - {v}"
  using assms by (rule intsetRemove_rel)

theorem intsetRemove_correct_witness:
  "\<exists>is' xs'. intsetRemove (\<lambda>_. 0) sample_intset 5 = Some (is', 5 \<in> set [- 3, 5 :: u64]) \<and>
    intset_rel is' xs' \<and> set xs' = set [- 3, 5 :: u64] - {5}"
  using intsetRemove_correct [OF sample_intset_rel, of "\<lambda>_. 0" 5] .

text \<open>C25. The binary search of \<^verbatim>\<open>intsetSearch\<close> returns on every well-formed intset, for every
  64 bit value. It finds the value exactly when it is a member, with its position, and otherwise
  gives the position that keeps the array sorted.\<close>

theorem intsetSearch_correct:
  assumes "intset_rel is xs"
  shows "\<exists>p. intsetSearch is v = Some (v \<in> set xs, p) \<and> p \<le> length xs \<and>
    (v \<in> set xs \<longrightarrow> p < length xs \<and> xs ! p = v) \<and>
    (\<forall>x \<in> set (take p xs). sint x < sint v) \<and> (\<forall>x \<in> set (drop p xs). sint v \<le> sint x)"
proof -
  obtain p where p: "intsetSearch is v = Some (v \<in> set xs, p)" "search_post xs v p"
    "v \<in> set xs \<longrightarrow> p < length xs \<and> xs ! p = v"
    using intsetSearch_rel [OF assms] by blast
  have "p \<le> length xs" using p(2) by (simp add: search_post_def)
  with p(1,3) search_post_split [OF p(2)] show ?thesis by blast
qed

theorem intsetSearch_correct_witness:
  "\<exists>p. intsetSearch sample_intset 0 = Some (0 \<in> set [- 3, 5 :: u64], p) \<and> p \<le> 2"
  using intsetSearch_correct [OF sample_intset_rel, of 0] by auto

text \<open>The size of a 64 bit set of \<open>2 ^ 29\<close> members is 0 in 32 bits, and nothing can be read from or written
  to an array of no bytes.\<close>

lemma intset_full_size:
  assumes "unat (is_length is) = 2 ^ 29 - 1" "encoding is = 8"
  shows "intsetResize junk is (is_length is + 1) = is\<lparr>contents := []\<rparr>"
proof -
  have "is_length is = 2 ^ 29 - 1" using assms(1) by (simp add: word_unat_eq_iff)
  then have "unat ((is_length is + 1) * encoding is) = 0" using assms(2) by simp
  then show ?thesis by (simp add: intsetResize_def zrealloc_def)
qed

lemma empty_array:
  "contents is = [] \<Longrightarrow> intsetSet is pos v = None"
  "contents is = [] \<Longrightarrow> enc_ok e \<Longrightarrow> intsetGetEncoded is pos e = None"
  "contents is = [] \<Longrightarrow> intsetMoveTail is from to = Some is' \<Longrightarrow> contents is' = []"
  by (auto simp: intsetSet_def intsetGetEncoded_def intset_enc_defs enc_ok_def mem_wr_def mem_rd_def Let_def
      intsetMoveTail_def mem_move_def split: Option.bind_splits if_splits)

lemma empty_upgrade: "contents is = [] \<Longrightarrow> enc_ok e \<Longrightarrow> 0 < len \<Longrightarrow> intsetUpgrade_loop len e prepend is = None"
  by (cases len) (simp_all add: empty_array)

text \<open>C34. \<^verbatim>\<open>intsetResize\<close> computes the number of bytes in 32 bits. Adding a new value to a well-formed set of
  \<open>2 ^ 29 - 1\<close> members, of 64 bits or made so by the value, makes the product wrap to 0: the array is reallocated
  to no bytes, and the insertion goes on to read or write outside of it, at every position and on both paths
  of \<^verbatim>\<open>intsetAdd\<close>.\<close>

theorem intsetAdd_overflow:
  assumes "intset_rel is xs" "length xs = 2 ^ 29 - 1" "v \<notin> set xs" "encoding is = 8 \<or> intsetValueEncoding v = 8"
  shows "intsetAdd junk is v = None"
proof (cases "intsetValueEncoding v > unat (encoding is)")
  case True
  let ?is1 = "is\<lparr>encoding := word_of_nat (intsetValueEncoding v)\<rparr>"
  have n: "unat (is_length is) = 2 ^ 29 - 1" "enc_ok (unat (encoding is))" using assms(1,2) by (auto simp: intset_rel_def)
  have v: "intsetValueEncoding v = 8"
    using True assms(4) by (auto simp: intsetValueEncoding_def intset_enc_defs split: if_splits)
  have "unat (is_length is) \<noteq> 0" using n(1) by simp
  moreover have "intsetResize junk ?is1 (is_length is + 1) = ?is1\<lparr>contents := []\<rparr>"
    using intset_full_size [of ?is1 junk] n(1) v by simp
  ultimately have "intsetUpgradeAndAdd junk is v = None"
    using n(2) by (simp add: intsetUpgradeAndAdd_def Let_def empty_upgrade)
  then show ?thesis using True by (simp add: intsetAdd_def)
next
  case False
  then have e: "encoding is = 8"
    using assms(1,4) by (auto simp: intset_rel_def enc_ok_def word_unat_eq_iff)
  have n: "unat (is_length is) = 2 ^ 29 - 1" using assms(1,2) by (simp add: intset_rel_def)
  obtain p where "intsetSearch is v = Some (False, p)" using intsetSearch_rel [OF assms(1), of v] assms(3) by auto
  moreover have "intsetSet is' p v = None" if "intsetMoveTail (is\<lparr>contents := []\<rparr>) p q = Some is'" for q is'
    by (rule empty_array(1)) (rule empty_array(3) [OF _ that], simp)
  ultimately show ?thesis
    using False intset_full_size [OF n e, of junk]
    by (auto simp: intsetAdd_def Let_def empty_array(1) split: Option.bind_splits)
qed

text \<open>The well-formed set of the numbers below \<open>n\<close>.\<close>

definition dense_intset :: "nat \<Rightarrow> intset" where
  "dense_intset n = \<lparr>encoding = 8, is_length = word_of_nat n, contents = concat (cells 8 (map word_of_nat [0..<n]))\<rparr>"

lemma sint_member: "i < 2 ^ 29 \<Longrightarrow> sint (word_of_nat i :: u64) = int i"
  by (simp add: signed_of_nat signed_take_bit_int_eq_self)

lemma dense_intset_rel:
  assumes "n < 2 ^ 29"
  shows "intset_rel (dense_intset n) (map word_of_nat [0..<n])"
proof -
  have u: "sint (word_of_nat i :: u64) = int i" if "i < n" for i
    using that assms sint_member by simp
  then have "sorted_wrt slt (map word_of_nat [0..<n])" by (simp add: sorted_wrt_map sorted_wrt_iff_nth_less)
  moreover have "unat (word_of_nat n :: u32) = n" using assms by (simp add: unsigned_of_nat take_bit_nat_eq_self)
  ultimately show ?thesis using assms u by (auto simp: intset_rel_def dense_intset_def enc_ok_def fits_signed_def)
qed

theorem intsetAdd_overflow_witness: "intsetAdd (\<lambda>_. 0) (dense_intset (2 ^ 29 - 1)) (- 1) = None"
proof (rule intsetAdd_overflow [OF dense_intset_rel])
  show "length (map word_of_nat [0..<2 ^ 29 - 1] :: u64 list) = 2 ^ 29 - 1" by (simp only: length_map length_upt diff_zero)
  show "(- 1 :: u64) \<notin> set (map word_of_nat [0..<2 ^ 29 - 1])"
  proof
    assume "(- 1 :: u64) \<in> set (map word_of_nat [0..<2 ^ 29 - 1])"
    then obtain i :: nat where i: "i < 2 ^ 29 - 1" "- 1 = (word_of_nat i :: u64)"
      unfolding set_map set_upt by (auto simp only: image_iff atLeastLessThan_iff)
    have "sint (- 1 :: u64) = int i" unfolding i(2) by (rule sint_member) (use i(1) in simp)
    then show False by simp
  qed
qed (simp_all add: dense_intset_def)

text \<open>C33. Inserting any list of values into an empty intset one by one (as SADD does) succeeds while
  there are fewer than \<open>2 ^ 29\<close> of them, and afterwards \<^verbatim>\<open>intsetFind\<close> answers membership in the
  list for every 64 bit value.\<close>

theorem intset_add_list_find:
  assumes "length vs < 2 ^ 29"
  shows "\<exists>is n. add_list (intsetAdd junk) intsetNew vs = Some (is, n) \<and>
    (\<forall>v. intsetFind is v = Some (v \<in> set vs))"
  using intset_ms.find_after_add_list [OF intset_ms.new_rel, of vs junk] assms by simp

theorem intset_add_list_find_witness:
  "\<exists>is n. add_list (intsetAdd (\<lambda>_. 0)) intsetNew [7, - 1, 70000] = Some (is, n) \<and>
    (\<forall>v. intsetFind is v = Some (v \<in> set [7, - 1, 70000 :: u64]))"
  using intset_add_list_find [of "[7, - 1, 70000 :: u64]" "\<lambda>_. 0"] by simp

end
