(* ===== verification/Dict.thy ===== *)
theory Dict
  imports Interfaces "HOL-Library.Multiset"
begin

text \<open>
  The hash table of \<^verbatim>\<open>dict.c\<close>: chaining, power-of-two tables, and incremental rehashing from
  a first to a second table. A table is the list of its chains (\<open>None\<close> is the NULL pointer), a
  chain the list of its entries from the head on, and an entry pointer the place of the entry:
  table, bucket and depth. Sizes and counters are 64 bit words. An access outside a table is
  \<open>None\<close>. The hash function and the key comparison are those of the \<^verbatim>\<open>dictType\<close>, an
  argument of the model. The refinement relation \<open>dict_rel\<close> says which finite map a dictionary
  stands for; all operations, rehashing steps included, are shown to respect it, and
  \<^verbatim>\<open>dictScan\<close> to report every key that stays in the dictionary during the scan, however
  the tables are resized between its calls.
\<close>

section \<open>The data\<close>

record 'k dictType =
  hashFunction :: "'k \<Rightarrow> u64"
  keyCompare :: "'k \<Rightarrow> 'k \<Rightarrow> bool"

record ('k, 'v) dictht =
  ht_table :: "('k \<times> 'v) list list option"
  ht_size :: u64
  ht_sizemask :: u64
  ht_used :: u64

record ('k, 'v) dict =
  dtype :: "'k dictType"
  ht0 :: "('k, 'v) dictht"
  ht1 :: "('k, 'v) dictht"
  rehashidx :: int
  iterators :: nat

type_synonym loc = "nat \<times> nat \<times> nat"

definition DICT_HT_INITIAL_SIZE :: u64 where "DICT_HT_INITIAL_SIZE = 4"
definition dict_force_resize_ratio :: u64 where "dict_force_resize_ratio = 5"

definition dictIsRehashing :: "('k, 'v) dict \<Rightarrow> bool" where
  "dictIsRehashing d \<longleftrightarrow> rehashidx d \<noteq> - 1"

definition dictSize :: "('k, 'v) dict \<Rightarrow> u64" where
  "dictSize d = ht_used (ht0 d) + ht_used (ht1 d)"

definition dictSlots :: "('k, 'v) dict \<Rightarrow> u64" where
  "dictSlots d = ht_size (ht0 d) + ht_size (ht1 d)"

definition dictCompareKeys :: "'k dictType \<Rightarrow> 'k \<Rightarrow> 'k \<Rightarrow> bool" where
  "dictCompareKeys t key1 key2 \<longleftrightarrow> key1 = key2 \<or> keyCompare t key1 key2"

text \<open>Reading and writing a bucket.\<close>

definition ht_get :: "('k, 'v) dictht \<Rightarrow> nat \<Rightarrow> ('k \<times> 'v) list option" where
  "ht_get ht i = do { tb \<leftarrow> ht_table ht; if i < length tb then Some (tb ! i) else None }"

definition ht_set :: "('k, 'v) dictht \<Rightarrow> nat \<Rightarrow> ('k \<times> 'v) list \<Rightarrow> ('k, 'v) dictht" where
  "ht_set ht i c = ht\<lparr>ht_table := map_option (\<lambda>tb. tb[i := c]) (ht_table ht)\<rparr>"

definition ht_of :: "('k, 'v) dict \<Rightarrow> nat \<Rightarrow> ('k, 'v) dictht" where
  "ht_of d table = (if table = 0 then ht0 d else ht1 d)"

definition set_ht :: "('k, 'v) dict \<Rightarrow> nat \<Rightarrow> ('k, 'v) dictht \<Rightarrow> ('k, 'v) dict" where
  "set_ht d table ht = (if table = 0 then d\<lparr>ht0 := ht\<rparr> else d\<lparr>ht1 := ht\<rparr>)"

section \<open>Creation, resizing and rehashing\<close>

definition dictReset :: "('k, 'v) dictht" where
  "dictReset = \<lparr>ht_table = None, ht_size = 0, ht_sizemask = 0, ht_used = 0\<rparr>"

definition dictCreate :: "'k dictType \<Rightarrow> ('k, 'v) dict" where
  "dictCreate t = \<lparr>dtype = t, ht0 = dictReset, ht1 = dictReset, rehashidx = - 1, iterators = 0\<rparr>"

text \<open>The loop doubles a word until it reaches the size. It is only called with the word 4 and
  a size below \<open>2 ^ 63 - 1\<close>, so it never gets to 0 or \<open>2 ^ 63\<close>, where the doubling would wrap.\<close>

function dictNextPower_loop :: "u64 \<Rightarrow> u64 \<Rightarrow> u64" where
  "dictNextPower_loop i sz =
     (if i \<ge> sz \<or> i = 0 \<or> i \<ge> 2 ^ 63 then i else dictNextPower_loop (i * 2) sz)"
  by pat_completeness auto
termination
proof (relation "measure (\<lambda>(i, sz). 2 ^ 64 - unat i)")
  fix i sz :: u64
  assume "\<not> (i \<ge> sz \<or> i = 0 \<or> i \<ge> 2 ^ 63)"
  then have "0 < unat i" "unat i < 2 ^ 63"
    by (simp_all add: word_le_nat_alt unat_gt_0)
  moreover from this have "unat (i * 2) = unat i * 2"
    by (simp add: unat_word_ariths)
  ultimately show "((i * 2, sz), i, sz) \<in> measure (\<lambda>(i, sz). 2 ^ 64 - unat i)"
    by simp
qed simp

definition dictNextPower :: "u64 \<Rightarrow> u64" where
  "dictNextPower sz =
     (if sz \<ge> 2 ^ 63 - 1 then 2 ^ 63 else dictNextPower_loop DICT_HT_INITIAL_SIZE sz)"

text \<open>\<open>True\<close> is \<^verbatim>\<open>DICT_OK\<close>. The table gets the words that \<^verbatim>\<open>zcalloc\<close> was asked for, a
  product of words.\<close>

definition dictExpand :: "('k, 'v) dict \<Rightarrow> u64 \<Rightarrow> ('k, 'v) dict \<times> bool" where
  "dictExpand d sz =
     (if dictIsRehashing d \<or> ht_used (ht0 d) > sz then (d, False)
      else
        let realsize = dictNextPower sz in
        if realsize = ht_size (ht0 d) then (d, False)
        else
          let n = \<lparr>ht_table = Some (replicate (unat (realsize * 8) div 8) []), ht_size = realsize,
                   ht_sizemask = realsize - 1, ht_used = 0\<rparr>
          in if ht_table (ht0 d) = None then (d\<lparr>ht0 := n\<rparr>, True)
             else (d\<lparr>ht1 := n, rehashidx := 0\<rparr>, True))"

definition dictResize :: "bool \<Rightarrow> ('k, 'v) dict \<Rightarrow> ('k, 'v) dict \<times> bool" where
  "dictResize dict_can_resize d =
     (if \<not> dict_can_resize \<or> dictIsRehashing d then (d, False)
      else
        let minimal = ht_used (ht0 d);
            minimal = (if minimal < DICT_HT_INITIAL_SIZE then DICT_HT_INITIAL_SIZE else minimal)
        in dictExpand d minimal)"

text \<open>Skipping empty buckets: \<open>Inl\<close> when the budget of empty visits is used up.\<close>

function dictRehash_skip :: "('k, 'v) dictht \<Rightarrow> nat \<Rightarrow> int \<Rightarrow> (nat + nat \<times> int) option" where
  "dictRehash_skip ht idx empty_visits =
     (case ht_get ht idx of
        None \<Rightarrow> None
      | Some c \<Rightarrow>
          if c = [] then
            if empty_visits - 1 = 0 then Some (Inl (idx + 1))
            else dictRehash_skip ht (idx + 1) (empty_visits - 1)
          else Some (Inr (idx, empty_visits)))"
  by pat_completeness auto
termination
  by (relation "measure (\<lambda>(ht, idx, ev). length (the (ht_table ht)) - idx)")
     (auto simp: ht_get_def split: if_splits Option.bind_splits)

fun dictRehash_move :: "'k dictType \<Rightarrow> ('k \<times> 'v) list \<Rightarrow> ('k, 'v) dictht \<Rightarrow> ('k, 'v) dictht \<Rightarrow>
    (('k, 'v) dictht \<times> ('k, 'v) dictht) option" where
  "dictRehash_move t [] h0 h1 = Some (h0, h1)"
| "dictRehash_move t (de # nextde) h0 h1 = do {
     h \<leftarrow> Some (unat (hashFunction t (fst de) AND ht_sizemask h1));
     c \<leftarrow> ht_get h1 h;
     dictRehash_move t nextde (h0\<lparr>ht_used := ht_used h0 - 1\<rparr>)
       ((ht_set h1 h (de # c))\<lparr>ht_used := ht_used h1 + 1\<rparr>)
   }"

text \<open>\<open>True\<close> in the result: the budget of empty visits was used up.\<close>

fun dictRehash_loop :: "nat \<Rightarrow> int \<Rightarrow> ('k, 'v) dict \<Rightarrow> (('k, 'v) dict \<times> bool) option" where
  "dictRehash_loop 0 empty_visits d = Some (d, False)"
| "dictRehash_loop (Suc n) empty_visits d =
     (if ht_used (ht0 d) = 0 then Some (d, False)
      else if \<not> int (unat (ht_size (ht0 d))) > rehashidx d then None
      else
        case dictRehash_skip (ht0 d) (nat (rehashidx d)) empty_visits of
          None \<Rightarrow> None
        | Some (Inl idx) \<Rightarrow> Some (d\<lparr>rehashidx := int idx\<rparr>, True)
        | Some (Inr (idx, ev)) \<Rightarrow> do {
            de \<leftarrow> ht_get (ht0 d) idx;
            (h0, h1) \<leftarrow> dictRehash_move (dtype d) de (ht0 d) (ht1 d);
            dictRehash_loop n ev (d\<lparr>ht0 := ht_set h0 idx [], ht1 := h1, rehashidx := int idx + 1\<rparr>)
          })"

definition dictRehash :: "('k, 'v) dict \<Rightarrow> nat \<Rightarrow> (('k, 'v) dict \<times> bool) option" where
  "dictRehash d n =
     (if \<not> dictIsRehashing d then Some (d, False)
      else do {
        (d, stopped) \<leftarrow> dictRehash_loop n (int n * 10) d;
        if stopped then Some (d, True)
        else if ht_used (ht0 d) = 0 then
          Some (d\<lparr>ht0 := ht1 d, ht1 := dictReset, rehashidx := - 1\<rparr>, False)
        else Some (d, True)
      })"

definition dictRehashStep :: "('k, 'v) dict \<Rightarrow> ('k, 'v) dict option" where
  "dictRehashStep d = (if iterators d = 0 then map_option fst (dictRehash d 1) else Some d)"

definition rehash_if :: "('k, 'v) dict \<Rightarrow> ('k, 'v) dict option" where
  "rehash_if d = (if dictIsRehashing d then dictRehashStep d else Some d)"

definition dictExpandIfNeeded :: "bool \<Rightarrow> ('k, 'v) dict \<Rightarrow> ('k, 'v) dict \<times> bool" where
  "dictExpandIfNeeded dict_can_resize d =
     (if dictIsRehashing d then (d, True)
      else if ht_size (ht0 d) = 0 then dictExpand d DICT_HT_INITIAL_SIZE
      else if ht_used (ht0 d) \<ge> ht_size (ht0 d) \<and>
          (dict_can_resize \<or> ht_used (ht0 d) div ht_size (ht0 d) > dict_force_resize_ratio)
        then dictExpand d (ht_used (ht0 d) * 2)
      else (d, True))"

section \<open>Lookup, insertion and removal\<close>

text \<open>The walk over a chain: the depth of the first entry with the key.\<close>

fun chain_find :: "'k dictType \<Rightarrow> 'k \<Rightarrow> ('k \<times> 'v) list \<Rightarrow> nat option" where
  "chain_find t key [] = None"
| "chain_find t key (he # next) =
     (if dictCompareKeys t key (fst he) then Some 0 else map_option Suc (chain_find t key next))"

text \<open>The loop over the tables that lookup, insertion and removal share: the place of the key's
  entry, if any, and the bucket that was looked at last.\<close>

definition ht_find :: "('k, 'v) dict \<Rightarrow> u64 \<Rightarrow> 'k \<Rightarrow> nat \<Rightarrow> (nat \<times> nat option) option" where
  "ht_find d h key table = do {
     idx \<leftarrow> Some (unat (h AND ht_sizemask (ht_of d table)));
     c \<leftarrow> ht_get (ht_of d table) idx;
     Some (idx, chain_find (dtype d) key c)
   }"

definition dict_locate :: "('k, 'v) dict \<Rightarrow> 'k \<Rightarrow> (loc option \<times> nat) option" where
  "dict_locate d key = do {
     h \<leftarrow> Some (hashFunction (dtype d) key);
     (i0, r0) \<leftarrow> ht_find d h key 0;
     case r0 of
       Some n \<Rightarrow> Some (Some (0, i0, n), i0)
     | None \<Rightarrow>
         if \<not> dictIsRehashing d then Some (None, i0)
         else do {
           (i1, r1) \<leftarrow> ht_find d h key 1;
           Some (map_option (\<lambda>n. (1, i1, n)) r1, i1)
         }
   }"

definition entry_at :: "('k, 'v) dict \<Rightarrow> loc \<Rightarrow> ('k \<times> 'v) option" where
  "entry_at d l = (case l of (table, idx, n) \<Rightarrow> do {
     c \<leftarrow> ht_get (ht_of d table) idx;
     if n < length c then Some (c ! n) else None
   })"

definition dictFind :: "('k, 'v) dict \<Rightarrow> 'k \<Rightarrow> (('k, 'v) dict \<times> loc option) option" where
  "dictFind d key =
     (if dictSize d = 0 then Some (d, None)
      else do {
        d \<leftarrow> rehash_if d;
        (r, _) \<leftarrow> dict_locate d key;
        Some (d, r)
      })"

definition dictFetchValue :: "('k, 'v) dict \<Rightarrow> 'k \<Rightarrow> (('k, 'v) dict \<times> 'v option) option" where
  "dictFetchValue d key = do {
     (d, he) \<leftarrow> dictFind d key;
     case he of
       None \<Rightarrow> Some (d, None)
     | Some l \<Rightarrow> do { e \<leftarrow> entry_at d l; Some (d, Some (snd e)) }
   }"

text \<open>A free bucket for the key, or \<open>-1\<close> with the existing entry (\<open>None\<close> when the table could
  not be expanded).\<close>

definition dictKeyIndex :: "bool \<Rightarrow> ('k, 'v) dict \<Rightarrow> 'k \<Rightarrow> (('k, 'v) dict \<times> (loc option + nat)) option" where
  "dictKeyIndex dict_can_resize d key =
     (case dictExpandIfNeeded dict_can_resize d of
        (d, False) \<Rightarrow> Some (d, Inl None)
      | (d, True) \<Rightarrow> do {
          (r, idx) \<leftarrow> dict_locate d key;
          Some (d, case r of Some l \<Rightarrow> Inl (Some l) | None \<Rightarrow> Inr idx)
        })"

text \<open>\<open>Inr\<close>: the new entry, whose value is not initialised; \<open>Inl\<close>: NULL, with
  \<^verbatim>\<open>*existing\<close>.\<close>

definition dictAddRaw :: "bool \<Rightarrow> 'v \<Rightarrow> ('k, 'v) dict \<Rightarrow> 'k \<Rightarrow>
    (('k, 'v) dict \<times> (loc option + loc)) option" where
  "dictAddRaw dict_can_resize junk d key = do {
     d \<leftarrow> rehash_if d;
     (d, i) \<leftarrow> dictKeyIndex dict_can_resize d key;
     case i of
       Inl existing \<Rightarrow> Some (d, Inl existing)
     | Inr index \<Rightarrow> do {
         table \<leftarrow> Some (if dictIsRehashing d then 1 else 0);
         c \<leftarrow> ht_get (ht_of d table) index;
         ht \<leftarrow> Some (ht_set (ht_of d table) index ((key, junk) # c));
         Some (set_ht d table (ht\<lparr>ht_used := ht_used ht + 1\<rparr>), Inr (table, index, 0))
       }
   }"

definition dictSetVal :: "('k, 'v) dict \<Rightarrow> loc \<Rightarrow> 'v \<Rightarrow> ('k, 'v) dict option" where
  "dictSetVal d l val = (case l of (table, idx, n) \<Rightarrow> do {
     c \<leftarrow> ht_get (ht_of d table) idx;
     if n < length c then Some (set_ht d table (ht_set (ht_of d table) idx (c[n := (fst (c ! n), val)])))
     else None
   })"

definition dictAdd :: "bool \<Rightarrow> 'v \<Rightarrow> ('k, 'v) dict \<Rightarrow> 'k \<Rightarrow> 'v \<Rightarrow> (('k, 'v) dict \<times> bool) option" where
  "dictAdd dict_can_resize junk d key val = do {
     (d, entry) \<leftarrow> dictAddRaw dict_can_resize junk d key;
     case entry of
       Inl _ \<Rightarrow> Some (d, False)
     | Inr l \<Rightarrow> do { d \<leftarrow> dictSetVal d l val; Some (d, True) }
   }"

definition dictReplace :: "bool \<Rightarrow> 'v \<Rightarrow> ('k, 'v) dict \<Rightarrow> 'k \<Rightarrow> 'v \<Rightarrow> (('k, 'v) dict \<times> bool) option" where
  "dictReplace dict_can_resize junk d key val = do {
     (d, entry) \<leftarrow> dictAddRaw dict_can_resize junk d key;
     case entry of
       Inr l \<Rightarrow> do { d \<leftarrow> dictSetVal d l val; Some (d, True) }
     | Inl existing \<Rightarrow> do { l \<leftarrow> existing; d \<leftarrow> dictSetVal d l val; Some (d, False) }
   }"

definition dictAddOrFind :: "bool \<Rightarrow> 'v \<Rightarrow> ('k, 'v) dict \<Rightarrow> 'k \<Rightarrow> (('k, 'v) dict \<times> loc option) option" where
  "dictAddOrFind dict_can_resize junk d key = do {
     (d, entry) \<leftarrow> dictAddRaw dict_can_resize junk d key;
     Some (d, case entry of Inr l \<Rightarrow> Some l | Inl existing \<Rightarrow> existing)
   }"

definition dictGenericDelete :: "('k, 'v) dict \<Rightarrow> 'k \<Rightarrow> (('k, 'v) dict \<times> ('k \<times> 'v) option) option" where
  "dictGenericDelete d key =
     (if ht_used (ht0 d) = 0 \<and> ht_used (ht1 d) = 0 then Some (d, None)
      else do {
        d \<leftarrow> rehash_if d;
        (r, _) \<leftarrow> dict_locate d key;
        case r of
          None \<Rightarrow> Some (d, None)
        | Some (table, idx, n) \<Rightarrow> do {
            c \<leftarrow> ht_get (ht_of d table) idx;
            ht \<leftarrow> Some (ht_set (ht_of d table) idx (take n c @ drop (n + 1) c));
            Some (set_ht d table (ht\<lparr>ht_used := ht_used ht - 1\<rparr>), Some (c ! n))
          }
      })"

definition dictDelete :: "('k, 'v) dict \<Rightarrow> 'k \<Rightarrow> (('k, 'v) dict \<times> bool) option" where
  "dictDelete d key = map_option (\<lambda>(d, he). (d, he \<noteq> None)) (dictGenericDelete d key)"

definition dictUnlink :: "('k, 'v) dict \<Rightarrow> 'k \<Rightarrow> (('k, 'v) dict \<times> ('k \<times> 'v) option) option" where
  "dictUnlink d key = dictGenericDelete d key"

text \<open>Clearing a table: the entries that are freed, in order, and the table afterwards.\<close>

fun dictClear_loop :: "('k \<times> 'v) list list \<Rightarrow> u64 \<Rightarrow> ('k \<times> 'v) list" where
  "dictClear_loop [] used = []"
| "dictClear_loop (c # tb) used =
     (if used > 0 then c @ dictClear_loop tb (used - word_of_nat (length c)) else [])"

definition dictClear :: "('k, 'v) dictht \<Rightarrow> ('k, 'v) dictht \<times> ('k \<times> 'v) list" where
  "dictClear ht = (dictReset,
     dictClear_loop (take (unat (ht_size ht)) (case ht_table ht of None \<Rightarrow> [] | Some tb \<Rightarrow> tb)) (ht_used ht))"

definition dictEmpty :: "('k, 'v) dict \<Rightarrow> ('k, 'v) dict \<times> ('k \<times> 'v) list" where
  "dictEmpty d =
     (let (h0, f0) = dictClear (ht0 d); (h1, f1) = dictClear (ht1 d)
      in (d\<lparr>ht0 := h0, ht1 := h1, rehashidx := - 1, iterators := 0\<rparr>, f0 @ f1))"

definition dictRelease :: "('k, 'v) dict \<Rightarrow> ('k \<times> 'v) list" where
  "dictRelease d = snd (dictClear (ht0 d)) @ snd (dictClear (ht1 d))"

section \<open>Scanning\<close>

text \<open>Bit reversal of a word by swapping ever smaller blocks.\<close>

function rev_loop :: "nat \<Rightarrow> u64 \<Rightarrow> u64 \<Rightarrow> u64" where
  "rev_loop s msk v =
     (let s = s div 2 in
      if s > 0 then
        let msk = msk XOR push_bit s msk in
        rev_loop s msk ((drop_bit s v AND msk) OR (push_bit s v AND NOT msk))
      else v)"
  by pat_completeness auto
termination
  by (relation "measure (\<lambda>(s, msk, v). s)") auto

definition rev_bits :: "u64 \<Rightarrow> u64" where
  "rev_bits v = rev_loop 64 (NOT 0) v"

definition next_cursor :: "u64 \<Rightarrow> u64 \<Rightarrow> u64" where
  "next_cursor m v = (let v = v OR NOT m; v = rev_bits v; v = v + 1 in rev_bits v)"

text \<open>The loop over the buckets of the larger table that expand the cursor in the smaller one.
  Each pass moves the cursor to a larger reversed value, or wraps to zero and ends; the fuel is
  the number of buckets of the larger table.\<close>

fun dictScan_expand :: "nat \<Rightarrow> ('k, 'v) dictht \<Rightarrow> u64 \<Rightarrow> u64 \<Rightarrow> u64 \<Rightarrow> (u64 \<times> ('k \<times> 'v) list) option" where
  "dictScan_expand 0 t1 m0 m1 v = None"
| "dictScan_expand (Suc fuel) t1 m0 m1 v = do {
     de \<leftarrow> ht_get t1 (unat (v AND m1));
     v \<leftarrow> Some (next_cursor m1 v);
     if v AND (m0 XOR m1) \<noteq> 0 then do {
       (v, es) \<leftarrow> dictScan_expand fuel t1 m0 m1 v;
       Some (v, de @ es)
     } else Some (v, de)
   }"

text \<open>The new cursor and the entries handed to the callback, in order.\<close>

definition dictScan :: "('k, 'v) dict \<Rightarrow> u64 \<Rightarrow> (u64 \<times> ('k \<times> 'v) list) option" where
  "dictScan d v =
     (if dictSize d = 0 then Some (0, [])
      else if \<not> dictIsRehashing d then do {
        m0 \<leftarrow> Some (ht_sizemask (ht0 d));
        de \<leftarrow> ht_get (ht0 d) (unat (v AND m0));
        Some (next_cursor m0 v, de)
      } else do {
        (t0, t1) \<leftarrow> Some (if ht_size (ht0 d) > ht_size (ht1 d) then (ht1 d, ht0 d) else (ht0 d, ht1 d));
        m0 \<leftarrow> Some (ht_sizemask t0);
        m1 \<leftarrow> Some (ht_sizemask t1);
        de \<leftarrow> ht_get t0 (unat (v AND m0));
        (v, es) \<leftarrow> dictScan_expand (unat (ht_size t1)) t1 m0 m1 v;
        Some (v, de @ es)
      })"


section \<open>Invariant and refinement relation\<close>

text \<open>A table is either reset or has \<open>2 ^ k\<close> buckets, each entry in the bucket of its hash.\<close>

definition ht_entries :: "('k, 'v) dictht \<Rightarrow> ('k \<times> 'v) list" where
  "ht_entries ht = (case ht_table ht of None \<Rightarrow> [] | Some tb \<Rightarrow> concat tb)"

definition ht_live :: "('k \<Rightarrow> u64) \<Rightarrow> nat \<Rightarrow> ('k, 'v) dictht \<Rightarrow> bool" where
  "ht_live hf k ht \<longleftrightarrow> 2 \<le> k \<and> k \<le> 60 \<and> ht_size ht = 2 ^ k \<and> ht_sizemask ht = mask k \<and>
     (\<exists>tb. ht_table ht = Some tb \<and> length tb = 2 ^ k \<and> ht_used ht = word_of_nat (length (concat tb)) \<and>
        (\<forall>i < 2 ^ k. \<forall>e \<in> set (tb ! i). unat (hf (fst e) AND mask k) = i))"

definition dict_entries :: "('k, 'v) dict \<Rightarrow> ('k \<times> 'v) list" where
  "dict_entries d = ht_entries (ht0 d) @ ht_entries (ht1 d)"

definition dictType_ok :: "'k dictType \<Rightarrow> bool" where
  "dictType_ok t \<longleftrightarrow> (\<forall>a b. keyCompare t a b \<longleftrightarrow> a = b)"

text \<open>The number of entries is bounded so that the sizes of the tables do not wrap around.\<close>

definition DICT_MAX :: nat where "DICT_MAX = 2 ^ 59"

definition dict_tables_ok :: "('k, 'v) dict \<Rightarrow> bool" where
  "dict_tables_ok d \<longleftrightarrow>
     (if dictIsRehashing d then
        0 \<le> rehashidx d \<and> (\<exists>k. ht_live (hashFunction (dtype d)) k (ht0 d)) \<and>
        (\<exists>k. ht_live (hashFunction (dtype d)) k (ht1 d)) \<and>
        (\<forall>i < nat (rehashidx d). i < length (the (ht_table (ht0 d))) \<longrightarrow> the (ht_table (ht0 d)) ! i = [])
      else (ht0 d = dictReset \<or> (\<exists>k. ht_live (hashFunction (dtype d)) k (ht0 d))) \<and> ht1 d = dictReset)"

definition dict_ok :: "('k, 'v) dict \<Rightarrow> bool" where
  "dict_ok d \<longleftrightarrow> dictType_ok (dtype d) \<and> dict_tables_ok d \<and>
     distinct (map fst (dict_entries d)) \<and> length (dict_entries d) \<le> DICT_MAX"

definition dict_rel :: "('k, 'v) dict \<Rightarrow> ('k \<rightharpoonup> 'v) \<Rightarrow> bool" where
  "dict_rel d m \<longleftrightarrow> dict_ok d \<and> m = map_of (dict_entries d)"

lemma mset_concat_update:
  "i < length tb \<Longrightarrow> mset (concat (tb[i := c])) + mset (tb ! i) = mset (concat tb) + mset c"
proof (induction tb arbitrary: i)
  case (Cons x tb)
  then show ?case by (cases i) (auto simp: ac_simps)
qed simp

lemma unat_and_mask: "unat (h AND mask k) = unat h mod 2 ^ k"
  by (simp only: take_bit_eq_mask [symmetric] unsigned_take_bit_eq) (simp add: take_bit_eq_mod)

lemma unat_and_mask_less: "unat (h AND mask k) < 2 ^ k"
  by (simp add: unat_and_mask)

lemma unat_power2:
  assumes "k \<le> 60"
  shows "unat (2 ^ k :: u64) = 2 ^ k"
proof -
  have "(2 :: nat) ^ k < 2 ^ 64" using assms by (intro power_strict_increasing) simp_all
  then have "unat (word_of_nat (2 ^ k) :: u64) = 2 ^ k" by (subst unat_of_nat) simp
  then show ?thesis by simp
qed

lemma nat_less_power: "nat i \<le> j \<Longrightarrow> j < 2 ^ k \<Longrightarrow> i < 2 ^ k"
  by (metis nat_le_iff numeral_power_eq_of_nat_cancel_iff of_nat_less_iff order_le_less_trans)

lemma ht_live_get:
  assumes "ht_live hf k ht"
  shows "\<exists>c. ht_get ht (unat (h AND ht_sizemask ht)) = Some c"
proof -
  have "unat (h AND mask k) < 2 ^ k"
    by (rule unat_and_mask_less)
  then show ?thesis using assms by (auto simp: ht_live_def ht_get_def)
qed
lemma ht_live_placed:
  "ht_live hf k ht \<Longrightarrow> ht_get ht i = Some c \<Longrightarrow> e \<in> set c \<Longrightarrow> unat (hf (fst e) AND mask k) = i"
  by (force simp: ht_live_def ht_get_def split: if_splits)

lemma ht_live_set:
  assumes "ht_live hf k ht" "ht_get ht i = Some c"
    and "\<forall>e \<in> set c'. unat (hf (fst e) AND mask k) = i"
    and "u + word_of_nat (length c) = ht_used ht + word_of_nat (length c')"
  shows "ht_live hf k ((ht_set ht i c')\<lparr>ht_used := u\<rparr>)"
    and "mset (ht_entries ((ht_set ht i c')\<lparr>ht_used := u\<rparr>)) + mset c = mset (ht_entries ht) + mset c'"
proof -
  obtain tb where tb: "ht_table ht = Some tb" "length tb = 2 ^ k"
    "ht_used ht = word_of_nat (length (concat tb))"
    "\<forall>i < 2 ^ k. \<forall>e \<in> set (tb ! i). unat (hf (fst e) AND mask k) = i"
    using assms(1) by (auto simp: ht_live_def)
  have i: "i < 2 ^ k" "c = tb ! i" using assms(2) tb by (auto simp: ht_get_def split: if_splits)
  have ms: "mset (concat (tb[i := c'])) + mset c = mset (concat tb) + mset c'"
    using mset_concat_update [of i tb c'] i tb by simp
  then show "mset (ht_entries ((ht_set ht i c')\<lparr>ht_used := u\<rparr>)) + mset c = mset (ht_entries ht) + mset c'"
    using tb by (simp add: ht_entries_def ht_set_def)
  have "length (concat (tb[i := c'])) + length c = length (concat tb) + length c'"
    using arg_cong [OF ms, of size] by simp
  then have "(word_of_nat (length (concat (tb[i := c']))) :: u64) + word_of_nat (length c) = u + word_of_nat (length c)"
    using assms(4) tb(3) by (simp only: flip: of_nat_add)
  then have "u = word_of_nat (length (concat (tb[i := c'])))" by simp
  then show "ht_live hf k ((ht_set ht i c')\<lparr>ht_used := u\<rparr>)"
    using assms(1,3) tb i by (auto simp: ht_live_def ht_set_def nth_list_update)
qed

lemma ht_live_lookup:
  assumes "ht_live hf k ht" "ht_get ht (unat (hf key AND ht_sizemask ht)) = Some c"
  shows "(key, v) \<in> set (ht_entries ht) \<longleftrightarrow> (key, v) \<in> set c"
proof -
  obtain tb where tb: "ht_table ht = Some tb" "length tb = 2 ^ k"
    "\<forall>i < 2 ^ k. \<forall>e \<in> set (tb ! i). unat (hf (fst e) AND mask k) = i"
    using assms(1) by (auto simp: ht_live_def)
  let ?i = "unat (hf key AND mask k)"
  have c: "?i < 2 ^ k" "c = tb ! ?i" "ht_sizemask ht = mask k"
    using assms tb by (auto simp: ht_get_def ht_live_def split: if_splits)
  have "(key, v) \<in> set (concat tb) \<longleftrightarrow> (\<exists>i < 2 ^ k. (key, v) \<in> set (tb ! i))"
    using tb(2) by (simp add: set_conv_nth [of tb]) blast
  also have "\<dots> \<longleftrightarrow> (key, v) \<in> set c"
    using tb(3) c by fastforce
  finally show ?thesis using tb by (simp add: ht_entries_def)
qed

lemma chain_find_Some:
  "dictType_ok t \<Longrightarrow> chain_find t key c = Some n \<Longrightarrow> n < length c \<and> fst (c ! n) = key"
  by (induction c arbitrary: n)
     (auto simp: dictType_ok_def dictCompareKeys_def split: if_splits)

lemma chain_find_None:
  "dictType_ok t \<Longrightarrow> chain_find t key c = None \<Longrightarrow> (key, v) \<notin> set c"
  by (induction c) (auto simp: dictType_ok_def dictCompareKeys_def split: if_splits)

definition add_table :: "('k, 'v) dict \<Rightarrow> nat" where
  "add_table d = (if dictIsRehashing d then 1 else 0)"

text \<open>What the search finds: the entry's place, or that there is none and the bucket to add to.\<close>

definition located :: "('k, 'v) dict \<Rightarrow> 'k \<Rightarrow> loc option \<Rightarrow> nat \<Rightarrow> bool" where
  "located d key r idx \<longleftrightarrow>
     (case r of
        Some (table, i, n) \<Rightarrow> table \<le> add_table d \<and>
          i = unat (hashFunction (dtype d) key AND ht_sizemask (ht_of d table)) \<and>
          (\<exists>c. ht_get (ht_of d table) i = Some c \<and> n < length c \<and> fst (c ! n) = key)
      | None \<Rightarrow> (\<forall>v. (key, v) \<notin> set (dict_entries d)) \<and>
          idx = unat (hashFunction (dtype d) key AND ht_sizemask (ht_of d (add_table d))))"

lemma ht_entries_reset [simp]: "ht_entries dictReset = []"
  by (simp add: ht_entries_def dictReset_def)

lemma dictReset_simps [simp]:
  "ht_table dictReset = None" "ht_size dictReset = 0" "ht_sizemask dictReset = 0" "ht_used dictReset = 0"
  by (simp_all add: dictReset_def)

lemma not_reset_table: "ht_table ht = Some tb \<Longrightarrow> ht \<noteq> dictReset"
  by auto

lemma live_not_reset: "ht_live hf k ht \<Longrightarrow> ht \<noteq> dictReset"
  by (auto simp: ht_live_def dictReset_def)

lemma ok_live:
  assumes "dict_tables_ok d" "ht0 d \<noteq> dictReset" "table \<le> add_table d"
  shows "\<exists>k. ht_live (hashFunction (dtype d)) k (ht_of d table)"
  using assms by (auto simp: dict_tables_ok_def add_table_def ht_of_def split: if_splits)

lemma ht_find_spec:
  assumes "ht_live (hashFunction (dtype d)) k (ht_of d table)" "dictType_ok (dtype d)"
  shows "\<exists>c. ht_get (ht_of d table) (unat (hashFunction (dtype d) key AND ht_sizemask (ht_of d table))) = Some c \<and>
    ht_find d (hashFunction (dtype d) key) key table
      = Some (unat (hashFunction (dtype d) key AND ht_sizemask (ht_of d table)), chain_find (dtype d) key c) \<and>
    (chain_find (dtype d) key c = None \<longrightarrow> (\<forall>v. (key, v) \<notin> set (ht_entries (ht_of d table))))"
  using ht_live_get [OF assms(1)] ht_live_lookup [OF assms(1)] chain_find_None [OF assms(2)]
  by (fastforce simp: ht_find_def)

lemma dict_locate_spec:
  assumes "dict_tables_ok d" "dictType_ok (dtype d)" "ht0 d \<noteq> dictReset"
  shows "\<exists>r idx. dict_locate d key = Some (r, idx) \<and> located d key r idx"
proof -
  let ?h = "hashFunction (dtype d)"
  obtain k0 where "ht_live ?h k0 (ht_of d 0)" using ok_live [OF assms(1,3), of 0] by auto
  from ht_find_spec [OF this assms(2), of key] obtain c0 where
    c0: "ht_get (ht_of d 0) (unat (?h key AND ht_sizemask (ht_of d 0))) = Some c0"
      "ht_find d (?h key) key 0 = Some (unat (?h key AND ht_sizemask (ht_of d 0)), chain_find (dtype d) key c0)"
      "chain_find (dtype d) key c0 = None \<Longrightarrow> \<forall>v. (key, v) \<notin> set (ht_entries (ht0 d))"
    by (auto simp: ht_of_def)
  show ?thesis
  proof (cases "chain_find (dtype d) key c0")
    case (Some n)
    then show ?thesis using c0 chain_find_Some [OF assms(2) Some] by (simp add: dict_locate_def located_def)
  next
    case None
    show ?thesis
    proof (cases "dictIsRehashing d")
      case False
      then have "ht1 d = dictReset" using assms(1) by (simp add: dict_tables_ok_def)
      then show ?thesis using c0 None False
        by (simp add: dict_locate_def located_def add_table_def dict_entries_def)
    next
      case True
      then obtain k1 where "ht_live ?h k1 (ht_of d 1)"
        using ok_live [OF assms(1,3), of 1] by (auto simp: add_table_def)
      from ht_find_spec [OF this assms(2), of key] obtain c1 where
        c1: "ht_get (ht_of d 1) (unat (?h key AND ht_sizemask (ht_of d 1))) = Some c1"
          "ht_find d (?h key) key 1 = Some (unat (?h key AND ht_sizemask (ht_of d 1)), chain_find (dtype d) key c1)"
          "chain_find (dtype d) key c1 = None \<Longrightarrow> \<forall>v. (key, v) \<notin> set (ht_entries (ht1 d))"
        by (auto simp: ht_of_def)
      show ?thesis
        using c0 c1 None True chain_find_Some [OF assms(2), of key c1]
        by (cases "chain_find (dtype d) key c1")
           (simp_all add: dict_locate_def located_def add_table_def dict_entries_def)
    qed
  qed
qed

subsection \<open>Rehashing\<close>

lemma map_of_mset_eq:
  assumes "distinct (map fst xs)" "mset xs = mset ys"
  shows "map_of xs = map_of ys"
proof -
  have "distinct (map fst ys)"
    using assms mset_eq_imp_distinct_iff [of "map fst xs" "map fst ys"] by (simp add: mset_map)
  then show ?thesis using assms map_of_inject_set [of xs ys] mset_eq_setD [OF assms(2)] by simp
qed

lemma dict_rel_transfer:
  assumes "dict_rel d m" "mset (dict_entries d') = mset (dict_entries d)" "dtype d' = dtype d"
    "dict_tables_ok d'"
  shows "dict_rel d' m"
proof -
  have "distinct (map fst (dict_entries d'))"
    using assms mset_eq_imp_distinct_iff [of "map fst (dict_entries d)" "map fst (dict_entries d')"]
    by (simp add: dict_rel_def dict_ok_def mset_map)
  moreover have "length (dict_entries d') = length (dict_entries d)"
    using assms(2) by (rule mset_eq_length)
  ultimately show ?thesis
    using assms map_of_mset_eq [of "dict_entries d'" "dict_entries d"]
    by (simp add: dict_rel_def dict_ok_def)
qed

lemma dictRehash_move_spec:
  assumes "ht_live (hashFunction t) k h1"
  shows "\<exists>h1'. dictRehash_move t de h0 h1 = Some (h0\<lparr>ht_used := ht_used h0 - word_of_nat (length de)\<rparr>, h1') \<and>
    ht_live (hashFunction t) k h1' \<and> mset (ht_entries h1') = mset (ht_entries h1) + mset de"
  using assms
proof (induction de arbitrary: h0 h1)
  case Nil
  then show ?case by simp
next
  case (Cons e de)
  let ?h = "unat (hashFunction t (fst e) AND ht_sizemask h1)"
  obtain c where c: "ht_get h1 ?h = Some c" using ht_live_get [OF Cons.prems] by blast
  define h1' where "h1' = (ht_set h1 ?h (e # c))\<lparr>ht_used := ht_used h1 + 1\<rparr>"
  have msk: "ht_sizemask h1 = mask k" using Cons.prems by (simp add: ht_live_def)
  have pl: "\<forall>e' \<in> set c. unat (hashFunction t (fst e') AND mask k) = ?h"
    using ht_live_placed [OF Cons.prems c] by blast
  have live: "ht_live (hashFunction t) k h1'"
    and ms: "mset (ht_entries h1') + mset c = mset (ht_entries h1) + mset (e # c)"
    using ht_live_set [OF Cons.prems c, of "e # c" "ht_used h1 + 1"] pl msk
    by (simp_all add: h1'_def ac_simps)
  from Cons.IH [OF live, of "h0\<lparr>ht_used := ht_used h0 - 1\<rparr>"] obtain h1'' where
    "dictRehash_move t de (h0\<lparr>ht_used := ht_used h0 - 1\<rparr>) h1'
      = Some (h0\<lparr>ht_used := ht_used h0 - 1 - word_of_nat (length de)\<rparr>, h1'')"
    "ht_live (hashFunction t) k h1''" "mset (ht_entries h1'') = mset (ht_entries h1') + mset de"
    by auto
  then show ?case using c ms by (simp add: h1'_def diff_diff_eq)
qed

text \<open>Skipping ends at the first non-empty bucket, or earlier when the budget is used up.\<close>

declare dictRehash_skip.simps [simp del]

lemma dictRehash_skip_spec:
  assumes "ht_table ht = Some tb" "j < length tb" "tb ! j \<noteq> []" "idx \<le> j" "0 < ev"
  shows "(\<exists>i. dictRehash_skip ht idx ev = Some (Inl i) \<and> idx < i \<and> i \<le> j \<and> (\<forall>l. idx \<le> l \<and> l < i \<longrightarrow> tb ! l = [])) \<or>
    (\<exists>i ev'. dictRehash_skip ht idx ev = Some (Inr (i, ev')) \<and> idx \<le> i \<and> i \<le> j \<and> tb ! i \<noteq> [] \<and> 0 < ev' \<and>
       (\<forall>l. idx \<le> l \<and> l < i \<longrightarrow> tb ! l = []))"
  using assms(4,5)
proof (induction "j - idx" arbitrary: idx ev)
  case 0
  then have "idx = j" by simp
  then show ?case using assms 0 by (subst (1 2) dictRehash_skip.simps) (auto simp: ht_get_def)
next
  case (Suc n)
  have get: "ht_get ht idx = Some (tb ! idx)" using assms Suc.prems by (simp add: ht_get_def)
  show ?case
  proof (cases "tb ! idx = []")
    case False
    then show ?thesis using Suc.prems get by (subst (1 2) dictRehash_skip.simps) auto
  next
    case empty: True
    show ?thesis
    proof (cases "ev = 1")
      case True
      have "dictRehash_skip ht idx ev = Some (Inl (idx + 1))"
        using True empty get by (subst dictRehash_skip.simps) simp
      moreover have "\<forall>l. idx \<le> l \<and> l < idx + 1 \<longrightarrow> tb ! l = []"
        using empty le_antisym less_Suc_eq_le by auto
      ultimately show ?thesis using Suc.hyps(2) by auto
    next
      case False
      have eq: "dictRehash_skip ht idx ev = dictRehash_skip ht (Suc idx) (ev - 1)"
        using False empty get by (subst dictRehash_skip.simps) simp
      have ext: "\<forall>l. idx \<le> l \<and> l < i \<longrightarrow> tb ! l = []" if "\<forall>l. Suc idx \<le> l \<and> l < i \<longrightarrow> tb ! l = []" for i
        using that empty by (metis Suc_leI le_neq_implies_less)
      have "n = j - Suc idx" "Suc idx \<le> j" "0 < ev - 1" using Suc.hyps(2) Suc.prems False by simp_all
      from Suc.hyps(1) [OF this] show ?thesis
      proof (elim disjE exE conjE)
        fix i assume "dictRehash_skip ht (Suc idx) (ev - 1) = Some (Inl i)" "Suc idx < i" "i \<le> j"
          "\<forall>l. Suc idx \<le> l \<and> l < i \<longrightarrow> tb ! l = []"
        then show ?thesis unfolding eq using ext [of i] by simp
      next
        fix i ev' assume "dictRehash_skip ht (Suc idx) (ev - 1) = Some (Inr (i, ev'))" "Suc idx \<le> i" "i \<le> j"
          "tb ! i \<noteq> []" "0 < ev'" "\<forall>l. Suc idx \<le> l \<and> l < i \<longrightarrow> tb ! l = []"
        then show ?thesis unfolding eq using ext [of i] by simp
      qed
    qed
  qed
qed


text \<open>The state during rehashing, and the loop that moves buckets.\<close>

definition rehash_ok :: "nat \<Rightarrow> nat \<Rightarrow> ('k, 'v) dict \<Rightarrow> bool" where
  "rehash_ok k0 k1 d \<longleftrightarrow> 0 \<le> rehashidx d \<and> ht_live (hashFunction (dtype d)) k0 (ht0 d) \<and>
     ht_live (hashFunction (dtype d)) k1 (ht1 d) \<and>
     (\<forall>i < nat (rehashidx d). i < 2 ^ k0 \<longrightarrow> the (ht_table (ht0 d)) ! i = [])"

lemma rehash_ok_iff:
  "dict_tables_ok d \<and> dictIsRehashing d \<longleftrightarrow> (\<exists>k0 k1. rehash_ok k0 k1 d)"
  by (auto simp: dict_tables_ok_def rehash_ok_def dictIsRehashing_def ht_live_def)

lemma rehash_ok_nonempty:
  assumes "rehash_ok k0 k1 d" "ht_used (ht0 d) \<noteq> 0"
  obtains tb j where "ht_table (ht0 d) = Some tb" "length tb = 2 ^ k0" "j < length tb" "tb ! j \<noteq> []"
    "nat (rehashidx d) \<le> j"
proof -
  obtain tb where tb: "ht_table (ht0 d) = Some tb" "length tb = 2 ^ k0"
    "ht_used (ht0 d) = word_of_nat (length (concat tb))"
    using assms(1) by (auto simp: rehash_ok_def ht_live_def)
  have "concat tb \<noteq> []"
  proof
    assume e: "concat tb = []"
    show False using tb(3) assms(2) unfolding e by simp
  qed
  then obtain j where "j < length tb" "tb ! j \<noteq> []" by (auto simp: in_set_conv_nth)
  moreover from this have "nat (rehashidx d) \<le> j"
    using assms(1) tb by (auto simp: rehash_ok_def not_less [symmetric])
  ultimately show ?thesis using that tb by blast
qed

lemma rehash_move_bucket:
  assumes "rehash_ok k0 k1 d" "ht_get (ht0 d) idx = Some de" "nat (rehashidx d) \<le> idx"
    "\<forall>l. nat (rehashidx d) \<le> l \<and> l < idx \<longrightarrow> the (ht_table (ht0 d)) ! l = []"
  shows "\<exists>h0 h1. dictRehash_move (dtype d) de (ht0 d) (ht1 d) = Some (h0, h1) \<and>
    rehash_ok k0 k1 (d\<lparr>ht0 := ht_set h0 idx [], ht1 := h1, rehashidx := int idx + 1\<rparr>) \<and>
    mset (dict_entries (d\<lparr>ht0 := ht_set h0 idx [], ht1 := h1, rehashidx := int idx + 1\<rparr>))
      = mset (dict_entries d)"
proof -
  have live: "ht_live (hashFunction (dtype d)) k0 (ht0 d)" "ht_live (hashFunction (dtype d)) k1 (ht1 d)"
    using assms(1) by (simp_all add: rehash_ok_def)
  obtain h1 where h1: "dictRehash_move (dtype d) de (ht0 d) (ht1 d)
      = Some ((ht0 d)\<lparr>ht_used := ht_used (ht0 d) - word_of_nat (length de)\<rparr>, h1)"
    "ht_live (hashFunction (dtype d)) k1 h1" "mset (ht_entries h1) = mset (ht_entries (ht1 d)) + mset de"
    using dictRehash_move_spec [OF live(2)] by blast
  define h0 where "h0 = (ht0 d)\<lparr>ht_used := ht_used (ht0 d) - word_of_nat (length de)\<rparr>"
  have eq: "ht_set h0 idx [] = (ht_set (ht0 d) idx [])\<lparr>ht_used := ht_used (ht0 d) - word_of_nat (length de)\<rparr>"
    by (simp add: ht_set_def h0_def)
  have live0: "ht_live (hashFunction (dtype d)) k0 (ht_set h0 idx [])"
    and ms: "mset (ht_entries (ht_set h0 idx [])) + mset de = mset (ht_entries (ht0 d))"
    using ht_live_set [OF live(1) assms(2), of "[]"] unfolding eq by simp_all
  have "\<forall>i < idx. i < 2 ^ k0 \<longrightarrow> the (ht_table (ht0 d)) ! i = []"
    using assms(1,4) unfolding rehash_ok_def by (metis not_less)
  then have emp: "\<forall>i < Suc idx. i < 2 ^ k0 \<longrightarrow> the (ht_table (ht_set h0 idx [])) ! i = []"
    using live(1) by (auto simp: ht_set_def h0_def ht_live_def less_Suc_eq nth_list_update)
  show ?thesis
    using h1 live0 ms emp assms(1)
    by (intro exI [of _ h0] exI [of _ h1] conjI)
       (auto simp: h0_def [symmetric] rehash_ok_def dict_entries_def nat_add_distrib ac_simps)
qed


lemma dictRehash_loop_spec:
  assumes "rehash_ok k0 k1 d" "0 < ev \<or> n = 0"
  shows "\<exists>d' st. dictRehash_loop n ev d = Some (d', st) \<and> rehash_ok k0 k1 d' \<and>
    mset (dict_entries d') = mset (dict_entries d) \<and> dtype d' = dtype d \<and> iterators d' = iterators d \<and>
    (ht_used (ht0 d') \<noteq> 0 \<longrightarrow> int (min n 1) + rehashidx d \<le> rehashidx d' \<and> rehashidx d' < 2 ^ k0) \<and>
    (st \<longrightarrow> ht_used (ht0 d') \<noteq> 0)"
  using assms
proof (induction n arbitrary: ev d)
  case 0
  show ?case
  proof (cases "ht_used (ht0 d) = 0")
    case False
    obtain tb j where "ht_table (ht0 d) = Some tb" "length tb = 2 ^ k0" "j < length tb" "tb ! j \<noteq> []"
      "nat (rehashidx d) \<le> j"
      by (rule rehash_ok_nonempty [OF "0.prems"(1) False])
    then show ?thesis using "0.prems" nat_less_power [of "rehashidx d" j k0] by auto
  qed (use "0.prems" in auto)
next
  case (Suc n)
  show ?case
  proof (cases "ht_used (ht0 d) = 0")
    case True
    then show ?thesis using Suc.prems by (simp add: ex_bool_eq)
  next
    case False
    obtain tb j where tb: "ht_table (ht0 d) = Some tb" "length tb = 2 ^ k0" "j < length tb" "tb ! j \<noteq> []"
      "nat (rehashidx d) \<le> j"
      by (rule rehash_ok_nonempty [OF Suc.prems(1) False])
    have sz: "unat (ht_size (ht0 d)) = 2 ^ k0" "0 \<le> rehashidx d"
      using Suc.prems(1) by (simp_all add: rehash_ok_def ht_live_def unat_power2)
    then have guard: "int (unat (ht_size (ht0 d))) > rehashidx d"
      using tb nat_less_power [of "rehashidx d" j k0] by simp
    have "0 < ev" using Suc.prems(2) by simp
    from dictRehash_skip_spec [OF tb(1,3,4,5) this] show ?thesis
    proof (elim disjE exE conjE)
      fix i assume i: "dictRehash_skip (ht0 d) (nat (rehashidx d)) ev = Some (Inl i)"
        "nat (rehashidx d) < i" "i \<le> j" "\<forall>l. nat (rehashidx d) \<le> l \<and> l < i \<longrightarrow> tb ! l = []"
      have "\<forall>l < i. l < 2 ^ k0 \<longrightarrow> tb ! l = []"
        using Suc.prems(1) i(4) tb(1) unfolding rehash_ok_def by (metis not_less option.sel)
      then have "rehash_ok k0 k1 (d\<lparr>rehashidx := int i\<rparr>)"
        using Suc.prems(1) tb by (simp add: rehash_ok_def)
      then show ?thesis
        using i tb False guard sz by (auto simp: dict_entries_def)
    next
      fix i ev' assume i: "dictRehash_skip (ht0 d) (nat (rehashidx d)) ev = Some (Inr (i, ev'))"
        "nat (rehashidx d) \<le> i" "i \<le> j" "tb ! i \<noteq> []" "0 < ev'"
        "\<forall>l. nat (rehashidx d) \<le> l \<and> l < i \<longrightarrow> tb ! l = []"
      have get: "ht_get (ht0 d) i = Some (tb ! i)" using tb i by (simp add: ht_get_def)
      obtain h0 h1 d1 where d1: "dictRehash_move (dtype d) (tb ! i) (ht0 d) (ht1 d) = Some (h0, h1)"
        "d1 = d\<lparr>ht0 := ht_set h0 i [], ht1 := h1, rehashidx := int i + 1\<rparr>"
        "rehash_ok k0 k1 d1" "mset (dict_entries d1) = mset (dict_entries d)"
        using rehash_move_bucket [OF Suc.prems(1) get i(2)] i(6) unfolding tb(1) option.sel by blast
      have step: "dictRehash_loop (Suc n) ev d = dictRehash_loop n ev' d1"
        using False guard i(1) get d1 by simp
      have "dtype d1 = dtype d" "iterators d1 = iterators d" "rehashidx d + 1 \<le> rehashidx d1"
        using d1(2) i(2) by simp_all
      then show ?thesis
        unfolding step using Suc.IH [OF d1(3), of ev'] i(5) d1(4) by fastforce
    qed
  qed
qed


lemma ht_entries_empty:
  assumes "ht_live hf k ht" "ht_used ht = 0" "length (ht_entries ht) \<le> DICT_MAX"
  shows "ht_entries ht = []"
proof -
  have "unat (ht_used ht) = length (ht_entries ht)"
    using assms(1,3) by (auto simp: ht_live_def ht_entries_def unat_of_nat DICT_MAX_def)
  then show ?thesis using assms(2) by simp
qed

lemma dictRehash_spec:
  assumes "dict_rel d m" "dictIsRehashing d" "0 < n"
  shows "\<exists>d'. dictRehash d n = Some (d', dictIsRehashing d') \<and> dict_rel d' m \<and> iterators d' = iterators d \<and>
    dtype d' = dtype d \<and> ht0 d' \<noteq> dictReset \<and>
    (dictIsRehashing d' \<longrightarrow> rehashidx d < rehashidx d' \<and> rehashidx d' < int (unat (ht_size (ht0 d'))) \<and>
      ht_size (ht0 d') = ht_size (ht0 d))"
proof -
  have ok: "dict_tables_ok d" using assms(1) by (simp add: dict_rel_def dict_ok_def)
  then obtain k0 k1 where k: "rehash_ok k0 k1 d" using rehash_ok_iff assms(2) by blast
  obtain d1 st where d1: "dictRehash_loop n (int n * 10) d = Some (d1, st)" "rehash_ok k0 k1 d1"
    "mset (dict_entries d1) = mset (dict_entries d)" "dtype d1 = dtype d" "iterators d1 = iterators d"
    "ht_used (ht0 d1) \<noteq> 0 \<Longrightarrow> rehashidx d + 1 \<le> rehashidx d1 \<and> rehashidx d1 < 2 ^ k0"
    "st \<Longrightarrow> ht_used (ht0 d1) \<noteq> 0"
    using dictRehash_loop_spec [OF k, of "int n * 10" n] assms(3)
    by (auto simp: Suc_leI min.absorb2 add.commute)
  have live: "ht_live (hashFunction (dtype d)) k0 (ht0 d)" "ht_live (hashFunction (dtype d1)) k0 (ht0 d1)"
    "ht_live (hashFunction (dtype d1)) k1 (ht1 d1)"
    using k d1(2) by (simp_all add: rehash_ok_def)
  have rel: "dict_rel d1 m"
    using dict_rel_transfer [OF assms(1) d1(3,4)] rehash_ok_iff d1(2) by blast
  show ?thesis
  proof (cases "ht_used (ht0 d1) = 0")
    case True
    have "length (ht_entries (ht0 d1)) \<le> DICT_MAX"
      using rel by (simp add: dict_rel_def dict_ok_def dict_entries_def)
    then have e: "ht_entries (ht0 d1) = []" using ht_entries_empty live(2) True by blast
    define d2 where "d2 = d1\<lparr>ht0 := ht1 d1, ht1 := dictReset, rehashidx := - 1\<rparr>"
    have "dict_tables_ok d2"
      using live(3) by (auto simp: d2_def dict_tables_ok_def dictIsRehashing_def)
    moreover have "mset (dict_entries d2) = mset (dict_entries d1)"
      using e by (simp add: d2_def dict_entries_def)
    ultimately have "dict_rel d2 m" using dict_rel_transfer [OF rel, of d2] by (simp add: d2_def)
    moreover have "dictRehash d n = Some (d2, False)"
      using assms(2) d1(1,7) True by (auto simp: dictRehash_def d2_def)
    ultimately show ?thesis
      using d1(4,5) live_not_reset [OF live(3)] by (simp add: d2_def dictIsRehashing_def)
  next
    case False
    have "dictRehash d n = Some (d1, True)"
      using assms(2) d1(1) False by (simp add: dictRehash_def)
    moreover have "dictIsRehashing d1" using d1(2) rehash_ok_iff by blast
    moreover have "ht_size (ht0 d1) = ht_size (ht0 d)" "int (unat (ht_size (ht0 d1))) = 2 ^ k0"
      using live by (simp_all add: ht_live_def unat_power2)
    ultimately show ?thesis
      using rel d1(4,5,6) False live_not_reset [OF live(2)] by simp
  qed
qed

lemma rehash_if_spec:
  assumes "dict_rel d m"
  shows "\<exists>d'. rehash_if d = Some d' \<and> dict_rel d' m \<and> iterators d' = iterators d \<and> dtype d' = dtype d \<and>
    (ht0 d \<noteq> dictReset \<longrightarrow> ht0 d' \<noteq> dictReset)"
proof (cases "dictIsRehashing d \<and> iterators d = 0")
  case True
  obtain d' where "dictRehash d 1 = Some (d', dictIsRehashing d')" "dict_rel d' m"
    "iterators d' = iterators d" "dtype d' = dtype d" "ht0 d' \<noteq> dictReset"
    using dictRehash_spec [OF assms, of 1] True by auto
  then show ?thesis using True by (simp add: rehash_if_def dictRehashStep_def)
next
  case False
  then show ?thesis using assms by (auto simp: rehash_if_def dictRehashStep_def)
qed


subsection \<open>Resizing\<close>

declare dictNextPower_loop.simps [simp del]

lemma power2_le_word: "k \<le> 60 \<Longrightarrow> (sz :: u64) \<le> 2 ^ k \<longleftrightarrow> unat sz \<le> 2 ^ k"
  by (simp add: word_le_nat_alt unat_power2)

lemma dictNextPower_loop_spec:
  assumes "j \<le> 60" "sz \<le> 2 ^ 60"
  shows "\<exists>k. dictNextPower_loop (2 ^ j) sz = 2 ^ k \<and> j \<le> k \<and> k \<le> 60 \<and> unat sz \<le> 2 ^ k"
  using assms(1)
proof (induction "60 - j" arbitrary: j)
  case 0
  then have "j = 60" by simp
  then show ?case using assms(2)
    by (subst dictNextPower_loop.simps) (auto simp: word_le_nat_alt intro!: exI [of _ 60])
next
  case (Suc n)
  show ?case
  proof (cases "sz \<le> 2 ^ j")
    case True
    then show ?thesis using Suc.prems
      by (subst dictNextPower_loop.simps) (auto simp: power2_le_word)
  next
    case False
    have "unat (2 ^ j :: u64) = 2 ^ j" using Suc.prems by (rule unat_power2)
    moreover have "(2 :: nat) ^ j \<le> 2 ^ 60" using Suc.prems by (rule power_increasing) simp
    ultimately have "(2 :: u64) ^ j \<noteq> 0" "\<not> (2 :: u64) ^ j \<ge> 2 ^ 63"
      using Suc.prems by (auto simp: word_le_nat_alt)
    then have "dictNextPower_loop (2 ^ j) sz = dictNextPower_loop (2 ^ Suc j) sz"
      using False by (subst dictNextPower_loop.simps) (simp add: mult.commute)
    then show ?thesis using Suc.hyps(1) [of "Suc j"] Suc.hyps(2) Suc.prems by fastforce
  qed
qed

lemma dictNextPower_spec:
  assumes "sz \<le> 2 ^ 60"
  shows "\<exists>k. dictNextPower sz = 2 ^ k \<and> 2 \<le> k \<and> k \<le> 60 \<and> unat sz \<le> 2 ^ k"
proof -
  have "\<not> sz \<ge> 2 ^ 63 - 1" using assms by (auto simp: word_le_nat_alt)
  then show ?thesis
    using dictNextPower_loop_spec [of 2 sz] assms by (simp add: dictNextPower_def DICT_HT_INITIAL_SIZE_def)
qed

lemma new_table_live:
  assumes "2 \<le> k" "k \<le> 60"
  shows "ht_live hf k \<lparr>ht_table = Some (replicate (unat (2 ^ k * 8 :: u64) div 8) []), ht_size = 2 ^ k,
      ht_sizemask = 2 ^ k - 1, ht_used = 0\<rparr>"
proof -
  have "(2 :: nat) ^ k \<le> 2 ^ 60" using assms(2) by (rule power_increasing) simp
  then have "unat (2 ^ k * 8 :: u64) = 2 ^ k * 8"
    by (simp add: unat_word_ariths unat_power2 [OF assms(2)])
  then show ?thesis using assms by (simp add: ht_live_def mask_eq_decr_exp)
qed

lemma new_table_entries:
  "ht_entries \<lparr>ht_table = Some (replicate n []), ht_size = s, ht_sizemask = q, ht_used = u\<rparr> = []"
  by (simp add: ht_entries_def)

lemma dictExpand_spec:
  assumes "dict_rel d m" "sz \<le> 2 ^ 60"
  shows "\<exists>d'. dictExpand d sz = (d', \<not> dictIsRehashing d \<and> ht_used (ht0 d) \<le> sz \<and> dictNextPower sz \<noteq> ht_size (ht0 d)) \<and>
    dict_rel d' m \<and> dtype d' = dtype d \<and> iterators d' = iterators d \<and>
    (snd (dictExpand d sz) \<longrightarrow> ht0 d' \<noteq> dictReset)"
proof (cases "\<not> dictIsRehashing d \<and> ht_used (ht0 d) \<le> sz \<and> dictNextPower sz \<noteq> ht_size (ht0 d)")
  case False
  then have "dictExpand d sz = (d, False)" by (auto simp: dictExpand_def Let_def not_less)
  then show ?thesis using False assms(1) by auto
next
  case True
  obtain k where k: "dictNextPower sz = 2 ^ k" "2 \<le> k" "k \<le> 60" using dictNextPower_spec [OF assms(2)] by blast
  define n :: "('a, 'b) dictht" where "n = \<lparr>ht_table = Some (replicate (unat (2 ^ k * 8 :: u64) div 8) []),
    ht_size = 2 ^ k, ht_sizemask = 2 ^ k - 1, ht_used = 0\<rparr>"
  have n: "ht_live hf k n" "ht_entries n = []" for hf
    using new_table_live [OF k(2,3)] by (simp_all add: n_def new_table_entries)
  have ok: "dict_tables_ok d" using assms(1) by (simp add: dict_rel_def dict_ok_def)
  show ?thesis
  proof (cases "ht_table (ht0 d) = None")
    case none: True
    then have reset: "ht0 d = dictReset"
      using ok True by (auto simp: dict_tables_ok_def ht_live_def)
    define d' where "d' = d\<lparr>ht0 := n\<rparr>"
    have eq: "dictExpand d sz = (d', True)"
      using True none k(1) by (auto simp: dictExpand_def Let_def d'_def n_def)
    have "dict_tables_ok d'"
      using ok n(1) True by (auto simp: d'_def dict_tables_ok_def dictIsRehashing_def)
    moreover have "dict_entries d' = dict_entries d" using n reset by (simp add: d'_def dict_entries_def)
    ultimately have "dict_rel d' m" using dict_rel_transfer [OF assms(1), of d'] by (simp add: d'_def)
    then show ?thesis using eq True live_not_reset [OF n(1)] by (auto simp: d'_def)
  next
    case some: False
    define d' where "d' = d\<lparr>ht1 := n, rehashidx := 0\<rparr>"
    have eq: "dictExpand d sz = (d', True)"
      using True some k(1) by (auto simp: dictExpand_def Let_def d'_def n_def)
    have live: "\<exists>k. ht_live (hashFunction (dtype d)) k (ht0 d)" "ht1 d = dictReset"
      using ok True some by (auto simp: dict_tables_ok_def dictReset_def)
    then have "dict_tables_ok d'" using n(1) by (auto simp: d'_def dict_tables_ok_def dictIsRehashing_def)
    moreover have "dict_entries d' = dict_entries d" using n live by (simp add: d'_def dict_entries_def)
    ultimately have "dict_rel d' m" using dict_rel_transfer [OF assms(1), of d'] by (simp add: d'_def)
    then show ?thesis using eq True live live_not_reset by (auto simp: d'_def)
  qed
qed


lemma unat_ht_used:
  assumes "ht_live hf k ht" "length (ht_entries ht) \<le> DICT_MAX"
  shows "unat (ht_used ht) = length (ht_entries ht)"
  using assms by (auto simp: ht_live_def ht_entries_def unat_of_nat DICT_MAX_def)

lemma dictExpandIfNeeded_spec:
  assumes "dict_rel d m"
  shows "\<exists>d'. dictExpandIfNeeded can_resize d = (d', True) \<and> dict_rel d' m \<and> dtype d' = dtype d \<and>
    iterators d' = iterators d \<and> ht0 d' \<noteq> dictReset"
proof -
  have ok: "dict_tables_ok d" and len: "length (dict_entries d) \<le> DICT_MAX"
    using assms by (simp_all add: dict_rel_def dict_ok_def)
  consider "dictIsRehashing d" | "\<not> dictIsRehashing d" "ht_size (ht0 d) = 0"
    | k where "\<not> dictIsRehashing d" "ht_live (hashFunction (dtype d)) k (ht0 d)" "ht_size (ht0 d) \<noteq> 0"
    using ok by (auto simp: dict_tables_ok_def dictReset_def split: if_splits)
  then show ?thesis
  proof cases
    case 1
    then show ?thesis using ok assms live_not_reset
      by (auto simp: dictExpandIfNeeded_def dict_tables_ok_def)
  next
    case 2
    then have "ht0 d = dictReset" using ok by (auto simp: dict_tables_ok_def ht_live_def unat_power2 simp flip: unat_eq_zero)
    moreover have "dictNextPower DICT_HT_INITIAL_SIZE \<noteq> 0"
      by (simp add: dictNextPower_def DICT_HT_INITIAL_SIZE_def dictNextPower_loop.simps)
    ultimately show ?thesis
      using 2 dictExpand_spec [OF assms, of DICT_HT_INITIAL_SIZE]
      by (auto simp: dictExpandIfNeeded_def DICT_HT_INITIAL_SIZE_def dictReset_def)
  next
    case 3
    have used: "unat (ht_used (ht0 d)) = length (ht_entries (ht0 d))" "length (ht_entries (ht0 d)) \<le> DICT_MAX"
      using unat_ht_used [OF 3(2)] len by (simp_all add: dict_entries_def)
    show ?thesis
    proof (cases "ht_used (ht0 d) \<ge> ht_size (ht0 d) \<and>
        (can_resize \<or> ht_used (ht0 d) div ht_size (ht0 d) > dict_force_resize_ratio)")
      case False
      then show ?thesis using 3 assms live_not_reset [OF 3(2)] by (auto simp: dictExpandIfNeeded_def)
    next
      case True
      have dbl: "unat (ht_used (ht0 d) * 2) = unat (ht_used (ht0 d)) * 2"
        using used by (simp add: unat_word_ariths DICT_MAX_def)
      then have le: "ht_used (ht0 d) * 2 \<le> 2 ^ 60" "ht_used (ht0 d) \<le> ht_used (ht0 d) * 2"
        using used by (simp_all add: word_le_nat_alt DICT_MAX_def)
      obtain j where j: "dictNextPower (ht_used (ht0 d) * 2) = 2 ^ j" "j \<le> 60" "unat (ht_used (ht0 d)) * 2 \<le> 2 ^ j"
        using dictNextPower_spec [OF le(1)] dbl by auto
      have "unat (ht_size (ht0 d)) \<le> unat (ht_used (ht0 d))" using True by (simp add: word_le_nat_alt)
      moreover have "0 < unat (ht_size (ht0 d))" using 3(3) by (simp add: unat_gt_0)
      ultimately have "unat (ht_size (ht0 d)) < unat (dictNextPower (ht_used (ht0 d) * 2))"
        using j by (simp add: unat_power2)
      then have "dictNextPower (ht_used (ht0 d) * 2) \<noteq> ht_size (ht0 d)" by auto
      then show ?thesis
        using dictExpand_spec [OF assms le(1)] 3 True le(2) by (auto simp: dictExpandIfNeeded_def)
    qed
  qed
qed


subsection \<open>The operations on the map\<close>

lemma map_of_add_entry:
  assumes "distinct (map fst ys)" "mset ys = add_mset (k, v) (mset xs)"
  shows "map_of ys = (map_of xs)(k \<mapsto> v)"
  using map_of_mset_eq [OF assms(1), of "(k, v) # xs"] assms(2) by simp

lemma map_of_remove_entry:
  assumes "distinct (map fst xs)" "add_mset (k, v) (mset ys) = mset xs"
  shows "map_of ys = (map_of xs)(k := None)" "map_of xs k = Some v" "distinct (map fst ys)"
proof -
  have "mset (map fst ((k, v) # ys)) = mset (map fst xs)" using assms(2) by (simp add: mset_map flip: assms(2))
  then have d: "distinct (map fst ((k, v) # ys))"
    using assms(1) mset_eq_imp_distinct_iff by blast
  have m: "map_of xs = (map_of ys)(k \<mapsto> v)" using map_of_add_entry [OF assms(1), of k v ys] assms(2) by simp
  have "map_of ys k = None" using d by (simp add: map_of_eq_None_iff)
  then show "map_of ys = (map_of xs)(k := None)" "map_of xs k = Some v" using m by auto
  show "distinct (map fst ys)" using d by simp
qed

lemma map_of_replace_entry:
  assumes "distinct (map fst xs)" "distinct (map fst ys)" "(k, w) \<in> set xs"
    "add_mset (k, w) (mset ys) = add_mset (k, v) (mset xs)"
  shows "map_of ys = (map_of xs)(k \<mapsto> v)"
proof -
  obtain R where R: "mset xs = add_mset (k, w) R" using assms(3) by (metis mset_add set_mset_mset)
  obtain rs where rs: "R = mset rs" by (metis ex_mset)
  have "mset ys = add_mset (k, v) (mset rs)" using assms(4) R rs by (simp add: add_mset_commute)
  then have "map_of ys = (map_of rs)(k \<mapsto> v)" using map_of_add_entry [OF assms(2)] by blast
  moreover have "map_of xs = (map_of rs)(k \<mapsto> w)" using map_of_add_entry [OF assms(1)] R rs by blast
  ultimately show ?thesis by simp
qed

text \<open>Replacing the chain of a bucket.\<close>

lemma set_chain_ok:
  assumes "dict_tables_ok d" "ht0 d \<noteq> dictReset" "table \<le> add_table d"
    and "ht_get (ht_of d table) i = Some c"
    and "\<forall>e \<in> set c'. unat (hashFunction (dtype d) (fst e) AND ht_sizemask (ht_of d table)) = i"
    and "u + word_of_nat (length c) = ht_used (ht_of d table) + word_of_nat (length c')"
    and "c' \<noteq> [] \<Longrightarrow> c = [] \<Longrightarrow> table = add_table d"
    and "d' = set_ht d table ((ht_set (ht_of d table) i c')\<lparr>ht_used := u\<rparr>)"
  shows "dict_tables_ok d'" "mset (dict_entries d') + mset c = mset (dict_entries d) + mset c'"
proof -
  obtain k where k: "ht_live (hashFunction (dtype d)) k (ht_of d table)"
    using ok_live [OF assms(1-3)] by blast
  then have "ht_sizemask (ht_of d table) = mask k" by (simp add: ht_live_def)
  note new = ht_live_set [OF k assms(4) assms(5) [unfolded this] assms(6)]
  then show "mset (dict_entries d') + mset c = mset (dict_entries d) + mset c'"
    using assms(8) by (auto simp: set_ht_def ht_of_def dict_entries_def ac_simps)
  obtain tb where tb: "ht_table (ht_of d table) = Some tb" "i < length tb" "c = tb ! i"
    using assms(4) by (auto simp: ht_get_def split: if_splits Option.bind_splits)
  show "dict_tables_ok d'"
  proof (cases "dictIsRehashing d \<and> table = 0")
    case True
    have "\<forall>j < nat (rehashidx d). j < length tb \<longrightarrow> tb[i := c'] ! j = []"
    proof (intro allI impI)
      fix j assume j: "j < nat (rehashidx d)" "j < length tb"
      then have "tb ! j = []" using assms(1) True tb(1) by (simp add: dict_tables_ok_def ht_of_def)
      then show "tb[i := c'] ! j = []"
        using assms(7) tb j True by (cases "j = i") (auto simp: add_table_def)
    qed
    then show ?thesis
      using assms(1,8) True new(1) tb
      by (auto simp: set_ht_def dict_tables_ok_def dictIsRehashing_def ht_of_def ht_set_def)
  next
    case False
    then show ?thesis
      using assms(1,3,8) new(1)
      by (auto simp: set_ht_def dict_tables_ok_def dictIsRehashing_def ht_of_def add_table_def split: if_splits)
  qed
qed

definition at_key :: "('k, 'v) dict \<Rightarrow> loc \<Rightarrow> 'k \<Rightarrow> bool" where
  "at_key d l key \<longleftrightarrow> (case l of (table, i, n) \<Rightarrow> table \<le> add_table d \<and>
     i = unat (hashFunction (dtype d) key AND ht_sizemask (ht_of d table)) \<and>
     (\<exists>c. ht_get (ht_of d table) i = Some c \<and> n < length c \<and> fst (c ! n) = key))"

lemma chain_placed:
  assumes "dict_tables_ok d" "ht0 d \<noteq> dictReset" "table \<le> add_table d"
    "ht_get (ht_of d table) i = Some c" "e \<in> set c"
  shows "unat (hashFunction (dtype d) (fst e) AND ht_sizemask (ht_of d table)) = i"
proof -
  obtain k where k: "ht_live (hashFunction (dtype d)) k (ht_of d table)"
    using ok_live [OF assms(1-3)] by blast
  then show ?thesis using ht_live_placed [OF k assms(4,5)] by (simp add: ht_live_def)
qed

lemma chain_entries:
  assumes "dict_tables_ok d" "ht0 d \<noteq> dictReset" "table \<le> add_table d"
    "ht_get (ht_of d table) i = Some c"
  shows "set c \<subseteq> set (dict_entries d)"
proof -
  obtain tb where "ht_table (ht_of d table) = Some tb" "i < length tb" "c = tb ! i"
    using assms(4) by (auto simp: ht_get_def split: if_splits Option.bind_splits)
  then have "set c \<subseteq> set (ht_entries (ht_of d table))" by (auto simp: ht_entries_def dest: nth_mem)
  then show ?thesis by (auto simp: dict_entries_def ht_of_def split: if_splits)
qed

lemma entry_at_key:
  assumes "dict_rel d m" "ht0 d \<noteq> dictReset" "at_key d l key"
  shows "\<exists>v. entry_at d l = Some (key, v) \<and> m key = Some v"
proof -
  obtain table i n c where l: "l = (table, i, n)" "table \<le> add_table d" "ht_get (ht_of d table) i = Some c"
    "n < length c" "fst (c ! n) = key"
    using assms(3) by (cases l) (auto simp: at_key_def)
  have ok: "dict_tables_ok d" "distinct (map fst (dict_entries d))" "m = map_of (dict_entries d)"
    using assms(1) by (simp_all add: dict_rel_def dict_ok_def)
  have "c ! n \<in> set (dict_entries d)" using chain_entries [OF ok(1) assms(2) l(2,3)] l(4) by auto
  then have "m key = Some (snd (c ! n))"
    using ok(2,3) l(5) by (metis map_of_eq_Some_iff prod.collapse)
  then show ?thesis using l by (auto simp: entry_at_def intro: prod_eqI)
qed

lemma dict_locate_map:
  assumes "dict_rel d m" "ht0 d \<noteq> dictReset"
  shows "\<exists>r idx. dict_locate d key = Some (r, idx) \<and>
    (case r of Some l \<Rightarrow> at_key d l key \<and> m key \<noteq> None
     | None \<Rightarrow> m key = None \<and> idx = unat (hashFunction (dtype d) key AND ht_sizemask (ht_of d (add_table d))))"
proof -
  have ok: "dict_tables_ok d" "dictType_ok (dtype d)" "m = map_of (dict_entries d)"
    using assms(1) by (simp_all add: dict_rel_def dict_ok_def)
  obtain r idx where r: "dict_locate d key = Some (r, idx)" "located d key r idx"
    using dict_locate_spec [OF ok(1,2) assms(2)] by blast
  show ?thesis
  proof (cases r)
    case None
    then show ?thesis using r ok(3) by (force simp: located_def map_of_eq_None_iff)
  next
    case (Some l)
    then have "at_key d l key" using r(2) by (auto simp: located_def at_key_def)
    then show ?thesis using r Some entry_at_key [OF assms] by fastforce
  qed
qed


lemma dictSetVal_spec:
  assumes "dict_rel d m" "ht0 d \<noteq> dictReset" "at_key d l key"
  shows "\<exists>d'. dictSetVal d l v = Some d' \<and> dict_rel d' (m(key \<mapsto> v)) \<and> iterators d' = iterators d"
proof -
  obtain table i n c where l: "l = (table, i, n)" "table \<le> add_table d" "ht_get (ht_of d table) i = Some c"
    "n < length c" "fst (c ! n) = key"
    using assms(3) by (cases l) (auto simp: at_key_def)
  have ok: "dict_tables_ok d" "distinct (map fst (dict_entries d))" "m = map_of (dict_entries d)"
    "dictType_ok (dtype d)" "length (dict_entries d) \<le> DICT_MAX"
    using assms(1) by (simp_all add: dict_rel_def dict_ok_def)
  define c' where "c' = c[n := (key, v)]"
  define d' where "d' = set_ht d table ((ht_set (ht_of d table) i c')\<lparr>ht_used := ht_used (ht_of d table)\<rparr>)"
  have run: "dictSetVal d l v = Some d'"
    using l by (simp add: dictSetVal_def d'_def c'_def ht_set_def)
  have keys: "map fst c' = map fst c"
    using l(4,5) by (auto simp: c'_def map_update list_update_same_conv)
  have pl: "\<forall>e \<in> set c'. unat (hashFunction (dtype d) (fst e) AND ht_sizemask (ht_of d table)) = i"
  proof
    fix e assume "e \<in> set c'"
    then have "fst e \<in> set (map fst c)" unfolding keys [symmetric] by simp
    then obtain e' where "e' \<in> set c" "fst e = fst e'" by auto
    then show "unat (hashFunction (dtype d) (fst e) AND ht_sizemask (ht_of d table)) = i"
      using chain_placed [OF ok(1) assms(2) l(2,3)] by simp
  qed
  have "c \<noteq> []" using l(4) by auto
  note new = set_chain_ok [OF ok(1) assms(2) l(2,3) pl _ _ d'_def]
  have t: "dict_tables_ok d'" "mset (dict_entries d') + mset c = mset (dict_entries d) + mset c'"
    using new \<open>c \<noteq> []\<close> by (simp_all add: c'_def)
  have "mset (map fst (dict_entries d')) + mset (map fst c) = mset (map fst (dict_entries d)) + mset (map fst c')"
    using arg_cong [OF t(2), of "image_mset fst"] by (simp only: image_mset_union mset_map)
  then have ks: "mset (map fst (dict_entries d')) = mset (map fst (dict_entries d))" unfolding keys by simp
  then have dist: "distinct (map fst (dict_entries d'))" using ok(2) mset_eq_imp_distinct_iff by blast
  have len: "length (dict_entries d') = length (dict_entries d)"
    using mset_eq_length [OF ks] by simp
  obtain w where w: "c ! n = (key, w)" using l(5) by (cases "c ! n") auto
  have "mset (dict_entries d') + add_mset (key, w) (mset c - {#(key, w)#})
      = mset (dict_entries d) + add_mset (key, v) (mset c - {#(key, w)#})"
    using t(2) l(4) w nth_mem [OF l(4)] by (simp add: c'_def mset_update)
  then have e: "add_mset (key, w) (mset (dict_entries d')) = add_mset (key, v) (mset (dict_entries d))"
    by simp
  have "(key, w) \<in> set (dict_entries d)"
    using chain_entries [OF ok(1) assms(2) l(2,3)] nth_mem [OF l(4)] w by auto
  then have "map_of (dict_entries d') = m(key \<mapsto> v)"
    using map_of_replace_entry [OF ok(2) dist _ e] ok(3) by simp
  then have "dict_rel d' (m(key \<mapsto> v))"
    using t(1) dist len ok by (simp add: dict_rel_def dict_ok_def d'_def set_ht_def)
  then show ?thesis using run by (auto simp: d'_def set_ht_def)
qed


lemma card_dom_rel: "dict_rel d m \<Longrightarrow> card (dom m) = length (dict_entries d)"
  using distinct_card [of "map fst (dict_entries d)"]
  by (simp add: dict_rel_def dict_ok_def dom_map_of_conv_image_fst)

lemma add_entry_rel:
  assumes "dict_rel d m" "ht0 d \<noteq> dictReset" "m key = None" "card (dom m) < DICT_MAX"
    "table = add_table d" "ht_get (ht_of d table) i = Some c"
    "i = unat (hashFunction (dtype d) key AND ht_sizemask (ht_of d table))"
    "d' = set_ht d table ((ht_set (ht_of d table) i ((key, v) # c))\<lparr>ht_used := ht_used (ht_of d table) + 1\<rparr>)"
  shows "dict_rel d' (m(key \<mapsto> v)) \<and> at_key d' (table, i, 0) key \<and> ht0 d' \<noteq> dictReset"
proof -
  have ok: "dict_tables_ok d" "distinct (map fst (dict_entries d))" "m = map_of (dict_entries d)"
    "dictType_ok (dtype d)" "length (dict_entries d) < DICT_MAX"
    using assms(1,4) card_dom_rel [OF assms(1)] by (simp_all add: dict_rel_def dict_ok_def)
  have le: "table \<le> add_table d" using assms(5) by simp
  have pl: "\<forall>e \<in> set ((key, v) # c). unat (hashFunction (dtype d) (fst e) AND ht_sizemask (ht_of d table)) = i"
    using chain_placed [OF ok(1) assms(2) le assms(6)] assms(7) by simp
  have t: "dict_tables_ok d'" "mset (dict_entries d') = add_mset (key, v) (mset (dict_entries d))"
    using set_chain_ok [OF ok(1) assms(2) le assms(6) pl _ _ assms(8)] assms(5) by simp_all
  have "key \<notin> fst ` set (dict_entries d)" using assms(3) ok(3) by (simp add: map_of_eq_None_iff)
  then have "distinct (map fst ((key, v) # dict_entries d))" using ok(2) by simp
  moreover have "mset (map fst (dict_entries d')) = mset (map fst ((key, v) # dict_entries d))"
    using t(2) by (simp add: mset_map)
  ultimately have dist: "distinct (map fst (dict_entries d'))" using mset_eq_imp_distinct_iff by blast
  have "length (dict_entries d') = Suc (length (dict_entries d))"
    using arg_cong [OF t(2), of size] by simp
  then have "dict_rel d' (m(key \<mapsto> v))"
    using t dist ok map_of_add_entry [OF dist t(2)] assms(8)
    by (simp add: dict_rel_def dict_ok_def set_ht_def)
  moreover have "at_key d' (table, i, 0) key"
    using assms(5-8) by (auto simp: at_key_def set_ht_def ht_of_def add_table_def dictIsRehashing_def
        ht_get_def ht_set_def split: if_splits Option.bind_splits)
  moreover have "ht0 d' \<noteq> dictReset"
  proof (cases "table = 0")
    case True
    then obtain tb where "ht_table (ht0 d) = Some tb"
      using assms(6) by (auto simp: ht_get_def ht_of_def split: Option.bind_splits)
    then have "ht_table (ht0 d') \<noteq> None" using True assms(8) by (simp add: set_ht_def ht_of_def ht_set_def)
    then show ?thesis by auto
  qed (use assms(2,8) in \<open>simp add: set_ht_def\<close>)
  ultimately show ?thesis by blast
qed


lemma dictAddRaw_spec:
  assumes "dict_rel d m" "card (dom m) < DICT_MAX"
  shows "\<exists>d' l. dictAddRaw can_resize junk d key = Some (d', if m key = None then Inr l else Inl (Some l)) \<and>
    dict_rel d' (if m key = None then m(key \<mapsto> junk) else m) \<and> at_key d' l key \<and> ht0 d' \<noteq> dictReset \<and>
    iterators d' = iterators d"
proof -
  obtain d1 where d1: "rehash_if d = Some d1" "dict_rel d1 m" "iterators d1 = iterators d"
    using rehash_if_spec [OF assms(1)] by blast
  obtain d2 where d2: "dictExpandIfNeeded can_resize d1 = (d2, True)" "dict_rel d2 m" "ht0 d2 \<noteq> dictReset"
    "iterators d2 = iterators d"
    using dictExpandIfNeeded_spec [OF d1(2)] d1(3) by metis
  obtain r idx where r: "dict_locate d2 key = Some (r, idx)"
    "case r of Some l \<Rightarrow> at_key d2 l key \<and> m key \<noteq> None
     | None \<Rightarrow> m key = None \<and> idx = unat (hashFunction (dtype d2) key AND ht_sizemask (ht_of d2 (add_table d2)))"
    using dict_locate_map [OF d2(2,3)] by blast
  show ?thesis
  proof (cases r)
    case (Some l)
    then show ?thesis using d1 d2 r by (cases l) (auto simp: dictAddRaw_def dictKeyIndex_def)
  next
    case None
    let ?t = "add_table d2"
    have "dict_tables_ok d2" using d2(2) by (simp add: dict_rel_def dict_ok_def)
    then obtain k where "ht_live (hashFunction (dtype d2)) k (ht_of d2 ?t)" using ok_live d2(3) by blast
    then obtain c where c: "ht_get (ht_of d2 ?t) idx = Some c" using ht_live_get r(2) None by fastforce
    define d3 where "d3 = set_ht d2 ?t ((ht_set (ht_of d2 ?t) idx ((key, junk) # c))\<lparr>ht_used := ht_used (ht_of d2 ?t) + 1\<rparr>)"
    have "dictAddRaw can_resize junk d key = Some (d3, Inr (?t, idx, 0))"
      using d1 d2 r c None by (simp add: dictAddRaw_def dictKeyIndex_def d3_def add_table_def ht_set_def)
    moreover have "dict_rel d3 (m(key \<mapsto> junk)) \<and> at_key d3 (?t, idx, 0) key \<and> ht0 d3 \<noteq> dictReset"
      using add_entry_rel [OF d2(2,3) _ assms(2) refl c _ d3_def] r(2) None by simp
    ultimately show ?thesis using r(2) None d2(4) by (auto simp: d3_def set_ht_def)
  qed
qed

lemma dictAdd_spec:
  assumes "dict_rel d m" "card (dom m) < DICT_MAX"
  shows "\<exists>d'. dictAdd can_resize junk d key v = Some (d', m key = None) \<and>
    dict_rel d' (if m key = None then m(key \<mapsto> v) else m) \<and> iterators d' = iterators d"
proof -
  obtain d1 l where d1: "dictAddRaw can_resize junk d key = Some (d1, if m key = None then Inr l else Inl (Some l))"
    "dict_rel d1 (if m key = None then m(key \<mapsto> junk) else m)" "at_key d1 l key" "ht0 d1 \<noteq> dictReset"
    "iterators d1 = iterators d"
    using dictAddRaw_spec [OF assms] by blast
  then show ?thesis using dictSetVal_spec [OF d1(2,4,3), of v] by (auto simp: dictAdd_def)
qed

lemma dictReplace_spec:
  assumes "dict_rel d m" "card (dom m) < DICT_MAX"
  shows "\<exists>d'. dictReplace can_resize junk d key v = Some (d', m key = None) \<and>
    dict_rel d' (m(key \<mapsto> v)) \<and> iterators d' = iterators d"
proof -
  obtain d1 l where d1: "dictAddRaw can_resize junk d key = Some (d1, if m key = None then Inr l else Inl (Some l))"
    "dict_rel d1 (if m key = None then m(key \<mapsto> junk) else m)" "at_key d1 l key" "ht0 d1 \<noteq> dictReset"
    "iterators d1 = iterators d"
    using dictAddRaw_spec [OF assms] by blast
  then show ?thesis using dictSetVal_spec [OF d1(2,4,3), of v] by (auto simp: dictReplace_def)
qed

lemma dictSize_zero:
  assumes "dict_rel d m"
  shows "dictSize d = 0 \<longleftrightarrow> dict_entries d = []"
    and "ht_used (ht0 d) = 0 \<and> ht_used (ht1 d) = 0 \<longleftrightarrow> dict_entries d = []"
proof -
  have len: "length (ht_entries (ht0 d)) + length (ht_entries (ht1 d)) \<le> DICT_MAX" and t: "dict_tables_ok d"
    using assms by (simp_all add: dict_rel_def dict_ok_def dict_entries_def)
  have "unat (ht_used ht) = length (ht_entries ht)" if "ht = dictReset \<or> (\<exists>k. ht_live (hashFunction (dtype d)) k ht)"
    "length (ht_entries ht) \<le> DICT_MAX" for ht
    using that unat_ht_used by auto
  then have u: "unat (ht_used (ht0 d)) = length (ht_entries (ht0 d))" "unat (ht_used (ht1 d)) = length (ht_entries (ht1 d))"
    using t order_trans [OF le_add1 len] order_trans [OF le_add2 len]
    by (auto simp: dict_tables_ok_def split: if_splits)
  then have "unat (dictSize d) = length (dict_entries d)"
    using len by (simp add: dictSize_def dict_entries_def unat_word_ariths DICT_MAX_def)
  then show "dictSize d = 0 \<longleftrightarrow> dict_entries d = []" by (metis length_0_conv unat_eq_zero)
  show "ht_used (ht0 d) = 0 \<and> ht_used (ht1 d) = 0 \<longleftrightarrow> dict_entries d = []"
    using u by (metis append_is_Nil_conv dict_entries_def length_0_conv unat_eq_zero)
qed

lemma not_reset: "dict_rel d m \<Longrightarrow> dict_entries d \<noteq> [] \<Longrightarrow> ht0 d \<noteq> dictReset"
  using live_not_reset by (fastforce simp: dict_rel_def dict_ok_def dict_tables_ok_def dict_entries_def split: if_splits)

lemma dictFind_spec:
  assumes "dict_rel d m"
  shows "\<exists>d' r. dictFind d key = Some (d', r) \<and> dict_rel d' m \<and> iterators d' = iterators d \<and>
    (case r of None \<Rightarrow> m key = None | Some l \<Rightarrow> \<exists>v. entry_at d' l = Some (key, v) \<and> m key = Some v)"
proof (cases "dict_entries d = []")
  case True
  then show ?thesis using assms dictSize_zero(1) [OF assms] by (auto simp: dictFind_def dict_rel_def)
next
  case False
  obtain d1 where d1: "rehash_if d = Some d1" "dict_rel d1 m" "ht0 d1 \<noteq> dictReset" "iterators d1 = iterators d"
    using rehash_if_spec [OF assms] not_reset [OF assms False] by blast
  obtain r idx where r: "dict_locate d1 key = Some (r, idx)"
    "case r of Some l \<Rightarrow> at_key d1 l key \<and> m key \<noteq> None | None \<Rightarrow> m key = None \<and> 
       idx = unat (hashFunction (dtype d1) key AND ht_sizemask (ht_of d1 (add_table d1)))"
    using dict_locate_map [OF d1(2,3)] by blast
  then have "dictFind d key = Some (d1, r)"
    using d1(1) False dictSize_zero(1) [OF assms] by (simp add: dictFind_def)
  then show ?thesis using d1 r(2) entry_at_key [OF d1(2,3)] by (cases r) simp_all
qed

lemma dictFetchValue_spec:
  assumes "dict_rel d m"
  shows "\<exists>d'. dictFetchValue d key = Some (d', m key) \<and> dict_rel d' m \<and> iterators d' = iterators d"
  using dictFind_spec [OF assms, of key] by (auto simp: dictFetchValue_def split: option.splits)

lemma remove_entry_rel:
  assumes "dict_rel d m" "ht0 d \<noteq> dictReset" "table \<le> add_table d" "ht_get (ht_of d table) i = Some c"
    "n < length c" "c ! n = (key, w)"
    "d' = set_ht d table ((ht_set (ht_of d table) i (take n c @ drop (n + 1) c))
      \<lparr>ht_used := ht_used (ht_of d table) - 1\<rparr>)"
  shows "dict_rel d' (m(key := None)) \<and> m key = Some w"
proof -
  let ?c = "take n c @ drop (n + 1) c"
  have ok: "dict_tables_ok d" "distinct (map fst (dict_entries d))" "m = map_of (dict_entries d)"
    "dictType_ok (dtype d)" "length (dict_entries d) \<le> DICT_MAX"
    using assms(1) by (simp_all add: dict_rel_def dict_ok_def)
  have c: "c = take n c @ (key, w) # drop (n + 1) c" using id_take_nth_drop [OF assms(5)] assms(6) by simp
  have pl: "\<forall>e \<in> set ?c. unat (hashFunction (dtype d) (fst e) AND ht_sizemask (ht_of d table)) = i"
    using chain_placed [OF ok(1) assms(2,3,4)] by (auto dest: in_set_takeD in_set_dropD)
  have u: "ht_used (ht_of d table) - 1 + word_of_nat (length c) = ht_used (ht_of d table) + word_of_nat (length ?c)"
    using arg_cong [OF c, of length] by simp
  have "c \<noteq> []" using assms(5) by auto
  then have t: "dict_tables_ok d'" "mset (dict_entries d') + mset c = mset (dict_entries d) + mset ?c"
    using set_chain_ok [OF ok(1) assms(2,3,4) pl u _ assms(7)] by blast+
  have "mset c = add_mset (key, w) (mset ?c)" using arg_cong [OF c, of mset] by simp
  then have e: "add_mset (key, w) (mset (dict_entries d')) = mset (dict_entries d)" using t(2) by simp
  have "size (add_mset (key, w) (mset (dict_entries d'))) = size (mset (dict_entries d))" by (simp only: e)
  then have "length (dict_entries d') < length (dict_entries d)" by simp
  then show ?thesis
    using map_of_remove_entry [OF ok(2) e] t(1) ok assms(7)
    by (simp add: dict_rel_def dict_ok_def set_ht_def)
qed

lemma dictGenericDelete_spec:
  assumes "dict_rel d m"
  shows "\<exists>d'. dictGenericDelete d key = Some (d', map_option (\<lambda>v. (key, v)) (m key)) \<and>
    dict_rel d' (m(key := None)) \<and> iterators d' = iterators d"
proof (cases "dict_entries d = []")
  case True
  then have "m = Map.empty" using assms by (simp add: dict_rel_def)
  then show ?thesis using assms dictSize_zero(2) [OF assms] True by (auto simp: dictGenericDelete_def fun_upd_idem)
next
  case False
  obtain d1 where d1: "rehash_if d = Some d1" "dict_rel d1 m" "ht0 d1 \<noteq> dictReset" "iterators d1 = iterators d"
    using rehash_if_spec [OF assms] not_reset [OF assms False] by blast
  obtain r idx where r: "dict_locate d1 key = Some (r, idx)"
    "case r of Some l \<Rightarrow> at_key d1 l key \<and> m key \<noteq> None | None \<Rightarrow> m key = None \<and> 
       idx = unat (hashFunction (dtype d1) key AND ht_sizemask (ht_of d1 (add_table d1)))"
    using dict_locate_map [OF d1(2,3)] by blast
  have nz: "\<not> (ht_used (ht0 d) = 0 \<and> ht_used (ht1 d) = 0)" using False dictSize_zero(2) [OF assms] by simp
  show ?thesis
  proof (cases r)
    case None
    then show ?thesis using d1 r nz by (auto simp: dictGenericDelete_def fun_upd_idem)
  next
    case (Some l)
    then obtain table i n c where l: "l = (table, i, n)" "table \<le> add_table d1" "ht_get (ht_of d1 table) i = Some c"
      "n < length c" "fst (c ! n) = key"
      using r(2) by (cases l) (auto simp: at_key_def)
    define d2 where "d2 = set_ht d1 table ((ht_set (ht_of d1 table) i (take n c @ drop (n + 1) c))
      \<lparr>ht_used := ht_used (ht_of d1 table) - 1\<rparr>)"
    obtain w where w: "c ! n = (key, w)" using l(5) by (cases "c ! n") auto
    have "dictGenericDelete d key = Some (d2, Some (key, w))"
      using nz d1(1) r(1) Some l w by (simp add: dictGenericDelete_def d2_def ht_set_def)
    moreover have "dict_rel d2 (m(key := None)) \<and> m key = Some w"
      using remove_entry_rel [OF d1(2,3) l(2,3,4) w d2_def] .
    ultimately show ?thesis using d1(4) by (simp add: d2_def set_ht_def)
  qed
qed

section \<open>Scanning is complete\<close>

text \<open>One step of the reversal: swap neighbouring blocks of \<open>s\<close> bits.\<close>

definition swp :: "nat \<Rightarrow> u64 \<Rightarrow> u64 \<Rightarrow> u64" where
  "swp s msk v = (drop_bit s v AND msk) OR (push_bit s v AND NOT msk)"

lemma rev_loop_step:
  assumes "s2 = 2 * s" "0 < s" "msk XOR push_bit s msk = msk'" "rev_loop s msk' (swp s msk' v) = r"
  shows "rev_loop s2 msk v = r"
  using assms by (subst rev_loop.simps) (simp add: swp_def Let_def)

lemma rev_bits_eq: "rev_bits v = swp 1 0x5555555555555555 (swp 2 0x3333333333333333
  (swp 4 0x0F0F0F0F0F0F0F0F (swp 8 0x00FF00FF00FF00FF (swp 16 0x0000FFFF0000FFFF (swp 32 0x00000000FFFFFFFF v)))))"
  unfolding rev_bits_def
  by (rule rev_loop_step [where s = 32 and msk' = "0x00000000FFFFFFFF"], simp, simp, simp add: mask_eq_exp_minus_1,
      rule rev_loop_step [where s = 16 and msk' = "0x0000FFFF0000FFFF"], simp, simp, simp,
      rule rev_loop_step [where s = 8 and msk' = "0x00FF00FF00FF00FF"], simp, simp, simp,
      rule rev_loop_step [where s = 4 and msk' = "0x0F0F0F0F0F0F0F0F"], simp, simp, simp,
      rule rev_loop_step [where s = 2 and msk' = "0x3333333333333333"], simp, simp, simp,
      rule rev_loop_step [where s = 1 and msk' = "0x5555555555555555"], simp, simp, simp,
      subst rev_loop.simps, simp)

lemma bit_swp: "i < 64 \<Longrightarrow> bit (swp s m v) i = (if bit m i then bit v (i + s) else s \<le> i \<and> bit v (i - s))"
  by (auto simp: swp_def bit_simps add.commute)

lemma bit_rev_bits:
  assumes "i < 64"
  shows "bit (rev_bits v) i = bit v (63 - i)"
proof -
  have eq: "[0..<64] = [0, 1, 2, 3, 4, 5, 6, 7, 8, 9, 10, 11, 12, 13, 14, 15, 16, 17, 18, 19, 20, 21, 22, 23, 24,
    25, 26, 27, 28, 29, 30, 31, 32, 33, 34, 35, 36, 37, 38, 39, 40, 41, 42, 43, 44, 45, 46,
    47, 48, 49, 50, 51, 52, 53, 54, 55, 56, 57, 58, 59, 60, 61, 62, 63]"
    by code_simp
  have "\<forall>i \<in> set [0..<64]. bit (rev_bits v) i = bit v (63 - i)"
    unfolding eq by (simp add: rev_bits_eq bit_swp)
  then show ?thesis using assms by simp
qed

text \<open>The cursor as a number: \<open>rv\<close> reads it from its low end, \<open>top_bits k\<close> its first \<open>k\<close> bits so read,
  which determine the bucket in a table of \<open>2 ^ k\<close> buckets.\<close>

definition rv :: "u64 \<Rightarrow> nat" where
  "rv v = unat (rev_bits v)"

definition top_bits :: "nat \<Rightarrow> u64 \<Rightarrow> nat" where
  "top_bits k v = rv v div 2 ^ (64 - k)"

lemma unat_inj: "unat (a :: 'a::len word) = unat b \<longleftrightarrow> a = b"
  by (simp add: word_eq_iff_unsigned [where ?'a = nat])

lemma top_bits_alt: "top_bits k v = unat (drop_bit (64 - k) (rev_bits v))"
  unfolding top_bits_def rv_def by (metis unat_drop_bit_eq drop_bit_eq_div)

lemma rev_rev [simp]: "rev_bits (rev_bits v) = v"
  by (rule bit_word_eqI) (simp add: bit_rev_bits)

lemma rv_inj: "rv v = rv w \<longleftrightarrow> v = w"
  by (metis rev_rev rv_def unat_inj)

lemma rv_less: "rv v < 2 ^ 64"
  using unsigned_less [of "rev_bits v", where ?'a = nat] by (simp add: rv_def)

lemma rv_zero [simp]: "rv 0 = 0"
proof -
  have "rev_bits 0 = 0" by (rule bit_word_eqI) (simp add: bit_rev_bits)
  then show ?thesis by (simp add: rv_def)
qed

lemma bit_and_mask_eq_iff: "(h :: u64) AND mask k = v AND mask k \<longleftrightarrow> (\<forall>j < min k 64. bit h j = bit v j)"
  by (auto simp: bit_eq_iff bit_simps)

lemma bit_drop_rev: "bit (drop_bit n (rev_bits h)) i \<longleftrightarrow> n + i < 64 \<and> bit h (63 - (n + i))"
proof (cases "n + i < 64")
  case True
  then show ?thesis by (simp add: bit_drop_bit_eq bit_rev_bits)
next
  case False
  then have "\<not> bit (rev_bits h) (n + i)" using bit_imp_le_length [of "rev_bits h" "n + i"] by auto
  then show ?thesis using False by (simp add: bit_drop_bit_eq)
qed

lemma top_bits_eq_iff:
  assumes "k \<le> 64"
  shows "top_bits k h = top_bits k v \<longleftrightarrow> h AND mask k = v AND mask k"
proof -
  have "top_bits k h = top_bits k v \<longleftrightarrow> drop_bit (64 - k) (rev_bits h) = drop_bit (64 - k) (rev_bits v)"
    by (simp add: top_bits_alt unat_inj)
  also have "\<dots> \<longleftrightarrow> (\<forall>i. 64 - k + i < 64 \<longrightarrow> bit h (63 - (64 - k + i)) = bit v (63 - (64 - k + i)))"
  proof -
    have "a = b \<longleftrightarrow> (\<forall>i. bit a i \<longleftrightarrow> bit b i)" for a b :: u64 by (auto intro: bit_word_eqI)
    then show ?thesis by (auto simp: bit_drop_rev)
  qed
  also have "\<dots> \<longleftrightarrow> (\<forall>j < k. bit h j = bit v j)"
  proof safe
    fix j assume "\<forall>i. 64 - k + i < 64 \<longrightarrow> bit h (63 - (64 - k + i)) = bit v (63 - (64 - k + i))"
      and "j < k" "bit h j"
    then show "bit v j" using assms by (auto dest!: spec [of _ "k - Suc j"])
  next
    fix j assume "\<forall>i. 64 - k + i < 64 \<longrightarrow> bit h (63 - (64 - k + i)) = bit v (63 - (64 - k + i))"
      and "j < k" "bit v j"
    then show "bit h j" using assms by (auto dest!: spec [of _ "k - Suc j"])
  qed (use assms in auto)
  also have "\<dots> \<longleftrightarrow> h AND mask k = v AND mask k"
    using assms by (simp add: bit_and_mask_eq_iff min_def)
  finally show ?thesis .
qed

lemma top_bits_less: "k \<le> 64 \<Longrightarrow> top_bits k v < 2 ^ k"
  using rv_less [of v] by (simp add: top_bits_def div_less_iff_less_mult flip: power_add)

lemma top_bits_mono: "a \<le> b \<Longrightarrow> b \<le> 64 \<Longrightarrow> top_bits a v = top_bits b v div 2 ^ (b - a)"
  by (simp add: top_bits_def div_mult2_eq [symmetric] flip: power_add)

lemma unat_or_mask:
  assumes "j \<le> 64"
  shows "unat ((x :: u64) OR mask j) = unat x div 2 ^ j * 2 ^ j + (2 ^ j - 1)"
proof -
  let ?w = "x OR mask j"
  have "drop_bit j ?w = drop_bit j x" by (rule bit_word_eqI) (auto simp: bit_simps)
  then have "unat ?w div 2 ^ j = unat x div 2 ^ j" by (metis drop_bit_eq_div unat_drop_bit_eq)
  moreover have "take_bit j (unat ?w) = mask j"
    using assms by (intro bit_eqI) (auto simp: bit_simps)
  then have "unat ?w mod 2 ^ j = 2 ^ j - 1" by (simp add: take_bit_eq_mod mask_eq_exp_minus_1)
  ultimately show ?thesis by (metis div_mult_mod_eq)
qed

lemma rv_next_cursor:
  assumes "k \<le> 64"
  shows "rv (next_cursor (mask k) v) = ((top_bits k v + 1) mod 2 ^ k) * 2 ^ (64 - k)"
proof -
  have "rev_bits (v OR NOT (mask k)) = rev_bits v OR mask (64 - k)"
    by (rule bit_word_eqI) (auto simp: bit_rev_bits bit_simps)
  then have "rv (next_cursor (mask k) v) = unat ((rev_bits v OR mask (64 - k)) + 1)"
    by (simp add: next_cursor_def rv_def Let_def)
  also have "\<dots> = (unat (rev_bits v OR mask (64 - k)) + 1) mod 2 ^ 64"
    by (simp add: unat_word_ariths)
  also have "unat (rev_bits v OR mask (64 - k)) = top_bits k v * 2 ^ (64 - k) + (2 ^ (64 - k) - 1)"
    by (simp add: unat_or_mask top_bits_def rv_def)
  also have "(top_bits k v * 2 ^ (64 - k) + (2 ^ (64 - k) - 1) + 1) = (top_bits k v + 1) * 2 ^ (64 - k)"
    by simp
  also have "(2 :: nat) ^ 64 = 2 ^ k * 2 ^ (64 - k)" using assms by (simp flip: power_add)
  finally show ?thesis by (simp add: mult_mod_left)
qed

lemma cursor_mask_zero_iff:
  assumes "a \<le> b" "b \<le> 64"
  shows "v AND (mask a XOR mask b) = 0 \<longleftrightarrow> top_bits b v mod 2 ^ (b - a) = 0"
proof -
  have "top_bits b v mod 2 ^ (b - a) = take_bit (b - a) (unat (drop_bit (64 - b) (rev_bits v)))"
    by (simp only: top_bits_alt take_bit_eq_mod)
  also have "\<dots> = 0 \<longleftrightarrow> (\<forall>i < b - a. \<not> bit (drop_bit (64 - b) (rev_bits v)) i)"
    by (auto simp: bit_eq_iff bit_take_bit_iff bit_unsigned_iff)
  also have "\<dots> \<longleftrightarrow> (\<forall>j. a \<le> j \<and> j < b \<longrightarrow> \<not> bit v j)"
  proof safe
    fix j assume "\<forall>i < b - a. \<not> bit (drop_bit (64 - b) (rev_bits v)) i" "a \<le> j" "j < b" "bit v j"
    then show False using assms by (auto simp: bit_drop_rev dest!: spec [of _ "b - Suc j"])
  next
    fix i assume "\<forall>j. a \<le> j \<and> j < b \<longrightarrow> \<not> bit v j" "i < b - a" "bit (drop_bit (64 - b) (rev_bits v)) i"
    then show False using assms by (auto simp: bit_drop_rev dest!: spec [of _ "63 - (64 - b + i)"])
  qed
  also have "\<dots> \<longleftrightarrow> v AND (mask a XOR mask b) = 0"
    using assms bit_imp_le_length [of v] by (auto simp: bit_eq_iff bit_simps not_less) (meson leD)
  finally show ?thesis by simp
qed

text \<open>The entries of a table whose cursor position lies in the bucket of \<open>v\<close>.\<close>

lemma ht_get_scan:
  assumes "ht_live hf k ht"
  shows "\<exists>c. ht_get ht (unat (v AND ht_sizemask ht)) = Some c \<and> set c \<subseteq> set (ht_entries ht) \<and>
    (\<forall>e \<in> set (ht_entries ht). top_bits k (hf (fst e)) = top_bits k v \<longrightarrow> e \<in> set c)"
proof -
  have k: "k \<le> 64" "ht_sizemask ht = mask k" using assms by (simp_all add: ht_live_def)
  obtain c where c: "ht_get ht (unat (v AND ht_sizemask ht)) = Some c" using ht_live_get [OF assms] by blast
  have "e \<in> set c" if e: "e \<in> set (ht_entries ht)" "top_bits k (hf (fst e)) = top_bits k v" for e
  proof -
    have "hf (fst e) AND mask k = v AND mask k" using top_bits_eq_iff [OF k(1)] e(2) by blast
    then show ?thesis
      using ht_live_lookup [OF assms, of "fst e" c "snd e"] c k(2) e(1) by simp
  qed
  moreover have "set c \<subseteq> set (ht_entries ht)"
    using c by (auto simp: ht_get_def ht_entries_def dest: nth_mem split: if_splits Option.bind_splits)
  ultimately show ?thesis using c by blast
qed

definition next_pos :: "nat \<Rightarrow> u64 \<Rightarrow> nat" where
  "next_pos k v = ((top_bits k v + 1) mod 2 ^ k) * 2 ^ (64 - k)"

lemma dictScan_expand_spec:
  assumes "ht_live hf b t1" "a \<le> b" "2 ^ (b - a) - top_bits b v mod 2 ^ (b - a) \<le> fuel"
  shows "\<exists>v' es. dictScan_expand fuel t1 (mask a) (ht_sizemask t1) v = Some (v', es) \<and>
    rv v' = next_pos a v \<and> set es \<subseteq> set (ht_entries t1) \<and>
    (\<forall>e \<in> set (ht_entries t1). top_bits a (hf (fst e)) = top_bits a v \<and> top_bits b v \<le> top_bits b (hf (fst e))
      \<longrightarrow> e \<in> set es)"
  using assms(3)
proof (induction fuel arbitrary: v)
  case 0
  have "top_bits b v mod 2 ^ (b - a) < 2 ^ (b - a)" by simp
  then have "0 < 2 ^ (b - a) - top_bits b v mod 2 ^ (b - a)" by (simp only: zero_less_diff)
  then show ?case using 0 by linarith
next
  case (Suc fuel)
  have b: "b \<le> 64" "ht_sizemask t1 = mask b" using assms(1) by (simp_all add: ht_live_def)
  let ?q = "top_bits b v" and ?p = "2 ^ (b - a) :: nat"
  obtain c where c: "ht_get t1 (unat (v AND ht_sizemask t1)) = Some c" "set c \<subseteq> set (ht_entries t1)"
    "\<And>e. e \<in> set (ht_entries t1) \<Longrightarrow> top_bits b (hf (fst e)) = ?q \<Longrightarrow> e \<in> set c"
    using ht_get_scan [OF assms(1), of v] by blast
  define v' where "v' = next_cursor (mask b) v"
  have rv': "rv v' = ((?q + 1) mod 2 ^ b) * 2 ^ (64 - b)"
    using rv_next_cursor [OF b(1)] by (simp add: v'_def)
  then have top': "top_bits b v' = (?q + 1) mod 2 ^ b" by (simp add: top_bits_def)
  have pow: "(2 :: nat) ^ b = 2 ^ a * ?p" using assms(2) by (simp flip: power_add)
  have cond: "v' AND (mask a XOR mask b) = 0 \<longleftrightarrow> (?q + 1) mod ?p = 0"
    using cursor_mask_zero_iff [OF assms(2) b(1), of v'] by (simp add: top' pow mod_mod_cancel)
  have topa: "top_bits a w = top_bits b w div ?p" for w using top_bits_mono [OF assms(2) b(1)] .
  show ?case
  proof (cases "(?q + 1) mod ?p = 0")
    case True
    then obtain r where r: "?q + 1 = ?p * r" by (auto simp: mod_eq_0_iff_dvd elim: dvdE)
    have "r = ?q div ?p + 1"
    proof -
      obtain s where s: "r = Suc s" using r by (cases r) auto
      have "q div p = s" if "q + 1 = p * Suc s" "0 < p" for q p :: nat
        using that by (intro div_nat_eqI) simp_all
      from this [of ?q ?p] have "?q div ?p = s" using r s by simp
      then show ?thesis using s by simp
    qed
    then have ra: "r = top_bits a v + 1" by (simp add: topa)
    have "(?q + 1) mod 2 ^ b = (r mod 2 ^ a) * ?p" 
      using mult_mod_right [of ?p r "2 ^ a"] unfolding r pow by (simp only: mult.commute)
    moreover have "?p * 2 ^ (64 - b) = (2 :: nat) ^ (64 - a)" using assms(2) b(1) by (simp flip: power_add)
    ultimately have "rv v' = next_pos a v" by (simp only: rv' next_pos_def ra mult.assoc)
    moreover have "e \<in> set c" if "e \<in> set (ht_entries t1)" "top_bits a (hf (fst e)) = top_bits a v"
      "?q \<le> top_bits b (hf (fst e))" for e
    proof -
      have "top_bits b (hf (fst e)) div ?p < r" using that(2) ra topa by simp
      then have "top_bits b (hf (fst e)) < ?q + 1" unfolding r by (simp add: div_less_iff_less_mult mult.commute)
      then show ?thesis using c(3) [OF that(1)] that(3) by simp
    qed
    ultimately show ?thesis
      using c True cond b(2) by (auto simp: v'_def [symmetric])
  next
    case False
    have "?q + 1 \<noteq> 2 ^ b" using False pow by auto
    then have q': "top_bits b v' = ?q + 1" using top' top_bits_less [OF b(1), of v] by simp
    have "2 ^ (b - a) - top_bits b v' mod 2 ^ (b - a) \<le> fuel"
      using Suc.prems False q' by (simp add: mod_Suc split: if_splits)
    moreover have ta: "top_bits a v' = top_bits a v"
      using False by (simp add: topa q' div_Suc)
    ultimately obtain w es where w: "dictScan_expand fuel t1 (mask a) (ht_sizemask t1) v' = Some (w, es)"
      "rv w = next_pos a v" "set es \<subseteq> set (ht_entries t1)"
      "\<And>e. e \<in> set (ht_entries t1) \<Longrightarrow> top_bits a (hf (fst e)) = top_bits a v \<Longrightarrow> ?q + 1 \<le> top_bits b (hf (fst e))
        \<Longrightarrow> e \<in> set es"
      using Suc.IH [of v'] q' unfolding next_pos_def by auto
    have "e \<in> set (c @ es)" if "e \<in> set (ht_entries t1)" "top_bits a (hf (fst e)) = top_bits a v"
      "?q \<le> top_bits b (hf (fst e))" for e
      using that c(3) [OF that(1)] w(4) [OF that(1,2)] by (cases "top_bits b (hf (fst e)) = ?q") auto
    then show ?thesis
      using c(1,2) w False cond b(2) by (auto simp: v'_def [symmetric])
  qed
qed


lemma rv_ge_top: "rv v \<le> rv h \<Longrightarrow> top_bits k v \<le> top_bits k h"
  by (simp add: top_bits_def div_le_mono)

text \<open>Positions from the cursor up to the next one lie in the cursor's bucket.\<close>

lemma scanned_bucket:
  assumes "k \<le> 64" "rv v \<le> rv h" "next_pos k v = 0 \<or> rv h < next_pos k v"
  shows "top_bits k h = top_bits k v"
proof (rule ccontr)
  assume "top_bits k h \<noteq> top_bits k v"
  then have lt: "top_bits k v + 1 \<le> top_bits k h" using rv_ge_top [OF assms(2), of k] by simp
  then have "top_bits k v + 1 < 2 ^ k" using top_bits_less [OF assms(1), of h] by simp
  then have "next_pos k v = (top_bits k v + 1) * 2 ^ (64 - k)" by (simp add: next_pos_def)
  moreover have "(top_bits k v + 1) * 2 ^ (64 - k) \<le> top_bits k h * 2 ^ (64 - k)" using lt by (rule mult_le_mono1)
  moreover have "top_bits k h * 2 ^ (64 - k) \<le> rv h" by (simp add: top_bits_def)
  ultimately show False using assms(3) by auto
qed

lemma next_pos_greater:
  assumes "k \<le> 64" "next_pos k v \<noteq> 0"
  shows "rv v < next_pos k v"
proof -
  have "(top_bits k v + 1) mod 2 ^ k \<noteq> 0" using assms(2) by (simp add: next_pos_def)
  then have "top_bits k v + 1 \<noteq> 2 ^ k" by auto
  then have "next_pos k v = (top_bits k v + 1) * 2 ^ (64 - k)"
    using top_bits_less [OF assms(1), of v] by (simp add: next_pos_def)
  then show ?thesis using dividend_less_div_times [of "2 ^ (64 - k)" "rv v"] by (simp add: top_bits_def)
qed

lemma live_size_mono:
  assumes "ht_live hf a t0" "ht_live hf' b t1"
  shows "ht_size t0 > ht_size t1 \<longleftrightarrow> b < a"
  using assms by (simp add: ht_live_def word_less_nat_alt unat_power2)

text \<open>One call reports, among others, every entry whose position lies between the cursor and the
  new cursor, and moves the cursor forward.\<close>

definition scan_step_ok :: "('k, 'v) dict \<Rightarrow> u64 \<Rightarrow> u64 \<Rightarrow> ('k \<times> 'v) list \<Rightarrow> bool" where
  "scan_step_ok d v v' es \<longleftrightarrow> set es \<subseteq> set (dict_entries d) \<and> (v' = 0 \<or> rv v < rv v') \<and>
     (\<forall>e \<in> set (dict_entries d). rv v \<le> rv (hashFunction (dtype d) (fst e)) \<and>
        (v' = 0 \<or> rv (hashFunction (dtype d) (fst e)) < rv v') \<longrightarrow> e \<in> set es)"

lemma dictScan_two_tables:
  assumes "ht_live hf a t0" "ht_live hf b t1" "a \<le> b"
  shows "\<exists>v' es de. ht_get t0 (unat (v AND ht_sizemask t0)) = Some de \<and>
    dictScan_expand (unat (ht_size t1)) t1 (ht_sizemask t0) (ht_sizemask t1) v = Some (v', es) \<and>
    rv v' = next_pos a v \<and> set (de @ es) \<subseteq> set (ht_entries t0 @ ht_entries t1) \<and>
    (\<forall>e \<in> set (ht_entries t0 @ ht_entries t1). rv v \<le> rv (hf (fst e)) \<and>
      top_bits a (hf (fst e)) = top_bits a v \<longrightarrow> e \<in> set (de @ es))"
proof -
  have m: "ht_sizemask t0 = mask a" "unat (ht_size t1) = 2 ^ b"
    using assms(1,2) by (simp_all add: ht_live_def unat_power2)
  obtain de where de: "ht_get t0 (unat (v AND ht_sizemask t0)) = Some de" "set de \<subseteq> set (ht_entries t0)"
    "\<forall>e \<in> set (ht_entries t0). top_bits a (hf (fst e)) = top_bits a v \<longrightarrow> e \<in> set de"
    using ht_get_scan [OF assms(1)] by blast
  have "(2 :: nat) ^ (b - a) \<le> 2 ^ b" by (rule power_increasing) simp_all
  then have "2 ^ (b - a) - top_bits b v mod 2 ^ (b - a) \<le> unat (ht_size t1)" unfolding m by linarith
  from dictScan_expand_spec [OF assms(2,3) this] show ?thesis
    unfolding m(1) [symmetric] using de rv_ge_top by (auto 0 4)
qed

lemma dictScan_step:
  assumes "dict_rel d m"
  shows "\<exists>v' es. dictScan d v = Some (v', es) \<and> scan_step_ok d v v' es"
proof (cases "dict_entries d = []")
  case True
  then show ?thesis using dictSize_zero(1) [OF assms] by (simp add: dictScan_def scan_step_ok_def)
next
  case False
  let ?hf = "hashFunction (dtype d)"
  have nz: "dictSize d \<noteq> 0" using dictSize_zero(1) [OF assms] False by simp
  have ok: "dict_tables_ok d" using assms by (simp add: dict_rel_def dict_ok_def)
  have step: "scan_step_ok d v v' es"
    if "k \<le> 64" "rv v' = next_pos k v" "set es \<subseteq> set (dict_entries d)"
      "\<forall>e \<in> set (dict_entries d). rv v \<le> rv (?hf (fst e)) \<and> top_bits k (?hf (fst e)) = top_bits k v \<longrightarrow> e \<in> set es"
    for k v' es
  proof -
    have z: "v' = 0 \<longleftrightarrow> next_pos k v = 0" using rv_inj [of v' 0] that(2) by simp
    then have "v' = 0 \<or> rv v < rv v'" using next_pos_greater [OF that(1)] that(2) by auto
    then show ?thesis
      using that(3,4) scanned_bucket [OF that(1)] z unfolding scan_step_ok_def that(2) by blast
  qed
  show ?thesis
  proof (cases "dictIsRehashing d")
    case no: False
    then obtain k where k: "ht_live ?hf k (ht0 d)" "ht1 d = dictReset" "k \<le> 64"
      using ok not_reset [OF assms False] by (auto simp: dict_tables_ok_def ht_live_def)
    obtain c where c: "ht_get (ht0 d) (unat (v AND ht_sizemask (ht0 d))) = Some c"
      "set c \<subseteq> set (ht_entries (ht0 d))"
      "\<forall>e \<in> set (ht_entries (ht0 d)). top_bits k (?hf (fst e)) = top_bits k v \<longrightarrow> e \<in> set c"
      using ht_get_scan [OF k(1)] by blast
    have "rv (next_cursor (ht_sizemask (ht0 d)) v) = next_pos k v"
      using rv_next_cursor [OF k(3), of v] k(1) by (simp add: ht_live_def next_pos_def)
    then have "scan_step_ok d v (next_cursor (ht_sizemask (ht0 d)) v) c"
      using step [OF k(3)] c k(2) by (simp add: dict_entries_def)
    then show ?thesis using nz no c(1) by (simp add: dictScan_def)
  next
    case True
    then obtain a b where ab: "ht_live ?hf a (ht0 d)" "ht_live ?hf b (ht1 d)" "a \<le> 64" "b \<le> 64"
      using ok by (auto simp: dict_tables_ok_def ht_live_def)
    show ?thesis
    proof (cases "b < a")
      case big: True
      obtain v' es de where "ht_get (ht1 d) (unat (v AND ht_sizemask (ht1 d))) = Some de"
        "dictScan_expand (unat (ht_size (ht0 d))) (ht0 d) (ht_sizemask (ht1 d)) (ht_sizemask (ht0 d)) v = Some (v', es)"
        "rv v' = next_pos b v" "set (de @ es) \<subseteq> set (ht_entries (ht1 d) @ ht_entries (ht0 d))"
        "\<forall>e \<in> set (ht_entries (ht1 d) @ ht_entries (ht0 d)). rv v \<le> rv (?hf (fst e)) \<and>
          top_bits b (?hf (fst e)) = top_bits b v \<longrightarrow> e \<in> set (de @ es)"
        using dictScan_two_tables [OF ab(2,1), of v] big by auto
      then show ?thesis
        using nz True big live_size_mono [OF ab(1,2)] step [OF ab(4), of v' "de @ es"]
        by (auto simp: dictScan_def dict_entries_def)
    next
      case small: False
      obtain v' es de where "ht_get (ht0 d) (unat (v AND ht_sizemask (ht0 d))) = Some de"
        "dictScan_expand (unat (ht_size (ht1 d))) (ht1 d) (ht_sizemask (ht0 d)) (ht_sizemask (ht1 d)) v = Some (v', es)"
        "rv v' = next_pos a v" "set (de @ es) \<subseteq> set (ht_entries (ht0 d) @ ht_entries (ht1 d))"
        "\<forall>e \<in> set (ht_entries (ht0 d) @ ht_entries (ht1 d)). rv v \<le> rv (?hf (fst e)) \<and>
          top_bits a (?hf (fst e)) = top_bits a v \<longrightarrow> e \<in> set (de @ es)"
        using dictScan_two_tables [OF ab(1,2), of v] small by auto
      then show ?thesis
        using nz True small live_size_mono [OF ab(1,2)] step [OF ab(3), of v' "de @ es"]
        by (auto simp: dictScan_def dict_entries_def)
    qed
  qed
qed

text \<open>A whole scan: one call per state the dictionary is in, until the cursor is zero again.\<close>

fun scan_run :: "('k, 'v) dict list \<Rightarrow> u64 \<Rightarrow> (u64 \<times> ('k \<times> 'v) list) option" where
  "scan_run [] v = Some (v, [])"
| "scan_run (d # ds) v = do {
     (v', es) \<leftarrow> dictScan d v;
     if v' = 0 then Some (0, es)
     else do { (w, es') \<leftarrow> scan_run ds v'; Some (w, es @ es') }
   }"

lemma scan_run_spec:
  assumes "\<forall>d \<in> set ds. dict_ok d \<and> dtype d = t"
  shows "\<exists>w es. scan_run ds v = Some (w, es) \<and> set es \<subseteq> (\<Union>d \<in> set ds. set (dict_entries d)) \<and>
    (w = 0 \<longrightarrow> ds \<noteq> [] \<longrightarrow> (\<forall>k. rv v \<le> rv (hashFunction t k) \<and> (\<forall>d \<in> set ds. k \<in> fst ` set (dict_entries d))
      \<longrightarrow> k \<in> fst ` set es))"
  using assms
proof (induction ds arbitrary: v)
  case Nil
  then show ?case by simp
next
  case (Cons d ds)
  have t: "dtype d = t" using Cons.prems by simp
  have "dict_rel d (map_of (dict_entries d))" using Cons.prems by (simp add: dict_rel_def)
  then obtain v' es where v': "dictScan d v = Some (v', es)" "scan_step_ok d v v' es"
    using dictScan_step by blast
  have sub: "set es \<subseteq> set (dict_entries d)" using v'(2) by (simp add: scan_step_ok_def)
  have hit: "k \<in> fst ` set es" if "rv v \<le> rv (hashFunction t k)" "k \<in> fst ` set (dict_entries d)"
    "v' = 0 \<or> rv (hashFunction t k) < rv v'" for k
    using v'(2) that t by (force simp: scan_step_ok_def)
  show ?case
  proof (cases "v' = 0")
    case True
    then show ?thesis using v'(1) sub hit by auto
  next
    case False
    obtain w es' where w: "scan_run ds v' = Some (w, es')" "set es' \<subseteq> (\<Union>d \<in> set ds. set (dict_entries d))"
      "w = 0 \<Longrightarrow> ds \<noteq> [] \<Longrightarrow> \<forall>k. rv v' \<le> rv (hashFunction t k) \<and> (\<forall>d \<in> set ds. k \<in> fst ` set (dict_entries d))
        \<longrightarrow> k \<in> fst ` set es'"
      using Cons.IH [of v'] Cons.prems by auto
    have "k \<in> fst ` set (es @ es')" if "w = 0" "rv v \<le> rv (hashFunction t k)"
      "\<forall>d \<in> set (d # ds). k \<in> fst ` set (dict_entries d)" for k
    proof (cases "rv (hashFunction t k) < rv v'")
      case True
      then show ?thesis using hit [of k] that by (auto simp: image_Un)
    next
      case ge: False
      have "ds \<noteq> []" using w(1) that(1) False by auto
      then show ?thesis using w(3) that ge by (auto simp: image_Un not_less)
    qed
    then show ?thesis using v'(1) w(1,2) sub False by (auto simp: image_Un)
  qed
qed

subsection \<open>Completion of rehashing, and clearing\<close>

fun rehash_steps :: "nat \<Rightarrow> ('k, 'v) dict \<Rightarrow> ('k, 'v) dict option" where
  "rehash_steps 0 d = Some d"
| "rehash_steps (Suc n) d = do { (d, _) \<leftarrow> dictRehash d 1; rehash_steps n d }"

lemma rehash_steps_done: "\<not> dictIsRehashing d \<Longrightarrow> rehash_steps n d = Some d"
  by (induction n) (auto simp: dictRehash_def)

lemma rehash_steps_complete:
  assumes "dict_rel d m" "dictIsRehashing d \<Longrightarrow> nat (int (unat (ht_size (ht0 d))) - rehashidx d) < n"
  shows "\<exists>d'. rehash_steps n d = Some d' \<and> \<not> dictIsRehashing d' \<and> dict_rel d' m"
  using assms
proof (induction n arbitrary: d)
  case 0
  then show ?case by auto
next
  case (Suc n)
  show ?case
  proof (cases "dictIsRehashing d")
    case False
    then show ?thesis using rehash_steps_done Suc.prems(1) by blast
  next
    case True
    obtain d' where d': "dictRehash d 1 = Some (d', dictIsRehashing d')" "dict_rel d' m"
      "dictIsRehashing d' \<Longrightarrow> rehashidx d < rehashidx d' \<and> rehashidx d' < int (unat (ht_size (ht0 d'))) \<and>
        ht_size (ht0 d') = ht_size (ht0 d)"
      using dictRehash_spec [OF Suc.prems(1) True, of 1] by auto
    have "nat (int (unat (ht_size (ht0 d'))) - rehashidx d') < n" if "dictIsRehashing d'"
      using Suc.prems(2) [OF True] d'(3) [OF that] by auto
    then show ?thesis using Suc.IH [OF d'(2)] d'(1) by simp
  qed
qed

lemma dictClear_loop_all:
  "length (concat tb) < 2 ^ 64 \<Longrightarrow> dictClear_loop tb (word_of_nat (length (concat tb))) = concat tb"
proof (induction tb)
  case Nil
  then show ?case by simp
next
  case (Cons c tb)
  show ?case
  proof (cases "c @ concat tb = []")
    case True
    then show ?thesis using Cons by simp
  next
    case False
    then have "0 < length (concat (c # tb))" by (simp only: concat.simps length_greater_0_conv) blast
    then have "(word_of_nat (length (concat (c # tb))) :: u64) > 0"
      using Cons.prems by (simp only: word_less_nat_alt unat_of_nat) simp
    moreover have "(word_of_nat (length (concat (c # tb))) :: u64) - word_of_nat (length c)
        = word_of_nat (length (concat tb))" by simp
    ultimately show ?thesis using Cons by simp
  qed
qed

lemma dictClear_spec:
  assumes "ht = dictReset \<or> (\<exists>k. ht_live hf k ht)" "length (ht_entries ht) \<le> DICT_MAX"
  shows "dictClear ht = (dictReset, ht_entries ht)"
proof (cases "ht = dictReset")
  case True
  then show ?thesis by (simp add: dictClear_def)
next
  case False
  then obtain k tb where "k \<le> 60" "ht_table ht = Some tb" "length tb = 2 ^ k" "ht_size ht = 2 ^ k"
    "ht_used ht = word_of_nat (length (concat tb))"
    using assms(1) by (auto simp: ht_live_def)
  then show ?thesis using assms(2) dictClear_loop_all [of tb]
    by (simp add: dictClear_def ht_entries_def unat_power2 DICT_MAX_def)
qed

lemma dictEmpty_spec:
  assumes "dict_rel d m"
  shows "\<exists>d'. dictEmpty d = (d', dict_entries d) \<and> dict_rel d' Map.empty"
proof -
  let ?hf = "hashFunction (dtype d)"
  have ok: "dict_tables_ok d" "dictType_ok (dtype d)" and len: "length (dict_entries d) \<le> DICT_MAX"
    using assms by (simp_all add: dict_rel_def dict_ok_def)
  have "ht0 d = dictReset \<or> (\<exists>k. ht_live ?hf k (ht0 d))" "ht1 d = dictReset \<or> (\<exists>k. ht_live ?hf k (ht1 d))"
    using ok(1) by (auto simp: dict_tables_ok_def split: if_splits)
  then have "dictEmpty d = (d\<lparr>ht0 := dictReset, ht1 := dictReset, rehashidx := - 1, iterators := 0\<rparr>, dict_entries d)"
    using dictClear_spec [of "ht0 d"] dictClear_spec [of "ht1 d"] len
    by (simp add: dictEmpty_def dict_entries_def)
  then show ?thesis
    using ok(2) by (simp add: dict_rel_def dict_ok_def dict_tables_ok_def dictIsRehashing_def dict_entries_def)
qed


section \<open>Keys that are strings\<close>

text \<open>The dictionary types of \<^verbatim>\<open>server.c\<close> for \<^verbatim>\<open>sds\<close> keys compare lengths, then bytes; their
  hash function, SipHash with a random seed, is arbitrary here.\<close>

definition dictSdsKeyCompare :: "bytes \<Rightarrow> bytes \<Rightarrow> bool" where
  "dictSdsKeyCompare key1 key2 =
     (let l1 = length key1; l2 = length key2 in
      if l1 \<noteq> l2 then False else take l1 key1 = take l1 key2)"

definition sdsDictType :: "(bytes \<Rightarrow> u64) \<Rightarrow> bytes dictType" where
  "sdsDictType hf = \<lparr>hashFunction = hf, keyCompare = dictSdsKeyCompare\<rparr>"

lemma sdsDictType_ok: "dictType_ok (sdsDictType hf)"
  by (auto simp: dictType_ok_def sdsDictType_def dictSdsKeyCompare_def Let_def)

lemma dictCreate_rel: "dictType_ok t \<Longrightarrow> dict_rel (dictCreate t) Map.empty"
  by (simp add: dict_rel_def dict_ok_def dictCreate_def dict_tables_ok_def dictIsRehashing_def dict_entries_def)

lemma dictDelete_spec:
  assumes "dict_rel d m"
  shows "\<exists>d'. dictDelete d key = Some (d', m key \<noteq> None) \<and> dict_rel d' (m(key := None))"
  using dictGenericDelete_spec [OF assms, of key] by (auto simp: dictDelete_def)

interpretation dict_map: bounded_map "dictCreate (sdsDictType hf)" "dictReplace can_resize junk"
  "dictAdd can_resize junk" dictDelete dictFetchValue dict_rel DICT_MAX
proof unfold_locales
  fix d :: "(bytes, 'a) dict" and m k v
  show "dict_rel (dictCreate (sdsDictType hf)) Map.empty" using dictCreate_rel [OF sdsDictType_ok] .
  assume rel: "dict_rel d m"
  show "finite (dom m)" using rel by (simp add: dict_rel_def finite_dom_map_of)
  show "\<exists>d'. dictDelete d k = Some (d', m k \<noteq> None) \<and> dict_rel d' (m(k := None))" using dictDelete_spec [OF rel] .
  show "\<exists>d'. dictFetchValue d k = Some (d', m k) \<and> dict_rel d' m" using dictFetchValue_spec [OF rel] by blast
  assume cap: "card (dom m) < DICT_MAX"
  show "\<exists>d'. dictReplace can_resize junk d k v = Some (d', m k = None) \<and> dict_rel d' (m(k \<mapsto> v))"
    using dictReplace_spec [OF rel cap] by blast
  show "\<exists>d'. dictAdd can_resize junk d k v = Some (d', m k = None) \<and>
      dict_rel d' (if m k = None then m(k \<mapsto> v) else m)"
    using dictAdd_spec [OF rel cap] by blast
qed

section \<open>Properties\<close>

text \<open>C9: a dictionary is a map. Every sequence of \<^verbatim>\<open>dictReplace\<close>, \<^verbatim>\<open>dictAdd\<close>,
  \<^verbatim>\<open>dictDelete\<close> and \<^verbatim>\<open>dictFetchValue\<close> calls on a new dictionary of string keys, up to
  \<open>2 ^ 59\<close> of them, stays within the tables and gives exactly the answers of a finite map, for
  every hash function, through table growth and incremental rehashing.\<close>

theorem dict_refines_map:
  assumes "length ops \<le> DICT_MAX"
  shows "\<exists>d. map_run (dictReplace can_resize junk, dictAdd can_resize junk, dictDelete, dictFetchValue) ops
      (dictCreate (sdsDictType hf)) = Some (d, snd (map_run_spec ops Map.empty)) \<and>
    dict_rel d (fst (map_run_spec ops Map.empty))"
  using dict_map.run_refines [OF dict_map.new_map] assms by simp

theorem dict_refines_map_witness:
  "\<exists>d. map_run (dictReplace True 0, dictAdd True 0, dictDelete, dictFetchValue)
      [Put (str ''a'') 1, Put (str ''b'') 2, Put (str ''c'') 3, Put (str ''d'') 4, Put (str ''e'') 5,
       Add (str ''a'') 9, Del (str ''b''), Get (str ''a''), Get (str ''b'')]
      (dictCreate (sdsDictType (\<lambda>_. 3)) :: (bytes, nat) dict) =
    Some (d, [Flag True, Flag True, Flag True, Flag True, Flag True, Flag False, Flag True,
      Found (Some 1), Found None])"
  using dict_refines_map [of "[Put (str ''a'') 1, Put (str ''b'') 2, Put (str ''c'') 3, Put (str ''d'') 4,
       Put (str ''e'') 5, Add (str ''a'') 9, Del (str ''b''), Get (str ''a''), Get (str ''b'')]" True "0 :: nat" "\<lambda>_. 3"]
  by (auto simp: DICT_MAX_def Let_def)


text \<open>C13: incremental rehashing. A rehashing step keeps the map that the dictionary stands for, and
  as many single steps as the old table has buckets, plus one, complete the rehashing.\<close>

theorem dictRehash_completes:
  assumes "dict_rel d m"
  shows "\<exists>d'. rehash_steps (unat (ht_size (ht0 d)) + 1) d = Some d' \<and> \<not> dictIsRehashing d' \<and> dict_rel d' m"
proof (rule rehash_steps_complete [OF assms])
  assume "dictIsRehashing d"
  then have "0 \<le> rehashidx d" using assms by (simp add: dict_rel_def dict_ok_def dict_tables_ok_def)
  moreover have "nat (int n - i) < n + 1" if "0 \<le> i" for n :: nat and i using that by simp
  ultimately show "nat (int (unat (ht_size (ht0 d))) - rehashidx d) < unat (ht_size (ht0 d)) + 1" by blast
qed

definition rehash_example :: "(bytes, nat) dict" where
  "rehash_example = \<lparr>dtype = sdsDictType (\<lambda>k. word_of_nat (length k)),
     ht0 = \<lparr>ht_table = Some [[], [(str ''a'', 1)], [(str ''bb'', 2)], []], ht_size = 4, ht_sizemask = 3, ht_used = 2\<rparr>,
     ht1 = \<lparr>ht_table = Some [[], [], [], [], [], [(str ''ccccc'', 3)], [], []], ht_size = 8, ht_sizemask = 7, ht_used = 1\<rparr>,
     rehashidx = 0, iterators = 0\<rparr>"

lemma rehash_example_rel:
  "dict_rel rehash_example [str ''a'' \<mapsto> 1, str ''bb'' \<mapsto> 2, str ''ccccc'' \<mapsto> 3]"
proof -
  have "ht_live (hashFunction (dtype rehash_example)) 2 (ht0 rehash_example)"
    "ht_live (hashFunction (dtype rehash_example)) 3 (ht1 rehash_example)"
    by (auto simp: ht_live_def rehash_example_def sdsDictType_def mask_eq_exp_minus_1 nth_Cons'
        split: if_splits)
  then show ?thesis
    by (auto simp: dict_rel_def dict_ok_def dict_tables_ok_def dictIsRehashing_def sdsDictType_ok rehash_example_def
        dict_entries_def ht_entries_def DICT_MAX_def)
qed

theorem dictRehash_completes_witness:
  "dictIsRehashing rehash_example \<and>
   (\<exists>d'. rehash_steps 5 rehash_example = Some d' \<and> \<not> dictIsRehashing d' \<and>
     dict_rel d' [str ''a'' \<mapsto> 1, str ''bb'' \<mapsto> 2, str ''ccccc'' \<mapsto> 3])"
proof -
  have "unat (ht_size (ht0 rehash_example)) + 1 = 5" by (simp add: rehash_example_def)
  then show ?thesis
    using dictRehash_completes [OF rehash_example_rel]
    by (simp add: dictIsRehashing_def) (simp add: rehash_example_def)
qed

lemma rv_small:
  "rv 1 = 2 ^ 63" "rv 2 = 2 ^ 62" "rv 3 = 3 * 2 ^ 62" "rv 4 = 2 ^ 61" "rv 5 = 5 * 2 ^ 61"
  "rv 6 = 3 * 2 ^ 61" "rv 7 = 7 * 2 ^ 61"
  by (simp_all add: rv_def rev_bits_eq swp_def)

lemma next_cursor_eqI:
  assumes "rv w = ((rv v div 2 ^ (64 - k) + 1) mod 2 ^ k) * 2 ^ (64 - k)" "k \<le> 64" "m = mask k"
  shows "next_cursor m v = w"
  using rv_next_cursor [OF assms(2), of v] assms(1) rv_inj unfolding assms(3) top_bits_def by metis

lemma cursors:
  "next_cursor 7 0 = 4" "next_cursor 7 4 = 2" "next_cursor 7 2 = 6" "next_cursor 7 6 = 1"
  "next_cursor 7 1 = 5" "next_cursor 7 5 = 3" "next_cursor 7 3 = 7" "next_cursor 7 7 = 0"
  by (rule next_cursor_eqI [where k = 3]; simp add: rv_small mask_eq_exp_minus_1)+

lemma dictScan_expand_numeral:
  "dictScan_expand (numeral n) t1 m0 m1 v = do {
     de \<leftarrow> ht_get t1 (unat (v AND m1));
     v \<leftarrow> Some (next_cursor m1 v);
     if v AND (m0 XOR m1) \<noteq> 0 then do {
       (v, es) \<leftarrow> dictScan_expand (pred_numeral n) t1 m0 m1 v;
       Some (v, de @ es)
     } else Some (v, de)
   }"
  by (simp only: numeral_eq_Suc dictScan_expand.simps)

text \<open>C10: \<^verbatim>\<open>dictScan\<close> misses nothing. Call it with the cursor it returned last, each time on the
  dictionary as it then is, through any insertions, deletions, resizes and rehashing steps, until
  it returns the cursor zero: a key that was in the dictionary at every call has been reported,
  and only entries that were in the dictionary at some call have been.\<close>

theorem dictScan_complete:
  assumes "\<forall>d \<in> set ds. dict_ok d \<and> dtype d = t" "ds \<noteq> []" "scan_run ds 0 = Some (0, es)"
  shows "(\<Inter>d \<in> set ds. fst ` set (dict_entries d)) \<subseteq> fst ` set es \<and>
    set es \<subseteq> (\<Union>d \<in> set ds. set (dict_entries d))"
  using scan_run_spec [OF assms(1), of 0] assms(2,3) by auto

theorem dictScan_complete_witness:
  "\<exists>es. scan_run [rehash_example, rehash_example, rehash_example, rehash_example] 0 = Some (0, es) \<and>
     {str ''a'', str ''bb'', str ''ccccc''} \<subseteq> fst ` set es"
proof -
  have "scan_run [rehash_example, rehash_example, rehash_example, rehash_example] 0
      = Some (0, [(str ''bb'', 2), (str ''a'', 1), (str ''ccccc'', 3)])"
    by (simp add: rehash_example_def dictScan_def dictSize_def dictIsRehashing_def ht_get_def cursors
        dictScan_expand_numeral)
  moreover have "fst ` set (dict_entries rehash_example) = {str ''a'', str ''bb'', str ''ccccc''}"
    by (simp add: rehash_example_def dict_entries_def ht_entries_def)
  moreover have "dict_ok rehash_example" using rehash_example_rel by (simp add: dict_rel_def)
  ultimately show ?thesis
    using dictScan_complete [of "[rehash_example, rehash_example, rehash_example, rehash_example]"
        "dtype rehash_example"] by auto
qed

text \<open>\<^verbatim>\<open>dictEmpty\<close> frees every entry of both tables exactly once and leaves an empty
  dictionary that is ready for use.\<close>

theorem dictEmpty_correct:
  assumes "dict_rel d m"
  shows "\<exists>d'. dictEmpty d = (d', dict_entries d) \<and> distinct (map fst (dict_entries d)) \<and>
    dom m = fst ` set (dict_entries d) \<and> dict_rel d' Map.empty"
  using dictEmpty_spec [OF assms] assms by (auto simp: dict_rel_def dict_ok_def dom_map_of_conv_image_fst)

theorem dictEmpty_correct_witness:
  "\<exists>d'. dictEmpty rehash_example = (d', [(str ''a'', 1), (str ''bb'', 2), (str ''ccccc'', 3)]) \<and> dict_rel d' Map.empty"
  using dictEmpty_correct [OF rehash_example_rel] by (auto simp: rehash_example_def dict_entries_def ht_entries_def)

end
