(* ===== verification/Util.thy ===== *)
theory Util
  imports Prelude
begin

text \<open>
  String routines of \<^verbatim>\<open>util.c\<close>: glob matching, conversion between integers and decimal
  strings, and memory sizes with units. A C string with a length is the list of its bytes; the
  byte after the last one is the terminating NUL that every \<^verbatim>\<open>sds\<close> has, which some of the
  loops read. Decimal conversion is shown to be a bijection between the 64 bit integers and the
  strings that \<^verbatim>\<open>string2ll\<close> accepts, and the matcher to implement a reference semantics of
  glob patterns.
\<close>

section \<open>Characters\<close>

text \<open>The C locale's \<^verbatim>\<open>tolower\<close>, and \<^verbatim>\<open>char\<close> promoted to \<^verbatim>\<open>int\<close> (signed on the
  supported platforms).\<close>

definition tolower :: "int \<Rightarrow> int" where
  "tolower c = (if 65 \<le> c \<and> c \<le> 90 then c + 32 else c)"

definition schar :: "u8 \<Rightarrow> int" where
  "schar c = sint c"

definition at0 :: "bytes \<Rightarrow> nat \<Rightarrow> u8" where
  "at0 p i = (if i < length p then p ! i else 0)"

lemma at0_simps [simp]: "at0 [] i = 0" "at0 (x # p) 0 = x" "at0 (x # p) (Suc i) = at0 p i"
  by (simp_all add: at0_def)

section \<open>Glob patterns\<close>

text \<open>The inner loop over a bracket expression: the pattern after \<open>[\<close> (and \<open>^\<close>), the character
  to match, and whether it has matched so far. It returns the verdict and the pattern after the
  closing bracket; a pattern that ends early closes the bracket.\<close>

definition stringmatch_range :: "u8 \<Rightarrow> u8 \<Rightarrow> u8 \<Rightarrow> bool \<Rightarrow> bool" where
  "stringmatch_range lo hi c nocase =
     (let start = schar lo;
          end = schar hi;
          (start, end) = (if start > end then (end, start) else (start, end));
          (start, end, c') = (if nocase then (tolower start, tolower end, tolower (schar c))
                              else (start, end, schar c))
      in c' \<ge> start \<and> c' \<le> end)"

function stringmatch_class :: "bytes \<Rightarrow> u8 \<Rightarrow> bool \<Rightarrow> bool \<Rightarrow> bool \<times> bytes" where
  "stringmatch_class p c nocase mat =
     (if at0 p 0 = 0x5C \<and> length p \<ge> 2 then
        stringmatch_class (drop 2 p) c nocase (mat \<or> at0 p 1 = c)
      else if p \<noteq> [] \<and> at0 p 0 = 0x5D then (mat, drop 1 p)
      else if p = [] then (mat, [])
      else if length p \<ge> 3 \<and> at0 p 1 = 0x2D then
        stringmatch_class (drop 3 p) c nocase
          (mat \<or> stringmatch_range (at0 p 0) (at0 p 2) c nocase)
      else
        stringmatch_class (drop 1 p) c nocase
          (mat \<or> (if \<not> nocase then at0 p 0 = c
                  else tolower (schar (at0 p 0)) = tolower (schar c))))"
  by pat_completeness auto
termination
  by (relation "measure (\<lambda>(p, c, nocase, mat). length p)") auto

fun skip_stars :: "bytes \<Rightarrow> bytes" where
  "skip_stars (x # y # p) = (if y = 0x2A then skip_stars (y # p) else x # y # p)"
| "skip_stars p = p"

definition drop_stars :: "bytes \<Rightarrow> bytes" where
  "drop_stars p = dropWhile (\<lambda>c. c = 0x2A) p"

lemma length_skip_stars: "length (skip_stars p) \<le> length p"
  by (induction p rule: skip_stars.induct) auto

lemma skip_stars_Cons: "skip_stars (x # p) \<noteq> []"
  by (induction "x # p" arbitrary: x p rule: skip_stars.induct) auto

lemma length_tl_skip_stars: "length (skip_stars (x # p)) - Suc 0 \<le> length p"
  using length_skip_stars [of "x # p"] by simp

declare stringmatch_class.simps [simp del]

lemma length_snd_stringmatch_class:
  "length (snd (stringmatch_class p c nocase mat)) \<le> length p"
proof (induction "length p" arbitrary: p mat rule: less_induct)
  case less
  have IH: "length (snd (stringmatch_class (drop n p) c nocase m)) \<le> length p" if "p \<noteq> []" "0 < n" for n m
    using less [of "drop n p" m] that by simp
  then show ?case
    by (subst stringmatch_class.simps) (simp add: IH)
qed

lemma length_stringmatch_class:
  "(m, r) = stringmatch_class p c nocase mat \<Longrightarrow> length r \<le> length p"
  using length_snd_stringmatch_class [of p c nocase mat] by (metis snd_conv)

text \<open>One pass of the outer loop handles one pattern element and goes on with the rest of the
  pattern and of the string; the loop of the \<open>*\<close> case tries every non-empty suffix.\<close>

function stringmatchlen :: "bytes \<Rightarrow> bytes \<Rightarrow> bool \<Rightarrow> bool"
  and stringmatch_star :: "bytes \<Rightarrow> bytes \<Rightarrow> bool \<Rightarrow> bool"
  and stringmatch_next :: "bytes \<Rightarrow> bytes \<Rightarrow> bool \<Rightarrow> bool" where
  "stringmatchlen p s nocase =
     (case (p, s) of
        (x # p', c # s') \<Rightarrow>
          if x = 0x2A then
            let q = skip_stars p in
            if length q = 1 then True else stringmatch_star (drop 1 q) s nocase
          else if x = 0x3F then stringmatch_next p' s' nocase
          else if x = 0x5B then
            let neg = (at0 p' 0 = 0x5E);
                (mat, r) = stringmatch_class (if neg then drop 1 p' else p') c nocase False
            in if neg \<noteq> mat then stringmatch_next r s' nocase else False
          else
            let (x, p') = (if x = 0x5C \<and> length p \<ge> 2 then (at0 p 1, drop 2 p) else (x, p'))
            in if (if \<not> nocase then x \<noteq> c else tolower (schar x) \<noteq> tolower (schar c)) then False
               else stringmatch_next p' s' nocase
      | _ \<Rightarrow> p = [] \<and> s = [])"
| "stringmatch_star p s nocase =
     (case s of [] \<Rightarrow> False
      | c # s' \<Rightarrow> if stringmatchlen p s nocase then True else stringmatch_star p s' nocase)"
| "stringmatch_next p s nocase =
     (if s = [] then drop_stars p = [] else stringmatchlen p s nocase)"
  by pat_completeness auto
termination
  by (relation "measures
      [\<lambda>x. case x of Inl (p, s, n) \<Rightarrow> length s + length p
         | Inr (Inl (p, s, n)) \<Rightarrow> length s + length p
         | Inr (Inr (p, s, n)) \<Rightarrow> length s + length p,
       \<lambda>x. case x of Inl _ \<Rightarrow> 0 | Inr (Inl _) \<Rightarrow> 1 | Inr (Inr _) \<Rightarrow> 1]")
     (auto simp: Let_def le_imp_less_Suc length_tl_skip_stars split: if_splits
       dest!: length_stringmatch_class)

declare stringmatchlen.simps [simp del] stringmatch_star.simps [simp del]
  stringmatch_next.simps [simp del]

subsection \<open>Reference semantics\<close>

text \<open>A pattern is a sequence of stars and of tests for one character; a star stands for any
  sequence of characters, the empty one included.\<close>

datatype glob = Star | One "u8 \<Rightarrow> bool"

fun glob_match :: "glob list \<Rightarrow> bytes \<Rightarrow> bool" where
  "glob_match [] s = (s = [])"
| "glob_match (Star # g) [] = glob_match g []"
| "glob_match (Star # g) (c # s) = (glob_match g (c # s) \<or> glob_match (Star # g) s)"
| "glob_match (One P # g) [] = False"
| "glob_match (One P # g) (c # s) = (P c \<and> glob_match g s)"

text \<open>Letters in either case are the same for \<open>nocase\<close>.\<close>

definition to_lower :: "u8 \<Rightarrow> u8" where
  "to_lower c = (if 0x41 \<le> c \<and> c \<le> 0x5A then c + 0x20 else c)"

definition fold_case :: "bool \<Rightarrow> u8 \<Rightarrow> u8" where
  "fold_case nocase c = (if nocase then to_lower c else c)"

definition char_eq :: "bool \<Rightarrow> u8 \<Rightarrow> u8 \<Rightarrow> bool" where
  "char_eq nocase x c \<longleftrightarrow> fold_case nocase x = fold_case nocase c"

text \<open>A bracket expression is a list of escaped characters, which stand for themselves in either mode,
  of ranges between two characters, in either order of their signed values, and of single characters. It
  ends at the first closing bracket that is not the last character of an escape or range, or with the
  pattern.\<close>

datatype class_item = Exact u8 | Range u8 u8 | Single u8

definition signed_between :: "u8 \<Rightarrow> u8 \<Rightarrow> u8 \<Rightarrow> bool" where
  "signed_between lo c hi \<longleftrightarrow> sint lo \<le> sint c \<and> sint c \<le> sint hi"

fun item_matches :: "bool \<Rightarrow> class_item \<Rightarrow> u8 \<Rightarrow> bool" where
  "item_matches nocase (Exact x) c \<longleftrightarrow> c = x"
| "item_matches nocase (Single x) c \<longleftrightarrow> char_eq nocase x c"
| "item_matches nocase (Range x y) c \<longleftrightarrow>
     (if sint x \<le> sint y then signed_between (fold_case nocase x) (fold_case nocase c) (fold_case nocase y)
      else signed_between (fold_case nocase y) (fold_case nocase c) (fold_case nocase x))"

fun glob_class :: "bytes \<Rightarrow> class_item list \<times> bytes" where
  "glob_class [] = ([], [])"
| "glob_class [x] = (if x = 0x5D then ([], []) else ([Single x], []))"
| "glob_class [x, y] =
     (if x = 0x5D then ([], [y])
      else if x = 0x5C then ([Exact y], [])
      else apfst ((#) (Single x)) (glob_class [y]))"
| "glob_class (x # y # z # p) =
     (if x = 0x5D then ([], y # z # p)
      else if x = 0x5C then apfst ((#) (Exact y)) (glob_class (z # p))
      else if y = 0x2D then apfst ((#) (Range x z)) (glob_class p)
      else apfst ((#) (Single x)) (glob_class (y # z # p)))"

lemma length_glob_class: "length (snd (glob_class p)) \<le> length p"
  by (induction p rule: glob_class.induct) auto

function glob_tokens :: "bool \<Rightarrow> bytes \<Rightarrow> glob list" where
  "glob_tokens nocase [] = []"
| "glob_tokens nocase (x # p) =
     (if x = 0x2A then Star # glob_tokens nocase p
      else if x = 0x3F then One (\<lambda>_. True) # glob_tokens nocase p
      else if x = 0x5B then
        let neg = (at0 p 0 = 0x5E); q = (if neg then drop 1 p else p); items = fst (glob_class q)
        in One (\<lambda>c. (\<exists>i \<in> set items. item_matches nocase i c) \<noteq> neg) # glob_tokens nocase (snd (glob_class q))
      else if x = 0x5C \<and> p \<noteq> [] then One (char_eq nocase (hd p)) # glob_tokens nocase (tl p)
      else One (char_eq nocase x) # glob_tokens nocase p)"
  by pat_completeness auto
termination
  by (relation "measure (\<lambda>(n, p). length p)")
     (auto simp: Let_def le_imp_less_Suc less_Suc_eq_le intro: order_trans [OF length_glob_class])

text \<open>The loops of the matcher decide the reference semantics.\<close>

lemma tolower_schar: "tolower (schar c) = schar (to_lower c)"
proof (cases "0x41 \<le> c \<and> c \<le> 0x5A")
  case True
  then have u: "0x41 \<le> unat c" "unat c \<le> 0x5A" by (simp_all add: word_le_nat_alt)
  then have "unat (c + 0x20) = unat c + 0x20" by (simp add: unat_word_ariths)
  then have "sint (c + 0x20) = int (unat c + 0x20)" using u sint_eq_unat [of "c + 0x20"] by simp
  moreover have "sint c = int (unat c)" using u sint_eq_unat [of c] by simp
  moreover have "65 \<le> int (unat c)" "int (unat c) \<le> 90" using u by linarith+
  ultimately show ?thesis using True unfolding tolower_def schar_def to_lower_def by simp
next
  case False
  have "\<not> (65 \<le> sint c \<and> sint c \<le> 90)"
  proof
    assume a: "65 \<le> sint c \<and> sint c \<le> 90"
    have "uint (word_of_int (sint c) :: u8) = sint c mod 256" by (simp only: uint_word_of_int) simp
    then have "uint c = sint c" using a by simp
    then show False using a False by (simp add: word_le_def)
  qed
  then show ?thesis using False unfolding tolower_def schar_def to_lower_def by (simp only: if_False)
qed

lemma schar_fold: "(if \<not> nocase then x = c else tolower (schar x) = tolower (schar c)) \<longleftrightarrow> char_eq nocase x c"
  using sint_inj by (auto simp: char_eq_def fold_case_def tolower_schar, auto simp: schar_def)

lemma stringmatch_range_item: "stringmatch_range x y c nocase = item_matches nocase (Range x y) c"
  by (auto simp: stringmatch_range_def Let_def tolower_schar fold_case_def signed_between_def, auto simp: schar_def)

lemma stringmatch_class_items:
  "stringmatch_class p c nocase mat = (mat \<or> (\<exists>i \<in> set (fst (glob_class p)). item_matches nocase i c), snd (glob_class p))"
proof (induction p arbitrary: mat rule: glob_class.induct)
  case 1
  then show ?case by (simp add: stringmatch_class.simps)
next
  case (2 x)
  have "stringmatch_class [] c nocase m = (m, [])" for m by (simp add: stringmatch_class.simps)
  then show ?case by (subst stringmatch_class.simps) (simp add: schar_fold)
next
  case (3 x y)
  have "stringmatch_class [] c nocase m = (m, [])" for m by (simp add: stringmatch_class.simps)
  then show ?case using 3 by (subst stringmatch_class.simps) (auto simp: schar_fold)
next
  case (4 x y z p)
  have z: "at0 (x # w # z # p) 2 = z" for w by (simp add: numeral_2_eq_2)
  consider "x = 0x5D" | "x = 0x5C" | "x \<noteq> 0x5D" "x \<noteq> 0x5C" "y = 0x2D" | "x \<noteq> 0x5D" "x \<noteq> 0x5C" "y \<noteq> 0x2D" by blast
  then show ?case
  proof cases
    case 1
    then show ?thesis by (subst stringmatch_class.simps) simp
  next
    case 2
    then show ?thesis using "4.IH"(1) by (subst stringmatch_class.simps) auto
  next
    case 3
    then show ?thesis using "4.IH"(2) by (subst stringmatch_class.simps) (simp add: z stringmatch_range_item disj_assoc)
  next
    case 4
    then show ?thesis using "4.IH"(3) by (subst stringmatch_class.simps) (simp add: schar_fold disj_assoc)
  qed
qed

lemma glob_match_all_stars: "glob_match (glob_tokens nocase p) [] \<longleftrightarrow> drop_stars p = []"
  by (induction p) (auto simp: drop_stars_def Let_def)

lemma skip_stars_Star:
  "\<exists>n. p = replicate n 0x2A @ drop 1 (skip_stars (0x2A # p)) \<and>
    (drop 1 (skip_stars (0x2A # p)) = [] \<or> hd (drop 1 (skip_stars (0x2A # p))) \<noteq> 0x2A)"
proof (induction p)
  case Nil
  then show ?case by (intro exI [of _ 0]) simp
next
  case (Cons y p)
  show ?case
  proof (cases "y = 0x2A")
    case True
    with Cons obtain n where "p = replicate n 0x2A @ drop 1 (skip_stars (0x2A # p))"
      "drop 1 (skip_stars (0x2A # p)) = [] \<or> hd (drop 1 (skip_stars (0x2A # p))) \<noteq> 0x2A" by blast
    with True show ?thesis by (intro exI [of _ "Suc n"]) simp
  next
    case False
    then show ?thesis by (intro exI [of _ 0]) simp
  qed
qed

lemma glob_match_Star_Star: "glob_match (Star # Star # g) s = glob_match (Star # g) s"
  by (induction s) auto

lemma glob_match_stars:
  "glob_match (Star # glob_tokens nocase (replicate n 0x2A @ q)) s
    = glob_match (Star # glob_tokens nocase q) s"
  by (induction n) (simp_all add: glob_match_Star_Star)

lemma glob_match_Star_Nil: "glob_match [Star] s"
  by (induction s) auto

lemma glob_tokens_not_star:
  "q \<noteq> [] \<Longrightarrow> hd q \<noteq> 0x2A \<Longrightarrow> \<not> glob_match (glob_tokens nocase q) []"
  by (cases q) (auto simp: Let_def)

lemma stringmatchlen_glob:
  "(s \<noteq> [] \<longrightarrow> stringmatchlen p s nocase = glob_match (glob_tokens nocase p) s)"
  "(q \<noteq> [] \<longrightarrow> hd q \<noteq> 0x2A \<longrightarrow> stringmatch_star q s nocase = glob_match (Star # glob_tokens nocase q) s)"
  "stringmatch_next r s nocase = glob_match (glob_tokens nocase r) s"
proof (induction p s nocase and q s nocase and r s nocase
    rule: stringmatchlen_stringmatch_star_stringmatch_next.induct)
  case (1 p s nocase)
  show ?case
  proof (cases p; cases s)
    fix x p' c s' assume ps: "p = x # p'" "s = c # s'"
    note IH = 1 [OF refl, unfolded ps, OF refl refl]
    note step = stringmatchlen.simps [of "x # p'" "c # s'" nocase]
    consider "x = 0x2A" | "x = 0x3F" | "x = 0x5B" | "x \<noteq> 0x2A" "x \<noteq> 0x3F" "x \<noteq> 0x5B" by blast
    then show ?thesis
    proof cases
      case 1
      obtain n where n: "p' = replicate n 0x2A @ drop 1 (skip_stars (0x2A # p'))"
        "drop 1 (skip_stars (0x2A # p')) = [] \<or> hd (drop 1 (skip_stars (0x2A # p'))) \<noteq> 0x2A"
        using skip_stars_Star [of p'] by blast
      let ?q = "drop 1 (skip_stars (0x2A # p'))"
      have tok: "glob_match (glob_tokens nocase p) s = glob_match (Star # glob_tokens nocase ?q) s"
        using 1 ps glob_match_stars [of nocase n ?q s] n(1) by simp
      show ?thesis
      proof (cases "?q = []")
        case True
        then have "length (skip_stars (0x2A # p')) = 1"
          using skip_stars_Cons [of "0x2A" p'] by (cases "skip_stars (0x2A # p')") auto
        then show ?thesis using step 1 ps tok True glob_match_Star_Nil by simp
      next
        case False
        then have "length (skip_stars (0x2A # p')) \<noteq> 1" by auto
        then show ?thesis using step 1 ps tok False n(2) IH(1) by (simp add: Let_def)
      qed
    next
      case 2
      then show ?thesis using step ps IH(2) by simp
    next
      case 3
      let ?neg = "at0 p' 0 = 0x5E"
      let ?q = "if ?neg then drop 1 p' else p'"
      define items where "items = fst (glob_class ?q)"
      define r where "r = snd (glob_class ?q)"
      define mat where "mat = (\<exists>i \<in> set items. item_matches nocase i c)"
      have mr: "stringmatch_class ?q c nocase False = (mat, r)" by (simp add: stringmatch_class_items items_def r_def mat_def)
      have "glob_tokens nocase p = One (\<lambda>c. (\<exists>i \<in> set items. item_matches nocase i c) \<noteq> ?neg) # glob_tokens nocase r"
        using 3 ps by (simp add: Let_def r_def items_def)
      then have tok: "glob_match (glob_tokens nocase p) s
          = (mat \<noteq> ?neg \<and> glob_match (glob_tokens nocase r) s')"
        using ps by (simp add: mat_def)
      have "stringmatchlen p s nocase = (if ?neg \<noteq> mat then stringmatch_next r s' nocase else False)"
        using step 3 ps mr by (simp add: Let_def)
      then show ?thesis using tok IH(3) [OF _ _ 3 refl refl mr [symmetric]] 3 by auto
    next
      case 4
      define y r where "y = (if x = 0x5C \<and> p' \<noteq> [] then hd p' else x)"
        and "r = (if x = 0x5C \<and> p' \<noteq> [] then tl p' else p')"
      have yr: "(y, r) = (if x = 0x5C \<and> 2 \<le> length (x # p') then (at0 (x # p') 1, drop 2 (x # p')) else (x, p'))"
        by (cases p') (auto simp: y_def r_def)
      have tok: "glob_match (glob_tokens nocase p) s = (char_eq nocase y c \<and> glob_match (glob_tokens nocase r) s')"
        using 4 ps by (simp add: y_def r_def)
      have "stringmatchlen p s nocase = (char_eq nocase y c \<and> stringmatch_next r s' nocase)"
        using step 4 ps yr [symmetric] schar_fold [of nocase y c] by auto
      moreover have "(if \<not> nocase then y \<noteq> c else tolower (schar y) \<noteq> tolower (schar c)) \<longleftrightarrow> \<not> char_eq nocase y c"
        using schar_fold [of nocase y c] by (cases nocase) simp_all
      ultimately show ?thesis using tok IH(4) [OF 4 refl yr] by blast
    qed
  qed (simp_all add: stringmatchlen.simps)
next
  case (2 p s nocase)
  show ?case
    using 2 glob_tokens_not_star [of p nocase]
    by (subst stringmatch_star.simps) (auto split: list.splits)
next
  case (3 p s nocase)
  show ?case
    using 3 by (subst stringmatch_next.simps) (simp add: glob_match_all_stars)
qed

definition stringmatch :: "bytes \<Rightarrow> bytes \<Rightarrow> bool \<Rightarrow> bool" where
  "stringmatch p s nocase =
     stringmatchlen (takeWhile (\<lambda>c. c \<noteq> 0) p) (takeWhile (\<lambda>c. c \<noteq> 0) s) nocase"

section \<open>Decimal numbers\<close>

definition LLONG_MAX :: int where "LLONG_MAX = 2 ^ 63 - 1"
definition LLONG_MIN :: int where "LLONG_MIN = - (2 ^ 63)"
definition ULLONG_MAX :: nat where "ULLONG_MAX = 2 ^ 64 - 1"

lemmas ll_defs = LLONG_MAX_def LLONG_MIN_def ULLONG_MAX_def

definition is_ll :: "int \<Rightarrow> bool" where
  "is_ll v \<longleftrightarrow> LLONG_MIN \<le> v \<and> v \<le> LLONG_MAX"

fun digits10 :: "nat \<Rightarrow> nat" where
  "digits10 v =
     (if v < 10 then 1
      else if v < 100 then 2
      else if v < 1000 then 3
      else if v < 1000000000000 then
        if v < 100000000 then
          if v < 1000000 then
            if v < 10000 then 4
            else 5 + (if v \<ge> 100000 then 1 else 0)
          else 7 + (if v \<ge> 10000000 then 1 else 0)
        else if v < 10000000000 then 9 + (if v \<ge> 1000000000 then 1 else 0)
        else 11 + (if v \<ge> 100000000000 then 1 else 0)
      else 12 + digits10 (v div 1000000000000))"

declare digits10.simps [simp del]

definition sdigits10 :: "int \<Rightarrow> nat" where
  "sdigits10 v =
     (if v < 0 then
        let uv = (if v \<noteq> LLONG_MIN then nat (- v) else nat LLONG_MAX + 1)
        in digits10 uv + 1
      else digits10 (nat v))"

definition digits_table :: bytes where
  "digits_table = str
    (''0001020304050607080910111213141516171819'' @
     ''2021222324252627282930313233343536373839'' @
     ''4041424344454647484950515253545556575859'' @
     ''6061626364656667686970717273747576777879'' @
     ''8081828384858687888990919293949596979899'')"

text \<open>Two digits at a time, from the end of the buffer; \<open>nxt\<close> is the index of the last free byte.\<close>

function ll2string_loop :: "nat \<Rightarrow> nat \<Rightarrow> bytes \<Rightarrow> (nat \<times> nat \<times> bytes) option" where
  "ll2string_loop val nxt dst =
     (if val \<ge> 100 then do {
        i \<leftarrow> Some ((val mod 100) * 2);
        d1 \<leftarrow> mem_byte digits_table (i + 1);
        dst1 \<leftarrow> mem_wr dst nxt [d1];
        d0 \<leftarrow> mem_byte digits_table i;
        dst2 \<leftarrow> (if nxt = 0 then None else mem_wr dst1 (nxt - 1) [d0]);
        ll2string_loop (val div 100) (nxt - 2) dst2
      } else Some (val, nxt, dst))"
  by pat_completeness auto
termination
  by (relation "measure (\<lambda>(val, nxt, dst). val)") auto

declare ll2string_loop.simps [simp del]

definition ll2string_last :: "nat \<Rightarrow> nat \<Rightarrow> bytes \<Rightarrow> bytes option" where
  "ll2string_last val nxt dst =
     (if val < 10 then mem_wr dst nxt [0x30 + word_of_nat val]
      else do {
        i \<leftarrow> Some (val * 2);
        d1 \<leftarrow> mem_byte digits_table (i + 1);
        dst' \<leftarrow> mem_wr dst nxt [d1];
        d0 \<leftarrow> mem_byte digits_table i;
        if nxt = 0 then None else mem_wr dst' (nxt - 1) [d0]
      })"

definition ll2string :: "bytes \<Rightarrow> nat \<Rightarrow> int \<Rightarrow> (nat \<times> bytes) option" where
  "ll2string dst dstlen svalue =
     (let (val, negative) =
            (if svalue < 0 then
               (if svalue \<noteq> LLONG_MIN then nat (- svalue) else nat LLONG_MAX + 1, 1)
             else (nat svalue, 0));
          len = digits10 val + negative
      in if len \<ge> dstlen then Some (0, dst)
         else do {
           dst1 \<leftarrow> mem_wr dst len [0];
           (val', nxt, dst2) \<leftarrow> ll2string_loop val (len - 1) dst1;
           dst3 \<leftarrow> ll2string_last val' nxt dst2;
           dst4 \<leftarrow> (if negative = 1 then mem_wr dst3 0 [0x2D] else Some dst3);
           Some (len, dst4)
         })"

definition is_digit :: "u8 \<Rightarrow> bool" where
  "is_digit c \<longleftrightarrow> 0x30 \<le> c \<and> c \<le> 0x39"

definition digit_val :: "u8 \<Rightarrow> nat" where
  "digit_val c = unat c - 0x30"

fun string2ll_loop :: "bytes \<Rightarrow> nat \<Rightarrow> (nat \<times> bytes) option" where
  "string2ll_loop [] v = Some (v, [])"
| "string2ll_loop (c # p) v =
     (if is_digit c then
        if v > ULLONG_MAX div 10 then None
        else let v = (v * 10) mod 2 ^ 64 in
          if v > ULLONG_MAX - digit_val c then None
          else string2ll_loop p ((v + digit_val c) mod 2 ^ 64)
      else Some (v, c # p))"

definition string2ll :: "bytes \<Rightarrow> int option" where
  "string2ll s =
     (if s = [] then None
      else if length s = 1 \<and> hd s = 0x30 then Some 0
      else
        let negative = (hd s = 0x2D);
            p = (if negative then tl s else s)
        in if negative \<and> p = [] then None
           else if 0x31 \<le> hd p \<and> hd p \<le> 0x39 then
             case string2ll_loop (tl p) (digit_val (hd p)) of
               None \<Rightarrow> None
             | Some (v, rest) \<Rightarrow>
                 if rest \<noteq> [] then None
                 else if negative then
                   if v > nat (- (LLONG_MIN + 1)) + 1 then None else Some (- int v)
                 else if int v > LLONG_MAX then None else Some (int v)
           else None)"

text \<open>\<^verbatim>\<open>long\<close> has the width of \<^verbatim>\<open>long long\<close> on the 64 bit targets.\<close>

definition string2l :: "bytes \<Rightarrow> int option" where
  "string2l s =
     (case string2ll s of None \<Rightarrow> None
      | Some v \<Rightarrow> if v < LLONG_MIN \<or> v > LLONG_MAX then None else Some v)"

subsection \<open>The decimal notation of a number\<close>

fun dec :: "nat \<Rightarrow> bytes" where
  "dec n = (if n < 10 then [0x30 + word_of_nat n] else dec (n div 10) @ [0x30 + word_of_nat (n mod 10)])"

declare dec.simps [simp del]

definition sdec :: "int \<Rightarrow> bytes" where
  "sdec v = (if v < 0 then 0x2D # dec (nat (- v)) else dec (nat v))"

lemma dec_small: "n < 10 \<Longrightarrow> dec n = [0x30 + word_of_nat n]"
  by (simp add: dec.simps)

lemma dec_large: "10 \<le> n \<Longrightarrow> dec n = dec (n div 10) @ [0x30 + word_of_nat (n mod 10)]"
  by (simp add: dec.simps [of n])

lemma dec_not_Nil [simp]: "dec n \<noteq> []"
  by (simp add: dec.simps [of n])

lemma length_dec_shift: "10 ^ k \<le> n \<Longrightarrow> length (dec n) = k + length (dec (n div 10 ^ k))"
proof (induction k)
  case 0
  then show ?case by simp
next
  case (Suc k)
  have "10 ^ k * 10 \<le> n" using Suc.prems by (simp add: mult.commute)
  then have "10 \<le> n div 10 ^ k" by (simp add: less_eq_div_iff_mult_less_eq mult.commute)
  then have "length (dec (n div 10 ^ k)) = 1 + length (dec (n div 10 ^ k div 10))"
    by (simp add: dec_large)
  moreover have "10 ^ k \<le> n" using Suc.prems by simp
  ultimately show ?case using Suc.IH by (simp add: power_Suc2 div_mult2_eq del: power_Suc)
qed

lemma length_dec_between:
  assumes "10 ^ k \<le> n" "n < 10 ^ Suc k"
  shows "length (dec n) = Suc k"
proof -
  have "n div 10 ^ k < 10" using assms(2) by (simp add: less_mult_imp_div_less mult.commute)
  then show ?thesis using length_dec_shift [OF assms(1)] by (simp add: dec_small)
qed

lemma digits10_eq: "digits10 n = length (dec n)"
proof (induction n rule: digits10.induct)
  case (1 n)
  show ?case
  proof (cases "n < 1000000000000")
    case True
    then show ?thesis
      using length_dec_between [of 1 n] length_dec_between [of 2 n] length_dec_between [of 3 n]
        length_dec_between [of 4 n] length_dec_between [of 5 n] length_dec_between [of 6 n]
        length_dec_between [of 7 n] length_dec_between [of 8 n] length_dec_between [of 9 n]
        length_dec_between [of 10 n] length_dec_between [of 11 n] dec_small [of n]
      by (simp add: digits10.simps [of n])
  next
    case False
    then have "digits10 n = 12 + length (dec (n div 1000000000000))"
      using 1 by (simp add: digits10.simps [of n])
    then show ?thesis using False length_dec_shift [of 12 n] by simp
  qed
qed

lemma digits_table_eq:
  "digits_table = concat (map (\<lambda>n. [0x30 + word_of_nat (n div 10), 0x30 + word_of_nat (n mod 10)]) [0..<100])"
  by code_simp

lemma digits_table_nth:
  assumes "n < 100"
  shows "mem_byte digits_table (n * 2) = Some (0x30 + word_of_nat (n div 10))"
    "mem_byte digits_table (n * 2 + 1) = Some (0x30 + word_of_nat (n mod 10))"
proof -
  let ?d = "\<lambda>n. [0x30 + word_of_nat (n div 10), 0x30 + word_of_nat (n mod 10)] :: bytes"
  have "mem_rd (concat (map ?d [0..<100])) (n * 2) 2 = Some (map ?d [0..<100] ! n)"
    by (rule mem_rd_cell) (use assms in auto)
  then have "mem_rd digits_table (n * 2) 2 = Some (?d n)"
    using assms by (simp add: digits_table_eq)
  then have r: "n * 2 + 2 \<le> length digits_table" "take 2 (drop (n * 2) digits_table) = ?d n"
    by (auto simp: mem_rd_def split: if_splits)
  have "digits_table ! (n * 2 + i) = ?d n ! i" if "i < 2" for i
    using r that by (metis add_leD1 nth_drop nth_take)
  from this [of 0] this [of 1] r(1)
  show "mem_byte digits_table (n * 2) = Some (0x30 + word_of_nat (n div 10))"
    "mem_byte digits_table (n * 2 + 1) = Some (0x30 + word_of_nat (n mod 10))"
    by (simp_all add: mem_byte_def)
qed

lemma dec_two_digits:
  assumes "10 \<le> n"
  shows "dec n = (if n < 100 then [] else dec (n div 100)) @
    [0x30 + word_of_nat (n mod 100 div 10), 0x30 + word_of_nat (n mod 10)]"
proof (cases "n < 100")
  case True
  then show ?thesis using assms dec_small [of "n div 10"] by (simp add: dec_large)
next
  case False
  have "dec n = dec (n div 10 div 10) @ [0x30 + word_of_nat (n div 10 mod 10), 0x30 + word_of_nat (n mod 10)]"
    using False dec_large [of n] dec_large [of "n div 10"] by simp
  moreover have "n div 10 mod 10 = n mod 100 div 10" by (simp add: mod_mult2_eq [of n 10 10, simplified])
  ultimately show ?thesis using False by (simp add: div_mult2_eq [of n 10 10, simplified])
qed

text \<open>The loop and the last step together write the notation of the number so that it ends at
  the index they start from.\<close>

lemma mem_wr_two:
  assumes "length P = n"
  shows "mem_wr (P @ [a, b] @ S) (Suc n) [y] = Some (P @ [a, y] @ S)"
    "mem_wr (P @ [a, y] @ S) n [x] = Some (P @ [x, y] @ S)"
  using mem_wr_append [of "Suc n" "P @ [a]" "[y]" "[b]" S] mem_wr_append [of n P "[x]" "[a]" "[y] @ S"]
    assms by simp_all

lemma split_last_two:
  assumes "length Q = n + 2"
  obtains Q1 a b where "Q = Q1 @ [a, b]" "length Q1 = n"
proof -
  obtain Q2 b where "Q = Q2 @ [b]" using assms by (cases Q rule: rev_cases) auto
  moreover from this obtain Q1 a where "Q2 = Q1 @ [a]" using assms by (cases Q2 rule: rev_cases) auto
  ultimately show ?thesis using that assms by simp
qed

lemma ll2string_loop_dec:
  "length Q = length (dec val) \<Longrightarrow> nxt + 1 = length P + length Q \<Longrightarrow>
   \<exists>val' nxt' dst'. ll2string_loop val nxt (P @ Q @ S) = Some (val', nxt', dst') \<and>
     ll2string_last val' nxt' dst' = Some (P @ dec val @ S)"
proof (induction val arbitrary: nxt Q S rule: less_induct)
  case (less val)
  show ?case
  proof (cases "val < 10")
    case True
    then obtain q where "Q = [q]" using less.prems(1) by (auto simp: dec_small length_Suc_conv)
    then show ?thesis
      using True less.prems mem_wr_append [of nxt P "[0x30 + word_of_nat val]" "[q]" S]
      by (simp add: ll2string_loop.simps ll2string_last_def dec_small)
  next
    case False
    let ?A = "if val < 100 then [] else dec (val div 100)"
    let ?d0 = "0x30 + word_of_nat (val mod 100 div 10) :: u8"
      and ?d1 = "0x30 + word_of_nat (val mod 10) :: u8"
    have dec: "dec val = ?A @ [?d0, ?d1]" using False dec_two_digits [of val] by simp
    then have "length Q = length ?A + 2" using less.prems(1) by simp
    then obtain Q1 a b where Q: "Q = Q1 @ [a, b]" "length Q1 = length ?A"
      by (rule split_last_two)
    have nx: "nxt = Suc (length P + length Q1)" using less.prems(2) Q by simp
    have wr: "mem_wr (P @ Q @ S) nxt [?d1] = Some (P @ Q1 @ [a, ?d1] @ S)"
      "mem_wr (P @ Q1 @ [a, ?d1] @ S) (nxt - 1) [?d0] = Some (P @ Q1 @ [?d0, ?d1] @ S)"
      using mem_wr_two(1) [of "P @ Q1" "length P + length Q1" a b S ?d1]
        mem_wr_two(2) [of "P @ Q1" "length P + length Q1" a ?d1 S ?d0] Q nx by simp_all
    have tab: "mem_byte digits_table (val mod 100 * 2) = Some ?d0"
      "mem_byte digits_table (val mod 100 * 2 + 1) = Some ?d1"
      using digits_table_nth [of "val mod 100"] by (simp_all add: mod_mod_cancel)
    show ?thesis
    proof (cases "val < 100")
      case True
      then have "ll2string_last val nxt (P @ Q @ S) = Some (P @ Q1 @ [?d0, ?d1] @ S)"
        using False wr tab nx by (simp add: ll2string_last_def)
      then show ?thesis using True dec Q by (simp add: ll2string_loop.simps)
    next
      case big: False
      have "ll2string_loop val nxt (P @ Q @ S)
          = ll2string_loop (val div 100) (nxt - 2) (P @ Q1 @ [?d0, ?d1] @ S)"
        using big wr tab nx by (subst ll2string_loop.simps) simp
      moreover have "nxt - 2 + 1 = length P + length Q1" "length Q1 = length (dec (val div 100))"
        using big nx Q(2) dec_not_Nil [of "val div 100"] by (cases Q1; simp)+
      ultimately show ?thesis
        using less.IH [of "val div 100" Q1 "nxt - 2" "[?d0, ?d1] @ S"] big dec by simp
    qed
  qed
qed

lemma ll2string_sdec:
  assumes "is_ll v" "length (sdec v) < dstlen" "dstlen \<le> length dst"
  shows "ll2string dst dstlen v = Some (length (sdec v), sdec v @ 0 # drop (length (sdec v) + 1) dst)"
proof -
  define neg :: nat where "neg = (if v < 0 then 1 else 0)"
  define val where "val = nat \<bar>v\<bar>"
  have "(if v < 0 then (if v \<noteq> LLONG_MIN then nat (- v) else nat LLONG_MAX + 1, 1) else (nat v, 0))
      = (val, neg)"
    by (auto simp: neg_def val_def ll_defs nat_add_distrib [symmetric])
  moreover have len: "length (sdec v) = digits10 val + neg"
    by (auto simp: sdec_def neg_def val_def digits10_eq)
  define P where "P = take neg dst"
  define Q where "Q = take (length (dec val)) (drop neg dst)"
  define S where "S = 0 # drop (length (sdec v) + 1) dst"
  have lens: "length P = neg" "length Q = length (dec val)"
    using assms(2,3) len by (auto simp: P_def Q_def digits10_eq neg_def)
  have "take (length (sdec v)) dst = P @ Q"
    by (simp add: P_def Q_def len digits10_eq add.commute flip: take_add)
  then have wr1: "mem_wr dst (length (sdec v)) [0] = Some (P @ Q @ S)"
    using assms(2,3) by (simp add: mem_wr_def S_def)
  obtain val' nxt' dst' where
    loop: "ll2string_loop val (length (sdec v) - 1) (P @ Q @ S) = Some (val', nxt', dst')"
    and last: "ll2string_last val' nxt' dst' = Some (P @ dec val @ S)"
    using ll2string_loop_dec [of Q val "length (sdec v) - 1" P S] lens len
      dec_not_Nil [of val] by (auto simp: digits10_eq simp del: dec_not_Nil)
  have "(if neg = 1 then mem_wr (P @ dec val @ S) 0 [0x2D] else Some (P @ dec val @ S))
      = Some (sdec v @ S)"
    using lens mem_wr_append [of 0 "[]" "[0x2D]" P "dec val @ S"]
    by (auto simp: sdec_def neg_def val_def)
  ultimately have "ll2string dst dstlen v = Some (length (sdec v), sdec v @ S)"
    using assms(2) wr1 loop last by (simp add: ll2string_def len)
  then show ?thesis by (simp add: S_def)
qed

subsection \<open>Parsing\<close>

lemma is_digitE:
  assumes "is_digit c"
  shows "c = 0x30 + word_of_nat (digit_val c)" "digit_val c < 10"
proof -
  from assms have "unat (0x30 :: u8) \<le> unat c" "unat c \<le> unat (0x39 :: u8)"
    by (simp_all only: is_digit_def word_le_nat_alt)
  then have b: "48 \<le> unat c" "unat c \<le> 57" by simp_all
  then show "digit_val c < 10" by (simp add: digit_val_def)
  have "word_of_nat (48 + digit_val c) = c" using b by (simp add: digit_val_def)
  then show "c = 0x30 + word_of_nat (digit_val c)" by simp
qed

lemma digit_char:
  assumes "d < 10"
  shows "is_digit (0x30 + word_of_nat d)" "digit_val (0x30 + word_of_nat d) = d"
proof -
  have "d \<in> {0, 1, 2, 3, 4, 5, 6, 7, 8, 9}" using assms by auto
  then show "is_digit (0x30 + word_of_nat d)" "digit_val (0x30 + word_of_nat d) = d"
    by (auto simp: is_digit_def digit_val_def)
qed

definition dval :: "nat \<Rightarrow> bytes \<Rightarrow> nat" where
  "dval v p = foldl (\<lambda>a c. a * 10 + digit_val c) v p"

lemma dval_simps [simp]: "dval v [] = v" "dval v (c # p) = dval (v * 10 + digit_val c) p"
  by (simp_all add: dval_def)

lemma dval_ge: "v \<le> dval v p"
proof (induction p arbitrary: v)
  case (Cons c p)
  have "v \<le> v * 10 + digit_val c" by simp
  also have "\<dots> \<le> dval (v * 10 + digit_val c) p" by (rule Cons)
  finally show ?case by simp
qed simp

lemma string2ll_loop_iff:
  "v \<le> ULLONG_MAX \<Longrightarrow>
   string2ll_loop p v = Some (w, []) \<longleftrightarrow> list_all is_digit p \<and> w = dval v p \<and> w \<le> ULLONG_MAX"
proof (induction p arbitrary: v)
  case Nil
  then show ?case by auto
next
  case (Cons c p)
  show ?case
  proof (cases "is_digit c")
    case False
    then show ?thesis by simp
  next
    case True
    have ge: "v * 10 + digit_val c \<le> dval v (c # p)" using dval_ge [of "v * 10 + digit_val c" p] by simp
    show ?thesis
    proof (cases "v * 10 + digit_val c \<le> ULLONG_MAX")
      case small: True
      then have "\<not> v > ULLONG_MAX div 10" by (simp add: ULLONG_MAX_def)
      moreover have "(v * 10) mod 2 ^ 64 = v * 10" "(v * 10 + digit_val c) mod 2 ^ 64 = v * 10 + digit_val c"
        using small by (simp_all add: ULLONG_MAX_def)
      moreover have "\<not> v * 10 > ULLONG_MAX - digit_val c" using small by simp
      ultimately have "string2ll_loop (c # p) v = string2ll_loop p (v * 10 + digit_val c)"
        using True by (simp add: Let_def)
      then show ?thesis using Cons.IH [OF small] True by simp
    next
      case big: False
      have "string2ll_loop (c # p) v = None"
        using big True is_digitE(2) [OF True] by (auto simp: Let_def ULLONG_MAX_def)
      then show ?thesis using big ge by auto
    qed
  qed
qed

lemma dec_dval: "0 < v \<Longrightarrow> list_all is_digit p \<Longrightarrow> dec (dval v p) = dec v @ p"
proof (induction p arbitrary: v)
  case Nil
  then show ?case by simp
next
  case (Cons c p)
  then have "is_digit c" by simp
  then have "dec (v * 10 + digit_val c) = dec v @ [c]"
    using is_digitE [of c] dec_large [of "v * 10 + digit_val c"] Cons.prems(1) by simp
  then show ?case using Cons by simp
qed

lemma dec_digits:
  "0 < n \<Longrightarrow> \<exists>d p. dec n = (0x30 + word_of_nat d) # p \<and> 1 \<le> d \<and> d \<le> 9 \<and>
    list_all is_digit p \<and> dval d p = n"
proof (induction n rule: less_induct)
  case (less n)
  show ?case
  proof (cases "n < 10")
    case True
    then show ?thesis using less.prems by (intro exI [of _ n] exI [of _ "[]"]) (simp add: dec_small)
  next
    case False
    then have "0 < n div 10" "n div 10 < n" by (simp_all add: div_greater_zero_iff)
    then obtain d p where "dec (n div 10) = (0x30 + word_of_nat d) # p" "1 \<le> d" "d \<le> 9"
      "list_all is_digit p" "dval d p = n div 10"
      using less.IH [of "n div 10"] by blast
    then show ?thesis
      using False digit_char [of "n mod 10"]
      by (intro exI [of _ d] exI [of _ "p @ [0x30 + word_of_nat (n mod 10)]"])
         (simp add: dec_large dval_def)
  qed
qed

lemma string2ll_pos_iff:
  "p \<noteq> [] \<Longrightarrow>
   (0x31 \<le> hd p \<and> hd p \<le> 0x39 \<and> string2ll_loop (tl p) (digit_val (hd p)) = Some (w, []))
   \<longleftrightarrow> 0 < w \<and> w \<le> ULLONG_MAX \<and> p = dec w"
proof
  assume "p \<noteq> []"
    and l: "0x31 \<le> hd p \<and> hd p \<le> 0x39 \<and> string2ll_loop (tl p) (digit_val (hd p)) = Some (w, [])"
  then obtain c q where p: "p = c # q" by (cases p) auto
  have dig: "is_digit c" using l p by (auto simp: is_digit_def intro: order_trans [of _ "0x31"])
  have "unat (0x31 :: u8) \<le> unat c" using l p by (simp only: word_le_nat_alt list.sel)
  then have pos: "0 < digit_val c" by (simp add: digit_val_def)
  have "digit_val c \<le> ULLONG_MAX" using is_digitE(2) [OF dig] by (simp add: ULLONG_MAX_def)
  then have w: "list_all is_digit q" "w = dval (digit_val c) q" "w \<le> ULLONG_MAX"
    using l p string2ll_loop_iff by auto
  have "dec w = dec (digit_val c) @ q" using dec_dval [OF pos w(1)] w(2) by simp
  then have "dec w = p"
    using is_digitE [OF dig] p by (simp add: dec_small)
  moreover have "0 < w" using pos w(2) dval_ge [of "digit_val c" q] by simp
  ultimately show "0 < w \<and> w \<le> ULLONG_MAX \<and> p = dec w" using w(3) by simp
next
  assume r: "0 < w \<and> w \<le> ULLONG_MAX \<and> p = dec w"
  then obtain d q where q: "dec w = (0x30 + word_of_nat d) # q" "1 \<le> d" "d \<le> 9"
    "list_all is_digit q" "dval d q = w"
    using dec_digits by blast
  have "d \<in> {1, 2, 3, 4, 5, 6, 7, 8, 9}" using q(2,3) by auto
  then have "0x31 \<le> (0x30 + word_of_nat d :: u8)" "(0x30 + word_of_nat d :: u8) \<le> 0x39"
    by auto
  moreover have "digit_val (0x30 + word_of_nat d) = d" using digit_char(2) [of d] q(3) by simp
  moreover have "d \<le> ULLONG_MAX" using q(3) by (simp add: ULLONG_MAX_def)
  ultimately show "0x31 \<le> hd p \<and> hd p \<le> 0x39 \<and> string2ll_loop (tl p) (digit_val (hd p)) = Some (w, [])"
    using r q string2ll_loop_iff [of d q w] by simp
qed

lemma hd_dec: "0 < n \<Longrightarrow> hd (dec n) \<noteq> 0x2D \<and> hd (dec n) \<noteq> 0x30"
proof -
  assume "0 < n"
  then obtain d p where "dec n = (0x30 + word_of_nat d) # p" "1 \<le> d" "d \<le> 9"
    using dec_digits by blast
  moreover from this have "d \<in> {1, 2, 3, 4, 5, 6, 7, 8, 9}" by auto
  ultimately show ?thesis by auto
qed

lemma sdec_zero_iff: "sdec v = [0x30] \<longleftrightarrow> v = 0"
  using hd_dec [of "nat v"] by (cases v "0 :: int" rule: linorder_cases) (auto simp: sdec_def dec_small)

lemma string2ll_other:
  assumes "s \<noteq> []" "s \<noteq> [0x30]" "neg \<longleftrightarrow> hd s = 0x2D" "p = (if neg then tl s else s)"
  shows "string2ll s = Some v \<longleftrightarrow> p \<noteq> [] \<and> (\<exists>w. 0 < w \<and> p = dec w \<and>
    (if neg then w \<le> 2 ^ 63 \<and> v = - int w else w < 2 ^ 63 \<and> v = int w))"
proof -
  have "\<not> (length s = 1 \<and> hd s = 0x30)" using assms(1,2) by (cases s) auto
  let ?C = "\<lambda>w. if neg then w \<le> 2 ^ 63 \<and> v = - int w else w < 2 ^ 63 \<and> v = int w"
  have "string2ll s = Some v \<longleftrightarrow> p \<noteq> [] \<and> (\<exists>w. (0x31 \<le> hd p \<and> hd p \<le> 0x39 \<and>
      string2ll_loop (tl p) (digit_val (hd p)) = Some (w, [])) \<and> ?C w)"
    using assms \<open>\<not> (length s = 1 \<and> hd s = 0x30)\<close>
    by (auto simp: string2ll_def Let_def ll_defs split: option.splits prod.splits if_splits)
  also have "\<dots> \<longleftrightarrow> p \<noteq> [] \<and> (\<exists>w. (0 < w \<and> w \<le> ULLONG_MAX \<and> p = dec w) \<and> ?C w)"
    by (rule conj_cong [OF refl], rule ex_cong1, rule conj_cong [OF _ refl], erule string2ll_pos_iff)
  also have "\<dots> \<longleftrightarrow> p \<noteq> [] \<and> (\<exists>w. 0 < w \<and> p = dec w \<and> ?C w)"
  proof -
    have "?C w \<Longrightarrow> w \<le> ULLONG_MAX" for w by (auto simp: ULLONG_MAX_def split: if_splits)
    then show ?thesis by blast
  qed
  finally show ?thesis .
qed

lemma string2ll_iff: "string2ll s = Some v \<longleftrightarrow> is_ll v \<and> s = sdec v"
proof (cases "s = [] \<or> s = [0x30]")
  case True
  have "sdec v \<noteq> []" by (simp add: sdec_def)
  moreover have "string2ll [0x30] = Some 0" "string2ll [] = None" by (simp_all add: string2ll_def)
  ultimately show ?thesis using True sdec_zero_iff [of v] by (auto simp: is_ll_def ll_defs)
next
  case False
  then have v0: "s = sdec v \<Longrightarrow> v \<noteq> 0" using sdec_zero_iff by blast
  show ?thesis
  proof (cases "hd s = 0x2D")
    case True
    have "string2ll s = Some v \<longleftrightarrow> tl s \<noteq> [] \<and> (\<exists>w. 0 < w \<and> tl s = dec w \<and> w \<le> 2 ^ 63 \<and> v = - int w)"
      using string2ll_other [of s True "tl s" v] False True by simp
    also have "\<dots> \<longleftrightarrow> - (2 ^ 63) \<le> v \<and> v < 0 \<and> tl s = dec (nat (- v))"
    proof -
      have "0 < w \<and> w \<le> 2 ^ 63 \<and> v = - int w \<longleftrightarrow> w = nat (- v) \<and> v < 0 \<and> - (2 ^ 63) \<le> v" for w
        by auto
      then show ?thesis by (metis dec_not_Nil)
    qed
    also have "\<dots> \<longleftrightarrow> is_ll v \<and> s = sdec v"
    proof -
      have "v < 0" if "s = sdec v"
        using that True hd_dec [of "nat v"] v0 by (auto simp: sdec_def split: if_splits)
      moreover have "s = 0x2D # tl s" using False True by (cases s) auto
      then have "tl s = dec (nat (- v)) \<longleftrightarrow> s = sdec v" if "v < 0"
        using that by (auto simp: sdec_def)
      ultimately show ?thesis by (auto simp: is_ll_def ll_defs)
    qed
    finally show ?thesis .
  next
    case pos: False
    have "string2ll s = Some v \<longleftrightarrow> (\<exists>w. 0 < w \<and> s = dec w \<and> w < 2 ^ 63 \<and> v = int w)"
      using string2ll_other [of s False s v] False pos by simp
    also have "\<dots> \<longleftrightarrow> v < 2 ^ 63 \<and> 0 < v \<and> s = dec (nat v)"
    proof -
      have "0 < w \<and> w < 2 ^ 63 \<and> v = int w \<longleftrightarrow> w = nat v \<and> 0 < v \<and> v < 2 ^ 63" for w
        by auto
      then show ?thesis by metis
    qed
    also have "\<dots> \<longleftrightarrow> is_ll v \<and> s = sdec v"
    proof -
      have "0 < v" if "s = sdec v"
        using that pos v0 by (cases v "0 :: int" rule: linorder_cases) (auto simp: sdec_def)
      moreover have "s = dec (nat v) \<longleftrightarrow> s = sdec v" if "0 < v"
        using that by (simp add: sdec_def)
      ultimately show ?thesis by (auto simp: is_ll_def ll_defs)
    qed
    finally show ?thesis .
  qed
qed

lemma string2ll_sdec: "is_ll v \<Longrightarrow> string2ll (sdec v) = Some v"
  by (simp add: string2ll_iff)

lemma string2ll_is_ll: "string2ll s = Some v \<Longrightarrow> is_ll v"
  by (simp add: string2ll_iff)

lemma string2l_eq: "string2l s = string2ll s"
  by (auto simp: string2l_def is_ll_def dest!: string2ll_is_ll split: option.splits)

section \<open>Memory sizes and unsigned numbers\<close>

definition strcaseeq :: "bytes \<Rightarrow> string \<Rightarrow> bool" where
  "strcaseeq u name = (map (\<lambda>c. tolower (schar c)) u = map (\<lambda>c. tolower (schar c)) (str name))"

text \<open>\<^verbatim>\<open>strtoll\<close> and \<^verbatim>\<open>strtoull\<close> in base 10: the value, whether it was out of range, and
  the rest of the string after the number.\<close>

definition isspace :: "u8 \<Rightarrow> bool" where
  "isspace c \<longleftrightarrow> c = 0x20 \<or> (0x09 \<le> c \<and> c \<le> 0x0D)"

definition strto_split :: "bytes \<Rightarrow> bool \<times> bytes \<times> bytes" where
  "strto_split s =
     (let p = dropWhile isspace s;
          neg = (at0 p 0 = 0x2D);
          q = (if at0 p 0 = 0x2D \<or> at0 p 0 = 0x2B then tl p else p)
      in (neg, takeWhile is_digit q, dropWhile is_digit q))"

definition strtoll :: "bytes \<Rightarrow> int \<times> bytes" where
  "strtoll s =
     (let (neg, ds, rest) = strto_split s; n = dval 0 ds in
      if ds = [] then (0, s)
      else if neg then (max LLONG_MIN (- int n), rest)
      else (min LLONG_MAX (int n), rest))"

definition strtoull :: "bytes \<Rightarrow> nat \<times> bool \<times> bytes" where
  "strtoull s =
     (let (neg, ds, rest) = strto_split s; n = dval 0 ds in
      if ds = [] then (0, False, s)
      else if n > ULLONG_MAX then (ULLONG_MAX, True, rest)
      else if neg then ((2 ^ 64 - n) mod 2 ^ 64, False, rest)
      else (n, False, rest))"

definition memtoll :: "bytes \<Rightarrow> int \<times> bool" where
  "memtoll p =
     (let u0 = (if at0 p 0 = 0x2D then tl p else p);
          u = dropWhile is_digit u0;
          mul = (if u = [] \<or> strcaseeq u ''b'' then Some 1
                 else if strcaseeq u ''k'' then Some 1000
                 else if strcaseeq u ''kb'' then Some 1024
                 else if strcaseeq u ''m'' then Some (1000 * 1000)
                 else if strcaseeq u ''mb'' then Some (1024 * 1024)
                 else if strcaseeq u ''g'' then Some (1000 * 1000 * 1000)
                 else if strcaseeq u ''gb'' then Some (1024 * 1024 * 1024)
                 else None)
      in case mul of None \<Rightarrow> (0, True)
         | Some m \<Rightarrow>
             let digits = length p - length u in
             if digits \<ge> 128 then (0, True)
             else let (val, endptr) = strtoll (take digits p) in
               if endptr \<noteq> [] then (0, True)
               else (sint (word_of_int (val * m) :: u64), False))"

definition string2ull :: "bytes \<Rightarrow> nat option" where
  "string2ull s =
     (case string2ll s of
        Some ll \<Rightarrow> if ll < 0 then None else Some (nat ll)
      | None \<Rightarrow>
          let (v, erange, endptr) = strtoull s in
          if erange \<or> \<not> (s \<noteq> [] \<and> endptr = []) then None else Some v)"

lemma list_all_dec: "list_all is_digit (dec n)"
proof (induction n rule: dec.induct)
  case (1 n)
  show ?case
    using 1 digit_char(1) [of n] digit_char(1) [of "n mod 10"]
    by (cases "n < 10") (simp_all add: dec_small dec_large)
qed

lemma dval_dec: "dval 0 (dec n) = n"
proof (cases "n = 0")
  case True
  then show ?thesis by (simp add: dec_small digit_val_def)
next
  case False
  then obtain d p where "dec n = (0x30 + word_of_nat d) # p" "1 \<le> d" "d \<le> 9" "dval d p = n"
    using dec_digits [of n] by auto
  then show ?thesis using digit_char(2) [of d] by simp
qed

lemma takeWhile_dec:
  "u = [] \<or> \<not> is_digit (hd u) \<Longrightarrow> takeWhile is_digit (dec n @ u) = dec n \<and> dropWhile is_digit (dec n @ u) = u"
  using list_all_dec [of n] by (cases u) (auto simp: list_all_iff takeWhile_append dropWhile_append)

lemma hd_dec_digit: "is_digit (hd (dec n))"
  using list_all_dec [of n] dec_not_Nil [of n] by (cases "dec n") auto

lemma ll2string_small:
  assumes "is_ll v" "dstlen \<le> length (sdec v)"
  shows "ll2string dst dstlen v = Some (0, dst)"
proof -
  have "(if v < 0 then (if v \<noteq> LLONG_MIN then nat (- v) else nat LLONG_MAX + 1, 1) else (nat v, 0))
      = (nat \<bar>v\<bar>, if v < 0 then 1 else 0 :: nat)"
    by (auto simp: ll_defs nat_add_distrib [symmetric])
  moreover have "length (sdec v) = digits10 (nat \<bar>v\<bar>) + (if v < 0 then 1 else 0)"
    by (auto simp: sdec_def digits10_eq)
  ultimately show ?thesis using assms(2) by (simp add: ll2string_def)
qed

lemma string2ll_neg0: "string2ll (0x2D # 0x30 # p) = None"
  by (simp add: string2ll_def Let_def)

lemma is_digit_no_prefix: "is_digit c \<Longrightarrow> \<not> isspace c \<and> c \<noteq> 0x2D \<and> c \<noteq> 0x2B"
  by (auto simp: is_digit_def isspace_def word_le_nat_alt)

lemma strto_split_dec:
  assumes "u = [] \<or> \<not> is_digit (hd u)"
  shows "strto_split (dec n @ u) = (False, dec n, u)"
proof -
  obtain d p where dp: "dec n = d # p" "is_digit d"
    using hd_dec_digit [of n] dec_not_Nil [of n] by (cases "dec n") auto
  then have "dropWhile isspace (dec n @ u) = dec n @ u" "at0 (dec n @ u) 0 = d"
    using is_digit_no_prefix by simp_all
  then show ?thesis
    using takeWhile_dec [OF assms] is_digit_no_prefix [OF dp(2)] by (simp add: strto_split_def)
qed

lemma strto_split_neg0:
  "strto_split (0x2D # 0x30 # dec n) = (True, 0x30 # dec n, [])"
proof -
  have "is_digit 0x30" "\<not> isspace 0x2D" by (simp_all add: is_digit_def isspace_def)
  then show ?thesis using takeWhile_dec [of "[]" n] by (simp add: strto_split_def)
qed

lemma string2ll_dec: "string2ll (dec n) = (if n < 2 ^ 63 then Some (int n) else None)"
proof (cases "string2ll (dec n)")
  case None
  then have "\<not> is_ll (int n)" using string2ll_sdec [of "int n"] by (auto simp: sdec_def)
  then show ?thesis using None by (auto simp: is_ll_def ll_defs)
next
  case (Some v)
  then have v: "is_ll v" "dec n = sdec v" by (simp_all add: string2ll_iff)
  have "0 \<le> v"
  proof (rule ccontr)
    assume "\<not> 0 \<le> v"
    then have "hd (dec n) = 0x2D" unfolding v(2) by (simp add: sdec_def)
    then show False using is_digit_no_prefix [OF hd_dec_digit [of n]] by simp
  qed
  then have "sdec v = dec (nat v)" by (simp add: sdec_def)
  then have "n = nat v" using v(2) by (metis dval_dec)
  then show ?thesis using Some v(1) \<open>0 \<le> v\<close> by (auto simp: is_ll_def ll_defs)
qed

lemma length_dec: "n < 10 ^ Suc k \<Longrightarrow> length (dec n) \<le> Suc k"
proof (induction k arbitrary: n)
  case 0
  then show ?case by (simp add: dec_small)
next
  case (Suc k)
  show ?case
  proof (cases "n < 10")
    case True
    then show ?thesis by (simp add: dec_small)
  next
    case False
    have "n div 10 < 10 ^ Suc k" using Suc.prems by (simp add: div_less_iff_less_mult mult.commute)
    then show ?thesis using Suc.IH [of "n div 10"] False by (simp add: dec_large)
  qed
qed

text \<open>The units that \<^verbatim>\<open>memtoll\<close> knows.\<close>

definition mem_units :: "(bytes \<times> int) list" where
  "mem_units = [([], 1), (str ''b'', 1), (str ''k'', 1000), (str ''kb'', 1024),
      (str ''m'', 1000000), (str ''mb'', 1048576), (str ''g'', 1000000000), (str ''gb'', 1073741824)]"

section \<open>Properties\<close>

text \<open>C24: glob matching. On a non-empty string \<^verbatim>\<open>stringmatchlen\<close> decides the reference
  semantics of the pattern, in which a star stands for any sequence of characters; the empty
  string is matched by the empty pattern only, so the pattern \<open>*\<close> does not match it.\<close>

theorem stringmatchlen_correct:
  "stringmatchlen p s nocase =
     (if s = [] then p = [] else glob_match (glob_tokens nocase p) s)"
  using stringmatchlen_glob(1) [of s p nocase] by (auto simp: stringmatchlen.simps [of p "[]"] split: list.splits)

text \<open>C22: \<^verbatim>\<open>string2ll\<close> accepts exactly the canonical decimal representations of the 64 bit
  signed integers, without leading zeros, plus signs, spaces or a negative zero, and returns
  the integer that the string denotes.\<close>

theorem string2ll_exact: "string2ll s = Some v \<longleftrightarrow> is_ll v \<and> s = sdec v"
  by (rule string2ll_iff)

text \<open>C23: printing and parsing. For every 64 bit integer and every buffer that is large enough,
  \<^verbatim>\<open>ll2string\<close> stays within the buffer, returns the length of the representation, ends it
  with a NUL, leaves the bytes behind it alone, and \<^verbatim>\<open>string2ll\<close> reads the integer back; a
  buffer that is too small is left unchanged and gives zero.\<close>

theorem ll2string_roundtrip:
  assumes "is_ll v" "dstlen \<le> length dst"
  shows "if length (sdec v) < dstlen then
      \<exists>dst'. ll2string dst dstlen v = Some (length (sdec v), dst') \<and> length dst' = length dst \<and>
        string2ll (take (length (sdec v)) dst') = Some v \<and> dst' ! length (sdec v) = 0 \<and>
        drop (length (sdec v) + 1) dst' = drop (length (sdec v) + 1) dst
    else ll2string dst dstlen v = Some (0, dst)"
  using ll2string_sdec [OF assms(1)] string2ll_sdec [OF assms(1)] ll2string_small [OF assms(1)] assms(2)
  by (auto simp: nth_append)

theorem ll2string_roundtrip_witness:
  "\<exists>dst'. ll2string [7, 7, 7, 7, 7] 5 (- 42) = Some (3, dst') \<and> string2ll (take 3 dst') = Some (- 42)
     \<and> drop 4 dst' = [7]"
proof -
  have "sdec (- 42) = [0x2D, 0x34, 0x32]" by (simp add: sdec_def dec.simps)
  then show ?thesis
    using ll2string_roundtrip [of "- 42" 5 "[7, 7, 7, 7, 7]"] by (auto simp: is_ll_def ll_defs numeral_eq_Suc)
qed

text \<open>\<^verbatim>\<open>string2ull\<close> parses every unsigned 64 bit number and refuses every canonical
  negative one, but a negative number with leading zeros reaches \<^verbatim>\<open>strtoull\<close>, which
  negates it modulo the word: \<open>-01\<close> is accepted as the largest unsigned number.\<close>

theorem string2ull_negative:
  "(\<forall>n. string2ull (dec n) = (if n < 2 ^ 64 then Some n else None)) \<and>
   (\<forall>n. 0 < n \<and> n \<le> 2 ^ 63 \<longrightarrow> string2ull (0x2D # dec n) = None) \<and>
   (\<forall>n. 0 < n \<and> n < 2 ^ 64 \<longrightarrow> string2ull (0x2D # 0x30 # dec n) = Some (2 ^ 64 - n))"
proof (intro conjI allI impI)
  fix n
  have "strtoull (dec n) = (if n < 2 ^ 64 then (n, False, []) else (ULLONG_MAX, True, []))"
    using strto_split_dec [of "[]" n] by (auto simp: strtoull_def dval_dec ULLONG_MAX_def)
  then show "string2ull (dec n) = (if n < 2 ^ 64 then Some n else None)"
    by (simp add: string2ull_def string2ll_dec)
next
  fix n :: nat assume n: "0 < n \<and> n \<le> 2 ^ 63"
  then have "0x2D # dec n = sdec (- int n)" "is_ll (- int n)"
    by (auto simp: sdec_def is_ll_def ll_defs)
  then show "string2ull (0x2D # dec n) = None"
    using string2ll_sdec [of "- int n"] n by (simp only: string2ull_def) simp
next
  fix n :: nat assume n: "0 < n \<and> n < 2 ^ 64"
  have "dval 0 (0x30 # dec n) = n" by (simp add: digit_val_def dval_dec)
  then have "strtoull (0x2D # 0x30 # dec n) = (2 ^ 64 - n, False, [])"
    using n strto_split_neg0 [of n] by (simp add: strtoull_def ULLONG_MAX_def)
  then show "string2ull (0x2D # 0x30 # dec n) = Some (2 ^ 64 - n)"
    by (simp add: string2ull_def string2ll_neg0)
qed

theorem string2ull_negative_witness:
  "string2ull (str ''-5'') = None \<and> string2ull (str ''-01'') = Some (2 ^ 64 - 1)"
  using string2ull_negative [THEN conjunct2, THEN conjunct1, THEN spec, of 5]
    string2ull_negative [THEN conjunct2, THEN conjunct2, THEN spec, of 1]
  by (simp add: dec_small)

text \<open>\<^verbatim>\<open>memtoll\<close> accepts every number whose digits fit its buffer, with every unit, and
  returns the number, cut at the largest 64 bit integer, times the unit as a 64 bit product: the
  result is exact while the product fits, and wraps around without an error beyond.\<close>

theorem memtoll_units:
  assumes "n < 10 ^ 127" "(u, m) \<in> set mem_units"
  shows "memtoll (dec n @ u) = (sint (word_of_int (min LLONG_MAX (int n) * m) :: u64), False)"
proof -
  have u: "u = [] \<or> \<not> is_digit (hd u)"
    using assms(2) by (auto simp: mem_units_def is_digit_def)
  have drop: "dropWhile is_digit (dec n @ u) = u" using takeWhile_dec [OF u] by simp
  obtain d p where dp: "dec n = d # p" "is_digit d"
    using hd_dec_digit [of n] dec_not_Nil [of n] by (cases "dec n") auto
  then have "at0 (dec n @ u) 0 \<noteq> 0x2D" using is_digit_no_prefix by simp
  moreover have "length (dec n) < 128"
    using length_dec [of n 126] assms(1) by simp
  moreover have "strtoll (dec n) = (min LLONG_MAX (int n), [])"
    using strto_split_dec [of "[]" n] by (auto simp: strtoll_def dval_dec)
  ultimately show ?thesis using drop assms(2)
    by (auto simp: memtoll_def Let_def mem_units_def strcaseeq_def tolower_def schar_def)
qed

theorem memtoll_units_witness:
  "memtoll (str ''3kb'') = (3072, False) \<and> memtoll (str ''9000000000gb'') = (- 8783067657709551616, False)"
proof -
  have "dec 3 = str ''3''" "dec 9000000000 = str ''9000000000''" by (simp_all add: dec.simps)
  then show ?thesis
    using memtoll_units [of 3 "str ''kb''" 1024] memtoll_units [of 9000000000 "str ''gb''" 1073741824]
    by (simp add: mem_units_def ll_defs signed_take_bit_int_eq_self)
qed

end
