(* ===== verification/Server.thy ===== *)
theory Server
  imports Util
begin

text \<open>
  The state that the commands share: objects (\<^verbatim>\<open>object.c\<close>), databases, clients and the
  server, and the primitives of \<^verbatim>\<open>db.c\<close> and \<^verbatim>\<open>multi.c\<close> that every command is built
  from: lookup with expiry, insertion, overwriting, deletion, time to live, and the signal to
  clients that watch a key. The hash tables of a database are finite maps, which the theory
  \<open>Dict\<close> shows \<^verbatim>\<open>dict.c\<close> to implement. An assertion that fails sets the sticky flag
  \<open>aborted\<close>, as the process ends there.

  Not part of the state: reference counts and access times of objects, module and cluster hooks
  (cluster mode is off), client side caching, and the latency and slow logs. The clock does not
  move while a command runs.
\<close>

section \<open>Objects\<close>

datatype otype = OBJ_STRING | OBJ_LIST | OBJ_SET | OBJ_ZSET | OBJ_HASH | OBJ_STREAM

text \<open>A string is stored as bytes, in an allocation of its own or embedded in the object, or as an
  integer. The other types are pointers to their structures.\<close>

datatype robj = Raw bytes | Embstr bytes | IntEnc int | Ptr otype nat

definition otype_of :: "robj \<Rightarrow> otype" where
  "otype_of o1 = (case o1 of Ptr t _ \<Rightarrow> t | _ \<Rightarrow> OBJ_STRING)"

definition sdsEncodedObject :: "robj \<Rightarrow> bool" where
  "sdsEncodedObject o1 = (case o1 of Raw _ \<Rightarrow> True | Embstr _ \<Rightarrow> True | _ \<Rightarrow> False)"

definition OBJ_ENCODING_EMBSTR_SIZE_LIMIT :: nat where "OBJ_ENCODING_EMBSTR_SIZE_LIMIT = 44"

definition createStringObject :: "bytes \<Rightarrow> robj" where
  "createStringObject b = (if length b \<le> OBJ_ENCODING_EMBSTR_SIZE_LIMIT then Embstr b else Raw b)"

text \<open>Shared integers are the same objects, so both branches of
  \<^verbatim>\<open>createStringObjectFromLongLongWithOptions\<close> give the integer encoding.\<close>

definition createStringObjectFromLongLong :: "int \<Rightarrow> robj" where
  "createStringObjectFromLongLong v = IntEnc v"

definition tryObjectEncoding :: "robj \<Rightarrow> robj" where
  "tryObjectEncoding o1 =
     (if \<not> sdsEncodedObject o1 then o1
      else
        let s = (case o1 of Raw s \<Rightarrow> s | Embstr s \<Rightarrow> s | _ \<Rightarrow> []) in
        case (if length s \<le> 20 then string2l s else None) of
          Some v \<Rightarrow> createStringObjectFromLongLong v
        | None \<Rightarrow>
            if length s \<le> OBJ_ENCODING_EMBSTR_SIZE_LIMIT then Embstr s else o1)"

definition getDecodedObject :: "robj \<Rightarrow> bytes" where
  "getDecodedObject o1 =
     (case o1 of Raw s \<Rightarrow> s | Embstr s \<Rightarrow> s
      | IntEnc v \<Rightarrow> (case ll2string (replicate 32 0) 32 v of
                   Some (n, buf) \<Rightarrow> takeWhile (\<lambda>c. c \<noteq> 0) buf | None \<Rightarrow> [])
      | Ptr _ _ \<Rightarrow> [])"

definition stringObjectLen :: "robj \<Rightarrow> nat" where
  "stringObjectLen o1 =
     (case o1 of Raw s \<Rightarrow> length s | Embstr s \<Rightarrow> length s | IntEnc v \<Rightarrow> sdigits10 v | Ptr _ _ \<Rightarrow> 0)"

text \<open>\<open>None\<close> as an argument is the NULL object, as a result \<^verbatim>\<open>C_ERR\<close>.\<close>

definition getLongLongFromObject :: "robj option \<Rightarrow> int option" where
  "getLongLongFromObject o1 =
     (case o1 of
        None \<Rightarrow> Some 0
      | Some (Raw s) \<Rightarrow> string2ll s
      | Some (Embstr s) \<Rightarrow> string2ll s
      | Some (IntEnc v) \<Rightarrow> Some v
      | Some (Ptr _ _) \<Rightarrow> None)"

section \<open>The server\<close>

datatype reply =
    ROk | RStatus string | RErr string | RInt int | RBulk bytes | RNull | RNullArray
  | RArrayLen nat | RQueued | RWrongType | RSyntax

text \<open>The commands that the development models, as the command table names them.\<close>

datatype command =
    SET | SETNX | SETEX | PSETEX | GET | GETSET | SETRANGE | GETRANGE | MGET | MSET | MSETNX
  | INCR | DECR | INCRBY | DECRBY | APPEND | STRLEN
  | DEL | UNLINK | EXISTS | SELECT | RENAME | RENAMENX | MOVE | SWAPDB | KEYTYPE | DBSIZE
  | FLUSHDB | FLUSHALL | TOUCH
  | EXPIRE | EXPIREAT | PEXPIRE | PEXPIREAT | TTL | PTTL | PERSIST
  | MULTI | EXEC | DISCARD | WATCH | UNWATCH

record redisDb =
  db_dict :: "bytes \<rightharpoonup> robj"
  db_expires :: "bytes \<rightharpoonup> int"
  db_watched :: "bytes \<rightharpoonup> nat list"

record client =
  c_db :: nat
  c_argv :: "bytes list"
  c_cmd :: command
  c_multi :: bool
  c_dirty_cas :: bool
  c_dirty_exec :: bool
  c_master :: bool
  c_mstate :: "(command \<times> bytes list) list"
  c_mflags_write :: bool
  c_watched :: "(nat \<times> bytes) list"
  c_reply :: "reply list"

record server =
  dbs :: "redisDb list"
  clients :: "nat \<Rightarrow> client"
  client_list :: "nat list"
  dirty :: int
  clock :: int
  cached_mstime :: int
  fixed_time_expire :: nat
  lua_time :: "int option"
  lua_timedout :: bool
  saveparamslen :: nat
  loading :: bool
  is_replica :: bool
  repl_slave_ro :: bool
  lazyfree_lazy_expire :: bool
  lazyfree_lazy_server_del :: bool
  lazyfree_lazy_user_del :: bool
  current_readonly :: bool
  slave_keys :: "bytes \<rightharpoonup> u64"
  stat_hits :: nat
  stat_misses :: nat
  stat_expired :: nat
  events :: "(string \<times> bytes \<times> nat) list"
  propagated :: "(nat \<times> bytes list) list"
  aborted :: bool

definition serverAssert :: "bool \<Rightarrow> server \<Rightarrow> server" where
  "serverAssert b s = (if b then s else s\<lparr>aborted := True\<rparr>)"

definition mstime :: "server \<Rightarrow> int" where
  "mstime s = clock s"

definition upd_db :: "nat \<Rightarrow> (redisDb \<Rightarrow> redisDb) \<Rightarrow> server \<Rightarrow> server" where
  "upd_db i f s = s\<lparr>dbs := (dbs s)[i := f (dbs s ! i)]\<rparr>"

definition upd_client :: "nat \<Rightarrow> (client \<Rightarrow> client) \<Rightarrow> server \<Rightarrow> server" where
  "upd_client c f s = s\<lparr>clients := (clients s)(c := f (clients s c))\<rparr>"

definition addReply :: "nat \<Rightarrow> reply \<Rightarrow> server \<Rightarrow> server" where
  "addReply c r s = upd_client c (\<lambda>cl. cl\<lparr>c_reply := c_reply cl @ [r]\<rparr>) s"

definition notifyKeyspaceEvent :: "string \<Rightarrow> bytes \<Rightarrow> nat \<Rightarrow> server \<Rightarrow> server" where
  "notifyKeyspaceEvent event key dbid s = s\<lparr>events := events s @ [(event, key, dbid)]\<rparr>"

definition incr_dirty :: "server \<Rightarrow> server" where
  "incr_dirty s = s\<lparr>dirty := dirty s + 1\<rparr>"

text \<open>What is fed to the append only file and the replicas.\<close>

definition propagate :: "nat \<Rightarrow> bytes list \<Rightarrow> server \<Rightarrow> server" where
  "propagate dbid argv s = s\<lparr>propagated := propagated s @ [(dbid, argv)]\<rparr>"

abbreviation dict_at :: "server \<Rightarrow> nat \<Rightarrow> bytes \<rightharpoonup> robj" where
  "dict_at s i \<equiv> db_dict (dbs s ! i)"

abbreviation expires_at :: "server \<Rightarrow> nat \<Rightarrow> bytes \<rightharpoonup> int" where
  "expires_at s i \<equiv> db_expires (dbs s ! i)"

section \<open>Watched keys\<close>

definition set_dirty_cas :: "nat \<Rightarrow> server \<Rightarrow> server" where
  "set_dirty_cas c = upd_client c (\<lambda>cl. cl\<lparr>c_dirty_cas := True\<rparr>)"

definition touchWatchedKey :: "nat \<Rightarrow> bytes \<Rightarrow> server \<Rightarrow> server" where
  "touchWatchedKey i key s =
     (case db_watched (dbs s ! i) key of
        None \<Rightarrow> s
      | Some cs \<Rightarrow> fold set_dirty_cas cs s)"

definition signalModifiedKey :: "nat \<Rightarrow> bytes \<Rightarrow> server \<Rightarrow> server" where
  "signalModifiedKey i key s = touchWatchedKey i key s"

section \<open>Deleting keys\<close>

definition dbSyncDelete :: "nat \<Rightarrow> bytes \<Rightarrow> server \<Rightarrow> server \<times> bool" where
  "dbSyncDelete i key s =
     (let s = upd_db i (\<lambda>db. db\<lparr>db_expires := (db_expires db)(key := None)\<rparr>) s;
          found = (dict_at s i key \<noteq> None)
      in (upd_db i (\<lambda>db. db\<lparr>db_dict := (db_dict db)(key := None)\<rparr>) s, found))"

text \<open>The value may be freed by another thread; the key is unlinked at once.\<close>

definition dbAsyncDelete :: "nat \<Rightarrow> bytes \<Rightarrow> server \<Rightarrow> server \<times> bool" where
  "dbAsyncDelete i key s =
     (let s = upd_db i (\<lambda>db. db\<lparr>db_expires := (db_expires db)(key := None)\<rparr>) s;
          found = (dict_at s i key \<noteq> None)
      in (upd_db i (\<lambda>db. db\<lparr>db_dict := (db_dict db)(key := None)\<rparr>) s, found))"

definition dbDelete :: "nat \<Rightarrow> bytes \<Rightarrow> server \<Rightarrow> server \<times> bool" where
  "dbDelete i key s =
     (if lazyfree_lazy_server_del s then dbAsyncDelete i key s else dbSyncDelete i key s)"

section \<open>Time to live\<close>

definition removeExpire :: "nat \<Rightarrow> bytes \<Rightarrow> server \<Rightarrow> server \<times> bool" where
  "removeExpire i key s =
     (let s = serverAssert (dict_at s i key \<noteq> None) s;
          had = (expires_at s i key \<noteq> None)
      in (upd_db i (\<lambda>db. db\<lparr>db_expires := (db_expires db)(key := None)\<rparr>) s, had))"

definition rememberSlaveKeyWithExpire :: "nat \<Rightarrow> bytes \<Rightarrow> server \<Rightarrow> server" where
  "rememberSlaveKeyWithExpire i key s =
     (if i > 63 then s
      else
        let dbids = (case slave_keys s key of None \<Rightarrow> 0 | Some d \<Rightarrow> d)
        in s\<lparr>slave_keys := (slave_keys s)(key \<mapsto> dbids OR push_bit i 1)\<rparr>)"

definition flushSlaveKeysWithExpireList :: "server \<Rightarrow> server" where
  "flushSlaveKeysWithExpireList s = s\<lparr>slave_keys := Map.empty\<rparr>"

definition setExpire :: "nat \<Rightarrow> nat \<Rightarrow> bytes \<Rightarrow> int \<Rightarrow> server \<Rightarrow> server" where
  "setExpire c i key when s =
     (let s = serverAssert (dict_at s i key \<noteq> None) s;
          s = upd_db i (\<lambda>db. db\<lparr>db_expires := (db_expires db)(key \<mapsto> when)\<rparr>) s;
          writable_slave = (is_replica s \<and> \<not> repl_slave_ro s)
      in if writable_slave \<and> \<not> c_master (clients s c) then rememberSlaveKeyWithExpire i key s else s)"

definition getExpire :: "nat \<Rightarrow> bytes \<Rightarrow> server \<Rightarrow> server \<times> int" where
  "getExpire i key s =
     (case expires_at s i key of
        None \<Rightarrow> (s, - 1)
      | Some when \<Rightarrow> (serverAssert (dict_at s i key \<noteq> None) s, when))"

definition propagateExpire :: "nat \<Rightarrow> bytes \<Rightarrow> bool \<Rightarrow> server \<Rightarrow> server" where
  "propagateExpire i key lazy s = propagate i [if lazy then str ''UNLINK'' else str ''DEL'', key] s"

definition expire_now :: "server \<Rightarrow> int" where
  "expire_now s =
     (case lua_time s of
        Some t \<Rightarrow> t
      | None \<Rightarrow> if fixed_time_expire s > 0 then cached_mstime s else mstime s)"

definition keyIsExpired :: "nat \<Rightarrow> bytes \<Rightarrow> server \<Rightarrow> server \<times> bool" where
  "keyIsExpired i key s =
     (let (s, when) = getExpire i key s in
      if when < 0 then (s, False)
      else if loading s then (s, False)
      else (s, expire_now s > when))"

definition expireIfNeeded :: "nat \<Rightarrow> bytes \<Rightarrow> server \<Rightarrow> server \<times> bool" where
  "expireIfNeeded i key s =
     (let (s, expired) = keyIsExpired i key s in
      if \<not> expired then (s, False)
      else if is_replica s then (s, True)
      else
        let s = s\<lparr>stat_expired := stat_expired s + 1\<rparr>;
            s = propagateExpire i key (lazyfree_lazy_expire s) s;
            s = notifyKeyspaceEvent ''expired'' key i s;
            (s, retval) = (if lazyfree_lazy_expire s then dbAsyncDelete i key s else dbSyncDelete i key s)
        in (if retval then signalModifiedKey i key s else s, retval))"

section \<open>Looking up and storing keys\<close>

definition lookupKey :: "nat \<Rightarrow> bytes \<Rightarrow> server \<Rightarrow> robj option" where
  "lookupKey i key s = dict_at s i key"

definition lookupKeyRead :: "nat \<Rightarrow> bytes \<Rightarrow> server \<Rightarrow> server \<times> robj option" where
  "lookupKeyRead i key s =
     (let (s, expired) = expireIfNeeded i key s;
          miss = (\<lambda>s. notifyKeyspaceEvent ''keymiss'' key i (s\<lparr>stat_misses := stat_misses s + 1\<rparr>))
      in if expired \<and> (\<not> is_replica s \<or> current_readonly s) then (miss s, None)
         else case lookupKey i key s of
             None \<Rightarrow> (miss s, None)
           | Some v \<Rightarrow> (s\<lparr>stat_hits := stat_hits s + 1\<rparr>, Some v))"

definition lookupKeyWrite :: "nat \<Rightarrow> bytes \<Rightarrow> server \<Rightarrow> server \<times> robj option" where
  "lookupKeyWrite i key s = (let (s, _) = expireIfNeeded i key s in (s, lookupKey i key s))"

definition dbAdd :: "nat \<Rightarrow> bytes \<Rightarrow> robj \<Rightarrow> server \<Rightarrow> server" where
  "dbAdd i key val s =
     (let s = serverAssert (dict_at s i key = None) s
      in upd_db i (\<lambda>db. db\<lparr>db_dict := (if db_dict db key = None then (db_dict db)(key \<mapsto> val) else db_dict db)\<rparr>) s)"

definition dbOverwrite :: "nat \<Rightarrow> bytes \<Rightarrow> robj \<Rightarrow> server \<Rightarrow> server" where
  "dbOverwrite i key val s =
     (let s = serverAssert (dict_at s i key \<noteq> None) s
      in upd_db i (\<lambda>db. db\<lparr>db_dict := (db_dict db)(key \<mapsto> val)\<rparr>) s)"

definition genericSetKey :: "nat \<Rightarrow> bytes \<Rightarrow> robj \<Rightarrow> bool \<Rightarrow> bool \<Rightarrow> server \<Rightarrow> server" where
  "genericSetKey i key val keepttl signal s =
     (let (s, old) = lookupKeyWrite i key s;
          s = (if old = None then dbAdd i key val s else dbOverwrite i key val s);
          s = (if \<not> keepttl then fst (removeExpire i key s) else s)
      in if signal then signalModifiedKey i key s else s)"

definition setKey :: "nat \<Rightarrow> bytes \<Rightarrow> robj \<Rightarrow> server \<Rightarrow> server" where
  "setKey i key val s = genericSetKey i key val False True s"

definition dbExists :: "nat \<Rightarrow> bytes \<Rightarrow> server \<Rightarrow> bool" where
  "dbExists i key s = (dict_at s i key \<noteq> None)"

text \<open>A string that is shared or not in the raw encoding is replaced by a raw copy; the copy of a
  string that is neither has the same contents.\<close>

definition dbUnshareStringValue :: "nat \<Rightarrow> bytes \<Rightarrow> robj \<Rightarrow> server \<Rightarrow> server \<times> bytes" where
  "dbUnshareStringValue i key o1 s =
     (let s = serverAssert (otype_of o1 = OBJ_STRING) s in
      case o1 of
        Raw b \<Rightarrow> (s, b)
      | _ \<Rightarrow> let b = getDecodedObject o1 in (dbOverwrite i key (Raw b) s, b))"

text \<open>Writing through the pointer to a raw string of the database.\<close>

definition write_raw :: "nat \<Rightarrow> bytes \<Rightarrow> bytes \<Rightarrow> server \<Rightarrow> server" where
  "write_raw i key b = upd_db i (\<lambda>db. db\<lparr>db_dict := (db_dict db)(key \<mapsto> Raw b)\<rparr>)"

section \<open>The invariant\<close>

named_theorems kstep_intros \<open>steps that commands are composed of\<close>

definition db_ok :: "redisDb \<Rightarrow> bool" where
  "db_ok db \<longleftrightarrow> finite (dom (db_dict db)) \<and> dom (db_expires db) \<subseteq> dom (db_dict db)"

abbreviation watching :: "server \<Rightarrow> nat \<Rightarrow> nat \<Rightarrow> bytes \<Rightarrow> bool" where
  "watching s c i k \<equiv> (i, k) \<in> set (c_watched (clients s c))"

definition watch_ok :: "server \<Rightarrow> bool" where
  "watch_ok s \<longleftrightarrow>
     (\<forall>i < length (dbs s). \<forall>k cs. db_watched (dbs s ! i) k = Some cs \<longrightarrow>
        cs \<noteq> [] \<and> distinct cs \<and> (\<forall>c \<in> set cs. watching s c i k)) \<and>
     (\<forall>c. distinct (c_watched (clients s c)) \<and> (\<forall>i k. watching s c i k \<longrightarrow>
        i < length (dbs s) \<and> (\<exists>cs. db_watched (dbs s ! i) k = Some cs \<and> c \<in> set cs)))"

text \<open>No assertion has failed, every key with a time to live exists, watched keys and watching
  clients refer to each other, clients that watch keys are on the list of clients, and every
  client has selected an existing database.\<close>

definition server_ok :: "server \<Rightarrow> bool" where
  "server_ok s \<longleftrightarrow> \<not> aborted s \<and> (\<forall>db \<in> set (dbs s). db_ok db) \<and> watch_ok s \<and>
     (\<forall>c. c_db (clients s c) < length (dbs s) \<and> (c_watched (clients s c) \<noteq> [] \<longrightarrow> c \<in> set (client_list s)))"

text \<open>The parts of the state that data commands leave alone.\<close>

definition client_frame :: "client \<Rightarrow> client \<Rightarrow> bool" where
  "client_frame a b \<longleftrightarrow> c_watched b = c_watched a \<and> c_db b = c_db a \<and> c_multi b = c_multi a \<and>
     c_mstate b = c_mstate a \<and> c_dirty_exec b = c_dirty_exec a \<and> c_master b = c_master a \<and>
     c_mflags_write b = c_mflags_write a \<and> (c_dirty_cas a \<longrightarrow> c_dirty_cas b)"

definition config_frame :: "server \<Rightarrow> server \<Rightarrow> bool" where
  "config_frame s s' \<longleftrightarrow> clock s' = clock s \<and> cached_mstime s' = cached_mstime s \<and>
     fixed_time_expire s' = fixed_time_expire s \<and> lua_time s' = lua_time s \<and>
     lua_timedout s' = lua_timedout s \<and> saveparamslen s' = saveparamslen s \<and> loading s' = loading s \<and>
     is_replica s' = is_replica s \<and> repl_slave_ro s' = repl_slave_ro s \<and>
     lazyfree_lazy_expire s' = lazyfree_lazy_expire s \<and>
     lazyfree_lazy_server_del s' = lazyfree_lazy_server_del s \<and>
     lazyfree_lazy_user_del s' = lazyfree_lazy_user_del s \<and>
     current_readonly s' = current_readonly s \<and> client_list s' = client_list s"

text \<open>\<open>kstep X s s'\<close>: the invariant is kept, and every key outside \<open>X\<close> whose value has changed is
  watched only by clients whose transactions are now marked to fail.\<close>

definition kstep :: "(nat \<times> bytes) set \<Rightarrow> server \<Rightarrow> server \<Rightarrow> bool" where
  "kstep X s s' \<longleftrightarrow> (server_ok s \<longrightarrow> server_ok s' \<and> length (dbs s') = length (dbs s) \<and> config_frame s s' \<and>
     (\<forall>i < length (dbs s). db_watched (dbs s' ! i) = db_watched (dbs s ! i)) \<and>
     (\<forall>c. client_frame (clients s c) (clients s' c)) \<and>
     (\<forall>i < length (dbs s). \<forall>k. (i, k) \<notin> X \<longrightarrow> dict_at s' i k = dict_at s i k \<or>
        (\<forall>c. watching s c i k \<longrightarrow> c_dirty_cas (clients s' c))))"

lemma client_frame_refl [simp]: "client_frame a a"
  by (simp add: client_frame_def)

lemma config_frame_refl [simp]: "config_frame s s"
  by (simp add: config_frame_def)

lemma kstep_refl [kstep_intros]: "kstep X s s"
  by (simp add: kstep_def)

lemma kstep_ok: "kstep X s s' \<Longrightarrow> server_ok s \<Longrightarrow> server_ok s'"
  by (simp add: kstep_def)

lemma kstep_length: "kstep X s s' \<Longrightarrow> server_ok s \<Longrightarrow> length (dbs s') = length (dbs s)"
  by (simp add: kstep_def)

lemma kstep_frame: "kstep X s s' \<Longrightarrow> server_ok s \<Longrightarrow> client_frame (clients s c) (clients s' c)"
  by (simp add: kstep_def)

lemma kstep_config: "kstep X s s' \<Longrightarrow> server_ok s \<Longrightarrow> config_frame s s'"
  by (simp add: kstep_def)

lemma kstep_mono: "kstep X s s' \<Longrightarrow> X \<subseteq> Y \<Longrightarrow> kstep Y s s'"
  unfolding kstep_def by blast

text \<open>A step that changes nothing the relation looks at.\<close>

definition quiet :: "server \<Rightarrow> server \<Rightarrow> bool" where
  "quiet s s' \<longleftrightarrow> dbs s' = dbs s \<and> aborted s' = aborted s \<and> config_frame s s' \<and>
     (\<forall>c. client_frame (clients s c) (clients s' c))"

lemma client_frame_trans: "client_frame a b \<Longrightarrow> client_frame b c \<Longrightarrow> client_frame a c"
  by (auto simp: client_frame_def)

lemma config_frame_trans: "config_frame a b \<Longrightarrow> config_frame b c \<Longrightarrow> config_frame a c"
  by (auto simp: config_frame_def)

lemma server_ok_frame:
  assumes "server_ok s" "\<not> aborted s'" "\<forall>db \<in> set (dbs s'). db_ok db" "length (dbs s') = length (dbs s)"
    "\<forall>i < length (dbs s). db_watched (dbs s' ! i) = db_watched (dbs s ! i)"
    "\<forall>c. client_frame (clients s c) (clients s' c)" "client_list s' = client_list s"
  shows "server_ok s'"
  using assms unfolding server_ok_def watch_ok_def client_frame_def by simp

lemma kstep_quiet:
  assumes "kstep X s0 s" "quiet s s'"
  shows "kstep X s0 s'"
  unfolding kstep_def
proof (intro impI)
  assume ok0: "server_ok s0"
  note s = assms(1) [unfolded kstep_def, rule_format, OF ok0]
  have q: "dbs s' = dbs s" "aborted s' = aborted s" "config_frame s s'"
    "\<And>c. client_frame (clients s c) (clients s' c)" using assms(2) by (auto simp: quiet_def)
  have cl: "client_list s' = client_list s" using q(3) by (simp add: config_frame_def)
  have "server_ok s'"
    by (rule server_ok_frame [OF conjunct1 [OF s]])
       (use conjunct1 [OF s] q(1,2,4) cl in \<open>simp_all add: server_ok_def\<close>)
  moreover have "config_frame s0 s'" using config_frame_trans s q(3) by blast
  moreover have "client_frame (clients s0 c) (clients s' c)" for c using client_frame_trans s q(4) by blast
  moreover have "c_dirty_cas (clients s c) \<Longrightarrow> c_dirty_cas (clients s' c)" for c
    using q(4) [of c] by (simp add: client_frame_def)
  ultimately show "server_ok s' \<and> length (dbs s') = length (dbs s0) \<and> config_frame s0 s' \<and>
     (\<forall>i < length (dbs s0). db_watched (dbs s' ! i) = db_watched (dbs s0 ! i)) \<and>
     (\<forall>c. client_frame (clients s0 c) (clients s' c)) \<and>
     (\<forall>i < length (dbs s0). \<forall>k. (i, k) \<notin> X \<longrightarrow> dict_at s' i k = dict_at s0 i k \<or>
        (\<forall>c. watching s0 c i k \<longrightarrow> c_dirty_cas (clients s' c)))"
    using s q(1) by metis
qed


lemma client_frame_upd:
  "client_frame a (a\<lparr>c_reply := r\<rparr>)" "client_frame a (a\<lparr>c_argv := v\<rparr>)" "client_frame a (a\<lparr>c_dirty_cas := True\<rparr>)"
  "client_frame a (a\<lparr>c_cmd := m\<rparr>)"
  by (simp_all add: client_frame_def)

lemma quiet_upd_client:
  "client_frame (clients s c) (f (clients s c)) \<Longrightarrow> quiet s (upd_client c f s)"
  by (simp add: quiet_def upd_client_def config_frame_def)

lemma quiet_steps:
  "quiet s (addReply c r s)" "quiet s (notifyKeyspaceEvent e k i s)" "quiet s (incr_dirty s)"
  "quiet s (propagate i v s)" "quiet s (set_dirty_cas c s)" "quiet s (s\<lparr>stat_misses := n\<rparr>)"
  "quiet s (s\<lparr>stat_hits := n\<rparr>)" "quiet s (s\<lparr>stat_expired := n\<rparr>)" "quiet s (s\<lparr>slave_keys := sk\<rparr>)"
  "quiet s (s\<lparr>dirty := d\<rparr>)"
  by (simp_all add: addReply_def set_dirty_cas_def quiet_upd_client client_frame_upd)
     (simp_all add: quiet_def config_frame_def notifyKeyspaceEvent_def incr_dirty_def propagate_def)

lemmas kstep_quiet_steps [kstep_intros] = quiet_steps [THEN kstep_quiet [rotated]]

lemma quiet_refl: "quiet s s"
  by (simp add: quiet_def)

lemma quiet_trans: "quiet a b \<Longrightarrow> quiet b c \<Longrightarrow> quiet a c"
  unfolding quiet_def using client_frame_trans config_frame_trans by (metis (no_types, lifting))

lemma quiet_fold_dirty: "quiet s (fold set_dirty_cas cs s)"
  by (induction cs arbitrary: s) (auto simp: quiet_refl intro: quiet_trans quiet_steps)

lemma fold_dirty_set: "c \<in> set cs \<or> c_dirty_cas (clients s c) \<Longrightarrow> c_dirty_cas (clients (fold set_dirty_cas cs s) c)"
  by (induction cs arbitrary: s) (auto simp: set_dirty_cas_def upd_client_def)

lemma quiet_signal: "quiet s (signalModifiedKey i k s)"
  by (simp add: signalModifiedKey_def touchWatchedKey_def quiet_refl quiet_fold_dirty split: option.splits)

lemma kstep_signal [kstep_intros]:
  assumes "kstep (insert (i, k) X) s0 s"
  shows "kstep X s0 (signalModifiedKey i k s)"
proof -
  let ?s = "signalModifiedKey i k s"
  have k: "kstep (insert (i, k) X) s0 ?s" using kstep_quiet [OF assms quiet_signal] .
  show ?thesis
    unfolding kstep_def
  proof (intro impI)
    assume ok0: "server_ok s0"
    note r = k [unfolded kstep_def, rule_format, OF ok0]
    have "c_dirty_cas (clients ?s c)" if "i < length (dbs s0)" "watching s0 c i k" for c
    proof -
      have "watching s c i k" using kstep_frame [OF assms ok0, of c] that(2) by (simp add: client_frame_def)
      then obtain cs where "db_watched (dbs s ! i) k = Some cs" "c \<in> set cs"
        using kstep_ok [OF assms ok0] unfolding server_ok_def watch_ok_def by blast
      then show ?thesis using fold_dirty_set by (simp add: signalModifiedKey_def touchWatchedKey_def)
    qed
    then show "server_ok ?s \<and> length (dbs ?s) = length (dbs s0) \<and> config_frame s0 ?s \<and>
       (\<forall>i < length (dbs s0). db_watched (dbs ?s ! i) = db_watched (dbs s0 ! i)) \<and>
       (\<forall>c. client_frame (clients s0 c) (clients ?s c)) \<and>
       (\<forall>i < length (dbs s0). \<forall>k. (i, k) \<notin> X \<longrightarrow> dict_at ?s i k = dict_at s0 i k \<or>
          (\<forall>c. watching s0 c i k \<longrightarrow> c_dirty_cas (clients ?s c)))"
      using r by (metis insertE prod.inject)
  qed
qed

text \<open>Updates of one database.\<close>

lemma upd_db_simps [simp]:
  "length (dbs (upd_db i f s)) = length (dbs s)" "clients (upd_db i f s) = clients s"
  "aborted (upd_db i f s) = aborted s" "client_list (upd_db i f s) = client_list s" "config_frame s0 (upd_db i f s) = config_frame s0 s"
  "config_frame (upd_db i f s) s1 = config_frame s s1"
  by (simp_all add: upd_db_def config_frame_def)

lemma nth_upd_db: "j < length (dbs s) \<Longrightarrow> dbs (upd_db i f s) ! j = (if i = j then f (dbs s ! j) else dbs s ! j)"
  by (auto simp: upd_db_def nth_list_update)

lemma kstep_upd_db:
  assumes "kstep X s0 s" "i < length (dbs s0)"
    "db_ok (dbs s ! i) \<Longrightarrow> db_ok (f (dbs s ! i))" "db_watched (f (dbs s ! i)) = db_watched (dbs s ! i)"
    "\<forall>k. (i, k) \<notin> X \<longrightarrow> db_dict (f (dbs s ! i)) k = db_dict (dbs s ! i) k"
  shows "kstep X s0 (upd_db i f s)"
  unfolding kstep_def
proof (intro impI)
  assume ok0: "server_ok s0"
  note s = assms(1) [unfolded kstep_def, rule_format, OF ok0]
  have "db_ok db" if "db \<in> set (dbs (upd_db i f s))" for db
  proof -
    have all: "\<forall>db \<in> set (dbs s). db_ok db" using s by (simp add: server_ok_def)
    moreover have "db_ok (f (dbs s ! i))" using assms(2,3) s all by simp
    ultimately show ?thesis
      using that set_update_subset_insert [of "dbs s" i "f (dbs s ! i)"] by (auto simp: upd_db_def)
  qed
  then have "server_ok (upd_db i f s)"
    using server_ok_frame [of s "upd_db i f s"] s assms(4) by (auto simp: server_ok_def nth_upd_db)
  then show "server_ok (upd_db i f s) \<and> length (dbs (upd_db i f s)) = length (dbs s0) \<and>
     config_frame s0 (upd_db i f s) \<and>
     (\<forall>j < length (dbs s0). db_watched (dbs (upd_db i f s) ! j) = db_watched (dbs s0 ! j)) \<and>
     (\<forall>c. client_frame (clients s0 c) (clients (upd_db i f s) c)) \<and>
     (\<forall>j < length (dbs s0). \<forall>k. (j, k) \<notin> X \<longrightarrow> dict_at (upd_db i f s) j k = dict_at s0 j k \<or>
        (\<forall>c. watching s0 c j k \<longrightarrow> c_dirty_cas (clients (upd_db i f s) c)))"
    using s assms(4,5) by (simp add: nth_upd_db)
qed


lemma kstep_premise: "(server_ok s0 \<Longrightarrow> kstep X s0 s) \<Longrightarrow> kstep X s0 s"
  by (auto simp: kstep_def)

lemma kstep_dbSyncDelete [kstep_intros]:
  assumes "kstep X s0 s" "i < length (dbs s0)" "(i, k) \<in> X"
  shows "kstep X s0 (fst (dbSyncDelete i k s))"
proof (rule kstep_premise)
  assume "server_ok s0"
  then have "i < length (dbs s)" using kstep_length [OF assms(1)] assms(2) by simp
  then show ?thesis
    using assms unfolding dbSyncDelete_def Let_def fst_conv
    by (intro kstep_upd_db) (auto simp: db_ok_def nth_upd_db)
qed

lemma dbAsyncDelete_eq: "dbAsyncDelete i k s = dbSyncDelete i k s"
  by (simp add: dbAsyncDelete_def dbSyncDelete_def)

lemma dbDelete_eq: "dbDelete i k s = dbSyncDelete i k s"
  by (simp add: dbDelete_def dbAsyncDelete_eq)

lemma kstep_serverAssert [kstep_intros]: "kstep X s0 s \<Longrightarrow> b \<Longrightarrow> kstep X s0 (serverAssert b s)"
  by (simp add: serverAssert_def)

lemma serverAssert_True [simp]: "serverAssert True s = s"
  by (simp add: serverAssert_def)

lemma dbs_serverAssert [simp]: "dbs (serverAssert b s) = dbs s"
  by (simp add: serverAssert_def)

lemma kstep_dbAdd [kstep_intros]:
  "kstep X s0 s \<Longrightarrow> i < length (dbs s0) \<Longrightarrow> (i, k) \<in> X \<Longrightarrow> dict_at s i k = None \<Longrightarrow> kstep X s0 (dbAdd i k v s)"
  unfolding dbAdd_def Let_def
  by (rule kstep_upd_db, rule kstep_serverAssert) (auto simp: db_ok_def)

lemma kstep_dbOverwrite [kstep_intros]:
  "kstep X s0 s \<Longrightarrow> i < length (dbs s0) \<Longrightarrow> (i, k) \<in> X \<Longrightarrow> dict_at s i k \<noteq> None \<Longrightarrow> kstep X s0 (dbOverwrite i k v s)"
  unfolding dbOverwrite_def Let_def
  by (rule kstep_upd_db, rule kstep_serverAssert) (auto simp: db_ok_def)

lemma kstep_write_raw [kstep_intros]:
  "kstep X s0 s \<Longrightarrow> i < length (dbs s0) \<Longrightarrow> (i, k) \<in> X \<Longrightarrow> kstep X s0 (write_raw i k b s)"
  unfolding write_raw_def by (rule kstep_upd_db) (auto simp: db_ok_def)

lemma kstep_removeExpire [kstep_intros]:
  "kstep X s0 s \<Longrightarrow> i < length (dbs s0) \<Longrightarrow> dict_at s i k \<noteq> None \<Longrightarrow> kstep X s0 (fst (removeExpire i k s))"
  unfolding removeExpire_def Let_def fst_conv
  by (rule kstep_upd_db, rule kstep_serverAssert) (auto simp: db_ok_def)

lemma kstep_setExpire [kstep_intros]:
  "kstep X s0 s \<Longrightarrow> i < length (dbs s0) \<Longrightarrow> dict_at s i k \<noteq> None \<Longrightarrow> kstep X s0 (setExpire c i k w s)"
proof -
  assume a: "kstep X s0 s" "i < length (dbs s0)" "dict_at s i k \<noteq> None"
  let ?s = "upd_db i (\<lambda>db. db\<lparr>db_expires := (db_expires db)(k \<mapsto> w)\<rparr>) (serverAssert (dict_at s i k \<noteq> None) s)"
  have "kstep X s0 ?s"
    using a by (intro kstep_upd_db kstep_serverAssert) (auto simp: db_ok_def)
  moreover have "quiet ?s (rememberSlaveKeyWithExpire i k ?s)"
    by (simp add: rememberSlaveKeyWithExpire_def quiet_refl quiet_steps)
  ultimately show ?thesis
    using kstep_quiet by (auto simp: setExpire_def Let_def)
qed

lemma getExpire_ok:
  assumes "kstep X s0 s" "server_ok s0" "i < length (dbs s0)"
  shows "getExpire i k s = (s, case expires_at s i k of None \<Rightarrow> - 1 | Some w \<Rightarrow> w)"
proof -
  have "db_ok (dbs s ! i)"
    using kstep_ok [OF assms(1,2)] kstep_length [OF assms(1,2)] assms(3) by (simp add: server_ok_def)
  then have "expires_at s i k \<noteq> None \<Longrightarrow> dict_at s i k \<noteq> None" by (auto simp: db_ok_def)
  then show ?thesis by (auto simp: getExpire_def split: option.splits)
qed

definition expired :: "server \<Rightarrow> nat \<Rightarrow> bytes \<Rightarrow> bool" where
  "expired s i k = (case expires_at s i k of None \<Rightarrow> False | Some w \<Rightarrow> 0 \<le> w \<and> \<not> loading s \<and> w < expire_now s)"

lemma keyIsExpired_ok:
  assumes "kstep X s0 s" "server_ok s0" "i < length (dbs s0)"
  shows "keyIsExpired i k s = (s, expired s i k)"
  using getExpire_ok [OF assms, of k] by (auto simp: keyIsExpired_def expired_def Let_def split: option.splits)

text \<open>What lazy expiry of a key does on a master.\<close>

definition expire_key :: "nat \<Rightarrow> bytes \<Rightarrow> server \<Rightarrow> server" where
  "expire_key i k s = signalModifiedKey i k (fst (dbSyncDelete i k (notifyKeyspaceEvent ''expired'' k i
     (propagateExpire i k (lazyfree_lazy_expire s) (s\<lparr>stat_expired := stat_expired s + 1\<rparr>)))))"

lemma expired_exists:
  assumes "server_ok s" "i < length (dbs s)" "expired s i k"
  shows "dict_at s i k \<noteq> None"
proof -
  have "db_ok (dbs s ! i)" using assms(1,2) by (simp add: server_ok_def)
  then show ?thesis using assms(3) by (auto simp: db_ok_def expired_def split: option.splits)
qed

lemma expireIfNeeded_ok:
  assumes "kstep X s0 s" "server_ok s0" "i < length (dbs s0)"
  shows "expireIfNeeded i k s =
    (if \<not> expired s i k then (s, False) else if is_replica s then (s, True) else (expire_key i k s, True))"
proof -
  let ?s1 = "notifyKeyspaceEvent ''expired'' k i
    (propagateExpire i k (lazyfree_lazy_expire s) (s\<lparr>stat_expired := stat_expired s + 1\<rparr>))"
  have i: "i < length (dbs s)" using kstep_length [OF assms(1,2)] assms(3) by simp
  have "dbs ?s1 = dbs s" by (simp add: notifyKeyspaceEvent_def propagateExpire_def propagate_def)
  then have "snd (dbSyncDelete i k ?s1)" if "expired s i k"
    using expired_exists [OF kstep_ok [OF assms(1,2)] i that] i by (simp add: dbSyncDelete_def Let_def nth_upd_db)
  then show ?thesis
    by (auto simp: expireIfNeeded_def keyIsExpired_ok [OF assms] expire_key_def Let_def dbAsyncDelete_eq case_prod_unfold)
qed

text \<open>Lazy expiry deletes the key and signals it, so it adds nothing to the pending keys.\<close>

lemma kstep_expire_key [kstep_intros]:
  assumes "kstep X s0 s" "i < length (dbs s0)"
  shows "kstep X s0 (expire_key i k s)"
  unfolding expire_key_def propagateExpire_def
  using kstep_mono [OF assms(1), of "insert (i, k) X"] assms(2) by (intro kstep_intros) auto

lemma kstep_expireIfNeeded [kstep_intros]:
  assumes "kstep X s0 s" "i < length (dbs s0)"
  shows "kstep X s0 (fst (expireIfNeeded i k s))"
  by (rule kstep_premise)
     (use assms expireIfNeeded_ok [OF assms(1) _ assms(2)] in \<open>simp add: kstep_expire_key\<close>)

lemma kstep_lookupKeyWrite [kstep_intros]:
  "kstep X s0 s \<Longrightarrow> i < length (dbs s0) \<Longrightarrow> kstep X s0 (fst (lookupKeyWrite i k s))"
  by (simp add: lookupKeyWrite_def case_prod_unfold Let_def kstep_expireIfNeeded)

lemma kstep_lookupKeyRead [kstep_intros]:
  "kstep X s0 s \<Longrightarrow> i < length (dbs s0) \<Longrightarrow> kstep X s0 (fst (lookupKeyRead i k s))"
  by (simp add: lookupKeyRead_def case_prod_unfold Let_def kstep_intros split: option.splits)

lemma snd_lookupKeyWrite: "snd (lookupKeyWrite i k s) = dict_at (fst (lookupKeyWrite i k s)) i k"
  by (simp add: lookupKeyWrite_def case_prod_unfold Let_def lookupKey_def)


lemma dict_at_quiet: "quiet s s' \<Longrightarrow> dbs s' = dbs s"
  by (simp add: quiet_def)

lemma dbs_simps [simp]:
  "dbs (addReply c r s) = dbs s" "dbs (notifyKeyspaceEvent e k i s) = dbs s" "dbs (incr_dirty s) = dbs s"
  "dbs (propagate i v s) = dbs s" "dbs (signalModifiedKey i k s) = dbs s" "dbs (set_dirty_cas c s) = dbs s"
  using quiet_steps quiet_signal by (simp_all add: quiet_def)

lemma dbs_rememberSlave [simp]: "dbs (rememberSlaveKeyWithExpire i k s) = dbs s"
  by (simp add: rememberSlaveKeyWithExpire_def)

lemma dbs_delete: "dbs (fst (dbSyncDelete i k s)) = (dbs s)[i := (dbs s ! i)\<lparr>db_expires := (expires_at s i)(k := None),
    db_dict := (dict_at s i)(k := None)\<rparr>]"
  by (cases "i < length (dbs s)") (simp_all add: dbSyncDelete_def upd_db_def Let_def list_update_beyond)

lemma dbs_expire_key: "dbs (expire_key i k s) = (dbs s)[i := (dbs s ! i)\<lparr>db_expires := (expires_at s i)(k := None),
    db_dict := (dict_at s i)(k := None)\<rparr>]"
  by (simp add: expire_key_def dbs_delete propagateExpire_def)

text \<open>Only one key differs.\<close>

definition others :: "nat \<Rightarrow> bytes \<Rightarrow> server \<Rightarrow> server \<Rightarrow> bool" where
  "others i k s s' \<longleftrightarrow> length (dbs s') = length (dbs s) \<and>
     (\<forall>j < length (dbs s). \<forall>k'. (j, k') \<noteq> (i, k) \<longrightarrow>
        dict_at s' j k' = dict_at s j k' \<and> expires_at s' j k' = expires_at s j k')"

lemma others_refl: "others i k s s"
  by (simp add: others_def)

lemma others_trans: "others i k a b \<Longrightarrow> others i k b c \<Longrightarrow> others i k a c"
  by (simp add: others_def)

lemma others_quiet: "others i k s a \<Longrightarrow> dbs b = dbs a \<Longrightarrow> others i k s b"
  by (simp add: others_def)

lemma others_upd_db:
  "others i k s0 s \<Longrightarrow> (\<forall>k'. k' \<noteq> k \<longrightarrow> db_dict (f (dbs s ! i)) k' = dict_at s i k' \<and>
     db_expires (f (dbs s ! i)) k' = expires_at s i k') \<Longrightarrow> others i k s0 (upd_db i f s)"
  by (auto simp: others_def nth_upd_db)

text \<open>After the lookup for writing, a key that has expired is gone on a master.\<close>

definition live_val :: "server \<Rightarrow> nat \<Rightarrow> bytes \<Rightarrow> robj option" where
  "live_val s i k = (if expired s i k \<and> \<not> is_replica s then None else dict_at s i k)"

lemma lookupKeyWrite_ok:
  assumes "server_ok s" "i < length (dbs s)"
  shows "lookupKeyWrite i k s =
    (if expired s i k \<and> \<not> is_replica s then expire_key i k s else s, live_val s i k)"
  using expireIfNeeded_ok [OF kstep_refl assms, of k] assms(2)
  by (auto simp: lookupKeyWrite_def lookupKey_def live_val_def dbs_expire_key)

lemma others_lookupKeyWrite:
  assumes "server_ok s" "i < length (dbs s)"
  shows "others i k s (fst (lookupKeyWrite i k s))"
  using assms by (auto simp: lookupKeyWrite_ok others_def dbs_expire_key nth_list_update)

lemma kstep_genericSetKey [kstep_intros]:
  assumes "kstep X s0 s" "i < length (dbs s0)" "(i, k) \<in> X \<or> sig"
  shows "kstep X s0 (genericSetKey i k v keepttl sig s)"
proof (rule kstep_premise)
  assume ok: "server_ok s0"
  let ?Y = "insert (i, k) X"
  define s1 where "s1 = fst (lookupKeyWrite i k s)"
  define s2 where "s2 = (if dict_at s1 i k = None then dbAdd i k v s1 else dbOverwrite i k v s1)"
  define s3 where "s3 = (if \<not> keepttl then fst (removeExpire i k s2) else s2)"
  have k1: "kstep ?Y s0 s1"
    unfolding s1_def using assms kstep_mono [OF assms(1), of ?Y] by (intro kstep_intros) auto
  then have k2: "kstep ?Y s0 s2" using assms(2) by (auto simp: s2_def intro!: kstep_intros)
  have "dict_at s2 i k = Some v"
    using kstep_length [OF k1 ok] assms(2) by (auto simp: s2_def dbAdd_def dbOverwrite_def Let_def nth_upd_db)
  then have k3: "kstep ?Y s0 s3" using k2 assms(2) by (auto simp: s3_def intro!: kstep_intros)
  have "genericSetKey i k v keepttl sig s = (if sig then signalModifiedKey i k s3 else s3)"
    by (simp add: genericSetKey_def case_prod_unfold Let_def snd_lookupKeyWrite s1_def s2_def s3_def)
  then show ?thesis using k3 assms(3) by (auto intro: kstep_signal simp: insert_absorb)
qed

lemma genericSetKey_effect:
  assumes "server_ok s" "i < length (dbs s)"
  shows "dict_at (genericSetKey i k v keepttl sig s) i k = Some v"
    "expires_at (genericSetKey i k v keepttl sig s) i k =
      (if keepttl \<and> live_val s i k = dict_at s i k then expires_at s i k else None)"
    "others i k s (genericSetKey i k v keepttl sig s)"
proof -
  define s1 where "s1 = fst (lookupKeyWrite i k s)"
  define s2 where "s2 = (if dict_at s1 i k = None then dbAdd i k v s1 else dbOverwrite i k v s1)"
  define s3 where "s3 = (if \<not> keepttl then fst (removeExpire i k s2) else s2)"
  have eq: "genericSetKey i k v keepttl sig s = (if sig then signalModifiedKey i k s3 else s3)"
    by (simp add: genericSetKey_def case_prod_unfold Let_def snd_lookupKeyWrite s1_def s2_def s3_def)
  have l1: "others i k s s1" unfolding s1_def by (rule others_lookupKeyWrite [OF assms])
  then have i1: "i < length (dbs s1)" using assms(2) by (simp add: others_def)
  have o2: "others i k s s2" using l1
    by (auto simp: s2_def dbAdd_def dbOverwrite_def Let_def serverAssert_def intro!: others_upd_db dest: others_quiet)
  have e1: "expires_at s1 i k = (if live_val s i k = dict_at s i k then expires_at s i k else None)"
    using expired_exists [OF assms, of k] assms(2)
    by (cases "dict_at s i k") (auto simp: s1_def lookupKeyWrite_ok [OF assms] dbs_expire_key live_val_def)
  have d2: "dict_at s2 i k = Some v" "expires_at s2 i k = expires_at s1 i k" "i < length (dbs s2)"
    using i1 by (auto simp: s2_def dbAdd_def dbOverwrite_def Let_def nth_upd_db)
  have d3: "dict_at s3 i k = Some v" "expires_at s3 i k = (if keepttl then expires_at s1 i k else None)" "others i k s s3"
    using d2 o2 by (auto simp: s3_def removeExpire_def Let_def nth_upd_db intro!: others_upd_db)
  show "dict_at (genericSetKey i k v keepttl sig s) i k = Some v"
    "expires_at (genericSetKey i k v keepttl sig s) i k =
      (if keepttl \<and> live_val s i k = dict_at s i k then expires_at s i k else None)"
    "others i k s (genericSetKey i k v keepttl sig s)"
    using d3 e1 others_quiet [OF d3(3)] by (auto simp: eq)
qed


section \<open>A new server and its clients\<close>

definition empty_db :: redisDb where
  "empty_db = \<lparr>db_dict = Map.empty, db_expires = Map.empty, db_watched = Map.empty\<rparr>"

definition new_client :: client where
  "new_client = \<lparr>c_db = 0, c_argv = [], c_cmd = GET, c_multi = False, c_dirty_cas = False, c_dirty_exec = False,
     c_master = False, c_mstate = [], c_mflags_write = False, c_watched = [], c_reply = []\<rparr>"

definition start_server :: "nat \<Rightarrow> server" where
  "start_server n = \<lparr>dbs = replicate n empty_db, clients = (\<lambda>_. new_client), client_list = [], dirty = 0,
     clock = 0, cached_mstime = 0, fixed_time_expire = 0, lua_time = None, lua_timedout = False, saveparamslen = 0, loading = False, is_replica = False,
     repl_slave_ro = True, lazyfree_lazy_expire = False, lazyfree_lazy_server_del = False,
     lazyfree_lazy_user_del = False, current_readonly = False, slave_keys = Map.empty, stat_hits = 0,
     stat_misses = 0, stat_expired = 0, events = [], propagated = [], aborted = False\<rparr>"

lemma start_server_ok: "0 < n \<Longrightarrow> server_ok (start_server n)"
  by (auto simp: server_ok_def start_server_def watch_ok_def db_ok_def empty_db_def new_client_def)

definition set_argv :: "nat \<Rightarrow> bytes list \<Rightarrow> server \<Rightarrow> server" where
  "set_argv c v s = upd_client c (\<lambda>cl. cl\<lparr>c_argv := v\<rparr>) s"

definition last_reply :: "server \<Rightarrow> nat \<Rightarrow> reply" where
  "last_reply s c = last (c_reply (clients s c))"

lemma last_reply_addReply [simp]: "last_reply (addReply c r s) c = r"
  by (simp add: last_reply_def addReply_def upd_client_def)

lemma set_argv_simps [simp]: "dbs (set_argv c v s) = dbs s" "c_argv (clients (set_argv c v s) c) = v"
  "c_db (clients (set_argv c v s) c') = c_db (clients s c')" "expires_at (set_argv c v s) i = expires_at s i"
  by (simp_all add: set_argv_def upd_client_def)

lemma set_argv_config [simp]:
  "clock (set_argv c v s) = clock s" "loading (set_argv c v s) = loading s" "is_replica (set_argv c v s) = is_replica s"
  "expire_now (set_argv c v s) = expire_now s" "mstime (set_argv c v s) = mstime s"
  "expired (set_argv c v s) i k = expired s i k"
  "config_frame s (set_argv c v s)"
  by (simp_all add: set_argv_def upd_client_def config_frame_def expire_now_def mstime_def expired_def
      split: option.splits)

lemma live_val_set_argv [simp]: "live_val (set_argv c v s) i k = live_val s i k"
  by (simp add: live_val_def)

lemma c_reply_fold_dirty: "c_reply (clients (fold set_dirty_cas cs s) c) = c_reply (clients s c)"
  by (induction cs arbitrary: s) (simp_all add: set_dirty_cas_def upd_client_def)

lemma last_reply_steps [simp]:
  "last_reply (notifyKeyspaceEvent e k i s) c = last_reply s c" "last_reply (incr_dirty s) c = last_reply s c"
  "last_reply (signalModifiedKey i k s) c = last_reply s c"
  by (simp_all add: last_reply_def notifyKeyspaceEvent_def incr_dirty_def signalModifiedKey_def touchWatchedKey_def
      c_reply_fold_dirty split: option.splits)

lemma quiet_set_argv: "quiet s (set_argv c v s)"
  by (simp add: set_argv_def quiet_upd_client client_frame_upd)

lemma ok_set_argv: "server_ok s \<Longrightarrow> server_ok (set_argv c v s)"
  using kstep_ok [OF kstep_quiet [OF kstep_refl quiet_set_argv]] .

lemma ok_cur_db: "server_ok s \<Longrightarrow> c_db (clients s c) < length (dbs s)"
  by (simp add: server_ok_def)

lemma server_ok_command: "server_ok s \<Longrightarrow> kstep {} s s' \<Longrightarrow> server_ok s'"
  using kstep_ok by blast

lemma cur_db_command: "server_ok s \<Longrightarrow> kstep {} s s' \<Longrightarrow> c_db (clients s' c) = c_db (clients s c)"
  using kstep_frame [of "{}" s s' c] by (simp add: client_frame_def)

end
