(* ===== verification/Strings.thy ===== *)
theory Strings
  imports Server
begin

text \<open>
  The string commands of \<^verbatim>\<open>t_string.c\<close> on the state of \<open>Server\<close>. Each command takes the
  client, reads its arguments and returns the server afterwards. Arithmetic on \<^verbatim>\<open>long long\<close>
  wraps around, as the compiled code does.
\<close>

section \<open>Arguments and replies\<close>

abbreviation arg :: "server \<Rightarrow> nat \<Rightarrow> nat \<Rightarrow> bytes" where
  "arg s c j \<equiv> c_argv (clients s c) ! j"

abbreviation cur_db :: "server \<Rightarrow> nat \<Rightarrow> nat" where
  "cur_db s c \<equiv> c_db (clients s c)"

definition wrap64 :: "int \<Rightarrow> int" where
  "wrap64 v = sint (word_of_int v :: u64)"

definition not_integer :: reply where
  "not_integer = RErr ''value is not an integer or out of range''"

text \<open>\<open>None\<close>: the error reply has been added.\<close>

definition getLongLongFromObjectOrReply ::
  "nat \<Rightarrow> robj option \<Rightarrow> reply \<Rightarrow> server \<Rightarrow> server \<times> int option" where
  "getLongLongFromObjectOrReply c o1 msg s =
     (case getLongLongFromObject o1 of
        None \<Rightarrow> (addReply c msg s, None)
      | Some v \<Rightarrow> (s, Some v))"

definition checkType :: "nat \<Rightarrow> robj \<Rightarrow> otype \<Rightarrow> server \<Rightarrow> server \<times> bool" where
  "checkType c o1 t s = (if otype_of o1 \<noteq> t then (addReply c RWrongType s, True) else (s, False))"

definition checkStringLength :: "nat \<Rightarrow> int \<Rightarrow> server \<Rightarrow> server \<times> bool" where
  "checkStringLength c size1 s =
     (if size1 > 512 * 1024 * 1024
      then (addReply c (RErr ''string exceeds maximum allowed size (512MB)'') s, False)
      else (s, True))"

text \<open>An allocation of more than half the address space fails, which ends the process. It is written out
  for SETRANGE, whose size is the sum of a request's number and a length that a wrapped check lets pass; the
  other commands allocate what they are sent, or what the check of 512 MB admits.\<close>

definition alloc :: "nat \<Rightarrow> server \<Rightarrow> server" where
  "alloc n s = serverAssert (n < 2 ^ 63) s"

section \<open>SET and its variants\<close>

record set_opts =
  o_nx :: bool
  o_xx :: bool
  o_ex :: bool
  o_px :: bool
  o_keepttl :: bool
  o_seconds :: bool
  o_expire :: "bytes option"

definition no_opts :: set_opts where
  "no_opts = \<lparr>o_nx = False, o_xx = False, o_ex = False, o_px = False, o_keepttl = False,
     o_seconds = True, o_expire = None\<rparr>"

definition setGenericCommand ::
  "nat \<Rightarrow> set_opts \<Rightarrow> bytes \<Rightarrow> robj \<Rightarrow> reply \<Rightarrow> reply \<Rightarrow> server \<Rightarrow> server" where
  "setGenericCommand c f key val ok_reply abort_reply s =
     (let i = cur_db s c;
          (s, ms) = (case o_expire f of
              None \<Rightarrow> (s, Some 0)
            | Some e \<Rightarrow>
                (case getLongLongFromObjectOrReply c (Some (createStringObject e)) not_integer s of
                   (s, None) \<Rightarrow> (s, None)
                 | (s, Some v) \<Rightarrow>
                     if v \<le> 0 then (addReply c (RErr ''invalid expire time'') s, None)
                     else (s, Some (if o_seconds f then wrap64 (v * 1000) else v))))
      in case ms of
           None \<Rightarrow> s
         | Some milliseconds \<Rightarrow>
             let (s, stop) = (if o_nx f then let (s, o1) = lookupKeyWrite i key s in (s, o1 \<noteq> None) else (s, False));
                 (s, stop) = (if stop then (s, True)
                   else if o_xx f then let (s, o1) = lookupKeyWrite i key s in (s, o1 = None) else (s, False))
             in if stop then addReply c abort_reply s
                else
                  let s = genericSetKey i key val (o_keepttl f) True s;
                      s = incr_dirty s;
                      s = (if o_expire f \<noteq> None then setExpire c i key (wrap64 (mstime s + milliseconds)) s else s);
                      s = notifyKeyspaceEvent ''set'' key i s;
                      s = (if o_expire f \<noteq> None then notifyKeyspaceEvent ''expire'' key i s else s)
                  in addReply c ok_reply s)"

definition is_opt :: "bytes \<Rightarrow> u8 \<Rightarrow> u8 \<Rightarrow> bool" where
  "is_opt a lower upper \<longleftrightarrow> (at0 a 0 = lower \<or> at0 a 0 = upper) \<and> (at0 a 1 = 0x78 \<or> at0 a 1 = 0x58) \<and> at0 a 2 = 0"

fun parse_set_opts :: "bytes list \<Rightarrow> set_opts \<Rightarrow> set_opts option" where
  "parse_set_opts [] f = Some f"
| "parse_set_opts (a # rest) f =
     (if is_opt a 0x6E 0x4E \<and> \<not> o_xx f then parse_set_opts rest (f\<lparr>o_nx := True\<rparr>)
      else if is_opt a 0x78 0x58 \<and> \<not> o_nx f then parse_set_opts rest (f\<lparr>o_xx := True\<rparr>)
      else if strcaseeq (takeWhile (\<lambda>c. c \<noteq> 0) a) ''KEEPTTL'' \<and> \<not> o_ex f \<and> \<not> o_px f then
        parse_set_opts rest (f\<lparr>o_keepttl := True\<rparr>)
      else if is_opt a 0x65 0x45 \<and> \<not> o_keepttl f \<and> \<not> o_px f \<and> rest \<noteq> [] then
        (case rest of
           e # rest' \<Rightarrow> parse_set_opts rest' (f\<lparr>o_ex := True, o_seconds := True, o_expire := Some e\<rparr>)
         | [] \<Rightarrow> None)
      else if is_opt a 0x70 0x50 \<and> \<not> o_keepttl f \<and> \<not> o_ex f \<and> rest \<noteq> [] then
        (case rest of
           e # rest' \<Rightarrow> parse_set_opts rest' (f\<lparr>o_px := True, o_seconds := False, o_expire := Some e\<rparr>)
         | [] \<Rightarrow> None)
      else None)"

definition encode_arg :: "bytes \<Rightarrow> robj" where
  "encode_arg b = tryObjectEncoding (createStringObject b)"

definition setCommand :: "nat \<Rightarrow> server \<Rightarrow> server" where
  "setCommand c s =
     (case parse_set_opts (drop 3 (c_argv (clients s c))) no_opts of
        None \<Rightarrow> addReply c RSyntax s
      | Some f \<Rightarrow> setGenericCommand c f (arg s c 1) (encode_arg (arg s c 2)) ROk RNull s)"

definition setnxCommand :: "nat \<Rightarrow> server \<Rightarrow> server" where
  "setnxCommand c s =
     setGenericCommand c (no_opts\<lparr>o_nx := True\<rparr>) (arg s c 1) (encode_arg (arg s c 2)) (RInt 1) (RInt 0) s"

definition setexCommand :: "nat \<Rightarrow> server \<Rightarrow> server" where
  "setexCommand c s =
     setGenericCommand c (no_opts\<lparr>o_expire := Some (arg s c 2)\<rparr>) (arg s c 1) (encode_arg (arg s c 3)) ROk RNull s"

definition psetexCommand :: "nat \<Rightarrow> server \<Rightarrow> server" where
  "psetexCommand c s =
     setGenericCommand c (no_opts\<lparr>o_expire := Some (arg s c 2), o_seconds := False\<rparr>) (arg s c 1)
       (encode_arg (arg s c 3)) ROk RNull s"

section \<open>Reading\<close>

text \<open>\<open>False\<close> is \<^verbatim>\<open>C_ERR\<close>.\<close>

definition getGenericCommand :: "nat \<Rightarrow> server \<Rightarrow> server \<times> bool" where
  "getGenericCommand c s =
     (case lookupKeyRead (cur_db s c) (arg s c 1) s of
        (s, None) \<Rightarrow> (addReply c RNull s, True)
      | (s, Some o1) \<Rightarrow>
          if otype_of o1 \<noteq> OBJ_STRING then (addReply c RWrongType s, False)
          else (addReply c (RBulk (getDecodedObject o1)) s, True))"

definition getCommand :: "nat \<Rightarrow> server \<Rightarrow> server" where
  "getCommand c s = fst (getGenericCommand c s)"

definition getsetCommand :: "nat \<Rightarrow> server \<Rightarrow> server" where
  "getsetCommand c s =
     (let i = cur_db s c; key = arg s c 1; val = arg s c 2 in
      case getGenericCommand c s of
        (s, False) \<Rightarrow> s
      | (s, True) \<Rightarrow>
          let s = setKey i key (encode_arg val) s;
              s = notifyKeyspaceEvent ''set'' key i s
          in incr_dirty s)"

definition range_of :: "int \<Rightarrow> int \<Rightarrow> nat \<Rightarrow> (nat \<times> nat) option" where
  "range_of start end1 len =
     (if start < 0 \<and> end1 < 0 \<and> start > end1 then None
      else
        let start = (if start < 0 then int len + start else start);
            end1 = (if end1 < 0 then int len + end1 else end1);
            start = (if start < 0 then 0 else start);
            end1 = (if end1 < 0 then 0 else end1);
            end1 = (if end1 \<ge> int len then int len - 1 else end1)
        in if start > end1 \<or> len = 0 then None else Some (nat start, nat (end1 - start + 1)))"

definition getrangeCommand :: "nat \<Rightarrow> server \<Rightarrow> server" where
  "getrangeCommand c s =
     (case getLongLongFromObjectOrReply c (Some (createStringObject (arg s c 2))) not_integer s of
        (s, None) \<Rightarrow> s
      | (s, Some start) \<Rightarrow>
     (case getLongLongFromObjectOrReply c (Some (createStringObject (arg s c 3))) not_integer s of
        (s, None) \<Rightarrow> s
      | (s, Some end1) \<Rightarrow>
     (case lookupKeyRead (cur_db s c) (arg s c 1) s of
        (s, None) \<Rightarrow> addReply c (RBulk []) s
      | (s, Some o1) \<Rightarrow>
     (case checkType c o1 OBJ_STRING s of
        (s, True) \<Rightarrow> s
      | (s, False) \<Rightarrow>
          let b = getDecodedObject o1 in
          case range_of start end1 (length b) of
            None \<Rightarrow> addReply c (RBulk []) s
          | Some (from, n) \<Rightarrow> addReply c (RBulk (take n (drop from b))) s))))"

fun mget_loop :: "nat \<Rightarrow> nat \<Rightarrow> bytes list \<Rightarrow> server \<Rightarrow> server" where
  "mget_loop c i [] s = s"
| "mget_loop c i (key # keys) s =
     (case lookupKeyRead i key s of
        (s, None) \<Rightarrow> mget_loop c i keys (addReply c RNull s)
      | (s, Some o1) \<Rightarrow>
          mget_loop c i keys
            (addReply c (if otype_of o1 \<noteq> OBJ_STRING then RNull else RBulk (getDecodedObject o1)) s))"

definition mgetCommand :: "nat \<Rightarrow> server \<Rightarrow> server" where
  "mgetCommand c s =
     (let argv = c_argv (clients s c)
      in mget_loop c (cur_db s c) (drop 1 argv) (addReply c (RArrayLen (length argv - 1)) s))"

definition strlenCommand :: "nat \<Rightarrow> server \<Rightarrow> server" where
  "strlenCommand c s =
     (case lookupKeyRead (cur_db s c) (arg s c 1) s of
        (s, None) \<Rightarrow> addReply c (RInt 0) s
      | (s, Some o1) \<Rightarrow>
          (case checkType c o1 OBJ_STRING s of
             (s, True) \<Rightarrow> s
           | (s, False) \<Rightarrow> addReply c (RInt (int (stringObjectLen o1))) s))"

section \<open>Modifying\<close>

text \<open>\<^verbatim>\<open>sdsgrowzero\<close>, then \<^verbatim>\<open>memcpy\<close> at the offset.\<close>

definition overwrite_at :: "nat \<Rightarrow> bytes \<Rightarrow> bytes \<Rightarrow> bytes" where
  "overwrite_at off val b =
     (let b = b @ replicate (off + length val - length b) 0
      in take off b @ val @ drop (off + length val) b)"

definition setrange_store :: "nat \<Rightarrow> nat \<Rightarrow> bytes \<Rightarrow> nat \<Rightarrow> bytes \<Rightarrow> bytes \<Rightarrow> server \<Rightarrow> server" where
  "setrange_store c i key off val b s =
     (let s = alloc (off + length val) s;
          b' = overwrite_at off val b;
          s = write_raw i key b' s;
          s = signalModifiedKey i key s;
          s = notifyKeyspaceEvent ''setrange'' key i s;
          s = incr_dirty s
      in addReply c (RInt (int (length b'))) s)"

definition setrangeCommand :: "nat \<Rightarrow> server \<Rightarrow> server" where
  "setrangeCommand c s =
     (let i = cur_db s c; key = arg s c 1; val = arg s c 3 in
      case getLongLongFromObjectOrReply c (Some (createStringObject (arg s c 2))) not_integer s of
        (s, None) \<Rightarrow> s
      | (s, Some offset) \<Rightarrow>
          if offset < 0 then addReply c (RErr ''offset is out of range'') s
          else case lookupKeyWrite i key s of
            (s, None) \<Rightarrow>
              if length val = 0 then addReply c (RInt 0) s
              else (case checkStringLength c (wrap64 (offset + int (length val))) s of
                 (s, False) \<Rightarrow> s
               | (s, True) \<Rightarrow>
                   let n = nat offset + length val;
                       s = alloc n s;
                       s = dbAdd i key (Raw (replicate n 0)) s
                   in setrange_store c i key (nat offset) val (replicate n 0) s)
          | (s, Some o1) \<Rightarrow>
              (case checkType c o1 OBJ_STRING s of
                 (s, True) \<Rightarrow> s
               | (s, False) \<Rightarrow>
                   if length val = 0 then addReply c (RInt (int (stringObjectLen o1))) s
                   else (case checkStringLength c (wrap64 (offset + int (length val))) s of
                      (s, False) \<Rightarrow> s
                    | (s, True) \<Rightarrow>
                        let (s, b) = dbUnshareStringValue i key o1 s
                        in setrange_store c i key (nat offset) val b s)))"

fun msetnx_check :: "nat \<Rightarrow> bytes list \<Rightarrow> server \<Rightarrow> server \<times> bool" where
  "msetnx_check i (key # val # rest) s =
     (case lookupKeyWrite i key s of
        (s, Some _) \<Rightarrow> (s, True)
      | (s, None) \<Rightarrow> msetnx_check i rest s)"
| "msetnx_check i _ s = (s, False)"

fun mset_loop :: "nat \<Rightarrow> bytes list \<Rightarrow> server \<Rightarrow> server" where
  "mset_loop i (key # val # rest) s =
     (let s = setKey i key (encode_arg val) s
      in mset_loop i rest (notifyKeyspaceEvent ''set'' key i s))"
| "mset_loop i _ s = s"

definition msetGenericCommand :: "nat \<Rightarrow> bool \<Rightarrow> server \<Rightarrow> server" where
  "msetGenericCommand c nx s =
     (let argv = c_argv (clients s c); i = cur_db s c in
      if length argv mod 2 = 0 then addReply c (RErr ''wrong number of arguments for MSET'') s
      else case (if nx then msetnx_check i (drop 1 argv) s else (s, False)) of
          (s, True) \<Rightarrow> addReply c (RInt 0) s
        | (s, False) \<Rightarrow>
            let s = mset_loop i (drop 1 argv) s;
                s = s\<lparr>dirty := dirty s + int ((length argv - 1) div 2)\<rparr>
            in addReply c (if nx then RInt 1 else ROk) s)"

definition msetCommand :: "nat \<Rightarrow> server \<Rightarrow> server" where
  "msetCommand c s = msetGenericCommand c False s"

definition msetnxCommand :: "nat \<Rightarrow> server \<Rightarrow> server" where
  "msetnxCommand c s = msetGenericCommand c True s"

text \<open>Reusing the object of a private integer and storing a new one leave the same value.\<close>

definition incrDecrCommand :: "nat \<Rightarrow> int \<Rightarrow> server \<Rightarrow> server" where
  "incrDecrCommand c incr s =
     (let i = cur_db s c; key = arg s c 1;
          (s, o1) = lookupKeyWrite i key s;
          (s, bad) = (case o1 of None \<Rightarrow> (s, False) | Some x \<Rightarrow> checkType c x OBJ_STRING s)
      in if bad then s
         else case getLongLongFromObjectOrReply c o1 not_integer s of
             (s, None) \<Rightarrow> s
           | (s, Some oldvalue) \<Rightarrow>
               if (incr < 0 \<and> oldvalue < 0 \<and> incr < LLONG_MIN - oldvalue) \<or>
                  (incr > 0 \<and> oldvalue > 0 \<and> incr > LLONG_MAX - oldvalue)
               then addReply c (RErr ''increment or decrement would overflow'') s
               else
                 let val = wrap64 (oldvalue + incr);
                     new = createStringObjectFromLongLong val;
                     s = (if o1 \<noteq> None then dbOverwrite i key new s else dbAdd i key new s);
                     s = signalModifiedKey i key s;
                     s = notifyKeyspaceEvent ''incrby'' key i s;
                     s = incr_dirty s
                 in addReply c (RInt val) s)"

definition incrCommand :: "nat \<Rightarrow> server \<Rightarrow> server" where
  "incrCommand c s = incrDecrCommand c 1 s"

definition decrCommand :: "nat \<Rightarrow> server \<Rightarrow> server" where
  "decrCommand c s = incrDecrCommand c (- 1) s"

definition incrbyCommand :: "nat \<Rightarrow> server \<Rightarrow> server" where
  "incrbyCommand c s =
     (case getLongLongFromObjectOrReply c (Some (createStringObject (arg s c 2))) not_integer s of
        (s, None) \<Rightarrow> s
      | (s, Some incr) \<Rightarrow> incrDecrCommand c incr s)"

definition decrbyCommand :: "nat \<Rightarrow> server \<Rightarrow> server" where
  "decrbyCommand c s =
     (case getLongLongFromObjectOrReply c (Some (createStringObject (arg s c 2))) not_integer s of
        (s, None) \<Rightarrow> s
      | (s, Some incr) \<Rightarrow> incrDecrCommand c (wrap64 (- incr)) s)"

definition appendCommand :: "nat \<Rightarrow> server \<Rightarrow> server" where
  "appendCommand c s =
     (let i = cur_db s c; key = arg s c 1; app = arg s c 2;
          finish = (\<lambda>totlen s. addReply c (RInt (int totlen))
            (incr_dirty (notifyKeyspaceEvent ''append'' key i (signalModifiedKey i key s))))
      in case lookupKeyWrite i key s of
           (s, None) \<Rightarrow> finish (stringObjectLen (encode_arg app)) (dbAdd i key (encode_arg app) s)
         | (s, Some o1) \<Rightarrow>
             (case checkType c o1 OBJ_STRING s of
                (s, True) \<Rightarrow> s
              | (s, False) \<Rightarrow>
                  (case checkStringLength c (wrap64 (int (stringObjectLen o1 + length app))) s of
                     (s, False) \<Rightarrow> s
                   | (s, True) \<Rightarrow>
                       let (s, b) = dbUnshareStringValue i key o1 s
                       in finish (length (b @ app)) (write_raw i key (b @ app) s))))"


section \<open>Every command keeps the invariant and signals what it changes\<close>

lemmas reply_defs = getLongLongFromObjectOrReply_def checkType_def checkStringLength_def

lemma cmd_kstep:
  assumes "\<And>i. i = cur_db s c \<Longrightarrow> i < length (dbs s) \<Longrightarrow> kstep {} s s'"
  shows "kstep {} s s'"
  by (rule kstep_premise) (use assms in \<open>auto simp: server_ok_def\<close>)

lemma kstep_addReply: "kstep X s0 s \<Longrightarrow> kstep X s0 (addReply c r s)"
  by (intro kstep_intros)

lemma snd_lookup_NoneD: "snd (lookupKeyWrite i k s) = None \<Longrightarrow> dict_at (fst (lookupKeyWrite i k s)) i k = None"
  by (simp add: snd_lookupKeyWrite)

lemma snd_lookup_SomeD: "snd (lookupKeyWrite i k s) = Some v \<Longrightarrow> dict_at (fst (lookupKeyWrite i k s)) i k = Some v"
  by (simp add: snd_lookupKeyWrite)

lemma kstep_lookupWrite_pending: 
  "kstep X s0 s \<Longrightarrow> i < length (dbs s0) \<Longrightarrow> kstep (insert (i, k) X) s0 (fst (lookupKeyWrite i k s))"
  by (rule kstep_mono, rule kstep_lookupKeyWrite) auto

lemma length_dbs [simp]:
  "length (dbs (fst (dbSyncDelete i k s))) = length (dbs s)"
  "length (dbs (fst (expireIfNeeded i k s))) = length (dbs s)"
  "length (dbs (fst (lookupKeyWrite i k s))) = length (dbs s)"
proof -
  show d: "length (dbs (fst (dbSyncDelete i k s))) = length (dbs s)" for s by (simp add: dbs_delete)
  show e: "length (dbs (fst (expireIfNeeded i k s))) = length (dbs s)"
    by (simp add: expireIfNeeded_def keyIsExpired_def getExpire_def propagateExpire_def dbAsyncDelete_eq
        case_prod_unfold Let_def d split: option.splits)
  show "length (dbs (fst (lookupKeyWrite i k s))) = length (dbs s)"
    by (simp add: lookupKeyWrite_def case_prod_unfold Let_def e)
qed

lemma dict_genericSetKey: "i < length (dbs s) \<Longrightarrow> dict_at (genericSetKey i k v keep sig s) i k = Some v"
  by (simp add: genericSetKey_def case_prod_unfold Let_def snd_lookupKeyWrite removeExpire_def dbAdd_def
      dbOverwrite_def nth_upd_db)

lemma kstep_setGenericCommand: "kstep {} s (setGenericCommand c f key val r1 r2 s)"
  by (rule cmd_kstep [of s c],
      simp add: setGenericCommand_def reply_defs case_prod_unfold Let_def split: option.splits,
      auto intro!: kstep_intros split: if_splits simp: dict_genericSetKey)

lemma kstep_getCommand: "kstep {} s (getCommand c s)"
  by (rule cmd_kstep [of s c])
     (simp add: getCommand_def getGenericCommand_def case_prod_unfold Let_def kstep_intros split: option.splits)

lemma kstep_getsetCommand: "kstep {} s (getsetCommand c s)"
  by (rule cmd_kstep [of s c],
      simp add: getsetCommand_def getGenericCommand_def setKey_def case_prod_unfold Let_def
        split: option.splits bool.splits,
      auto intro!: kstep_intros split: if_splits)

lemma kstep_getrangeCommand: "kstep {} s (getrangeCommand c s)"
  by (rule cmd_kstep [of s c])
     (simp add: getrangeCommand_def reply_defs case_prod_unfold Let_def kstep_intros split: option.splits)

lemma kstep_mget_loop: "kstep X s0 s \<Longrightarrow> i < length (dbs s0) \<Longrightarrow> kstep X s0 (mget_loop c i keys s)"
  by (induction keys arbitrary: s)
     (simp_all add: case_prod_unfold kstep_intros split: option.splits)

lemma kstep_mgetCommand: "kstep {} s (mgetCommand c s)"
  by (rule cmd_kstep [of s c]) (simp add: mgetCommand_def Let_def kstep_mget_loop kstep_intros)

lemma kstep_strlenCommand: "kstep {} s (strlenCommand c s)"
  by (rule cmd_kstep [of s c])
     (simp add: strlenCommand_def reply_defs case_prod_unfold Let_def kstep_intros split: option.splits)

lemma kstep_dbUnshare [kstep_intros]:
  "kstep X s0 s \<Longrightarrow> i < length (dbs s0) \<Longrightarrow> (i, k) \<in> X \<Longrightarrow> dict_at s i k = Some o1 \<Longrightarrow> otype_of o1 = OBJ_STRING \<Longrightarrow>
   kstep X s0 (fst (dbUnshareStringValue i k o1 s))"
  by (auto simp: dbUnshareStringValue_def Let_def intro!: kstep_intros split: robj.splits)

lemma kstep_appendCommand: "kstep {} s (appendCommand c s)"
  apply (rule cmd_kstep [of s c])
  by (simp add: appendCommand_def reply_defs case_prod_unfold Let_def split: option.splits, intro conjI impI allI kstep_intros, auto simp: snd_lookupKeyWrite)

lemma kstep_mset_loop: "kstep X s0 s \<Longrightarrow> i < length (dbs s0) \<Longrightarrow> kstep X s0 (mset_loop i kvs s)"
  by (induction i kvs s rule: mset_loop.induct) (simp_all add: Let_def setKey_def kstep_intros)

lemma kstep_msetnx_check: "kstep X s0 s \<Longrightarrow> i < length (dbs s0) \<Longrightarrow> kstep X s0 (fst (msetnx_check i kvs s))"
proof (induction i kvs s rule: msetnx_check.induct)
  case (1 i key val rest s)
  have k: "kstep X s0 (fst (lookupKeyWrite i key s))" using 1 by (intro kstep_intros)
  show ?case
    using k 1 prod.collapse [of "lookupKeyWrite i key s", symmetric]
    by (cases "snd (lookupKeyWrite i key s)") (auto simp: case_prod_unfold)
qed simp_all

lemma kstep_msetGeneric: "kstep {} s (msetGenericCommand c nx s)"
  by (rule cmd_kstep [of s c],
      simp add: msetGenericCommand_def case_prod_unfold Let_def split: bool.splits,
      auto intro!: kstep_intros kstep_mset_loop kstep_msetnx_check)

lemma kstep_incrDecr: "kstep {} s (incrDecrCommand c n s)"
  apply (rule cmd_kstep [of s c])
  by (simp add: incrDecrCommand_def reply_defs case_prod_unfold Let_def split: option.splits, intro conjI impI allI kstep_intros, auto simp: snd_lookupKeyWrite)

section \<open>What the commands compute\<close>

lemma sdec_no_nul: "c \<in> set (sdec v) \<Longrightarrow> c \<noteq> 0"
proof -
  have "is_digit c \<Longrightarrow> c \<noteq> 0" for c :: u8 by (auto simp: is_digit_def)
  then show "c \<in> set (sdec v) \<Longrightarrow> c \<noteq> 0"
    using list_all_dec [of "nat v"] list_all_dec [of "nat (- v)"]
    by (auto simp: sdec_def list_all_iff split: if_splits)
qed

lemma length_sdec:
  assumes "is_ll v"
  shows "length (sdec v) \<le> 20"
proof -
  have "nat v \<le> 2 ^ 63" "nat (- v) \<le> 2 ^ 63" using assms by (simp_all add: is_ll_def ll_defs nat_le_iff)
  moreover have "(2 :: nat) ^ 63 < 10 ^ Suc 18" by simp
  ultimately have "nat v < 10 ^ Suc 18" "nat (- v) < 10 ^ Suc 18" by (blast intro: le_less_trans)+
  then show ?thesis using length_dec [of "nat v" 18] length_dec [of "nat (- v)" 18] by (simp add: sdec_def)
qed

lemma decode_int: "is_ll v \<Longrightarrow> getDecodedObject (IntEnc v) = sdec v"
proof -
  assume v: "is_ll v"
  have "ll2string (replicate 32 0) 32 v = Some (length (sdec v), sdec v @ 0 # drop (length (sdec v) + 1) (replicate 32 0))"
    using length_sdec [OF v] by (intro ll2string_sdec [OF v]) simp_all
  then show ?thesis
    using sdec_no_nul [of _ v] by (simp add: getDecodedObject_def takeWhile_append)
qed

lemma decode_encode: "getDecodedObject (encode_arg b) = b"
proof (cases "if length b \<le> 20 then string2l b else None")
  case None
  then show ?thesis
    by (simp add: encode_arg_def tryObjectEncoding_def createStringObject_def sdsEncodedObject_def getDecodedObject_def)
next
  case (Some v)
  then have v: "is_ll v" "b = sdec v" "length b \<le> 20" by (auto simp: string2l_eq string2ll_iff split: if_splits)
  then have "encode_arg b = IntEnc v"
    using Some by (simp add: encode_arg_def tryObjectEncoding_def createStringObject_def sdsEncodedObject_def
      OBJ_ENCODING_EMBSTR_SIZE_LIMIT_def createStringObjectFromLongLong_def)
  then show ?thesis using v decode_int by simp
qed

lemma encode_string: "otype_of (encode_arg b) = OBJ_STRING"
  by (auto simp: encode_arg_def tryObjectEncoding_def createStringObject_def sdsEncodedObject_def otype_of_def
      createStringObjectFromLongLong_def split: option.splits)

lemma encode_long: "getLongLongFromObject (Some (encode_arg b)) = string2ll b"
proof (cases "if length b \<le> 20 then string2l b else None")
  case None
  then show ?thesis
    by (simp add: encode_arg_def tryObjectEncoding_def createStringObject_def sdsEncodedObject_def getLongLongFromObject_def)
next
  case (Some v)
  then show ?thesis
    by (auto simp: encode_arg_def tryObjectEncoding_def createStringObject_def sdsEncodedObject_def
      OBJ_ENCODING_EMBSTR_SIZE_LIMIT_def createStringObjectFromLongLong_def getLongLongFromObject_def string2l_eq split: if_splits)
qed

text \<open>A read of a key that has no time to live.\<close>

lemma lookupKeyRead_plain:
  assumes "server_ok s" "i < length (dbs s)" "expires_at s i k = None"
  shows "lookupKeyRead i k s =
    (case dict_at s i k of
       None \<Rightarrow> (notifyKeyspaceEvent ''keymiss'' k i (s\<lparr>stat_misses := stat_misses s + 1\<rparr>), None)
     | Some v \<Rightarrow> (s\<lparr>stat_hits := stat_hits s + 1\<rparr>, Some v))"
  using assms expireIfNeeded_ok [OF kstep_refl assms(1,2), of k]
  by (auto simp: lookupKeyRead_def lookupKey_def expired_def Let_def split: option.splits)


lemma set_plain:
  assumes "c_argv (clients s c) = [a, k, v]"
  shows "setCommand c s = addReply c ROk (notifyKeyspaceEvent ''set'' k (cur_db s c)
    (incr_dirty (genericSetKey (cur_db s c) k (encode_arg v) False True s)))"
  using assms by (simp add: setCommand_def setGenericCommand_def no_opts_def numeral_3_eq_3 Let_def)

lemma kstep_setCommand: "kstep {} s (setCommand c s)"
  by (simp add: setCommand_def kstep_setGenericCommand kstep_refl kstep_quiet_steps split: option.splits)

text \<open>C26: SET stores the value under the key and clears its time to live, touches no other key, and
  GET then replies the very bytes that were set, whether they were encoded as an integer or not.\<close>

theorem set_then_get:
  assumes "server_ok s" "s1 = setCommand c (set_argv c [a, k, v] s)" "s2 = getCommand c (set_argv c [b, k] s1)"
  shows "last_reply s1 c = ROk \<and> last_reply s2 c = RBulk v \<and> expires_at s1 (cur_db s c) k = None \<and>
    others (cur_db s c) k s s1 \<and> dbs s2 = dbs s1 \<and> server_ok s2"
proof -
  let ?s0 = "set_argv c [a, k, v] s" and ?i = "cur_db s c"
  have ok0: "server_ok ?s0" and i: "?i < length (dbs ?s0)" using assms(1) ok_set_argv ok_cur_db by simp_all
  note eff = genericSetKey_effect [OF ok0 i, of k "encode_arg v" False True]
  have s1: "s1 = addReply c ROk (notifyKeyspaceEvent ''set'' k ?i (incr_dirty (genericSetKey ?i k (encode_arg v) False True ?s0)))"
    using set_plain [of ?s0 c a k v] assms(2) by simp
  have d1: "dict_at s1 ?i k = Some (encode_arg v)" "expires_at s1 ?i k = None" "others ?i k s s1"
    using eff others_quiet [OF eff(3)] by (auto simp: s1 others_def)
  let ?t = "set_argv c [b, k] s1"
  have ok1: "server_ok s1" using kstep_ok [OF kstep_setCommand ok0] assms(2) by simp
  then have okt: "server_ok ?t" by (rule ok_set_argv)
  have db: "cur_db s1 c = ?i" using cur_db_command [OF ok0 kstep_setCommand] assms(2) by simp
  have it: "?i < length (dbs ?t)" using ok_cur_db [OF ok1, of c] db by simp
  have "lookupKeyRead ?i k ?t = (?t\<lparr>stat_hits := stat_hits ?t + 1\<rparr>, Some (encode_arg v))"
    using lookupKeyRead_plain [OF okt it, of k] d1 by simp
  then have s2: "s2 = addReply c (RBulk v) (?t\<lparr>stat_hits := stat_hits ?t + 1\<rparr>)"
    using assms(3) db by (simp add: getCommand_def getGenericCommand_def encode_string decode_encode)
  have "server_ok s2" using kstep_ok [OF kstep_getCommand okt] assms(3) by simp
  then show ?thesis using d1 s1 s2 by simp
qed

lemma wrap64_id: "is_ll v \<Longrightarrow> wrap64 v = v"
  by (simp add: wrap64_def is_ll_def ll_defs int_word_sint)

lemma wrap64_above:
  assumes "LLONG_MAX < x" "x < 3 * 2 ^ 63"
  shows "wrap64 x = x - 2 ^ 64"
proof -
  have "(x + 2 ^ 63) mod 2 ^ 64 = (x + 2 ^ 63 - 2 ^ 64) mod 2 ^ 64" by (rule minus_mod_self2 [symmetric])
  also have "\<dots> = x + 2 ^ 63 - 2 ^ 64" using assms by (intro mod_pos_pos_trivial) (simp_all add: ll_defs)
  finally show ?thesis by (simp add: wrap64_def int_word_sint)
qed

lemma dbs_store:
  "i < length (dbs s) \<Longrightarrow> dict_at (dbAdd i k v s) i k = (if dict_at s i k = None then Some v else dict_at s i k)"
  "i < length (dbs s) \<Longrightarrow> dict_at (dbOverwrite i k v s) i k = Some v"
  "i < length (dbs s) \<Longrightarrow> dict_at (write_raw i k b s) i k = Some (Raw b)"
  by (simp_all add: dbAdd_def dbOverwrite_def write_raw_def Let_def nth_upd_db)

lemma others_store:
  "others i k s0 s \<Longrightarrow> others i k s0 (dbAdd i k v s)" "others i k s0 s \<Longrightarrow> others i k s0 (dbOverwrite i k v s)"
  "others i k s0 s \<Longrightarrow> others i k s0 (write_raw i k b s)" "others i k s0 s \<Longrightarrow> others i k s0 (addReply c r s)"
  "others i k s0 s \<Longrightarrow> others i k s0 (signalModifiedKey j k' s)"
  "others i k s0 s \<Longrightarrow> others i k s0 (notifyKeyspaceEvent e k' j s)" "others i k s0 s \<Longrightarrow> others i k s0 (incr_dirty s)"
  "others i k s0 s \<Longrightarrow> others i k s0 (serverAssert b1 s)"
  by (auto simp: dbAdd_def dbOverwrite_def write_raw_def Let_def serverAssert_def intro!: others_upd_db)
     (auto simp: others_def)

lemma lookupKeyWrite_facts:
  assumes "server_ok s" "i < length (dbs s)"
  shows "lookupKeyWrite i k s = (fst (lookupKeyWrite i k s), live_val s i k)"
    "dict_at (fst (lookupKeyWrite i k s)) i k = live_val s i k"
    "i < length (dbs (fst (lookupKeyWrite i k s)))" "others i k s (fst (lookupKeyWrite i k s))"
    "\<not> aborted (fst (lookupKeyWrite i k s))"
proof -
  have "server_ok (fst (lookupKeyWrite i k s))"
    by (rule server_ok_command [OF assms(1)], rule kstep_lookupKeyWrite [OF kstep_refl assms(2)])
  then show "\<not> aborted (fst (lookupKeyWrite i k s))" by (simp add: server_ok_def)
  show "lookupKeyWrite i k s = (fst (lookupKeyWrite i k s), live_val s i k)"
    "dict_at (fst (lookupKeyWrite i k s)) i k = live_val s i k"
    using lookupKeyWrite_ok [OF assms, of k] snd_lookupKeyWrite [of i k s] by simp_all
qed (use assms others_lookupKeyWrite in simp_all)

lemma parse_sdec: "is_ll v \<Longrightarrow> getLongLongFromObject (Some (createStringObject (sdec v))) = Some v"
  using string2ll_sdec by (simp add: createStringObject_def getLongLongFromObject_def)

text \<open>What the increment commands do on a key that holds an integer or does not exist.\<close>

lemma incrDecr_effect:
  assumes "server_ok s" "i = cur_db s c" "k = arg s c 1" "is_ll n" "is_ll v"
    "\<forall>x. live_val s i k = Some x \<longrightarrow> otype_of x = OBJ_STRING" "getLongLongFromObject (live_val s i k) = Some v"
  shows "is_ll (v + n) \<Longrightarrow> dict_at (incrDecrCommand c n s) i k = Some (IntEnc (v + n))"
    "is_ll (v + n) \<Longrightarrow> last_reply (incrDecrCommand c n s) c = RInt (v + n)"
    "\<not> is_ll (v + n) \<Longrightarrow> dict_at (incrDecrCommand c n s) i k = live_val s i k"
    "\<not> is_ll (v + n) \<Longrightarrow>
       last_reply (incrDecrCommand c n s) c = RErr ''increment or decrement would overflow''"
    "others i k s (incrDecrCommand c n s)"
proof -
  have i: "i < length (dbs s)" using ok_cur_db assms(1,2) by simp
  define s1 where "s1 = fst (lookupKeyWrite i k s)"
  have l: "lookupKeyWrite i k s = (s1, live_val s i k)" "dict_at s1 i k = live_val s i k" "i < length (dbs s1)" "others i k s s1"
    unfolding s1_def by (rule lookupKeyWrite_facts [OF assms(1) i])+
  have chk: "(case live_val s i k of None \<Rightarrow> (s1, False) | Some x \<Rightarrow> checkType c x OBJ_STRING s1) = (s1, False)"
    using assms(6) by (auto simp: checkType_def split: option.splits)
  have guard: "((n < 0 \<and> v < 0 \<and> n < LLONG_MIN - v) \<or> (n > 0 \<and> v > 0 \<and> n > LLONG_MAX - v)) \<longleftrightarrow> \<not> is_ll (v + n)"
    using assms(4,5) by (auto simp: is_ll_def ll_defs)
  have run: "incrDecrCommand c n s =
      (if \<not> is_ll (v + n) then addReply c (RErr ''increment or decrement would overflow'') s1
       else addReply c (RInt (v + n)) (incr_dirty (notifyKeyspaceEvent ''incrby'' k i (signalModifiedKey i k
         (if live_val s i k \<noteq> None then dbOverwrite i k (IntEnc (v + n)) s1 else dbAdd i k (IntEnc (v + n)) s1)))))"
    unfolding incrDecrCommand_def Let_def assms(2,3) [symmetric] l(1) case_prod_conv chk
    using assms(7) by (simp add: getLongLongFromObjectOrReply_def guard wrap64_id createStringObjectFromLongLong_def)
  show "is_ll (v + n) \<Longrightarrow> dict_at (incrDecrCommand c n s) i k = Some (IntEnc (v + n))"
    "is_ll (v + n) \<Longrightarrow> last_reply (incrDecrCommand c n s) c = RInt (v + n)"
    "\<not> is_ll (v + n) \<Longrightarrow> dict_at (incrDecrCommand c n s) i k = live_val s i k"
    "\<not> is_ll (v + n) \<Longrightarrow>
       last_reply (incrDecrCommand c n s) c = RErr ''increment or decrement would overflow''"
    "others i k s (incrDecrCommand c n s)"
    unfolding run using l by (auto simp: dbs_store intro!: others_store)
qed

text \<open>C27: INCR, DECR, INCRBY and DECRBY. On a key that holds an integer, or none, the exact sum is
  stored as an integer and replied when it is a 64 bit integer; otherwise the command replies an
  error and leaves the key alone. No other key changes.\<close>

theorem incrDecr_correct:
  assumes "server_ok s" "i = cur_db s c" "k = arg s c 1" "is_ll n" "is_ll v"
    "\<forall>x. live_val s i k = Some x \<longrightarrow> otype_of x = OBJ_STRING" "getLongLongFromObject (live_val s i k) = Some v"
  shows "(if is_ll (v + n)
      then dict_at (incrDecrCommand c n s) i k = Some (IntEnc (v + n)) \<and>
        last_reply (incrDecrCommand c n s) c = RInt (v + n)
      else dict_at (incrDecrCommand c n s) i k = live_val s i k \<and>
        last_reply (incrDecrCommand c n s) c = RErr ''increment or decrement would overflow'') \<and>
    others i k s (incrDecrCommand c n s)"
  using incrDecr_effect [OF assms] by simp

text \<open>C39: DECRBY negates its argument in 64 bits, where the smallest integer is its own negation:
  on a key with a value that is not negative, subtracting the smallest integer is not refused as
  an overflow but stores the value plus the smallest integer.\<close>

theorem decrby_min_wraps:
  assumes "server_ok s" "i = cur_db s c" "k = arg s c 1" "arg s c 2 = sdec LLONG_MIN" "is_ll v" "0 \<le> v"
    "\<forall>x. live_val s i k = Some x \<longrightarrow> otype_of x = OBJ_STRING" "getLongLongFromObject (live_val s i k) = Some v"
  shows "\<not> is_ll (v - LLONG_MIN) \<and> dict_at (decrbyCommand c s) i k = Some (IntEnc (v + LLONG_MIN)) \<and>
    last_reply (decrbyCommand c s) c = RInt (v + LLONG_MIN)"
proof -
  have m: "is_ll LLONG_MIN" "wrap64 (- LLONG_MIN) = LLONG_MIN" by (simp_all add: is_ll_def ll_defs wrap64_def)
  have "decrbyCommand c s = incrDecrCommand c LLONG_MIN s"
    using m assms(4) by (simp add: decrbyCommand_def getLongLongFromObjectOrReply_def parse_sdec)
  moreover have "is_ll (v + LLONG_MIN)" "\<not> is_ll (v - LLONG_MIN)" using assms(5,6) by (simp_all add: is_ll_def ll_defs)
  ultimately show ?thesis
    using incrDecr_effect [OF assms(1,2,3) m(1) assms(5,7,8)] by simp
qed

lemma aborted_simps [simp]:
  "aborted (addReply c r s) = aborted s" "aborted (notifyKeyspaceEvent e k i s) = aborted s"
  "aborted (incr_dirty s) = aborted s" "aborted (signalModifiedKey i k s) = aborted s"
  "aborted (write_raw i k b s) = aborted s"
  using quiet_steps quiet_signal by (simp_all add: quiet_def write_raw_def)

lemma setrange_store_aborts: "\<not> off + length val < 2 ^ 63 \<Longrightarrow> aborted (setrange_store c i k off val b s)"
  by (simp add: setrange_store_def Let_def alloc_def serverAssert_def)

lemma setrange_store_effect:
  assumes "off + length val < 2 ^ 63" "i < length (dbs s)"
  shows "dict_at (setrange_store c i k off val b s) i k = Some (Raw (overwrite_at off val b))"
    "last_reply (setrange_store c i k off val b s) c = RInt (int (length (overwrite_at off val b)))"
    "aborted (setrange_store c i k off val b s) = aborted s"
    "others i k s0 s \<Longrightarrow> others i k s0 (setrange_store c i k off val b s)"
  using assms by (simp_all add: setrange_store_def Let_def alloc_def dbs_store others_store)

lemma length_dbAdd [simp]: "length (dbs (dbAdd i k v s)) = length (dbs s)"
  by (simp add: dbAdd_def Let_def)

lemma dbAdd_aborted: "dict_at s i k = None \<Longrightarrow> aborted (dbAdd i k v s) = aborted s"
  by (simp add: dbAdd_def Let_def)

lemma snd_dbUnshare: "snd (dbUnshareStringValue i k x s) = getDecodedObject x"
  by (simp add: dbUnshareStringValue_def getDecodedObject_def Let_def split: robj.splits)

lemma others_dbUnshare: "others i k s0 s \<Longrightarrow> others i k s0 (fst (dbUnshareStringValue i k x s))"
  by (auto simp: dbUnshareStringValue_def Let_def intro!: others_store split: robj.splits)

lemma dbUnshare_aborted:
  "otype_of x = OBJ_STRING \<Longrightarrow> dict_at s i k = Some x \<Longrightarrow> aborted (fst (dbUnshareStringValue i k x s)) = aborted s"
  by (auto simp: dbUnshareStringValue_def dbOverwrite_def Let_def split: robj.splits)

lemma length_dbUnshare [simp]: "length (dbs (fst (dbUnshareStringValue i k x s))) = length (dbs s)"
  by (auto simp: dbUnshareStringValue_def dbOverwrite_def Let_def split: robj.splits)

lemma length_overwrite_at: "length (overwrite_at off val b) = max (length b) (off + length val)"
  by (simp add: overwrite_at_def Let_def)

text \<open>C35: SETRANGE adds the offset and the length of the value in 64 bits before it checks the size of
  the result: when the sum exceeds the largest signed integer, the check passes and the command
  asks for an impossible allocation, which ends the process.\<close>

theorem setrange_overflow:
  assumes "server_ok s" "i = cur_db s c" "k = arg s c 1" "arg s c 2 = sdec off" "is_ll off" "0 \<le> off"
    "arg s c 3 \<noteq> []" "LLONG_MAX < off + int (length (arg s c 3))" "int (length (arg s c 3)) \<le> 2 ^ 63"
    "\<forall>x. live_val s i k = Some x \<longrightarrow> otype_of x = OBJ_STRING"
  shows "aborted (setrangeCommand c s)"
proof -
  let ?val = "arg s c 3"
  have i: "i < length (dbs s)" using ok_cur_db assms(1,2) by simp
  obtain s1 where l: "lookupKeyWrite i k s = (s1, live_val s i k)"
    using lookupKeyWrite_ok [OF assms(1) i, of k] by simp
  have off: "getLongLongFromObject (Some (createStringObject (sdec off))) = Some off"
    using parse_sdec [OF assms(5)] .
  have "wrap64 (off + int (length ?val)) = off + int (length ?val) - 2 ^ 64"
    using assms(5,8,9) by (intro wrap64_above) (simp_all add: is_ll_def ll_defs)
  then have chk: "checkStringLength c (wrap64 (off + int (length ?val))) t = (t, True)" for t
    using assms(5,9) by (simp add: checkStringLength_def is_ll_def ll_defs)
  have big: "\<not> nat off + length ?val < 2 ^ 63" using assms(6,8) by (simp add: ll_defs)
  have nz: "length ?val \<noteq> 0" using assms(7) by simp
  note run = setrangeCommand_def Let_def assms(2,3) [symmetric] assms(4) getLongLongFromObjectOrReply_def off
    option.case case_prod_conv l
  show ?thesis
  proof (cases "live_val s i k")
    case None
    then show ?thesis
      unfolding run using assms(6) nz chk big by (simp add: setrange_store_aborts)
  next
    case (Some x)
    then have "checkType c x OBJ_STRING s1 = (s1, False)" using assms(10) by (simp add: checkType_def)
    then show ?thesis
      unfolding run using Some assms(6) nz chk big by (simp add: case_prod_unfold setrange_store_aborts)
  qed
qed

lemma nth_overwrite_at:
  "j < length (overwrite_at off val b) \<Longrightarrow> overwrite_at off val b ! j =
    (if off \<le> j \<and> j < off + length val then val ! (j - off) else if j < length b then b ! j else 0)"
  by (cases "length b \<le> off") (auto simp: overwrite_at_def Let_def nth_append min_def)

lemma setrange_effect:
  assumes "server_ok s" "i = cur_db s c" "k = arg s c 1" "arg s c 2 = sdec off" "is_ll off" "0 \<le> off"
    "arg s c 3 \<noteq> []" "off + int (length (arg s c 3)) \<le> LLONG_MAX"
    "\<forall>x. live_val s i k = Some x \<longrightarrow> otype_of x = OBJ_STRING"
    "old = (case live_val s i k of None \<Rightarrow> [] | Some x \<Rightarrow> getDecodedObject x)"
    "new = overwrite_at (nat off) (arg s c 3) old"
  shows "off + int (length (arg s c 3)) \<le> 512 * 1024 * 1024 \<Longrightarrow> dict_at (setrangeCommand c s) i k = Some (Raw new) \<and>
      last_reply (setrangeCommand c s) c = RInt (int (length new))"
    "\<not> off + int (length (arg s c 3)) \<le> 512 * 1024 * 1024 \<Longrightarrow> dict_at (setrangeCommand c s) i k = live_val s i k \<and>
      last_reply (setrangeCommand c s) c = RErr ''string exceeds maximum allowed size (512MB)''"
    "\<not> aborted (setrangeCommand c s) \<and> others i k s (setrangeCommand c s)"
proof -
  let ?val = "arg s c 3" and ?fits = "off + int (length (arg s c 3)) \<le> 512 * 1024 * 1024"
  have i: "i < length (dbs s)" using ok_cur_db assms(1,2) by simp
  define s1 where "s1 = fst (lookupKeyWrite i k s)"
  have l: "lookupKeyWrite i k s = (s1, live_val s i k)" "dict_at s1 i k = live_val s i k" "i < length (dbs s1)"
      "others i k s s1" "\<not> aborted s1"
    unfolding s1_def by (rule lookupKeyWrite_facts [OF assms(1) i])+
  have small: "nat off + length ?val < 2 ^ 63" and
    chk: "checkStringLength c (wrap64 (off + int (length ?val))) t =
      (if ?fits then (t, True) else (addReply c (RErr ''string exceeds maximum allowed size (512MB)'') t, False))" for t
    using assms(6,8) by (simp_all add: checkStringLength_def wrap64_id is_ll_def ll_defs)
  have nz: "length ?val \<noteq> 0" using assms(7) by simp
  note run = setrangeCommand_def Let_def assms(2,3) [symmetric] assms(4) getLongLongFromObjectOrReply_def
    parse_sdec [OF assms(5)] option.case case_prod_conv l(1)
  have "(?fits \<longrightarrow> dict_at (setrangeCommand c s) i k = Some (Raw new) \<and> last_reply (setrangeCommand c s) c = RInt (int (length new))) \<and>
    (\<not> ?fits \<longrightarrow> dict_at (setrangeCommand c s) i k = live_val s i k \<and>
      last_reply (setrangeCommand c s) c = RErr ''string exceeds maximum allowed size (512MB)'') \<and>
    \<not> aborted (setrangeCommand c s) \<and> others i k s (setrangeCommand c s)"
  proof (cases ?fits)
    case False
    have "setrangeCommand c s = addReply c (RErr ''string exceeds maximum allowed size (512MB)'') s1"
      unfolding run using assms(6,9) nz chk False by (auto simp: checkType_def split: option.splits)
    then show ?thesis using False l by (simp add: others_store)
  next
    case True
    show ?thesis
    proof (cases "live_val s i k")
      case None
      have "setrangeCommand c s = setrange_store c i k (nat off) ?val (replicate (nat off + length ?val) 0)
          (dbAdd i k (Raw (replicate (nat off + length ?val) 0)) s1)"
        unfolding run using None assms(6) nz chk True small by (simp add: alloc_def)
      moreover have "overwrite_at (nat off) ?val (replicate (nat off + length ?val) 0) = new"
        using None assms(10,11) by (simp add: overwrite_at_def Let_def)
      ultimately show ?thesis
        using setrange_store_effect [OF small, of i "dbAdd i k (Raw (replicate (nat off + length ?val) 0)) s1"] None l True
        by (simp add: others_store dbAdd_aborted)
    next
      case (Some x)
      then have t: "otype_of x = OBJ_STRING" "checkType c x OBJ_STRING s1 = (s1, False)" using assms(9) by (simp_all add: checkType_def)
      have "setrangeCommand c s = setrange_store c i k (nat off) ?val old (fst (dbUnshareStringValue i k x s1))"
        unfolding run using Some assms(6,10) t nz chk True snd_dbUnshare by (simp add: case_prod_unfold)
      then show ?thesis
        using setrange_store_effect [OF small, of i "fst (dbUnshareStringValue i k x s1)"] Some l assms(11) t True
        by (simp add: others_dbUnshare dbUnshare_aborted)
    qed
  qed
  then show "?fits \<Longrightarrow> dict_at (setrangeCommand c s) i k = Some (Raw new) \<and> last_reply (setrangeCommand c s) c = RInt (int (length new))"
    "\<not> ?fits \<Longrightarrow> dict_at (setrangeCommand c s) i k = live_val s i k \<and>
      last_reply (setrangeCommand c s) c = RErr ''string exceeds maximum allowed size (512MB)''"
    "\<not> aborted (setrangeCommand c s) \<and> others i k s (setrangeCommand c s)" by blast+
qed

text \<open>C32: SETRANGE. When the end of the written part is at most 512 MB, every byte of the new string is the
  byte of the value at its offset, the old byte outside of the written part, or zero where the old string
  was too short, the string is as long as it has to be, and the reply is its length; beyond 512 MB the
  command replies an error and leaves the key alone. No other key changes.\<close>

theorem setrange_correct:
  assumes "server_ok s" "i = cur_db s c" "k = arg s c 1" "arg s c 2 = sdec off" "is_ll off" "0 \<le> off"
    "val = arg s c 3" "val \<noteq> []" "off + int (length val) \<le> LLONG_MAX"
    "\<forall>x. live_val s i k = Some x \<longrightarrow> otype_of x = OBJ_STRING"
    "old = (case live_val s i k of None \<Rightarrow> [] | Some x \<Rightarrow> getDecodedObject x)"
  shows "(if off + int (length val) \<le> 512 * 1024 * 1024 then
      \<exists>new. dict_at (setrangeCommand c s) i k = Some (Raw new) \<and> last_reply (setrangeCommand c s) c = RInt (int (length new)) \<and>
        length new = max (length old) (nat off + length val) \<and>
        (\<forall>j < length new. new ! j =
          (if nat off \<le> j \<and> j < nat off + length val then val ! (j - nat off) else if j < length old then old ! j else 0))
    else dict_at (setrangeCommand c s) i k = live_val s i k \<and>
      last_reply (setrangeCommand c s) c = RErr ''string exceeds maximum allowed size (512MB)'') \<and>
    \<not> aborted (setrangeCommand c s) \<and> others i k s (setrangeCommand c s)"
proof -
  note e = setrange_effect [OF assms(1-6) _ _ assms(10,11) refl]
  have v: "arg s c 3 \<noteq> []" "off + int (length (arg s c 3)) \<le> LLONG_MAX" using assms(7-9) by simp_all
  show ?thesis
    using e(1-3) [OF v] length_overwrite_at [of "nat off" val old] nth_overwrite_at [of _ "nat off" val old] unfolding assms(7) by auto
qed

lemma stringObjectLen_decoded:
  "\<forall>v. x = IntEnc v \<longrightarrow> is_ll v \<Longrightarrow> stringObjectLen x = length (getDecodedObject x)"
proof (cases x)
  case (IntEnc v)
  assume "\<forall>v. x = IntEnc v \<longrightarrow> is_ll v"
  then have "is_ll v" using IntEnc by simp
  then show ?thesis using IntEnc by (simp add: stringObjectLen_def decode_int, auto simp: sdigits10_def sdec_def digits10_eq is_ll_def ll_defs)
qed (simp_all add: stringObjectLen_def getDecodedObject_def)

lemma encode_arg_is_ll: "encode_arg b = IntEnc v \<Longrightarrow> is_ll v"
  using string2ll_is_ll
  by (auto simp: encode_arg_def tryObjectEncoding_def createStringObject_def sdsEncodedObject_def createStringObjectFromLongLong_def
      string2l_eq Let_def split: if_splits option.splits)

text \<open>C30: APPEND. On a key that does not exist it stores the value; on a string it stores the old string
  followed by the value and replies the new length, or, when the result would be longer than 512 MB,
  replies an error and leaves the key alone. No other key changes.\<close>

theorem append_correct:
  assumes "server_ok s" "i = cur_db s c" "k = arg s c 1" "app = arg s c 2"
    "\<forall>x. live_val s i k = Some x \<longrightarrow> otype_of x = OBJ_STRING \<and> (\<forall>v. x = IntEnc v \<longrightarrow> is_ll v)"
    "old = map_option getDecodedObject (live_val s i k)" "\<forall>b. old = Some b \<longrightarrow> length b + length app < 2 ^ 63"
  shows "(case old of
      None \<Rightarrow> map_option getDecodedObject (dict_at (appendCommand c s) i k) = Some app \<and> last_reply (appendCommand c s) c = RInt (int (length app))
    | Some b \<Rightarrow>
        if length b + length app \<le> 512 * 1024 * 1024 then
          map_option getDecodedObject (dict_at (appendCommand c s) i k) = Some (b @ app) \<and>
          last_reply (appendCommand c s) c = RInt (int (length b + length app))
        else dict_at (appendCommand c s) i k = live_val s i k \<and>
          last_reply (appendCommand c s) c = RErr ''string exceeds maximum allowed size (512MB)'') \<and>
    \<not> aborted (appendCommand c s) \<and> others i k s (appendCommand c s)"
proof -
  have i: "i < length (dbs s)" using ok_cur_db assms(1,2) by simp
  define s1 where "s1 = fst (lookupKeyWrite i k s)"
  have l: "lookupKeyWrite i k s = (s1, live_val s i k)" "dict_at s1 i k = live_val s i k" "i < length (dbs s1)"
      "others i k s s1" "\<not> aborted s1"
    unfolding s1_def by (rule lookupKeyWrite_facts [OF assms(1) i])+
  note run = appendCommand_def Let_def assms(2,3,4) [symmetric] l(1) case_prod_conv
  show ?thesis
  proof (cases "live_val s i k")
    case None
    have "stringObjectLen (encode_arg app) = length app" using stringObjectLen_decoded encode_arg_is_ll decode_encode by metis
    then show ?thesis unfolding run using None l assms(6) decode_encode [of app] by (simp add: dbs_store others_store dbAdd_aborted)
  next
    case (Some x)
    then have x: "otype_of x = OBJ_STRING" "checkType c x OBJ_STRING s1 = (s1, False)" "stringObjectLen x = length (getDecodedObject x)"
      using assms(5) stringObjectLen_decoded by (simp_all add: checkType_def)
    let ?b = "getDecodedObject x"
    have small: "length ?b + length app < 2 ^ 63" using assms(6,7) Some by simp
    have chk: "checkStringLength c (wrap64 (int (length ?b + length app))) t =
        (if length ?b + length app \<le> 512 * 1024 * 1024 then (t, True)
         else (addReply c (RErr ''string exceeds maximum allowed size (512MB)'') t, False))" for t
    proof -
      have "is_ll (int (length ?b + length app))" using small by (simp add: is_ll_def ll_defs)
      then show ?thesis by (auto simp: checkStringLength_def wrap64_id)
    qed
    define t where "t = fst (dbUnshareStringValue i k x s1)"
    have u: "dbUnshareStringValue i k x s1 = (t, ?b)" using snd_dbUnshare [of i k x s1] by (simp add: t_def prod_eq_iff)
    have t: "others i k s t" "\<not> aborted t" "i < length (dbs t)"
      unfolding t_def using others_dbUnshare [OF l(4)] dbUnshare_aborted [OF x(1)] l(2,3,5) Some by simp_all
    have r: "appendCommand c s = (if length ?b + length app \<le> 512 * 1024 * 1024 then
        addReply c (RInt (int (length (?b @ app)))) (incr_dirty (notifyKeyspaceEvent ''append'' k i (signalModifiedKey i k (write_raw i k (?b @ app) t))))
      else addReply c (RErr ''string exceeds maximum allowed size (512MB)'') s1)"
      unfolding run option.case Some x(2,3) chk by (simp add: u)
    have old: "old = Some ?b" using assms(6) Some by simp
    have w: "map_option getDecodedObject (dict_at (write_raw i k (?b @ app) t) i k) = Some (?b @ app)"
      using dbs_store(3) [OF t(3), of k "?b @ app"] by (simp add: getDecodedObject_def)
    show ?thesis
    proof (cases "length ?b + length app \<le> 512 * 1024 * 1024")
      case True
      then show ?thesis unfolding r old using t w by (simp add: others_store)
    next
      case False
      then show ?thesis unfolding r old using l Some by (simp add: others_store)
    qed
  qed
qed

theorem append_correct_witness:
  "last_reply (appendCommand 1 (set_argv 1 [str ''APPEND'', str ''n'', str ''12'']
     ((start_server 1)\<lparr>dbs := [empty_db\<lparr>db_dict := [str ''n'' \<mapsto> IntEnc (-17)]\<rparr>]\<rparr>))) 1 = RInt 5"
proof -
  let ?t = "(start_server 1)\<lparr>dbs := [empty_db\<lparr>db_dict := [str ''n'' \<mapsto> IntEnc (-17)]\<rparr>]\<rparr>"
  let ?s = "set_argv 1 [str ''APPEND'', str ''n'', str ''12''] ?t"
  have "server_ok ?t"
    by (auto simp: server_ok_def start_server_def watch_ok_def db_ok_def empty_db_def new_client_def nth_Cons less_Suc_eq)
  then have "server_ok ?s" using ok_set_argv by simp
  moreover have "live_val ?s (cur_db ?s 1) (arg ?s 1 1) = Some (IntEnc (-17))"
    by (simp add: live_val_def set_argv_def upd_client_def start_server_def new_client_def empty_db_def expired_def)
  moreover have "getDecodedObject (IntEnc (-17)) = str ''-17''" "otype_of (IntEnc (-17)) = OBJ_STRING" "is_ll (-17)"
    by code_simp+
  ultimately show ?thesis
    using append_correct [of ?s "cur_db ?s 1" 1 "arg ?s 1 1" "arg ?s 1 2" "Some (str ''-17'')"] by simp
qed

theorem set_then_get_witness:
  "last_reply (getCommand 1 (set_argv 1 [str ''GET'', str ''n'']
     (setCommand 1 (set_argv 1 [str ''SET'', str ''n'', str ''-17''] (start_server 16))))) 1 = RBulk (str ''-17'')"
  using set_then_get [OF start_server_ok refl refl, of 16] by simp

theorem incrDecr_correct_witness:
  "last_reply (incrDecrCommand 1 5 (set_argv 1 [str ''INCRBY'', str ''n'', str ''5''] (start_server 16))) 1 = RInt 5"
proof -
  let ?s = "set_argv 1 [str ''INCRBY'', str ''n'', str ''5''] (start_server 16)"
  have "server_ok ?s" using start_server_ok ok_set_argv by simp
  moreover have "live_val ?s (cur_db ?s 1) (arg ?s 1 1) = None"
    by (simp add: live_val_def set_argv_def upd_client_def start_server_def new_client_def empty_db_def)
  ultimately show ?thesis
    using incrDecr_correct [of ?s "cur_db ?s 1" 1 "arg ?s 1 1" 5 0]
    by (simp add: is_ll_def ll_defs getLongLongFromObject_def)
qed

theorem decrby_min_wraps_witness:
  "last_reply (decrbyCommand 1 (set_argv 1 [str ''DECRBY'', str ''n'', sdec LLONG_MIN] (start_server 16))) 1
     = RInt LLONG_MIN"
proof -
  let ?s = "set_argv 1 [str ''DECRBY'', str ''n'', sdec LLONG_MIN] (start_server 16)"
  have "server_ok ?s" using start_server_ok ok_set_argv by simp
  moreover have "live_val ?s (cur_db ?s 1) (arg ?s 1 1) = None"
    by (simp add: live_val_def set_argv_def upd_client_def start_server_def new_client_def empty_db_def)
  ultimately show ?thesis
    using decrby_min_wraps [of ?s "cur_db ?s 1" 1 "arg ?s 1 1" 0]
    by (simp add: is_ll_def ll_defs getLongLongFromObject_def)
qed

theorem setrange_overflow_witness:
  "aborted (setrangeCommand 1 (set_argv 1 [str ''SETRANGE'', str ''n'', sdec LLONG_MAX, str ''x''] (start_server 16)))"
proof -
  let ?s = "set_argv 1 [str ''SETRANGE'', str ''n'', sdec LLONG_MAX, str ''x''] (start_server 16)"
  have "server_ok ?s" using start_server_ok ok_set_argv by simp
  moreover have "live_val ?s (cur_db ?s 1) (arg ?s 1 1) = None"
    by (simp add: live_val_def set_argv_def upd_client_def start_server_def new_client_def empty_db_def)
  ultimately show ?thesis
    using setrange_overflow [of ?s "cur_db ?s 1" 1 "arg ?s 1 1" LLONG_MAX]
    by (simp add: is_ll_def ll_defs)
qed

theorem setrange_correct_witness:
  "last_reply (setrangeCommand 1 (set_argv 1 [str ''SETRANGE'', str ''n'', sdec 6, str ''x''] (start_server 16))) 1 = RInt 7"
proof -
  let ?s = "set_argv 1 [str ''SETRANGE'', str ''n'', sdec 6, str ''x''] (start_server 16)"
  have "server_ok ?s" using start_server_ok ok_set_argv by simp
  moreover have "live_val ?s (cur_db ?s 1) (arg ?s 1 1) = None"
    by (simp add: live_val_def set_argv_def upd_client_def start_server_def new_client_def empty_db_def)
  ultimately show ?thesis
    using setrange_correct [of ?s "cur_db ?s 1" 1 "arg ?s 1 1" 6 "str ''x''" "[]"]
    by (auto simp: is_ll_def ll_defs)
qed

end
