(* ===== verification/Keyspace.thy ===== *)
theory Keyspace
  imports Strings
begin

text \<open>
  The type agnostic commands of \<^verbatim>\<open>db.c\<close> (deletion, existence, selection, renaming, moving,
  flushing and swapping of databases) and the time to live commands of \<^verbatim>\<open>expire.c\<close>, with
  the deletion step of the active expire cycle. Cluster mode is off, no client is blocked on a
  key, and the background saving of FLUSHALL has no effect on the state modelled here.
\<close>

section \<open>Deletion, existence and selection\<close>

fun del_loop :: "nat \<Rightarrow> nat \<Rightarrow> bool \<Rightarrow> bytes list \<Rightarrow> nat \<Rightarrow> server \<Rightarrow> server \<times> nat" where
  "del_loop c i lazy [] n s = (s, n)"
| "del_loop c i lazy (key # keys) n s =
     (let (s, _) = expireIfNeeded i key s;
          (s, deleted) = (if lazy then dbAsyncDelete i key s else dbSyncDelete i key s)
      in if deleted
         then del_loop c i lazy keys (n + 1)
           (incr_dirty (notifyKeyspaceEvent ''del'' key i (signalModifiedKey i key s)))
         else del_loop c i lazy keys n s)"

definition delGenericCommand :: "nat \<Rightarrow> bool \<Rightarrow> server \<Rightarrow> server" where
  "delGenericCommand c lazy s =
     (let (s, numdel) = del_loop c (cur_db s c) lazy (drop 1 (c_argv (clients s c))) 0 s
      in addReply c (RInt (int numdel)) s)"

definition delCommand :: "nat \<Rightarrow> server \<Rightarrow> server" where
  "delCommand c s = delGenericCommand c (lazyfree_lazy_user_del s) s"

definition unlinkCommand :: "nat \<Rightarrow> server \<Rightarrow> server" where
  "unlinkCommand c s = delGenericCommand c True s"

fun count_loop :: "nat \<Rightarrow> bytes list \<Rightarrow> nat \<Rightarrow> server \<Rightarrow> server \<times> nat" where
  "count_loop i [] n s = (s, n)"
| "count_loop i (key # keys) n s =
     (let (s, o1) = lookupKeyRead i key s
      in count_loop i keys (if o1 \<noteq> None then n + 1 else n) s)"

definition existsCommand :: "nat \<Rightarrow> server \<Rightarrow> server" where
  "existsCommand c s =
     (let (s, count) = count_loop (cur_db s c) (drop 1 (c_argv (clients s c))) 0 s
      in addReply c (RInt (int count)) s)"

definition touchCommand :: "nat \<Rightarrow> server \<Rightarrow> server" where
  "touchCommand c s =
     (let (s, touched) = count_loop (cur_db s c) (drop 1 (c_argv (clients s c))) 0 s
      in addReply c (RInt (int touched)) s)"

definition wrap32 :: "int \<Rightarrow> int" where
  "wrap32 v = sint (word_of_int v :: 32 word)"

text \<open>\<open>False\<close> is \<^verbatim>\<open>C_ERR\<close>. The index is an \<^verbatim>\<open>int\<close>.\<close>

definition selectDb :: "nat \<Rightarrow> int \<Rightarrow> server \<Rightarrow> server \<times> bool" where
  "selectDb c id1 s =
     (if id1 < 0 \<or> id1 \<ge> int (length (dbs s)) then (s, False)
      else (upd_client c (\<lambda>cl. cl\<lparr>c_db := nat id1\<rparr>) s, True))"

text \<open>The \<^verbatim>\<open>long\<close> that was parsed is passed as an \<^verbatim>\<open>int\<close>.\<close>

definition selectCommand :: "nat \<Rightarrow> server \<Rightarrow> server" where
  "selectCommand c s =
     (case getLongLongFromObjectOrReply c (Some (createStringObject (arg s c 1))) (RErr ''invalid DB index'') s of
        (s, None) \<Rightarrow> s
      | (s, Some id1) \<Rightarrow>
          (case selectDb c (wrap32 id1) s of
             (s, False) \<Rightarrow> addReply c (RErr ''DB index is out of range'') s
           | (s, True) \<Rightarrow> addReply c ROk s))"

definition dbsizeCommand :: "nat \<Rightarrow> server \<Rightarrow> server" where
  "dbsizeCommand c s = addReply c (RInt (int (card (dom (dict_at s (cur_db s c)))))) s"

definition getObjectTypeName :: "robj option \<Rightarrow> string" where
  "getObjectTypeName o1 =
     (case o1 of
        None \<Rightarrow> ''none''
      | Some x \<Rightarrow> (case otype_of x of
           OBJ_STRING \<Rightarrow> ''string'' | OBJ_LIST \<Rightarrow> ''list'' | OBJ_SET \<Rightarrow> ''set'' | OBJ_ZSET \<Rightarrow> ''zset''
         | OBJ_HASH \<Rightarrow> ''hash'' | OBJ_STREAM \<Rightarrow> ''stream''))"

definition typeCommand :: "nat \<Rightarrow> server \<Rightarrow> server" where
  "typeCommand c s =
     (let (s, o1) = lookupKeyRead (cur_db s c) (arg s c 1) s
      in addReply c (RStatus (getObjectTypeName o1)) s)"

section \<open>Renaming, moving and swapping\<close>

definition lookupKeyWriteOrReply :: "nat \<Rightarrow> bytes \<Rightarrow> reply \<Rightarrow> server \<Rightarrow> server \<times> robj option" where
  "lookupKeyWriteOrReply c key r s =
     (let (s, o1) = lookupKeyWrite (cur_db s c) key s
      in (if o1 = None then addReply c r s else s, o1))"

definition renameGenericCommand :: "nat \<Rightarrow> bool \<Rightarrow> server \<Rightarrow> server" where
  "renameGenericCommand c nx s =
     (let i = cur_db s c; src = arg s c 1; dst = arg s c 2; samekey = (src = dst) in
      case lookupKeyWriteOrReply c src (RErr ''no such key'') s of
        (s, None) \<Rightarrow> s
      | (s, Some o1) \<Rightarrow>
          if samekey then addReply c (if nx then RInt 0 else ROk) s
          else
            let (s, expire) = getExpire i src s;
                (s, old) = lookupKeyWrite i dst s
            in if old \<noteq> None \<and> nx then addReply c (RInt 0) s
               else
                 let s = (if old \<noteq> None then fst (dbDelete i dst s) else s);
                     s = dbAdd i dst o1 s;
                     s = (if expire \<noteq> - 1 then setExpire c i dst expire s else s);
                     s = fst (dbDelete i src s);
                     s = signalModifiedKey i src s;
                     s = signalModifiedKey i dst s;
                     s = notifyKeyspaceEvent ''rename_from'' src i s;
                     s = notifyKeyspaceEvent ''rename_to'' dst i s;
                     s = incr_dirty s
                 in addReply c (if nx then RInt 1 else ROk) s)"

definition renameCommand :: "nat \<Rightarrow> server \<Rightarrow> server" where
  "renameCommand c s = renameGenericCommand c False s"

definition renamenxCommand :: "nat \<Rightarrow> server \<Rightarrow> server" where
  "renamenxCommand c s = renameGenericCommand c True s"

definition is_int :: "int \<Rightarrow> bool" where
  "is_int v \<longleftrightarrow> - (2 ^ 31) \<le> v \<and> v < 2 ^ 31"

text \<open>The client selects the target to check its index, then the source again.\<close>

definition move_target :: "nat \<Rightarrow> server \<Rightarrow> server \<times> nat option" where
  "move_target c s =
     (let srcid = cur_db s c in
      case getLongLongFromObject (Some (createStringObject (arg s c 2))) of
        None \<Rightarrow> (s, None)
      | Some dbid \<Rightarrow>
          if \<not> is_int dbid then (s, None)
          else case selectDb c dbid s of
              (s, False) \<Rightarrow> (s, None)
            | (s, True) \<Rightarrow>
                let dst = cur_db s c
                in (fst (selectDb c (int srcid) s), Some dst))"

definition moveCommand :: "nat \<Rightarrow> server \<Rightarrow> server" where
  "moveCommand c s =
     (let src = cur_db s c; key = arg s c 1 in
      case move_target c s of
        (s, None) \<Rightarrow> addReply c (RErr ''index out of range'') s
      | (s, Some dst) \<Rightarrow>
          if src = dst then addReply c (RErr ''source and destination objects are the same'') s
          else case lookupKeyWrite src key s of
            (s, None) \<Rightarrow> addReply c (RInt 0) s
          | (s, Some o1) \<Rightarrow>
              let (s, expire) = getExpire src key s;
                  (s, old) = lookupKeyWrite dst key s
              in if old \<noteq> None then addReply c (RInt 0) s
                 else
                   let s = dbAdd dst key o1 s;
                       s = (if expire \<noteq> - 1 then setExpire c dst key expire s else s);
                       s = fst (dbDelete src key s);
                       s = signalModifiedKey src key s;
                       s = signalModifiedKey dst key s;
                       s = notifyKeyspaceEvent ''move_from'' key src s;
                       s = notifyKeyspaceEvent ''move_to'' key dst s;
                       s = incr_dirty s
                   in addReply c (RInt 1) s)"

definition dbSwapDatabases :: "int \<Rightarrow> int \<Rightarrow> server \<Rightarrow> server \<times> bool" where
  "dbSwapDatabases id1 id2 s =
     (let n = int (length (dbs s)) in
      if id1 < 0 \<or> id1 \<ge> n \<or> id2 < 0 \<or> id2 \<ge> n then (s, False)
      else if id1 = id2 then (s, True)
      else
        let aux = dbs s ! nat id1; db2 = dbs s ! nat id2;
            s = upd_db (nat id1) (\<lambda>db. db\<lparr>db_dict := db_dict db2, db_expires := db_expires db2\<rparr>) s;
            s = upd_db (nat id2) (\<lambda>db. db\<lparr>db_dict := db_dict aux, db_expires := db_expires aux\<rparr>) s
        in (s, True))"

definition swapdbCommand :: "nat \<Rightarrow> server \<Rightarrow> server" where
  "swapdbCommand c s =
     (case getLongLongFromObjectOrReply c (Some (createStringObject (arg s c 1))) (RErr ''invalid first DB index'') s of
        (s, None) \<Rightarrow> s
      | (s, Some id1) \<Rightarrow>
     (case getLongLongFromObjectOrReply c (Some (createStringObject (arg s c 2))) (RErr ''invalid second DB index'') s of
        (s, None) \<Rightarrow> s
      | (s, Some id2) \<Rightarrow>
     (case dbSwapDatabases id1 id2 s of
        (s, False) \<Rightarrow> addReply c (RErr ''DB index is out of range'') s
      | (s, True) \<Rightarrow> addReply c ROk (incr_dirty s))))"

section \<open>Flushing\<close>

text \<open>\<open>None\<close> stands for the database number -1: all databases.\<close>

definition touch_client_on_flush :: "nat option \<Rightarrow> nat \<Rightarrow> server \<Rightarrow> server" where
  "touch_client_on_flush dbid c s =
     fold (\<lambda>(i, k) s. if (dbid = None \<or> dbid = Some i) \<and> dict_at s i k \<noteq> None then set_dirty_cas c s else s)
       (c_watched (clients s c)) s"

definition touchWatchedKeysOnFlush :: "nat option \<Rightarrow> server \<Rightarrow> server" where
  "touchWatchedKeysOnFlush dbid s = fold (touch_client_on_flush dbid) (client_list s) s"

definition signalFlushedDb :: "nat option \<Rightarrow> server \<Rightarrow> server" where
  "signalFlushedDb dbid s = touchWatchedKeysOnFlush dbid s"

definition empty_one :: "nat \<Rightarrow> server \<times> int \<Rightarrow> server \<times> int" where
  "empty_one j sr =
     (case sr of (s, removed) \<Rightarrow>
        (upd_db j (\<lambda>db. db\<lparr>db_dict := Map.empty, db_expires := Map.empty\<rparr>) s,
         removed + int (card (dom (dict_at s j)))))"

definition emptyDb :: "nat option \<Rightarrow> server \<Rightarrow> server \<times> int" where
  "emptyDb dbnum s =
     (case dbnum of
        Some j \<Rightarrow>
          if j \<ge> length (dbs s) then (s, - 1)
          else empty_one j (signalFlushedDb dbnum s, 0)
      | None \<Rightarrow>
          let (s, removed) = fold empty_one [0..<length (dbs s)] (signalFlushedDb None s, 0)
          in (flushSlaveKeysWithExpireList s, removed))"

definition getFlushCommandFlags :: "nat \<Rightarrow> server \<Rightarrow> server \<times> bool option" where
  "getFlushCommandFlags c s =
     (let argv = c_argv (clients s c) in
      if length argv > 1 then
        if length argv > 2 \<or> \<not> strcaseeq (takeWhile (\<lambda>x. x \<noteq> 0) (argv ! 1)) ''async''
        then (addReply c RSyntax s, None)
        else (s, Some True)
      else (s, Some False))"

definition flushAllDataAndResetRDB :: "server \<Rightarrow> server" where
  "flushAllDataAndResetRDB s =
     (let (s, removed) = emptyDb None s;
          s = s\<lparr>dirty := dirty s + removed\<rparr>;
          s = (if saveparamslen s > 0 then s\<lparr>dirty := wrap32 (dirty s)\<rparr> else s)
      in incr_dirty s)"

definition flushdbCommand :: "nat \<Rightarrow> server \<Rightarrow> server" where
  "flushdbCommand c s =
     (case getFlushCommandFlags c s of
        (s, None) \<Rightarrow> s
      | (s, Some _) \<Rightarrow>
          let (s, removed) = emptyDb (Some (cur_db s c)) s
          in addReply c ROk (s\<lparr>dirty := dirty s + removed\<rparr>))"

definition flushallCommand :: "nat \<Rightarrow> server \<Rightarrow> server" where
  "flushallCommand c s =
     (case getFlushCommandFlags c s of
        (s, None) \<Rightarrow> s
      | (s, Some _) \<Rightarrow> addReply c ROk (flushAllDataAndResetRDB s))"

section \<open>Time to live\<close>

definition rewriteClientCommandVector :: "nat \<Rightarrow> command \<Rightarrow> bytes list \<Rightarrow> server \<Rightarrow> server" where
  "rewriteClientCommandVector c cmd argv s = upd_client c (\<lambda>cl. cl\<lparr>c_argv := argv, c_cmd := cmd\<rparr>) s"

definition expireGenericCommand :: "nat \<Rightarrow> int \<Rightarrow> bool \<Rightarrow> server \<Rightarrow> server" where
  "expireGenericCommand c basetime seconds s =
     (let i = cur_db s c; key = arg s c 1 in
      case getLongLongFromObjectOrReply c (Some (createStringObject (arg s c 2))) not_integer s of
        (s, None) \<Rightarrow> s
      | (s, Some when) \<Rightarrow>
          let when = (if seconds then wrap64 (when * 1000) else when);
              when = wrap64 (when + basetime)
          in case lookupKeyWrite i key s of
               (s, None) \<Rightarrow> addReply c (RInt 0) s
             | (s, Some _) \<Rightarrow>
                 if when \<le> mstime s \<and> \<not> loading s \<and> \<not> is_replica s then
                   let lazy = lazyfree_lazy_expire s;
                       (s, deleted) = (if lazy then dbAsyncDelete i key s else dbSyncDelete i key s);
                       s = serverAssert deleted s;
                       s = incr_dirty s;
                       s = rewriteClientCommandVector c (if lazy then UNLINK else DEL)
                             [if lazy then str ''UNLINK'' else str ''DEL'', key] s;
                       s = signalModifiedKey i key s;
                       s = notifyKeyspaceEvent ''del'' key i s
                   in addReply c (RInt 1) s
                 else
                   let s = setExpire c i key when s;
                       s = addReply c (RInt 1) s;
                       s = signalModifiedKey i key s;
                       s = notifyKeyspaceEvent ''expire'' key i s
                   in incr_dirty s)"

definition expireCommand :: "nat \<Rightarrow> server \<Rightarrow> server" where
  "expireCommand c s = expireGenericCommand c (mstime s) True s"

definition expireatCommand :: "nat \<Rightarrow> server \<Rightarrow> server" where
  "expireatCommand c s = expireGenericCommand c 0 True s"

definition pexpireCommand :: "nat \<Rightarrow> server \<Rightarrow> server" where
  "pexpireCommand c s = expireGenericCommand c (mstime s) False s"

definition pexpireatCommand :: "nat \<Rightarrow> server \<Rightarrow> server" where
  "pexpireatCommand c s = expireGenericCommand c 0 False s"

text \<open>Division of C, towards zero; the divisor is positive here.\<close>

definition cdiv :: "int \<Rightarrow> int \<Rightarrow> int" where
  "cdiv a b = (if a < 0 then - ((- a) div b) else a div b)"

definition ttlGenericCommand :: "nat \<Rightarrow> bool \<Rightarrow> server \<Rightarrow> server" where
  "ttlGenericCommand c output_ms s =
     (let i = cur_db s c; key = arg s c 1 in
      case lookupKeyRead i key s of
        (s, None) \<Rightarrow> addReply c (RInt (- 2)) s
      | (s, Some _) \<Rightarrow>
          let (s, expire) = getExpire i key s;
              ttl = (if expire \<noteq> - 1 then (let t = wrap64 (expire - mstime s) in if t < 0 then 0 else t) else - 1)
          in if ttl = - 1 then addReply c (RInt (- 1)) s
             else addReply c (RInt (if output_ms then ttl else cdiv (wrap64 (ttl + 500)) 1000)) s)"

definition ttlCommand :: "nat \<Rightarrow> server \<Rightarrow> server" where
  "ttlCommand c s = ttlGenericCommand c False s"

definition pttlCommand :: "nat \<Rightarrow> server \<Rightarrow> server" where
  "pttlCommand c s = ttlGenericCommand c True s"

definition persistCommand :: "nat \<Rightarrow> server \<Rightarrow> server" where
  "persistCommand c s =
     (let i = cur_db s c; key = arg s c 1 in
      case lookupKeyWrite i key s of
        (s, None) \<Rightarrow> addReply c (RInt 0) s
      | (s, Some _) \<Rightarrow>
          (case removeExpire i key s of
             (s, True) \<Rightarrow> incr_dirty (addReply c (RInt 1) (notifyKeyspaceEvent ''persist'' key i s))
           | (s, False) \<Rightarrow> addReply c (RInt 0) s))"

text \<open>The step of the active expire cycle on an entry of the table of times to live.\<close>

definition activeExpireCycleTryExpire :: "nat \<Rightarrow> bytes \<Rightarrow> int \<Rightarrow> int \<Rightarrow> server \<Rightarrow> server \<times> bool" where
  "activeExpireCycleTryExpire i key t now s =
     (if now > t then
        let s = propagateExpire i key (lazyfree_lazy_expire s) s;
            s = (if lazyfree_lazy_expire s then fst (dbAsyncDelete i key s) else fst (dbSyncDelete i key s));
            s = notifyKeyspaceEvent ''expired'' key i s
        in (s\<lparr>stat_expired := stat_expired s + 1\<rparr>, True)
      else (s, False))"

text \<open>Keys that a writable replica gave a time to live: the databases of a key, by the bits of its
  bitmap; the result is the new bitmap and the number of keys that have not expired.\<close>

definition expireSlaveKey_db :: "bytes \<Rightarrow> int \<Rightarrow> nat \<Rightarrow> u64 \<Rightarrow> u64 \<Rightarrow> nat \<Rightarrow> server \<Rightarrow> server \<times> u64 \<times> nat" where
  "expireSlaveKey_db key start dbid dbids new_dbids noexpire s =
     (if dbids AND 1 \<noteq> 0 then
        (case expires_at s dbid key of
           None \<Rightarrow> (s, new_dbids, noexpire)
         | Some t \<Rightarrow>
             (case activeExpireCycleTryExpire dbid key t start s of
                (s, True) \<Rightarrow> (s, new_dbids, noexpire)
              | (s, False) \<Rightarrow> (s, new_dbids OR push_bit dbid 1, noexpire + 1)))
      else (s, new_dbids, noexpire))"

fun expireSlaveKey_dbs ::
  "bytes \<Rightarrow> int \<Rightarrow> nat list \<Rightarrow> u64 \<Rightarrow> u64 \<Rightarrow> nat \<Rightarrow> server \<Rightarrow> server \<times> u64 \<times> nat" where
  "expireSlaveKey_dbs key start [] dbids new_dbids noexpire s = (s, new_dbids, noexpire)"
| "expireSlaveKey_dbs key start (dbid # rest) dbids new_dbids noexpire s =
     (if dbids = 0 then (s, new_dbids, noexpire)
      else
        let (s, new_dbids, noexpire) = expireSlaveKey_db key start dbid dbids new_dbids noexpire s
        in expireSlaveKey_dbs key start rest (drop_bit 1 dbids) new_dbids noexpire s)"

text \<open>\<open>pick\<close> stands for \<^verbatim>\<open>dictGetRandomKey\<close> and \<open>late\<close> for the time limit, checked every 64 cycles.
  \<open>None\<close>: still running after \<open>fuel\<close> cycles.\<close>

fun expireSlaveKeys_loop ::
  "((bytes \<rightharpoonup> u64) \<Rightarrow> bytes) \<Rightarrow> (nat \<Rightarrow> bool) \<Rightarrow> nat \<Rightarrow> int \<Rightarrow> nat \<Rightarrow> nat \<Rightarrow> server \<Rightarrow> server option" where
  "expireSlaveKeys_loop pick late 0 start cycles noexpire s = None"
| "expireSlaveKeys_loop pick late (Suc fuel) start cycles noexpire s =
     (let keyname = pick (slave_keys s);
          dbids = the (slave_keys s keyname);
          (s, new_dbids, noexpire) = expireSlaveKey_dbs keyname start [0..<length (dbs s)] dbids 0 noexpire s;
          s = s\<lparr>slave_keys := (slave_keys s)(keyname := (if new_dbids \<noteq> 0 then Some new_dbids else None))\<rparr>;
          cycles = cycles + 1
      in if noexpire > 3 then Some s
         else if cycles mod 64 = 0 \<and> late cycles then Some s
         else if dom (slave_keys s) = {} then Some s
         else expireSlaveKeys_loop pick late fuel start cycles noexpire s)"

definition expireSlaveKeys ::
  "((bytes \<rightharpoonup> u64) \<Rightarrow> bytes) \<Rightarrow> (nat \<Rightarrow> bool) \<Rightarrow> nat \<Rightarrow> server \<Rightarrow> server option" where
  "expireSlaveKeys pick late fuel s =
     (if dom (slave_keys s) = {} then Some s
      else expireSlaveKeys_loop pick late fuel (mstime s) 0 0 s)"

section \<open>Every command signals what it changes\<close>

lemma kstep_dbAsyncDelete [kstep_intros]:
  "kstep X s0 s \<Longrightarrow> i < length (dbs s0) \<Longrightarrow> (i, k) \<in> X \<Longrightarrow> kstep X s0 (fst (dbAsyncDelete i k s))"
  by (simp add: dbAsyncDelete_eq kstep_dbSyncDelete)

text \<open>A deletion that does not find the key changes no value, whether or not it is signalled.\<close>

lemma kstep_delete_absent:
  assumes "kstep X s0 s" "i < length (dbs s0)" "\<not> snd (dbSyncDelete i k s)"
  shows "kstep X s0 (fst (dbSyncDelete i k s))"
proof (rule kstep_premise)
  assume "server_ok s0"
  then have i: "i < length (dbs s)" using kstep_length [OF assms(1)] assms(2) by simp
  then have n: "dict_at s i k = None" using assms(3) by (simp add: dbSyncDelete_def Let_def nth_upd_db)
  show ?thesis
    unfolding dbSyncDelete_def Let_def fst_conv
    by (rule kstep_upd_db, rule kstep_upd_db) (use assms(1,2) n i in \<open>auto simp: db_ok_def nth_upd_db\<close>)
qed

lemma kstep_del_loop:
  "kstep {} s0 s \<Longrightarrow> i < length (dbs s0) \<Longrightarrow> kstep {} s0 (fst (del_loop c i lazy keys n s))"
proof (induction keys arbitrary: n s)
  case (Cons key keys)
  define s1 where "s1 = fst (expireIfNeeded i key s)"
  define s2 where "s2 = fst (dbSyncDelete i key s1)"
  have k1: "kstep {} s0 s1" unfolding s1_def using Cons.prems by (intro kstep_intros)
  have k2: "kstep {} s0 (incr_dirty (notifyKeyspaceEvent ''del'' key i (signalModifiedKey i key s2)))"
    unfolding s2_def using k1 Cons.prems(2) kstep_mono [OF k1, of "{(i, key)}"] by (intro kstep_intros) auto
  have k3: "\<not> snd (dbSyncDelete i key s1) \<Longrightarrow> kstep {} s0 s2"
    unfolding s2_def using k1 Cons.prems(2) by (rule kstep_delete_absent)
  show ?case
    using Cons.IH [OF k2 Cons.prems(2)] Cons.IH [OF k3 Cons.prems(2)]
    by (cases lazy) (simp_all add: dbAsyncDelete_eq case_prod_unfold Let_def s1_def [symmetric] s2_def [symmetric])
qed simp

lemma kstep_delGeneric: "kstep {} s (delGenericCommand c lazy s)"
  by (rule cmd_kstep [of s c])
     (simp add: delGenericCommand_def case_prod_unfold Let_def kstep_addReply kstep_del_loop kstep_refl)

lemma kstep_count_loop:
  "kstep X s0 s \<Longrightarrow> i < length (dbs s0) \<Longrightarrow> kstep X s0 (fst (count_loop i keys n s))"
  by (induction keys arbitrary: n s) (simp_all add: case_prod_unfold Let_def kstep_lookupKeyRead)

lemma kstep_existsCommand: "kstep {} s (existsCommand c s)"
  by (rule cmd_kstep [of s c])
     (simp add: existsCommand_def case_prod_unfold Let_def kstep_addReply kstep_count_loop kstep_refl)

lemma kstep_touchCommand: "kstep {} s (touchCommand c s)"
  by (rule cmd_kstep [of s c])
     (simp add: touchCommand_def case_prod_unfold Let_def kstep_addReply kstep_count_loop kstep_refl)

lemma kstep_dbsizeCommand: "kstep {} s (dbsizeCommand c s)"
  by (simp add: dbsizeCommand_def kstep_addReply kstep_refl)

lemma kstep_typeCommand: "kstep {} s (typeCommand c s)"
  by (rule cmd_kstep [of s c]) (simp add: typeCommand_def case_prod_unfold Let_def kstep_intros)

lemma kstep_getExpire [kstep_intros]:
  "kstep X s0 s \<Longrightarrow> i < length (dbs s0) \<Longrightarrow> kstep X s0 (fst (getExpire i k s))"
  by (rule kstep_premise) (simp add: getExpire_ok)

lemma kstep_ttlGeneric: "kstep {} s (ttlGenericCommand c ms s)"
  by (rule cmd_kstep [of s c])
     (simp add: ttlGenericCommand_def case_prod_unfold Let_def kstep_intros split: option.splits)

lemma kstep_persistCommand: "kstep {} s (persistCommand c s)"
  by (rule cmd_kstep [of s c],
      simp add: persistCommand_def case_prod_unfold Let_def split: option.splits bool.splits,
      intro conjI impI allI kstep_intros; auto simp: snd_lookupKeyWrite)

lemma kstep_rewrite [kstep_intros]:
  "kstep X s0 s \<Longrightarrow> kstep X s0 (rewriteClientCommandVector c m v s)"
  unfolding rewriteClientCommandVector_def
  by (erule kstep_quiet) (simp add: quiet_upd_client client_frame_def)

lemma snd_delete: "i < length (dbs s) \<Longrightarrow> snd (dbSyncDelete i k s) \<longleftrightarrow> dict_at s i k \<noteq> None"
  by (simp add: dbSyncDelete_def Let_def nth_upd_db)

lemma kstep_expireGeneric: "kstep {} s (expireGenericCommand c t u s)"
  by (rule cmd_kstep [of s c],
      simp add: expireGenericCommand_def reply_defs case_prod_unfold Let_def dbAsyncDelete_eq split: option.splits,
      intro conjI impI allI kstep_intros; auto simp: snd_lookupKeyWrite snd_delete)

lemma dict_dbAdd: "i < length (dbs s) \<Longrightarrow> dict_at (dbAdd i k v s) i k \<noteq> None"
  by (simp add: dbAdd_def Let_def nth_upd_db)

lemma dict_delete: "i < length (dbs s) \<Longrightarrow> dict_at (fst (dbSyncDelete i k s)) i k = None"
  by (simp add: dbs_delete)

lemma length_setExpire [simp]: "length (dbs (setExpire c i k w s)) = length (dbs s)"
  by (simp add: setExpire_def Let_def)

text \<open>The common end of RENAME and MOVE.\<close>

definition transfer :: "nat \<Rightarrow> nat \<Rightarrow> bytes \<Rightarrow> nat \<Rightarrow> bytes \<Rightarrow> robj \<Rightarrow> int \<Rightarrow> server \<Rightarrow> server" where
  "transfer c i k j k' o1 e s = signalModifiedKey j k' (signalModifiedKey i k (fst (dbSyncDelete i k
     (if e \<noteq> - 1 then setExpire c j k' e (dbAdd j k' o1 s) else dbAdd j k' o1 s))))"

lemma kstep_transfer:
  assumes "kstep {(j, k')} s0 s" "i < length (dbs s0)" "j < length (dbs s0)" "dict_at s j k' = None" "j < length (dbs s)"
  shows "kstep {} s0 (transfer c i k j k' o1 e s)"
proof -
  have a: "kstep {(i, k), (j, k')} s0 (dbAdd j k' o1 s)"
    using kstep_mono [OF assms(1), of "{(i, k), (j, k')}"] assms by (intro kstep_intros) auto
  have "kstep {(i, k), (j, k')} s0 (if e \<noteq> - 1 then setExpire c j k' e (dbAdd j k' o1 s) else dbAdd j k' o1 s)"
    using a kstep_setExpire [OF a assms(3) dict_dbAdd [OF assms(5)]] by simp
  then have "kstep (insert (i, k) {(j, k')}) s0 (fst (dbSyncDelete i k
      (if e \<noteq> - 1 then setExpire c j k' e (dbAdd j k' o1 s) else dbAdd j k' o1 s)))"
    using assms(2) by (intro kstep_dbSyncDelete) auto
  then show ?thesis unfolding transfer_def by (intro kstep_signal)
qed

definition rename_prep :: "nat \<Rightarrow> bytes \<Rightarrow> server \<Rightarrow> server" where
  "rename_prep i dst s =
     (let s = fst (lookupKeyWrite i dst s) in if dict_at s i dst \<noteq> None then fst (dbSyncDelete i dst s) else s)"

lemma rename_run:
  assumes "server_ok s" "i = cur_db s c" "src = arg s c 1" "dst = arg s c 2" "s1 = fst (lookupKeyWrite i src s)"
  shows "renameGenericCommand c nx s =
    (case dict_at s1 i src of
       None \<Rightarrow> addReply c (RErr ''no such key'') s1
     | Some o1 \<Rightarrow>
         if src = dst then addReply c (if nx then RInt 0 else ROk) s1
         else if snd (lookupKeyWrite i dst s1) \<noteq> None \<and> nx then addReply c (RInt 0) (fst (lookupKeyWrite i dst s1))
         else addReply c (if nx then RInt 1 else ROk) (incr_dirty (notifyKeyspaceEvent ''rename_to'' dst i
           (notifyKeyspaceEvent ''rename_from'' src i (transfer c i src i dst o1
              (case expires_at s1 i src of None \<Rightarrow> - 1 | Some w \<Rightarrow> w) (rename_prep i dst s1))))))"
proof -
  have i: "i < length (dbs s)" using ok_cur_db assms(1,2) by simp
  have k1: "kstep {} s s1" unfolding assms(5) using i by (intro kstep_intros)
  note e = getExpire_ok [OF k1 assms(1) i, of src]
  have w: "lookupKeyWrite i src s = (s1, dict_at s1 i src)"
    "lookupKeyWrite i dst s1 = (fst (lookupKeyWrite i dst s1), dict_at (fst (lookupKeyWrite i dst s1)) i dst)"
    by (simp_all add: assms(5) prod_eq_iff snd_lookupKeyWrite)
  obtain s2 where s2: "lookupKeyWrite i dst s1 = (s2, dict_at s2 i dst)" using w(2) by blast
  show ?thesis
    unfolding renameGenericCommand_def Let_def assms(2-4) [symmetric] lookupKeyWriteOrReply_def w(1) case_prod_conv
      dbDelete_eq transfer_def rename_prep_def
    by (simp add: e s2 split: option.splits)
qed

lemma kstep_rename_prep:
  assumes "kstep {} s0 s" "i < length (dbs s0)" "i < length (dbs s)"
  shows "kstep {(i, dst)} s0 (rename_prep i dst s)" "dict_at (rename_prep i dst s) i dst = None"
    "length (dbs (rename_prep i dst s)) = length (dbs s)"
proof -
  have "kstep {(i, dst)} s0 (fst (lookupKeyWrite i dst s))"
    using kstep_mono [OF assms(1), of "{(i, dst)}"] assms(2) by (intro kstep_intros) auto
  then show "kstep {(i, dst)} s0 (rename_prep i dst s)"
    using assms(2) by (auto simp: rename_prep_def Let_def intro!: kstep_intros)
qed (use assms(3) in \<open>simp_all add: rename_prep_def Let_def dict_delete\<close>)

lemma kstep_renameGeneric: "kstep {} s (renameGenericCommand c nx s)"
proof (rule kstep_premise)
  assume ok: "server_ok s"
  define i src dst s1 where "i = cur_db s c" and "src = arg s c 1" and "dst = arg s c 2"
    and "s1 = fst (lookupKeyWrite i src s)"
  note run = rename_run [OF ok i_def src_def dst_def s1_def]
  have i: "i < length (dbs s)" "i < length (dbs s1)" using ok_cur_db [OF ok] by (simp_all add: i_def s1_def)
  have k1: "kstep {} s s1" unfolding s1_def using i by (intro kstep_intros)
  have k2: "kstep {} s (fst (lookupKeyWrite i dst s1))" using i k1 by (intro kstep_intros)
  note p = kstep_rename_prep [OF k1 i, of dst]
  have "kstep {} s (transfer c i src i dst o1 x (rename_prep i dst s1))" for o1 x
    by (rule kstep_transfer [OF p(1) i(1) i(1) p(2)]) (simp add: p(3) i(2))
  then show ?thesis unfolding run using k1 k2 by (simp add: kstep_quiet_steps split: option.splits)
qed

text \<open>Looking at the target database leaves the client where it was.\<close>

lemma move_target_state:
  assumes "cur_db s c < length (dbs s)"
  shows "move_target c s = (s, case getLongLongFromObject (Some (createStringObject (arg s c 2))) of
      None \<Rightarrow> None
    | Some d \<Rightarrow> if is_int d \<and> 0 \<le> d \<and> d < int (length (dbs s)) then Some (nat d) else None)"
  using assms by (auto simp: move_target_def selectDb_def upd_client_def Let_def split: option.splits)

lemma kstep_moveCommand: "kstep {} s (moveCommand c s)"
proof (rule kstep_premise)
  assume ok: "server_ok s"
  define src key where "src = cur_db s c" and "key = arg s c 1"
  have src: "src < length (dbs s)" using ok_cur_db [OF ok] by (simp add: src_def)
  obtain d where d: "move_target c s = (s, d)" "\<And>dst. d = Some dst \<Longrightarrow> dst < length (dbs s)"
    using move_target_state [of s c] src by (auto simp: src_def split: option.splits if_splits)
  show ?thesis
  proof (cases "d = None \<or> d = Some src")
    case True
    then show ?thesis
      by (auto simp: moveCommand_def Let_def d src_def kstep_intros)
  next
    case False
    then obtain dst where dst: "d = Some dst" "dst \<noteq> src" "dst < length (dbs s)" using d(2) by auto
    define s1 where "s1 = fst (lookupKeyWrite src key s)"
    define s2 where "s2 = fst (lookupKeyWrite dst key s1)"
    have k1: "kstep {} s s1" unfolding s1_def using src by (intro kstep_intros)
    have k2: "kstep {} s s2" unfolding s2_def using dst k1 by (intro kstep_intros)
    have w: "lookupKeyWrite src key s = (s1, dict_at s1 src key)" "lookupKeyWrite dst key s1 = (s2, dict_at s2 dst key)"
      by (simp_all add: s1_def s2_def prod_eq_iff snd_lookupKeyWrite)
    obtain x where e: "getExpire src key s1 = (s1, x)" using getExpire_ok [OF k1 ok src] by blast
    have "dst < length (dbs s2)" using dst(3) by (simp add: s2_def s1_def)
    then have t: "dict_at s2 dst key = None \<Longrightarrow> kstep {} s (transfer c src key dst key o1 x s2)" for o1
      using kstep_transfer [OF kstep_mono [OF k2] src dst(3)] by blast
    have "moveCommand c s =
      (case dict_at s1 src key of
         None \<Rightarrow> addReply c (RInt 0) s1
       | Some o1 \<Rightarrow>
           if dict_at s2 dst key \<noteq> None then addReply c (RInt 0) s2
           else addReply c (RInt 1) (incr_dirty (notifyKeyspaceEvent ''move_to'' key dst
             (notifyKeyspaceEvent ''move_from'' key src (transfer c src key dst key o1 x s2)))))"
      unfolding moveCommand_def Let_def d(1) dst(1) src_def [symmetric] key_def [symmetric] case_prod_conv
        option.case dbDelete_eq transfer_def
      using dst(2) by (simp add: e w split: option.splits)
    then show ?thesis using k1 k2 t by (simp add: kstep_quiet_steps split: option.splits)
  qed
qed

section \<open>Flushing signals the keys that it removes\<close>

lemma kstep_resolve:
  assumes "kstep X s0 s"
    "\<And>i k. server_ok s0 \<Longrightarrow> i < length (dbs s0) \<Longrightarrow> (i, k) \<in> X \<Longrightarrow> dict_at s0 i k \<noteq> None \<Longrightarrow>
       \<forall>c. watching s0 c i k \<longrightarrow> c_dirty_cas (clients s c)"
    "\<And>i k. server_ok s0 \<Longrightarrow> i < length (dbs s0) \<Longrightarrow> (i, k) \<in> X \<Longrightarrow> dict_at s i k = None"
  shows "kstep {} s0 s"
  unfolding kstep_def
proof (intro impI)
  assume ok: "server_ok s0"
  note r = assms(1) [unfolded kstep_def, rule_format, OF ok]
  have "dict_at s i k = dict_at s0 i k \<or> (\<forall>c. watching s0 c i k \<longrightarrow> c_dirty_cas (clients s c))"
    if "i < length (dbs s0)" for i k
  proof (cases "(i, k) \<in> X")
    case True
    then show ?thesis using assms(2,3) [OF ok that] by (cases "dict_at s0 i k") auto
  next
    case False
    then show ?thesis using r that by blast
  qed
  then show "server_ok s \<and> length (dbs s) = length (dbs s0) \<and> config_frame s0 s \<and>
     (\<forall>i < length (dbs s0). db_watched (dbs s ! i) = db_watched (dbs s0 ! i)) \<and>
     (\<forall>c. client_frame (clients s0 c) (clients s c)) \<and>
     (\<forall>i < length (dbs s0). \<forall>k. (i, k) \<notin> {} \<longrightarrow> dict_at s i k = dict_at s0 i k \<or>
        (\<forall>c. watching s0 c i k \<longrightarrow> c_dirty_cas (clients s c)))"
    using r by simp
qed

definition flush_mark :: "nat option \<Rightarrow> nat \<Rightarrow> nat \<times> bytes \<Rightarrow> server \<Rightarrow> server" where
  "flush_mark dbid c = (\<lambda>(i, k) s.
     if (dbid = None \<or> dbid = Some i) \<and> dict_at s i k \<noteq> None then set_dirty_cas c s else s)"

lemma touch_client_alt: "touch_client_on_flush dbid c s = fold (flush_mark dbid c) (c_watched (clients s c)) s"
  by (simp add: touch_client_on_flush_def flush_mark_def)

lemma quiet_flush_mark: "quiet s (flush_mark dbid c w s)"
  by (simp add: flush_mark_def quiet_refl quiet_steps split: prod.splits)

lemma quiet_fold: "(\<And>x t. quiet t (f x t)) \<Longrightarrow> quiet s (fold f xs s)"
  by (induction xs arbitrary: s) (auto simp: quiet_refl intro: quiet_trans)

lemma dirty_quiet: "quiet s s' \<Longrightarrow> c_dirty_cas (clients s c) \<Longrightarrow> c_dirty_cas (clients s' c)"
  by (simp add: quiet_def client_frame_def)

lemma fold_flush_mark:
  "(i, k) \<in> set ws \<Longrightarrow> dbid = None \<or> dbid = Some i \<Longrightarrow> dict_at s i k \<noteq> None \<Longrightarrow>
   c_dirty_cas (clients (fold (flush_mark dbid c) ws s) c)"
proof (induction ws arbitrary: s)
  case (Cons w ws)
  have q: "dbs (flush_mark dbid c w s) = dbs s" using quiet_flush_mark dict_at_quiet by blast
  show ?case
  proof (cases "w = (i, k)")
    case True
    then have "c_dirty_cas (clients (flush_mark dbid c w s) c)"
      using Cons.prems by (auto simp: flush_mark_def set_dirty_cas_def upd_client_def)
    then show ?thesis using dirty_quiet [OF quiet_fold [OF quiet_flush_mark]] by simp
  next
    case False
    then show ?thesis using Cons by (simp add: q)
  qed
qed simp

lemma quiet_touch_client: "quiet s (touch_client_on_flush dbid c s)"
  by (simp add: touch_client_alt quiet_fold quiet_flush_mark)

lemma quiet_signalFlushed: "quiet s (signalFlushedDb dbid s)"
  by (simp add: signalFlushedDb_def touchWatchedKeysOnFlush_def quiet_fold quiet_touch_client)

lemma fold_touch_clients:
  "c \<in> set cs \<Longrightarrow> watching s c i k \<Longrightarrow> dbid = None \<or> dbid = Some i \<Longrightarrow> dict_at s i k \<noteq> None \<Longrightarrow>
   c_dirty_cas (clients (fold (touch_client_on_flush dbid) cs s) c)"
proof (induction cs arbitrary: s)
  case (Cons x xs)
  have q: "quiet s (touch_client_on_flush dbid x s)" by (rule quiet_touch_client)
  show ?case
  proof (cases "x = c")
    case True
    then have "c_dirty_cas (clients (touch_client_on_flush dbid x s) c)"
      using Cons.prems fold_flush_mark by (simp add: touch_client_alt)
    then show ?thesis using dirty_quiet [OF quiet_fold [OF quiet_touch_client]] by simp
  next
    case False
    then show ?thesis using Cons q by (simp add: quiet_def client_frame_def)
  qed
qed simp

lemma signalFlushed_dirty:
  assumes "server_ok s" "watching s c i k" "dbid = None \<or> dbid = Some i" "dict_at s i k \<noteq> None"
  shows "c_dirty_cas (clients (signalFlushedDb dbid s) c)"
proof -
  have "c_watched (clients s c) \<noteq> []" using assms(2) by auto
  then have "c \<in> set (client_list s)" using assms(1) by (simp add: server_ok_def)
  then show ?thesis using fold_touch_clients assms by (simp add: signalFlushedDb_def touchWatchedKeysOnFlush_def)
qed

lemma kstep_empty_one:
  "kstep X s0 (fst sr) \<Longrightarrow> j < length (dbs s0) \<Longrightarrow> (\<And>k. (j, k) \<in> X) \<Longrightarrow> kstep X s0 (fst (empty_one j sr))"
  unfolding empty_one_def case_prod_unfold fst_conv by (rule kstep_upd_db) (auto simp: db_ok_def)

lemma empty_one_facts [simp]:
  "clients (fst (empty_one j sr)) = clients (fst sr)" "length (dbs (fst (empty_one j sr))) = length (dbs (fst sr))"
  "i < length (dbs (fst sr)) \<Longrightarrow> dict_at (fst (empty_one j sr)) i k = (if i = j then None else dict_at (fst sr) i k)"
  by (simp_all add: empty_one_def case_prod_unfold nth_upd_db)

lemma kstep_fold_empty:
  "kstep UNIV s0 (fst sr) \<Longrightarrow> \<forall>j \<in> set js. j < length (dbs s0) \<Longrightarrow> kstep UNIV s0 (fst (fold empty_one js sr))"
  by (induction js arbitrary: sr) (simp_all add: kstep_empty_one)

lemma fold_empty_facts:
  "clients (fst (fold empty_one js sr)) = clients (fst sr)"
  "i < length (dbs (fst sr)) \<Longrightarrow> dict_at (fst (fold empty_one js sr)) i k =
     (if i \<in> set js then None else dict_at (fst sr) i k)"
  by (induction js arbitrary: sr) auto

lemma kstep_emptyDb:
  assumes "case d of None \<Rightarrow> True | Some j \<Rightarrow> j < length (dbs s)"
  shows "kstep {} s (fst (emptyDb d s))"
proof -
  let ?t = "signalFlushedDb d s"
  have t: "kstep X s ?t" "dbs ?t = dbs s" for X
    using quiet_signalFlushed kstep_quiet [OF kstep_refl] dict_at_quiet by blast+
  show ?thesis
  proof (cases d)
    case (Some j)
    have "kstep {} s (fst (empty_one j (?t, 0)))"
      by (rule kstep_resolve [of "{j} \<times> UNIV"])
         (use t Some assms signalFlushed_dirty [of s] in \<open>auto intro!: kstep_empty_one\<close>)
    then show ?thesis using Some assms by (simp add: emptyDb_def)
  next
    case None
    let ?r = "fold empty_one [0..<length (dbs s)] (?t, 0)"
    have "kstep UNIV s (fst ?r)" by (rule kstep_fold_empty) (simp_all add: t)
    then have "kstep {} s (fst ?r)"
      by (rule kstep_resolve) (use t None signalFlushed_dirty [of s] in \<open>auto simp: fold_empty_facts\<close>)
    then have "kstep {} s (flushSlaveKeysWithExpireList (fst ?r))"
      unfolding flushSlaveKeysWithExpireList_def by (rule kstep_quiet_steps)
    then show ?thesis using None by (simp add: emptyDb_def case_prod_unfold Let_def)
  qed
qed

lemma kstep_flushdbCommand: "kstep {} s (flushdbCommand c s)"
  by (rule cmd_kstep [of s c])
     (auto simp: flushdbCommand_def getFlushCommandFlags_def Let_def case_prod_unfold kstep_emptyDb intro!: kstep_intros)

lemma kstep_flushallCommand: "kstep {} s (flushallCommand c s)"
  by (auto simp: flushallCommand_def getFlushCommandFlags_def flushAllDataAndResetRDB_def Let_def case_prod_unfold
      kstep_emptyDb intro!: kstep_intros)

section \<open>What the commands compute\<close>

lemma lookupKeyRead_master:
  assumes "server_ok s" "i < length (dbs s)" "\<not> is_replica s"
  shows "snd (lookupKeyRead i k s) = (if expired s i k then None else dict_at s i k)"
    "\<not> expired s i k \<Longrightarrow> dbs (fst (lookupKeyRead i k s)) = dbs s"
    "\<not> expired s i k \<Longrightarrow> clock (fst (lookupKeyRead i k s)) = clock s"
    "expired s i k \<Longrightarrow> dict_at (fst (lookupKeyRead i k s)) i k = None"
  using expireIfNeeded_ok [OF kstep_refl assms(1,2), of k] assms(2,3)
  by (auto simp: lookupKeyRead_def lookupKey_def Let_def dbs_expire_key notifyKeyspaceEvent_def split: option.splits)

lemma expireGeneric_set:
  assumes "server_ok s" "i = cur_db s c" "k = arg s c 1" "arg s c 2 = sdec n" "is_ll n" "live_val s i k = Some v"
    "w = wrap64 (wrap64 (if sec then n * 1000 else n) + base)" "\<not> (w \<le> mstime s \<and> \<not> loading s \<and> \<not> is_replica s)"
  shows "expireGenericCommand c base sec s = incr_dirty (notifyKeyspaceEvent ''expire'' k i (signalModifiedKey i k
    (addReply c (RInt 1) (setExpire c i k w (fst (lookupKeyWrite i k s))))))"
proof -
  have i: "i < length (dbs s)" using ok_cur_db assms(1,2) by simp
  define s1 where "s1 = fst (lookupKeyWrite i k s)"
  have l: "lookupKeyWrite i k s = (s1, Some v)"
    unfolding s1_def using lookupKeyWrite_facts(1) [OF assms(1) i, of k] unfolding assms(6) .
  have "kstep {} s s1" unfolding s1_def using i by (intro kstep_intros)
  then have "config_frame s s1" using assms(1) kstep_config by blast
  then have "mstime s1 = mstime s" "loading s1 = loading s" "is_replica s1 = is_replica s"
    by (simp_all add: config_frame_def mstime_def)
  moreover have "w = wrap64 ((if sec then wrap64 (n * 1000) else n) + base)"
    using assms(5,7) by (simp add: wrap64_id)
  moreover have "\<not> (w \<le> mstime s1 \<and> \<not> loading s1 \<and> \<not> is_replica s1)" using calculation assms(8) by simp
  ultimately show ?thesis
    unfolding expireGenericCommand_def Let_def assms(2,3) [symmetric] assms(4) getLongLongFromObjectOrReply_def
      parse_sdec [OF assms(5)] option.case case_prod_conv l s1_def [symmetric]
    by (simp only: if_False fst_conv)
qed

lemma dbs_setExpire: "dbs (setExpire c i k w s) =
    (dbs s)[i := (dbs s ! i)\<lparr>db_expires := (expires_at s i)(k \<mapsto> w)\<rparr>]"
  by (simp add: setExpire_def Let_def upd_db_def)

lemma others_setExpire: "others i k s0 s \<Longrightarrow> others i k s0 (setExpire c i k w s)"
  by (rule others_quiet [OF others_upd_db [of i k s0 s "\<lambda>db. db\<lparr>db_expires := (db_expires db)(k \<mapsto> w)\<rparr>"]])
     (simp_all add: dbs_setExpire upd_db_def)

lemma server_ok_clock: "server_ok (s\<lparr>clock := t\<rparr>) = server_ok s"
  by (simp add: server_ok_def watch_ok_def)

text \<open>Reading a string key on a master.\<close>

lemma getCommand_master:
  assumes "server_ok s" "\<not> is_replica s" "i = cur_db s c" "k = arg s c 1" "dict_at s i k = Some v" "otype_of v = OBJ_STRING"
  shows "last_reply (getCommand c s) c = (if expired s i k then RNull else RBulk (getDecodedObject v))"
proof -
  have i: "i < length (dbs s)" using ok_cur_db assms(1,3) by simp
  show ?thesis
    using lookupKeyRead_master(1) [OF assms(1) i assms(2), of k] assms(3-6)
    by (cases "lookupKeyRead i k s") (auto simp: getCommand_def getGenericCommand_def)
qed

lemma pttlCommand_master:
  assumes "server_ok s" "\<not> is_replica s" "i = cur_db s c" "k = arg s c 1" "dict_at s i k \<noteq> None"
    "expires_at s i k = Some w" "\<not> expired s i k" "w \<noteq> - 1" "is_ll (w - clock s)" "clock s \<le> w"
  shows "last_reply (pttlCommand c s) c = RInt (w - clock s)"
proof -
  have i: "i < length (dbs s)" using ok_cur_db assms(1,3) by simp
  obtain s1 v where l: "lookupKeyRead i k s = (s1, Some v)" "dbs s1 = dbs s" "clock s1 = clock s"
    using lookupKeyRead_master [OF assms(1) i assms(2), of k] assms(5,7)
    by (cases "lookupKeyRead i k s") auto
  have "getExpire i k s1 = (s1, w)"
    using assms(5,6) l by (simp add: getExpire_def)
  then show ?thesis
    unfolding pttlCommand_def ttlGenericCommand_def Let_def assms(3,4) [symmetric] l(1) case_prod_conv option.case
    using assms(8-10) l by (simp add: wrap64_id mstime_def)
qed

text \<open>What EXPIRE stores: the key keeps its value and its deadline is the clock plus the given seconds.\<close>

lemma expireCommand_effect:
  assumes "server_ok s" "i = cur_db s c" "k = arg s c 1" "arg s c 2 = sdec n" "is_ll n" "0 < n" "live_val s i k = Some v"
    "0 \<le> clock s" "n * 1000 + clock s \<le> LLONG_MAX"
  shows "last_reply (expireCommand c s) c = RInt 1" "others i k s (expireCommand c s)"
    "dict_at (expireCommand c s) i k = Some v" "expires_at (expireCommand c s) i k = Some (n * 1000 + clock s)"
proof -
  let ?w = "n * 1000 + clock s"
  have i: "i < length (dbs s)" using assms(1,2) ok_cur_db by simp
  have w: "?w = wrap64 (wrap64 (if True then n * 1000 else n) + mstime s)" "\<not> ?w \<le> mstime s"
    using assms(5,6,8,9) by (simp_all add: wrap64_id is_ll_def ll_defs mstime_def)
  define t where "t = fst (lookupKeyWrite i k s)"
  have run: "expireCommand c s = incr_dirty (notifyKeyspaceEvent ''expire'' k i (signalModifiedKey i k
      (addReply c (RInt 1) (setExpire c i k ?w t))))"
    unfolding expireCommand_def t_def
    by (rule expireGeneric_set [OF assms(1-5,7) w(1)]) (use w(2) in simp)
  have f: "dict_at t i k = Some v" "i < length (dbs t)" "others i k s t"
    using lookupKeyWrite_facts [OF assms(1) i, of k] assms(7) by (auto simp: t_def)
  show "last_reply (expireCommand c s) c = RInt 1" by (simp add: run)
  show "dict_at (expireCommand c s) i k = Some v" "expires_at (expireCommand c s) i k = Some ?w"
    using f by (simp_all add: run dbs_setExpire)
  show "others i k s (expireCommand c s)" unfolding run using f(3) by (intro others_store others_setExpire)
qed

lemma expireGeneric_past:
  assumes "server_ok s" "i = cur_db s c" "k = arg s c 1" "arg s c 2 = sdec n" "is_ll n" "live_val s i k = Some v"
    "wrap64 (wrap64 (if sec then n * 1000 else n) + base) \<le> mstime s" "\<not> loading s" "\<not> is_replica s"
  shows "dict_at (expireGenericCommand c base sec s) i k = None"
    "last_reply (expireGenericCommand c base sec s) c = RInt 1"
proof -
  have i: "i < length (dbs s)" using ok_cur_db assms(1,2) by simp
  define s1 where "s1 = fst (lookupKeyWrite i k s)"
  have l: "lookupKeyWrite i k s = (s1, Some v)" "i < length (dbs s1)"
    unfolding s1_def using lookupKeyWrite_facts(1) [OF assms(1) i, of k] i unfolding assms(6) by simp_all
  have "kstep {} s s1" unfolding s1_def using i by (intro kstep_intros)
  then have "config_frame s s1" using assms(1) kstep_config by blast
  then have cond: "wrap64 ((if sec then wrap64 (n * 1000) else n) + base) \<le> mstime s1 \<and> \<not> loading s1 \<and> \<not> is_replica s1"
    using assms(5,7-9) by (auto simp: config_frame_def mstime_def wrap64_id)
  note run = expireGenericCommand_def Let_def assms(2,3) [symmetric] assms(4) getLongLongFromObjectOrReply_def
    parse_sdec [OF assms(5)] option.case case_prod_conv l(1) if_P [OF cond] dbAsyncDelete_eq if_cancel
  show "dict_at (expireGenericCommand c base sec s) i k = None"
    "last_reply (expireGenericCommand c base sec s) c = RInt 1"
    unfolding run using l(2) by (simp_all add: case_prod_unfold rewriteClientCommandVector_def upd_client_def dict_delete)
qed

text \<open>C38: EXPIRE adds the time to live to the clock in 64 bits: with a positive time to live whose
  sum with the clock exceeds the largest integer, the key is deleted at once, and the reply is 1.\<close>

theorem expire_overflow:
  assumes "server_ok s" "\<not> is_replica s" "\<not> loading s" "0 \<le> clock s" "is_ll (clock s)"
    "i = cur_db s c" "k = arg s c 1" "arg s c 2 = sdec n" "live_val s i k = Some v"
    "0 < n" "is_ll (n * 1000)" "LLONG_MAX < n * 1000 + clock s"
  shows "dict_at (expireCommand c s) i k = None \<and> last_reply (expireCommand c s) c = RInt 1"
proof -
  have "is_ll n" using assms(10,11) by (simp add: is_ll_def ll_defs)
  moreover have "wrap64 (n * 1000 + clock s) = n * 1000 + clock s - 2 ^ 64"
    using assms(5,11,12) by (intro wrap64_above) (simp_all add: is_ll_def ll_defs)
  ultimately show ?thesis
    using expireGeneric_past [OF assms(1,6,7,8) _ assms(9), of True "mstime s"] assms(2,3,11)
    by (simp add: expireCommand_def mstime_def wrap64_id is_ll_def ll_defs)
qed

text \<open>SELECT parses a 64 bit index and passes it on as a 32 bit one: an index that differs from a
  valid one by a multiple of 2^32 selects that database instead of being refused.\<close>

theorem select_truncates:
  assumes "arg s c 1 = sdec (d + 2 ^ 32 * m)" "is_ll (d + 2 ^ 32 * m)" "0 \<le> d" "d < int (length (dbs s))"
    "length (dbs s) \<le> 2 ^ 31"
  shows "last_reply (selectCommand c s) c = ROk \<and> cur_db (selectCommand c s) c = nat d"
proof -
  have "(d + 2 ^ 32 * m + 2 ^ 31) mod 2 ^ 32 = (d + 2 ^ 31) mod 2 ^ 32"
    using mod_mult_self2 [of "d + 2 ^ 31" "2 ^ 32" m] by (simp add: algebra_simps)
  also have "\<dots> = d + 2 ^ 31" using assms(3-5) by (intro mod_pos_pos_trivial) simp_all
  finally have "wrap32 (d + 2 ^ 32 * m) = d" unfolding wrap32_def int_word_sint by simp
  then have "selectCommand c s = addReply c ROk (upd_client c (\<lambda>cl. cl\<lparr>c_db := nat d\<rparr>) s)"
    using assms by (simp add: selectCommand_def getLongLongFromObjectOrReply_def parse_sdec selectDb_def)
  then show ?thesis by (simp add: addReply_def upd_client_def last_reply_def)
qed

text \<open>Keys other than the given ones keep their value and time to live.\<close>

lemma others_apply:
  "others i k s s' \<Longrightarrow> j < length (dbs s) \<Longrightarrow> (j, k') \<noteq> (i, k) \<Longrightarrow>
   dict_at s' j k' = dict_at s j k' \<and> expires_at s' j k' = expires_at s j k'"
  by (simp add: others_def)

lemma others_delete: "others i k s0 s \<Longrightarrow> others i k s0 (fst (dbSyncDelete i k s))"
  unfolding dbSyncDelete_def Let_def fst_conv by (intro others_upd_db) simp_all

lemma delete_facts:
  assumes "i < length (dbs s)"
  shows "dict_at (fst (dbSyncDelete i k s)) i k = None" "expires_at (fst (dbSyncDelete i k s)) i k = None"
    "others i k s (fst (dbSyncDelete i k s))"
  using assms others_delete [OF others_refl] by (simp_all add: dbs_delete)

lemma rename_prep_facts:
  assumes "server_ok s" "i < length (dbs s)"
  shows "dict_at (rename_prep i k s) i k = None" "expires_at (rename_prep i k s) i k = None"
    "others i k s (rename_prep i k s)"
proof -
  let ?t = "fst (lookupKeyWrite i k s)"
  have t: "i < length (dbs ?t)" "others i k s ?t" using lookupKeyWrite_facts [OF assms] by blast+
  have "server_ok ?t" by (rule server_ok_command [OF assms(1)]) (intro kstep_intros assms(2))
  then have "db_ok (dbs ?t ! i)" using t(1) by (simp add: server_ok_def)
  then have n: "dict_at ?t i k = None \<Longrightarrow> expires_at ?t i k = None" by (auto simp: db_ok_def)
  show "dict_at (rename_prep i k s) i k = None" "expires_at (rename_prep i k s) i k = None"
    "others i k s (rename_prep i k s)"
    using t n delete_facts [OF t(1), of k] others_delete [OF t(2)] by (simp_all add: rename_prep_def Let_def)
qed

lemma transfer_facts:
  assumes "i < length (dbs s)" "dict_at s i dst = None" "expires_at s i dst = None" "src \<noteq> dst"
  shows "dict_at (transfer c i src i dst v e s) i dst = Some v" "dict_at (transfer c i src i dst v e s) i src = None"
    "expires_at (transfer c i src i dst v e s) i dst = (if e = - 1 then None else Some e)"
    "j < length (dbs s) \<Longrightarrow> (j, k) \<noteq> (i, src) \<Longrightarrow> (j, k) \<noteq> (i, dst) \<Longrightarrow>
      dict_at (transfer c i src i dst v e s) j k = dict_at s j k \<and>
      expires_at (transfer c i src i dst v e s) j k = expires_at s j k"
proof -
  let ?t = "if e \<noteq> - 1 then setExpire c i dst e (dbAdd i dst v s) else dbAdd i dst v s"
  have t: "i < length (dbs ?t)" "dict_at ?t i dst = Some v" "expires_at ?t i dst = (if e = - 1 then None else Some e)"
    using assms by (simp_all add: dbs_setExpire dbAdd_def Let_def nth_upd_db)
  have o: "others i dst s ?t" using others_store(1) [OF others_refl] others_setExpire by simp
  note d = delete_facts [OF t(1), of src]
  show "dict_at (transfer c i src i dst v e s) i dst = Some v" "dict_at (transfer c i src i dst v e s) i src = None"
    "expires_at (transfer c i src i dst v e s) i dst = (if e = - 1 then None else Some e)"
    using t d others_apply [OF d(3) t(1), of dst] assms(4) by (simp_all add: transfer_def)
  show "dict_at (transfer c i src i dst v e s) j k = dict_at s j k \<and>
      expires_at (transfer c i src i dst v e s) j k = expires_at s j k"
    if "j < length (dbs s)" "(j, k) \<noteq> (i, src)" "(j, k) \<noteq> (i, dst)"
  proof -
    have j: "j < length (dbs ?t)" using that(1) o by (simp add: others_def)
    show ?thesis
      using others_apply [OF d(3) j that(2)] others_apply [OF o that(1,3)] by (simp add: transfer_def)
  qed
qed

text \<open>C29: RENAME moves the value and the time to live of a live key to the new name, whatever was
  stored there, removes the old name and changes no other key.\<close>

theorem rename_correct:
  assumes "server_ok s" "i = cur_db s c" "src = arg s c 1" "dst = arg s c 2" "src \<noteq> dst"
    "live_val s i src = Some v" "expires_at s i src \<noteq> Some (- 1)" "s' = renameCommand c s"
  shows "last_reply s' c = ROk \<and> dict_at s' i dst = Some v \<and> expires_at s' i dst = expires_at s i src \<and>
    dict_at s' i src = None \<and>
    (\<forall>j k. j < length (dbs s) \<longrightarrow> (j, k) \<noteq> (i, src) \<longrightarrow> (j, k) \<noteq> (i, dst) \<longrightarrow>
       dict_at s' j k = dict_at s j k \<and> expires_at s' j k = expires_at s j k)"
proof -
  have i: "i < length (dbs s)" using ok_cur_db assms(1,2) by simp
  define s1 where "s1 = fst (lookupKeyWrite i src s)"
  define e where "e = (case expires_at s i src of None \<Rightarrow> - 1 | Some w \<Rightarrow> w)"
  have "s1 = s" using assms(6) lookupKeyWrite_ok [OF assms(1) i, of src] by (auto simp: s1_def live_val_def)
  then have run: "s' = addReply c ROk (incr_dirty (notifyKeyspaceEvent ''rename_to'' dst i
      (notifyKeyspaceEvent ''rename_from'' src i (transfer c i src i dst v e (rename_prep i dst s)))))"
    using rename_run [OF assms(1-4) s1_def, of False] assms(5,6) lookupKeyWrite_facts(2) [OF assms(1) i, of src]
    by (simp add: assms(8) renameCommand_def e_def s1_def)
  note p = rename_prep_facts [OF assms(1) i, of dst]
  have l: "length (dbs (rename_prep i dst s)) = length (dbs s)" using p(3) by (simp add: others_def)
  note t = transfer_facts [where c = c and v = v and e = e, OF _ p(1,2) assms(5), unfolded l, OF i]
  have "expires_at s' i dst = expires_at s i src"
    using t(3) assms(7) by (auto simp: run e_def split: option.splits)
  moreover have "dict_at s' j k = dict_at s j k \<and> expires_at s' j k = expires_at s j k"
    if "j < length (dbs s)" "(j, k) \<noteq> (i, src)" "(j, k) \<noteq> (i, dst)" for j k
    using t(4) [OF that] others_apply [OF p(3) that(1,3)] by (simp add: run)
  ultimately show ?thesis using t(1,2) by (simp add: run)
qed

section \<open>Expiry of the keys of a writable replica\<close>

lemma slave_keys_steps [simp]:
  "slave_keys (propagate i v s) = slave_keys s" "slave_keys (notifyKeyspaceEvent e k i s) = slave_keys s"
  "slave_keys (fst (dbSyncDelete i k s)) = slave_keys s"
  by (simp_all add: propagate_def notifyKeyspaceEvent_def dbSyncDelete_def upd_db_def Let_def)

lemma slave_keys_tryExpire: "activeExpireCycleTryExpire i k t now s = (s', b) \<Longrightarrow> slave_keys s' = slave_keys s"
  by (auto simp: activeExpireCycleTryExpire_def propagateExpire_def dbAsyncDelete_eq Let_def split: if_splits)

text \<open>A key whose bitmap does not become empty is counted.\<close>

lemma expireSlaveKey_db_counts:
  "expireSlaveKey_db k start d dbids nw n s = (s', nw', n') \<Longrightarrow>
   slave_keys s' = slave_keys s \<and> n \<le> n' \<and> (nw' \<noteq> nw \<longrightarrow> n < n')"
  by (cases "expires_at s d k")
     (auto simp: expireSlaveKey_db_def split: if_splits prod.splits bool.splits dest: slave_keys_tryExpire)

lemma expireSlaveKey_dbs_counts:
  "expireSlaveKey_dbs k start ds dbids nw n s = (s', nw', n') \<Longrightarrow>
   slave_keys s' = slave_keys s \<and> n \<le> n' \<and> (nw' \<noteq> nw \<longrightarrow> n < n')"
proof (induction ds arbitrary: dbids nw n s)
  case (Cons d ds)
  obtain s1 nw1 n1 where one: "expireSlaveKey_db k start d dbids nw n s = (s1, nw1, n1)" by (metis prod_cases3)
  show ?case
  proof (cases "dbids = 0")
    case False
    then have "expireSlaveKey_dbs k start ds (drop_bit 1 dbids) nw1 n1 s1 = (s', nw', n')"
      using Cons.prems one by simp
    from Cons.IH [OF this] expireSlaveKey_db_counts [OF one] show ?thesis by auto
  qed (use Cons.prems in simp)
qed simp

lemma expireSlaveKeys_loop_returns:
  assumes "\<And>m. dom m \<noteq> {} \<Longrightarrow> dom m \<subseteq> K \<Longrightarrow> pick m \<in> dom m" "finite (dom (slave_keys s))"
    "dom (slave_keys s) \<noteq> {}" "dom (slave_keys s) \<subseteq> K" "card (dom (slave_keys s)) + (4 - n) < fuel + 1" "n \<le> 3"
  shows "expireSlaveKeys_loop pick late fuel start cycles n s \<noteq> None"
  using assms(2-)
proof (induction fuel arbitrary: cycles n s)
  case (Suc fuel)
  define k where "k = pick (slave_keys s)"
  obtain s1 nw n1 where one: "expireSlaveKey_dbs k start [0..<length (dbs s)] (the (slave_keys s k)) 0 n s = (s1, nw, n1)"
    by (metis prod_cases3)
  have c: "slave_keys s1 = slave_keys s" "n \<le> n1" "nw \<noteq> 0 \<longrightarrow> n < n1"
    using expireSlaveKey_dbs_counts [OF one] by auto
  define s2 where "s2 = s1\<lparr>slave_keys := (slave_keys s1)(k := (if nw \<noteq> 0 then Some nw else None))\<rparr>"
  have k: "k \<in> dom (slave_keys s)" using assms(1) Suc.prems(2,3) by (simp add: k_def)
  have d: "dom (slave_keys s2) = (if nw \<noteq> 0 then dom (slave_keys s) else dom (slave_keys s) - {k})"
    using k by (auto simp: s2_def c(1))
  have "card (dom (slave_keys s2)) + (4 - n1) < fuel + 1" if "n1 \<le> 3"
    using Suc.prems(1,4,5) c that card_Diff1_less [OF Suc.prems(1) k] by (auto simp: d)
  then have "dom (slave_keys s2) \<noteq> {} \<Longrightarrow> n1 \<le> 3 \<Longrightarrow>
      expireSlaveKeys_loop pick late fuel start (cycles + 1) n1 s2 \<noteq> None"
    using Suc.prems(1,3) by (intro Suc.IH) (auto simp: d)
  then show ?case by (simp add: Let_def k_def [symmetric] one s2_def [symmetric])
qed simp

text \<open>C31: the expiry of keys that a writable replica gave a time to live returns, within as many
  cycles as there are such keys plus four, whatever random keys it is given and however slow
  the clock is.\<close>

theorem expireSlaveKeys_returns:
  assumes "\<And>m. dom m \<noteq> {} \<Longrightarrow> dom m \<subseteq> dom (slave_keys s) \<Longrightarrow> pick m \<in> dom m"
    "finite (dom (slave_keys s))" "card (dom (slave_keys s)) + 4 \<le> fuel"
  shows "\<exists>s'. expireSlaveKeys pick late fuel s = Some s'"
  using expireSlaveKeys_loop_returns [of "dom (slave_keys s)" pick s 0 fuel late "mstime s" 0] assms
  by (auto simp: expireSlaveKeys_def)

section \<open>Witnesses\<close>

definition demo_db :: redisDb where
  "demo_db = empty_db\<lparr>db_dict := [str ''k'' \<mapsto> Embstr (str ''v'')]\<rparr>"

definition demo_server :: server where
  "demo_server = (start_server 2)\<lparr>dbs := [demo_db, empty_db], clock := 1000\<rparr>"

lemma demo_server_ok: "server_ok demo_server"
  by (auto simp: demo_server_def server_ok_def start_server_def watch_ok_def db_ok_def demo_db_def empty_db_def
      new_client_def nth_Cons less_Suc_eq numeral_2_eq_2)

lemma demo_server_simps:
  "cur_db demo_server c = 0" "length (dbs demo_server) = 2" "is_replica demo_server = False"
  "loading demo_server = False" "lua_time demo_server = None" "fixed_time_expire demo_server = 0"
  "clock demo_server = 1000" "live_val demo_server 0 k = (if k = str ''k'' then Some (Embstr (str ''v'')) else None)"
  "expires_at demo_server 0 k = None" "client_list demo_server = []"
  by (simp_all add: demo_server_def start_server_def new_client_def live_val_def expired_def demo_db_def empty_db_def)

theorem expire_overflow_witness:
  "dict_at (expireCommand 1 (set_argv 1 [str ''EXPIRE'', str ''k'', sdec 9223372036854775] demo_server)) 0 (str ''k'') = None"
  using expire_overflow [of "set_argv 1 [str ''EXPIRE'', str ''k'', sdec 9223372036854775] demo_server" 0 1 "str ''k''"
      9223372036854775 "Embstr (str ''v'')"] ok_set_argv [OF demo_server_ok]
  by (simp add: demo_server_simps is_ll_def ll_defs)

theorem select_truncates_witness:
  "cur_db (selectCommand 1 (set_argv 1 [str ''SELECT'', sdec 4294967297] demo_server)) 1 = 1"
  using select_truncates [of "set_argv 1 [str ''SELECT'', sdec 4294967297] demo_server" 1 1 1]
  by (simp add: demo_server_simps is_ll_def ll_defs)

theorem rename_correct_witness:
  "dict_at (renameCommand 1 (set_argv 1 [str ''RENAME'', str ''k'', str ''m''] demo_server)) 0 (str ''m'')
     = Some (Embstr (str ''v''))"
  using rename_correct [of "set_argv 1 [str ''RENAME'', str ''k'', str ''m''] demo_server" 0 1 "str ''k''" "str ''m''"
      "Embstr (str ''v'')"] ok_set_argv [OF demo_server_ok]
  by (simp add: demo_server_simps)

theorem expireSlaveKeys_returns_witness:
  "\<exists>s'. expireSlaveKeys (\<lambda>_. str ''k'') (\<lambda>_. False) 5 (demo_server\<lparr>slave_keys := [str ''k'' \<mapsto> 1]\<rparr>) = Some s'"
  by (rule expireSlaveKeys_returns) auto

end
