(* ===== verification/Multi.thy ===== *)
theory Multi
  imports Keyspace
begin

text \<open>
  Transactions (\<^verbatim>\<open>multi.c\<close>) and the execution of commands (\<^verbatim>\<open>call\<close> and
  \<^verbatim>\<open>processCommand\<close> of \<^verbatim>\<open>server.c\<close>) for the commands of the development, and the
  steps of a server: a client sends a command, connects or leaves, time passes, a key is expired
  by the active cycle. A server with maxmemory 0, without cluster, scripts and monitors is
  modelled; the decisions of the subsystems that may refuse a command are an argument.
\<close>

section \<open>The command table\<close>

text \<open>The commands of the development; every other name, that of \<^verbatim>\<open>DEBUG\<close> and of the other commands
  of the server among them, is answered as an unknown command. Names are compared as \<^verbatim>\<open>strcasecmp\<close> does,
  up to a first NUL; the hash of the real table covers the whole name, so that a name with a NUL
  inside is found there only when it falls into the bucket of the shorter one.\<close>

definition lookupCommand :: "bytes \<Rightarrow> command option" where
  "lookupCommand name = map_of (map (\<lambda>(n, cmd). (map (\<lambda>x. tolower (schar x)) (str n), cmd))
     [(''get'', GET), (''set'', SET), (''setnx'', SETNX), (''setex'', SETEX), (''psetex'', PSETEX),
      (''append'', APPEND), (''strlen'', STRLEN), (''del'', DEL), (''unlink'', UNLINK), (''exists'', EXISTS),
      (''setrange'', SETRANGE), (''getrange'', GETRANGE), (''incr'', INCR), (''decr'', DECR), (''mget'', MGET),
      (''incrby'', INCRBY), (''decrby'', DECRBY), (''getset'', GETSET), (''mset'', MSET), (''msetnx'', MSETNX),
      (''select'', SELECT), (''swapdb'', SWAPDB), (''move'', MOVE), (''rename'', RENAME), (''renamenx'', RENAMENX),
      (''expire'', EXPIRE), (''expireat'', EXPIREAT), (''pexpire'', PEXPIRE), (''pexpireat'', PEXPIREAT),
      (''dbsize'', DBSIZE), (''type'', KEYTYPE), (''multi'', MULTI), (''exec'', EXEC), (''discard'', DISCARD),
      (''flushdb'', FLUSHDB), (''flushall'', FLUSHALL), (''ttl'', TTL), (''touch'', TOUCH), (''pttl'', PTTL),
      (''persist'', PERSIST), (''watch'', WATCH), (''unwatch'', UNWATCH)])
     (map (\<lambda>x. tolower (schar x)) (takeWhile (\<lambda>x. x \<noteq> 0) name))"

definition arity :: "command \<Rightarrow> int" where
  "arity cmd =
     (case cmd of
        SET \<Rightarrow> - 3 | SETNX \<Rightarrow> 3 | SETEX \<Rightarrow> 4 | PSETEX \<Rightarrow> 4 | GET \<Rightarrow> 2 | GETSET \<Rightarrow> 3 | SETRANGE \<Rightarrow> 4
      | GETRANGE \<Rightarrow> 4 | MGET \<Rightarrow> - 2 | MSET \<Rightarrow> - 3 | MSETNX \<Rightarrow> - 3 | INCR \<Rightarrow> 2 | DECR \<Rightarrow> 2 | INCRBY \<Rightarrow> 3
      | DECRBY \<Rightarrow> 3 | APPEND \<Rightarrow> 3 | STRLEN \<Rightarrow> 2 | DEL \<Rightarrow> - 2 | UNLINK \<Rightarrow> - 2 | EXISTS \<Rightarrow> - 2 | SELECT \<Rightarrow> 2
      | RENAME \<Rightarrow> 3 | RENAMENX \<Rightarrow> 3 | MOVE \<Rightarrow> 3 | SWAPDB \<Rightarrow> 3 | KEYTYPE \<Rightarrow> 2 | DBSIZE \<Rightarrow> 1 | FLUSHDB \<Rightarrow> - 1
      | FLUSHALL \<Rightarrow> - 1 | TOUCH \<Rightarrow> - 2 | EXPIRE \<Rightarrow> 3 | EXPIREAT \<Rightarrow> 3 | PEXPIRE \<Rightarrow> 3 | PEXPIREAT \<Rightarrow> 3
      | TTL \<Rightarrow> 2 | PTTL \<Rightarrow> 2 | PERSIST \<Rightarrow> 2 | MULTI \<Rightarrow> 1 | EXEC \<Rightarrow> 1 | DISCARD \<Rightarrow> 1 | WATCH \<Rightarrow> - 2
      | UNWATCH \<Rightarrow> 1)"

definition cmd_readonly :: "command \<Rightarrow> bool" where
  "cmd_readonly cmd \<longleftrightarrow> cmd \<in> {GET, GETRANGE, MGET, STRLEN, EXISTS, KEYTYPE, DBSIZE, TOUCH, TTL, PTTL}"

definition cmd_loading :: "command \<Rightarrow> bool" where
  "cmd_loading cmd \<longleftrightarrow> cmd \<in> {SELECT, MULTI, EXEC, DISCARD, WATCH, UNWATCH}"

definition cmd_stale :: "command \<Rightarrow> bool" where
  "cmd_stale cmd \<longleftrightarrow> cmd \<in> {SELECT, MULTI, EXEC, DISCARD, WATCH, UNWATCH}"

definition cmd_write :: "command \<Rightarrow> bool" where
  "cmd_write cmd \<longleftrightarrow> \<not> cmd_readonly cmd \<and> \<not> cmd_loading cmd"

section \<open>Watched keys\<close>

definition watchForKey :: "nat \<Rightarrow> bytes \<Rightarrow> server \<Rightarrow> server" where
  "watchForKey c key s =
     (let i = cur_db s c in
      if (i, key) \<in> set (c_watched (clients s c)) then s
      else
        let cs = (case db_watched (dbs s ! i) key of None \<Rightarrow> [] | Some cs \<Rightarrow> cs);
            s = upd_db i (\<lambda>db. db\<lparr>db_watched := (db_watched db)(key \<mapsto> cs @ [c])\<rparr>) s
        in upd_client c (\<lambda>cl. cl\<lparr>c_watched := c_watched cl @ [(i, key)]\<rparr>) s)"

text \<open>Deleting a node that is not in the list would be a crash, like a failed assertion.\<close>

definition unwatch_one :: "nat \<Rightarrow> nat \<times> bytes \<Rightarrow> server \<Rightarrow> server" where
  "unwatch_one c w s =
     (let (i, key) = w;
          cs = (case db_watched (dbs s ! i) key of None \<Rightarrow> [] | Some cs \<Rightarrow> cs);
          s = serverAssert (c \<in> set cs) s;
          cs = remove1 c cs;
          s = upd_db i (\<lambda>db. db\<lparr>db_watched := (db_watched db)(key := (if cs = [] then None else Some cs))\<rparr>) s
      in upd_client c (\<lambda>cl. cl\<lparr>c_watched := remove1 (i, key) (c_watched cl)\<rparr>) s)"

definition unwatchAllKeys :: "nat \<Rightarrow> server \<Rightarrow> server" where
  "unwatchAllKeys c s = fold (unwatch_one c) (c_watched (clients s c)) s"

definition watchCommand :: "nat \<Rightarrow> server \<Rightarrow> server" where
  "watchCommand c s =
     (if c_multi (clients s c) then addReply c (RErr ''WATCH inside MULTI is not allowed'') s
      else addReply c ROk (fold (watchForKey c) (drop 1 (c_argv (clients s c))) s))"

definition unwatchCommand :: "nat \<Rightarrow> server \<Rightarrow> server" where
  "unwatchCommand c s =
     addReply c ROk (upd_client c (\<lambda>cl. cl\<lparr>c_dirty_cas := False\<rparr>) (unwatchAllKeys c s))"

section \<open>The queue of a transaction\<close>

definition queueMultiCommand :: "nat \<Rightarrow> server \<Rightarrow> server" where
  "queueMultiCommand c s =
     (if c_dirty_exec (clients s c) then s
      else upd_client c (\<lambda>cl. cl\<lparr>c_mstate := c_mstate cl @ [(c_cmd cl, c_argv cl)],
             c_mflags_write := (c_mflags_write cl \<or> cmd_write (c_cmd cl))\<rparr>) s)"

definition discardTransaction :: "nat \<Rightarrow> server \<Rightarrow> server" where
  "discardTransaction c s =
     unwatchAllKeys c (upd_client c (\<lambda>cl. cl\<lparr>c_mstate := [], c_mflags_write := False, c_multi := False,
       c_dirty_cas := False, c_dirty_exec := False\<rparr>) s)"

definition flagTransaction :: "nat \<Rightarrow> server \<Rightarrow> server" where
  "flagTransaction c s =
     (if c_multi (clients s c) then upd_client c (\<lambda>cl. cl\<lparr>c_dirty_exec := True\<rparr>) s else s)"

definition multiCommand :: "nat \<Rightarrow> server \<Rightarrow> server" where
  "multiCommand c s =
     (if c_multi (clients s c) then addReply c (RErr ''MULTI calls can not be nested'') s
      else addReply c ROk (upd_client c (\<lambda>cl. cl\<lparr>c_multi := True\<rparr>) s))"

definition discardCommand :: "nat \<Rightarrow> server \<Rightarrow> server" where
  "discardCommand c s =
     (if \<not> c_multi (clients s c) then addReply c (RErr ''DISCARD without MULTI'') s
      else addReply c ROk (discardTransaction c s))"

section \<open>Running commands\<close>

text \<open>The implementation of each command but EXEC, which is never queued.\<close>

definition run_proc :: "command \<Rightarrow> nat \<Rightarrow> server \<Rightarrow> server" where
  "run_proc cmd c s =
     (case cmd of
        SET \<Rightarrow> setCommand c s | SETNX \<Rightarrow> setnxCommand c s | SETEX \<Rightarrow> setexCommand c s
      | PSETEX \<Rightarrow> psetexCommand c s | GET \<Rightarrow> getCommand c s | GETSET \<Rightarrow> getsetCommand c s
      | SETRANGE \<Rightarrow> setrangeCommand c s | GETRANGE \<Rightarrow> getrangeCommand c s | MGET \<Rightarrow> mgetCommand c s
      | MSET \<Rightarrow> msetCommand c s | MSETNX \<Rightarrow> msetnxCommand c s | INCR \<Rightarrow> incrCommand c s
      | DECR \<Rightarrow> decrCommand c s | INCRBY \<Rightarrow> incrbyCommand c s | DECRBY \<Rightarrow> decrbyCommand c s
      | APPEND \<Rightarrow> appendCommand c s | STRLEN \<Rightarrow> strlenCommand c s | DEL \<Rightarrow> delCommand c s
      | UNLINK \<Rightarrow> unlinkCommand c s | EXISTS \<Rightarrow> existsCommand c s | SELECT \<Rightarrow> selectCommand c s
      | RENAME \<Rightarrow> renameCommand c s | RENAMENX \<Rightarrow> renamenxCommand c s | MOVE \<Rightarrow> moveCommand c s
      | SWAPDB \<Rightarrow> swapdbCommand c s | KEYTYPE \<Rightarrow> typeCommand c s | DBSIZE \<Rightarrow> dbsizeCommand c s
      | FLUSHDB \<Rightarrow> flushdbCommand c s | FLUSHALL \<Rightarrow> flushallCommand c s | TOUCH \<Rightarrow> touchCommand c s
      | EXPIRE \<Rightarrow> expireCommand c s | EXPIREAT \<Rightarrow> expireatCommand c s | PEXPIRE \<Rightarrow> pexpireCommand c s
      | PEXPIREAT \<Rightarrow> pexpireatCommand c s | TTL \<Rightarrow> ttlCommand c s | PTTL \<Rightarrow> pttlCommand c s
      | PERSIST \<Rightarrow> persistCommand c s | MULTI \<Rightarrow> multiCommand c s | DISCARD \<Rightarrow> discardCommand c s
      | WATCH \<Rightarrow> watchCommand c s | UNWATCH \<Rightarrow> unwatchCommand c s | EXEC \<Rightarrow> s)"

text \<open>\<open>proc\<close> is the implementation of the client's command; \<open>full\<close> is \<^verbatim>\<open>CMD_CALL_FULL\<close>, and
  otherwise the flags are \<^verbatim>\<open>CMD_CALL_NONE\<close>. Nothing runs after a failed assertion.\<close>

definition call :: "(nat \<Rightarrow> server \<Rightarrow> server) \<Rightarrow> bool \<Rightarrow> nat \<Rightarrow> server \<Rightarrow> server" where
  "call proc full c s =
     (if aborted s then s
      else
        let s = s\<lparr>fixed_time_expire := fixed_time_expire s + 1, cached_mstime := mstime s,
              current_readonly := (cmd_readonly (c_cmd (clients s c)) \<and> \<not> c_master (clients s c))\<rparr>;
            dirty0 = dirty s;
            s = proc c s;
            s = (if full \<and> dirty s - dirty0 > 0 then propagate (cur_db s c) (c_argv (clients s c)) s else s)
        in s\<lparr>fixed_time_expire := fixed_time_expire s - 1\<rparr>)"

text \<open>What the subsystems that are not modelled decide.\<close>

record env =
  e_auth_required :: "nat \<Rightarrow> bool"
  e_acl_ok :: "nat \<Rightarrow> command \<Rightarrow> bytes list \<Rightarrow> bool"
  e_disk_error :: bool
  e_few_replicas :: bool
  e_pubsub :: "nat \<Rightarrow> bool"
  e_link_down :: bool

fun exec_loop :: "env \<Rightarrow> nat \<Rightarrow> (command \<times> bytes list) list \<Rightarrow> bool \<Rightarrow> server \<Rightarrow> server \<times> bool" where
  "exec_loop e c [] must_propagate s = (s, must_propagate)"
| "exec_loop e c ((cmd, argv) # q) must_propagate s =
     (let s = upd_client c (\<lambda>cl. cl\<lparr>c_argv := argv, c_cmd := cmd\<rparr>) s;
          first = (\<not> must_propagate \<and> \<not> loading s \<and> \<not> cmd_readonly cmd);
          s = (if first then propagate (cur_db s c) [str ''MULTI''] s else s);
          s = (if e_acl_ok e c cmd argv then call (run_proc cmd) (\<not> loading s) c s
               else addReply c (RErr ''NOPERM ACLs rules changed between the moment the transaction was accumulated and the EXEC call'') s)
      in exec_loop e c q (must_propagate \<or> first) s)"

text \<open>Running the queue: from \<^verbatim>\<open>unwatchAllKeys\<close> to the restored arguments.\<close>

definition exec_body :: "env \<Rightarrow> nat \<Rightarrow> server \<Rightarrow> server \<times> bool" where
  "exec_body e c s =
     (let cl = clients s c;
          s = unwatchAllKeys c s;
          s = addReply c (RArrayLen (length (c_mstate cl))) s;
          (s, must_propagate) = exec_loop e c (c_mstate cl) False s
      in (upd_client c (\<lambda>d. d\<lparr>c_argv := c_argv cl, c_cmd := c_cmd cl\<rparr>) s, must_propagate))"

definition execCommand :: "env \<Rightarrow> nat \<Rightarrow> server \<Rightarrow> server" where
  "execCommand e c s =
     (let cl = clients s c in
      if \<not> c_multi cl then addReply c (RErr ''EXEC without MULTI'') s
      else if lua_timedout s then addReply c (RErr ''BUSY'') (flagTransaction c s)
      else if c_dirty_cas cl \<or> c_dirty_exec cl then
        discardTransaction c (addReply c (if c_dirty_exec cl
          then RErr ''EXECABORT Transaction discarded because of previous errors.'' else RNullArray) s)
      else if \<not> loading s \<and> is_replica s \<and> repl_slave_ro s \<and> \<not> c_master cl \<and> c_mflags_write cl then
        discardTransaction c (addReply c (RErr ''Transaction contains write commands but instance is now a read-only replica. EXEC aborted.'') s)
      else
        let (s, must_propagate) = exec_body e c s;
            s = discardTransaction c s
        in if must_propagate then incr_dirty s else s)"

definition proc_of :: "env \<Rightarrow> command \<Rightarrow> nat \<Rightarrow> server \<Rightarrow> server" where
  "proc_of e cmd = (if cmd = EXEC then execCommand e else run_proc cmd)"

definition refuse :: "nat \<Rightarrow> string \<Rightarrow> server \<Rightarrow> server" where
  "refuse c msg s = addReply c (RErr msg) (flagTransaction c s)"

text \<open>The checks of \<^verbatim>\<open>processCommand\<close> in their order: the error, and whether it also flags the
  transaction of the client.\<close>

definition check_command :: "env \<Rightarrow> nat \<Rightarrow> command \<Rightarrow> server \<Rightarrow> (bool \<times> string) option" where
  "check_command e c cmd s =
     (let cl = clients s c; argc = int (length (c_argv cl)) in
      if (arity cmd > 0 \<and> arity cmd \<noteq> argc) \<or> argc < - arity cmd then Some (True, ''wrong number of arguments'')
      else if e_auth_required e c then Some (True, ''NOAUTH Authentication required.'')
      else if \<not> e_acl_ok e c cmd (c_argv cl) then Some (True, ''NOPERM'')
      else if e_disk_error e \<and> \<not> is_replica s \<and> cmd_write cmd then Some (True, ''MISCONF'')
      else if \<not> is_replica s \<and> e_few_replicas e \<and> cmd_write cmd then Some (True, ''NOREPLICAS'')
      else if is_replica s \<and> repl_slave_ro s \<and> \<not> c_master cl \<and> cmd_write cmd then Some (True, ''READONLY'')
      else if e_pubsub e c then Some (False, ''only (P)SUBSCRIBE / (P)UNSUBSCRIBE / PING / QUIT are allowed in this context'')
      else if is_replica s \<and> e_link_down e \<and> \<not> cmd_stale cmd then Some (True, ''MASTERDOWN'')
      else if loading s \<and> \<not> cmd_loading cmd then Some (False, ''LOADING'')
      else if lua_timedout s \<and> cmd \<notin> {MULTI, EXEC, DISCARD, WATCH, UNWATCH} then Some (True, ''BUSY'')
      else None)"

text \<open>The command runs, or is queued in a transaction.\<close>

definition dispatch :: "env \<Rightarrow> nat \<Rightarrow> command \<Rightarrow> server \<Rightarrow> server" where
  "dispatch e c cmd s =
     (if c_multi (clients s c) \<and> cmd \<notin> {EXEC, DISCARD, MULTI, WATCH} then addReply c RQueued (queueMultiCommand c s)
      else call (proc_of e cmd) True c s)"

definition processCommand :: "env \<Rightarrow> nat \<Rightarrow> server \<Rightarrow> server" where
  "processCommand e c s =
     (if strcaseeq (takeWhile (\<lambda>x. x \<noteq> 0) (arg s c 0)) ''quit'' then addReply c ROk s
      else case lookupCommand (arg s c 0) of
        None \<Rightarrow> refuse c ''unknown command'' s
      | Some cmd \<Rightarrow>
          let s = upd_client c (\<lambda>cl. cl\<lparr>c_cmd := cmd\<rparr>) s in
          case check_command e c cmd s of
            Some (True, msg) \<Rightarrow> refuse c msg s
          | Some (False, msg) \<Rightarrow> addReply c (RErr msg) s
          | None \<Rightarrow> dispatch e c cmd s)"

section \<open>Watching and unwatching keep the invariant\<close>

text \<open>A step of client \<open>c\<close> on the watched keys: no value and no other client changes.\<close>

definition wframe :: "nat \<Rightarrow> server \<Rightarrow> server \<Rightarrow> bool" where
  "wframe c s s' \<longleftrightarrow> length (dbs s') = length (dbs s) \<and> client_list s' = client_list s \<and> loading s' = loading s \<and>
     (\<forall>i. dict_at s' i = dict_at s i \<and> expires_at s' i = expires_at s i) \<and>
     (\<forall>c'. c' \<noteq> c \<longrightarrow> clients s' c' = clients s c') \<and>
     (\<exists>w. clients s' c = (clients s c)\<lparr>c_watched := w\<rparr>)"

lemma wframe_refl: "wframe c s s"
  unfolding wframe_def by (simp add: exI [of _ "c_watched (clients s c)"])

lemma wframe_trans: "wframe c s t \<Longrightarrow> wframe c t u \<Longrightarrow> wframe c s u"
  unfolding wframe_def by auto

lemma nth_dbs_upd: "dbs (upd_db i f s) ! j = (if i = j \<and> i < length (dbs s) then f (dbs s ! j) else dbs s ! j)"
  by (cases "i < length (dbs s)") (auto simp: upd_db_def nth_list_update list_update_beyond)

lemma upd_client_simps [simp]:
  "dbs (upd_client c f s) = dbs s" "client_list (upd_client c f s) = client_list s" "aborted (upd_client c f s) = aborted s"
  "loading (upd_client c f s) = loading s" "clients (upd_client c f s) c' = (if c' = c then f (clients s c) else clients s c')"
  by (simp_all add: upd_client_def)

lemma upd_db_loading [simp]: "loading (upd_db i f s) = loading s"
  by (simp add: upd_db_def)

lemma watch_ok_iff:
  "watch_ok s \<longleftrightarrow>
     (\<forall>i < length (dbs s). \<forall>k xs. db_watched (dbs s ! i) k = Some xs \<longrightarrow> xs \<noteq> [] \<and> distinct xs) \<and>
     (\<forall>c. distinct (c_watched (clients s c))) \<and> (\<forall>c i k. watching s c i k \<longrightarrow> i < length (dbs s)) \<and>
     (\<forall>i < length (dbs s). \<forall>k c. (\<exists>xs. db_watched (dbs s ! i) k = Some xs \<and> c \<in> set xs) \<longleftrightarrow> watching s c i k)"
  unfolding watch_ok_def by blast

lemma watch_okI:
  assumes "\<And>i k xs. i < length (dbs s) \<Longrightarrow> db_watched (dbs s ! i) k = Some xs \<Longrightarrow> xs \<noteq> [] \<and> distinct xs"
    "\<And>c. distinct (c_watched (clients s c))" "\<And>c i k. watching s c i k \<Longrightarrow> i < length (dbs s)"
    "\<And>i k c. i < length (dbs s) \<Longrightarrow> (\<exists>xs. db_watched (dbs s ! i) k = Some xs \<and> c \<in> set xs) \<longleftrightarrow> watching s c i k"
  shows "watch_ok s"
  using assms unfolding watch_ok_iff by blast

lemma watch_ok_update:
  assumes ok: "server_ok s" and i: "i < length (dbs s)"
    and cs: "\<And>x. db_watched (f (dbs s ! i)) x = (if x = k then cs' else db_watched (dbs s ! i) x)"
    and dbf: "db_ok (f (dbs s ! i))"
    and set_cs: "\<And>xs. cs' = Some xs \<Longrightarrow> xs \<noteq> [] \<and> distinct xs"
    and others: "\<And>c'. c' \<noteq> c \<Longrightarrow> (\<exists>xs. cs' = Some xs \<and> c' \<in> set xs) \<longleftrightarrow> watching s c' i k"
    and own: "(\<exists>xs. cs' = Some xs \<and> c \<in> set xs) \<longleftrightarrow> (i, k) \<in> set w"
    and rest: "\<And>j k'. (j, k') \<noteq> (i, k) \<Longrightarrow> (j, k') \<in> set w \<longleftrightarrow> watching s c j k'"
    and dw: "distinct w" and cl: "w \<noteq> [] \<Longrightarrow> c \<in> set (client_list s)"
  shows "server_ok (upd_client c (\<lambda>cl. cl\<lparr>c_watched := w\<rparr>) (upd_db i f s))" (is "server_ok ?t")
proof -
  have wo: "watch_ok s" using ok by (simp add: server_ok_def)
  have mem: "(\<exists>xs. db_watched (dbs s ! j) k' = Some xs \<and> c' \<in> set xs) \<longleftrightarrow> watching s c' j k'" if "j < length (dbs s)" for j k' c'
    using wo that unfolding watch_ok_def by blast
  have w': "watching ?t c' j k' \<longleftrightarrow> (if c' = c then (j, k') \<in> set w else watching s c' j k')" for c' j k' by simp
  have db: "db_watched (dbs ?t ! j) k' = (if j = i \<and> k' = k then cs' else db_watched (dbs s ! j) k')" if "j < length (dbs s)" for j k'
    using i cs by (auto simp: nth_dbs_upd)
  have bnd: "watching s c' j k' \<Longrightarrow> j < length (dbs s)" for c' j k' using wo unfolding watch_ok_def by blast
  have l: "length (dbs ?t) = length (dbs s)" by simp
  have "watch_ok ?t"
  proof (rule watch_okI, unfold l)
    show "(\<exists>xs. db_watched (dbs ?t ! j) k' = Some xs \<and> c' \<in> set xs) \<longleftrightarrow> watching ?t c' j k'" if "j < length (dbs s)" for j k' c'
      using mem [OF that] others own rest unfolding w' db [OF that] by (cases "c' = c"; cases "(j, k') = (i, k)") auto
    show "xs \<noteq> [] \<and> distinct xs" if "j < length (dbs s)" "db_watched (dbs ?t ! j) k' = Some xs" for j k' xs
      using that set_cs wo unfolding db [OF that(1)] watch_ok_def by (auto split: if_splits)
    show "watching ?t c' j k' \<Longrightarrow> j < length (dbs s)" for c' j k'
      unfolding w' using bnd rest [of j k'] i by (cases "(j, k') = (i, k)") (auto split: if_splits)
    show "distinct (c_watched (clients ?t c'))" for c' using dw wo by (simp add: watch_ok_def)
  qed
  moreover have "\<forall>db \<in> set (dbs ?t). db_ok db"
    using ok dbf set_update_subset_insert [of "dbs s" i "f (dbs s ! i)"] by (auto simp: server_ok_def upd_db_def)
  ultimately show ?thesis using ok cl by (auto simp: server_ok_def)
qed

lemma watch_ok_mem:
  "watch_ok s \<Longrightarrow> i < length (dbs s) \<Longrightarrow> (\<exists>xs. db_watched (dbs s ! i) k = Some xs \<and> c \<in> set xs) \<longleftrightarrow> watching s c i k"
  unfolding watch_ok_iff by blast

lemma watchForKey_ok:
  assumes "server_ok s" "c \<in> set (client_list s)"
  shows "server_ok (watchForKey c key s) \<and> wframe c s (watchForKey c key s) \<and>
    watching (watchForKey c key s) c (cur_db s c) key"
proof (cases "watching s c (cur_db s c) key")
  case True
  then show ?thesis using assms by (simp add: watchForKey_def Let_def wframe_refl)
next
  case False
  define i where "i = cur_db s c"
  define cs where "cs = (case db_watched (dbs s ! i) key of None \<Rightarrow> [] | Some cs \<Rightarrow> cs)"
  define f where "f = (\<lambda>db :: redisDb. db\<lparr>db_watched := (db_watched db)(key \<mapsto> cs @ [c])\<rparr>)"
  have i: "i < length (dbs s)" using ok_cur_db [OF assms(1)] by (simp add: i_def)
  have run: "watchForKey c key s =
      upd_client c (\<lambda>cl. cl\<lparr>c_watched := c_watched (clients s c) @ [(i, key)]\<rparr>) (upd_db i f s)"
    using False by (simp add: watchForKey_def Let_def i_def cs_def f_def upd_client_def)
  have wo: "watch_ok s" and dbi: "db_ok (dbs s ! i)" using assms(1) i by (simp_all add: server_ok_def)
  have mem: "c' \<in> set cs \<longleftrightarrow> watching s c' i key" for c'
    using watch_ok_mem [OF wo i, of key c'] by (auto simp: cs_def split: option.splits)
  have dw: "distinct (c_watched (clients s c))" using wo by (simp add: watch_ok_iff)
  have "distinct cs" using wo i by (auto simp: watch_ok_iff cs_def split: option.splits)
  have "server_ok (watchForKey c key s)"
    unfolding run
    by (rule watch_ok_update [where cs' = "Some (cs @ [c])" and k = key, OF assms(1) i])
       (use False mem dw dbi assms(2) \<open>distinct cs\<close> i_def in \<open>auto simp: f_def db_ok_def\<close>)
  moreover have "wframe c s (watchForKey c key s)"
    unfolding run wframe_def using i by (auto simp: nth_dbs_upd f_def)
  ultimately show ?thesis by (simp add: run i_def)
qed

lemma unwatch_one_ok:
  assumes "server_ok s" "c_watched (clients s c) = w # ws"
  shows "server_ok (unwatch_one c w s) \<and> wframe c s (unwatch_one c w s) \<and>
    c_watched (clients (unwatch_one c w s) c) = ws"
proof -
  obtain i key where w: "w = (i, key)" by (cases w)
  have wo: "watch_ok s" using assms(1) by (simp add: server_ok_def)
  have "watching s c i key" using assms(2) w by simp
  then obtain cs where cs: "i < length (dbs s)" "db_watched (dbs s ! i) key = Some cs" "c \<in> set cs" "distinct cs"
    using wo unfolding watch_ok_def by metis
  define cs' where "cs' = (if remove1 c cs = [] then None else Some (remove1 c cs))"
  define f where "f = (\<lambda>db :: redisDb. db\<lparr>db_watched := (db_watched db)(key := cs')\<rparr>)"
  have c1: "xs \<noteq> [] \<and> distinct xs" if "cs' = Some xs" for xs
    using that cs(4) by (auto simp: cs'_def split: if_splits)
  have c2: "(\<exists>xs. cs' = Some xs \<and> x \<in> set xs) \<longleftrightarrow> x \<in> set cs \<and> x \<noteq> c" for x
    using cs(4) set_remove1_eq [of cs c] by (cases "remove1 c cs") (auto simp: cs'_def)
  have d: "distinct ((i, key) # ws)" using wo assms(2) w unfolding watch_ok_def by metis
  have run: "unwatch_one c w s = upd_client c (\<lambda>cl. cl\<lparr>c_watched := ws\<rparr>) (upd_db i f s)"
    using cs assms(2) w by (simp add: unwatch_one_def Let_def f_def upd_client_def cs'_def)
  have mem: "x \<in> set cs \<longleftrightarrow> watching s x i key" for x
    using watch_ok_mem [OF wo cs(1), of key x] cs(2) by simp
  have "c_watched (clients s c) \<noteq> []" using assms(2) by simp
  then have ok: "db_ok (dbs s ! i)" "c \<in> set (client_list s)" using assms(1) cs(1) by (simp_all add: server_ok_def)
  have "server_ok (unwatch_one c w s)"
    unfolding run
  proof (rule watch_ok_update [where cs' = cs' and k = key, OF assms(1) cs(1) _ _ c1])
    show "(\<exists>xs. cs' = Some xs \<and> x \<in> set xs) \<longleftrightarrow> watching s x i key" if "x \<noteq> c" for x
      using that c2 mem by blast
    show "(\<exists>xs. cs' = Some xs \<and> c \<in> set xs) \<longleftrightarrow> (i, key) \<in> set ws" using c2 d by simp
  qed (use d w ok assms(2) in \<open>auto simp: f_def db_ok_def\<close>)
  moreover have "wframe c s (unwatch_one c w s)"
    unfolding run wframe_def using cs(1) by (auto simp: nth_dbs_upd f_def)
  ultimately show ?thesis by (simp add: run)
qed

lemma unwatchAllKeys_ok:
  assumes "server_ok s"
  shows "server_ok (unwatchAllKeys c s) \<and> wframe c s (unwatchAllKeys c s) \<and> c_watched (clients (unwatchAllKeys c s) c) = []"
proof -
  have "server_ok (fold (unwatch_one c) ws s) \<and> wframe c s (fold (unwatch_one c) ws s) \<and>
      c_watched (clients (fold (unwatch_one c) ws s) c) = []"
    if "server_ok s" "c_watched (clients s c) = ws" for ws s
    using that
  proof (induction ws arbitrary: s)
    case Nil
    then show ?case by (simp add: wframe_refl)
  next
    case (Cons w ws)
    note one = unwatch_one_ok [OF Cons.prems]
    then show ?case using Cons.IH [of "unwatch_one c w s"] wframe_trans [of c s "unwatch_one c w s"] by auto
  qed
  then show ?thesis using assms by (simp add: unwatchAllKeys_def)
qed

section \<open>Steps of one client\<close>

text \<open>\<open>cstep b c s s'\<close>: a step of client \<open>c\<close> that keeps the invariant and leaves the state of the other
  clients alone, but for the mark that a watched key was changed; unless \<open>b\<close>, a key that another
  client watches keeps its value or that client is marked.\<close>

definition cstep :: "bool \<Rightarrow> nat \<Rightarrow> server \<Rightarrow> server \<Rightarrow> bool" where
  "cstep b c s s' \<longleftrightarrow> (server_ok s \<longrightarrow> server_ok s' \<and> length (dbs s') = length (dbs s) \<and>
     client_list s' = client_list s \<and> (\<forall>c'. c' \<noteq> c \<longrightarrow> client_frame (clients s c') (clients s' c') \<and>
       (\<not> b \<longrightarrow> (\<forall>i k. watching s c' i k \<longrightarrow> dict_at s' i k = dict_at s i k \<or> c_dirty_cas (clients s' c')))))"

lemma cstep_refl: "cstep b c s s"
  by (simp add: cstep_def)

lemma cstep_ok: "cstep b c s s' \<Longrightarrow> server_ok s \<Longrightarrow> server_ok s'"
  by (simp add: cstep_def)

lemma cstep_trans:
  assumes "cstep b c s t" "cstep b c t u"
  shows "cstep b c s u"
  unfolding cstep_def
proof (intro impI conjI allI)
  assume ok: "server_ok s"
  note st = assms(1) [unfolded cstep_def, rule_format, OF ok]
  note tu = assms(2) [unfolded cstep_def, rule_format, OF conjunct1 [OF st]]
  show "server_ok u" "length (dbs u) = length (dbs s)" "client_list u = client_list s" using st tu by simp_all
  show "client_frame (clients s c') (clients u c')" if "c' \<noteq> c" for c'
    using st tu that client_frame_trans by blast
  show "dict_at u i k = dict_at s i k \<or> c_dirty_cas (clients u c')" if "c' \<noteq> c" "\<not> b" "watching s c' i k" for c' i k
  proof -
    have "watching t c' i k" using st that by (simp add: client_frame_def)
    moreover have "c_dirty_cas (clients t c') \<Longrightarrow> c_dirty_cas (clients u c')"
      using tu that(1) by (simp add: client_frame_def)
    ultimately show ?thesis using st tu that by metis
  qed
qed

lemma cstep_kstep:
  assumes "kstep {} s s'"
  shows "cstep b c s s'"
  unfolding cstep_def
proof (intro impI)
  assume ok: "server_ok s"
  note r = assms [unfolded kstep_def, rule_format, OF ok]
  have "watching s c' i k \<Longrightarrow> i < length (dbs s)" for c' i k
    using ok unfolding server_ok_def watch_ok_def by blast
  then show "server_ok s' \<and> length (dbs s') = length (dbs s) \<and> client_list s' = client_list s \<and>
    (\<forall>c'. c' \<noteq> c \<longrightarrow> client_frame (clients s c') (clients s' c') \<and>
       (\<not> b \<longrightarrow> (\<forall>i k. watching s c' i k \<longrightarrow> dict_at s' i k = dict_at s i k \<or> c_dirty_cas (clients s' c'))))"
    using r unfolding config_frame_def by blast
qed

lemma cstep_quiet: "quiet s s' \<Longrightarrow> cstep b c s s'"
  by (rule cstep_kstep) (rule kstep_quiet [OF kstep_refl])

lemma cstep_weaken: "cstep b c s s' \<Longrightarrow> (b \<Longrightarrow> b') \<Longrightarrow> cstep b' c s s'"
  unfolding cstep_def by blast

lemma cstep_premise: "(server_ok s \<Longrightarrow> cstep b c s s') \<Longrightarrow> cstep b c s s'"
  by (simp add: cstep_def)

lemma cstep_client_list: "cstep b c s s' \<Longrightarrow> server_ok s \<Longrightarrow> client_list s' = client_list s"
  by (simp add: cstep_def)

lemma cstep_wframe: "wframe c s s' \<Longrightarrow> server_ok s' \<Longrightarrow> cstep b c s s'"
  by (auto simp: cstep_def wframe_def)

text \<open>Updates of the transaction state and the selected database of the client itself.\<close>

lemma cstep_own:
  assumes "c_watched (f (clients s c)) = c_watched (clients s c)" "server_ok s \<Longrightarrow> c_db (f (clients s c)) < length (dbs s)"
  shows "cstep b c s (upd_client c f s)"
  using assms by (auto simp: cstep_def server_ok_def watch_ok_def)

section \<open>Every command is a step of its client\<close>

lemma kstep_setrange_store:
  assumes "kstep {(i, k)} s0 s" "i < length (dbs s0)" "\<not> aborted (setrange_store c i k off val b s)"
  shows "kstep {} s0 (setrange_store c i k off val b s)"
proof -
  have "off + length val < 2 ^ 63" using assms(3) setrange_store_aborts by blast
  then show ?thesis
    unfolding setrange_store_def Let_def alloc_def using assms(1,2) by (simp add: kstep_intros)
qed

lemma kstep_setrangeCommand:
  assumes "\<not> aborted (setrangeCommand c s)"
  shows "kstep {} s (setrangeCommand c s)"
proof (rule kstep_premise)
  assume ok: "server_ok s"
  define i k val where "i = cur_db s c" and "k = arg s c 1" and "val = arg s c 3"
  have i: "i < length (dbs s)" using ok_cur_db [OF ok] by (simp add: i_def)
  define s1 where "s1 = fst (lookupKeyWrite i k s)"
  have w: "lookupKeyWrite i k s = (s1, dict_at s1 i k)" by (simp add: s1_def prod_eq_iff snd_lookupKeyWrite)
  have k1: "kstep X s s1" for X unfolding s1_def using i by (intro kstep_intros)
  show ?thesis
  proof (cases "getLongLongFromObject (Some (createStringObject (arg s c 2)))")
    case None
    then show ?thesis by (simp add: setrangeCommand_def Let_def getLongLongFromObjectOrReply_def kstep_intros)
  next
    case (Some off)
    note run = setrangeCommand_def Let_def i_def [symmetric] k_def [symmetric] val_def [symmetric]
      getLongLongFromObjectOrReply_def Some option.case case_prod_conv w checkType_def checkStringLength_def
    have st: "kstep {} s (setrange_store c i k (nat off) val b t)"
      if "kstep {(i, k)} s t" "\<not> aborted (setrange_store c i k (nat off) val b t)" for b t
      by (rule kstep_setrange_store [OF that(1) i that(2)])
    show ?thesis
    proof (cases "dict_at s1 i k")
      case None
      have "kstep {} s (setrange_store c i k (nat off) val b (dbAdd i k v (alloc (nat off + length val) s1)))"
        if a: "\<not> aborted (setrange_store c i k (nat off) val b (dbAdd i k v (alloc (nat off + length val) s1)))" for b v
      proof (rule st [OF _ a])
        have "nat off + length val < 2 ^ 63" using a setrange_store_aborts by blast
        then show "kstep {(i, k)} s (dbAdd i k v (alloc (nat off + length val) s1))"
          using k1 i None by (auto simp: alloc_def intro!: kstep_intros)
      qed
      then show ?thesis
        using assms None k1 unfolding run by (auto intro!: kstep_quiet_steps kstep_refl split: if_splits)
    next
      case s: (Some o1)
      have "otype_of o1 = OBJ_STRING \<Longrightarrow> kstep {(i, k)} s (fst (dbUnshareStringValue i k o1 s1))"
        using k1 i s by (intro kstep_dbUnshare) auto
      then show ?thesis
        using st assms s k1 unfolding run
        by (auto simp: case_prod_unfold intro!: kstep_quiet_steps kstep_refl split: if_splits)
    qed
  qed
qed

lemmas kstep_commands = kstep_setCommand kstep_setGenericCommand kstep_getCommand kstep_getsetCommand
  kstep_getrangeCommand kstep_mgetCommand kstep_msetGeneric kstep_incrDecr kstep_appendCommand kstep_strlenCommand
  kstep_delGeneric kstep_existsCommand kstep_renameGeneric kstep_moveCommand kstep_typeCommand kstep_dbsizeCommand
  kstep_flushdbCommand kstep_flushallCommand kstep_touchCommand kstep_expireGeneric kstep_ttlGeneric kstep_persistCommand

lemmas proc_defs = setnxCommand_def setexCommand_def psetexCommand_def msetCommand_def msetnxCommand_def incrCommand_def
  decrCommand_def incrbyCommand_def decrbyCommand_def delCommand_def unlinkCommand_def renameCommand_def
  renamenxCommand_def expireCommand_def expireatCommand_def pexpireCommand_def pexpireatCommand_def ttlCommand_def
  pttlCommand_def

definition data_command :: "command \<Rightarrow> bool" where
  "data_command cmd \<longleftrightarrow> cmd \<notin> {SELECT, SWAPDB, MULTI, EXEC, DISCARD, WATCH, UNWATCH}"

lemma kstep_run_proc:
  assumes "data_command cmd" "\<not> aborted (run_proc cmd c s) \<or> cmd \<noteq> SETRANGE"
  shows "kstep {} s (run_proc cmd c s)"
proof (cases "cmd = SETRANGE")
  case True
  then show ?thesis using kstep_setrangeCommand assms(2) by (simp add: run_proc_def)
next
  case False
  have "kstep {} s (incrbyCommand c s)" "kstep {} s (decrbyCommand c s)"
    by (simp_all add: incrbyCommand_def decrbyCommand_def getLongLongFromObjectOrReply_def kstep_incrDecr
        kstep_addReply kstep_refl split: option.splits)
  then show ?thesis
    using False assms(1) by (cases cmd) (simp_all add: run_proc_def data_command_def proc_defs kstep_commands)
qed

lemma cstep_addReply: "cstep b c s t \<Longrightarrow> cstep b c s (addReply d r t)"
  using cstep_trans [OF _ cstep_quiet [OF quiet_steps(1)]] .

lemma cstep_incr_dirty: "cstep b c s t \<Longrightarrow> cstep b c s (incr_dirty t)"
  using cstep_trans [OF _ cstep_quiet [OF quiet_steps(3)]] .

lemma cstep_selectCommand: "cstep b c s (selectCommand c s)"
proof -
  have "cstep b c s (fst (selectDb c d s))" for d
    by (auto simp: selectDb_def cstep_refl intro!: cstep_own)
  then show ?thesis
    by (auto simp: selectCommand_def getLongLongFromObjectOrReply_def case_prod_unfold
        intro!: cstep_addReply cstep_refl split: option.splits bool.splits)
qed

lemma swap_ok:
  assumes "server_ok s"
  shows "server_ok (fst (dbSwapDatabases a b s)) \<and> length (dbs (fst (dbSwapDatabases a b s))) = length (dbs s) \<and>
    clients (fst (dbSwapDatabases a b s)) = clients s \<and> client_list (fst (dbSwapDatabases a b s)) = client_list s"
proof -
  let ?t = "fst (dbSwapDatabases a b s)"
  have w: "db_watched (dbs ?t ! i) = db_watched (dbs s ! i)" for i
    by (auto simp: dbSwapDatabases_def Let_def nth_dbs_upd)
  have f: "length (dbs ?t) = length (dbs s)" "clients ?t = clients s" "client_list ?t = client_list s" "\<not> aborted ?t"
    using assms by (simp_all add: dbSwapDatabases_def Let_def server_ok_def)
  have ok: "db_ok (dbs s ! i)" if "i < length (dbs s)" for i using assms that by (simp add: server_ok_def)
  have "db_ok (dbs ?t ! i)" if "i < length (dbs s)" for i
    using that ok by (auto simp: dbSwapDatabases_def Let_def nth_dbs_upd db_ok_def not_le nat_less_iff)
  then have "\<forall>db \<in> set (dbs ?t). db_ok db" using f(1) by (auto simp: in_set_conv_nth)
  then have "server_ok ?t" using server_ok_frame [OF assms f(4)] f w by simp
  then show ?thesis using f by simp
qed

lemma cstep_swapdbCommand: "cstep True c s (swapdbCommand c s)"
proof -
  have "cstep True c s (fst (dbSwapDatabases a b s))" for a b using swap_ok by (auto simp: cstep_def)
  then show ?thesis
    by (auto simp: swapdbCommand_def getLongLongFromObjectOrReply_def case_prod_unfold
        intro!: cstep_addReply cstep_incr_dirty cstep_refl split: option.splits bool.splits)
qed

lemma cstep_unwatch: "cstep b c s (unwatchAllKeys c s)"
  using unwatchAllKeys_ok [of s c] cstep_wframe [of c s "unwatchAllKeys c s"] by (auto simp: cstep_def)

lemma cstep_discard: "cstep b c s (discardTransaction c s)"
proof -
  have "cstep b c s (upd_client c (\<lambda>cl. cl\<lparr>c_mstate := [], c_mflags_write := False, c_multi := False,
       c_dirty_cas := False, c_dirty_exec := False\<rparr>) s)"
    by (rule cstep_own) (simp_all add: ok_cur_db)
  then show ?thesis unfolding discardTransaction_def using cstep_unwatch cstep_trans by blast
qed

lemma cstep_fold_watch:
  "server_ok s \<Longrightarrow> c \<in> set (client_list s) \<Longrightarrow>
   server_ok (fold (watchForKey c) ks s) \<and> wframe c s (fold (watchForKey c) ks s)"
proof (induction ks arbitrary: s)
  case (Cons k ks)
  note one = watchForKey_ok [OF Cons.prems, of k]
  then have "c \<in> set (client_list (watchForKey c k s))" using Cons.prems(2) by (simp add: wframe_def)
  then show ?case using Cons.IH [of "watchForKey c k s"] one wframe_trans by auto
qed (simp add: wframe_refl)

lemma cstep_control:
  assumes "cmd \<in> {SELECT, SWAPDB, MULTI, DISCARD, WATCH, UNWATCH}" "c \<in> set (client_list s)"
  shows "cstep (cmd = SWAPDB) c s (run_proc cmd c s)"
proof -
  have m: "cstep b c s (multiCommand c s)" for b
    by (auto simp: multiCommand_def ok_cur_db intro!: cstep_addReply cstep_refl cstep_own)
  have d: "cstep b c s (discardCommand c s)" for b
    by (auto simp: discardCommand_def intro!: cstep_addReply cstep_refl cstep_discard)
  have "cstep b c s (fold (watchForKey c) ks s)" for b ks
    using cstep_fold_watch [of s c ks] assms(2) cstep_wframe [of c s] by (auto simp: cstep_def)
  then have w: "cstep b c s (watchCommand c s)" for b
    by (auto simp: watchCommand_def intro!: cstep_addReply cstep_refl)
  have "cstep b c s (upd_client c (\<lambda>cl. cl\<lparr>c_dirty_cas := False\<rparr>) (unwatchAllKeys c s))" for b
    by (rule cstep_trans [OF cstep_unwatch cstep_own]) (simp_all add: ok_cur_db)
  then have u: "cstep b c s (unwatchCommand c s)" for b
    unfolding unwatchCommand_def by (rule cstep_addReply)
  show ?thesis
    using assms(1) m d w u cstep_selectCommand [of False c s] cstep_swapdbCommand [of c s]
    by (auto simp: run_proc_def)
qed

lemma cstep_run_proc:
  assumes "cmd \<noteq> EXEC" "c \<in> set (client_list s)" "\<not> aborted (run_proc cmd c s) \<or> cmd \<noteq> SETRANGE"
  shows "cstep (cmd = SWAPDB) c s (run_proc cmd c s)"
proof (cases "data_command cmd")
  case True
  then show ?thesis using kstep_run_proc [OF True assms(3)] cstep_kstep by blast
next
  case False
  then show ?thesis using assms(1,2) by (intro cstep_control) (auto simp: data_command_def)
qed

lemma cstep_config: "cstep b c s (s\<lparr>fixed_time_expire := n\<rparr>)" "cstep b c s (s\<lparr>cached_mstime := t\<rparr>)"
  "cstep b c s (s\<lparr>current_readonly := r\<rparr>)"
  by (simp_all add: cstep_def server_ok_def watch_ok_def)

lemma cstep_call:
  assumes "\<not> aborted (call proc full c s) \<or> P"
    "\<And>s'. clients s' = clients s \<Longrightarrow> client_list s' = client_list s \<Longrightarrow> lua_timedout s' = lua_timedout s \<Longrightarrow>
       \<not> aborted (proc c s') \<or> P \<Longrightarrow> cstep b c s' (proc c s')"
  shows "cstep b c s (call proc full c s)"
proof (cases "aborted s")
  case False
  define s1 where "s1 = s\<lparr>fixed_time_expire := fixed_time_expire s + 1, cached_mstime := mstime s,
    current_readonly := (cmd_readonly (c_cmd (clients s c)) \<and> \<not> c_master (clients s c))\<rparr>"
  define s2 where "s2 = (if full \<and> dirty (proc c s1) - dirty s1 > 0
    then propagate (cur_db (proc c s1) c) (c_argv (clients (proc c s1) c)) (proc c s1) else proc c s1)"
  have run: "call proc full c s = s2\<lparr>fixed_time_expire := fixed_time_expire s2 - 1\<rparr>"
    using False by (simp add: call_def s1_def s2_def Let_def)
  have "aborted s2 = aborted (proc c s1)" by (simp add: s2_def propagate_def)
  then have na: "\<not> aborted (proc c s1) \<or> P" using assms(1) by (simp add: run)
  have "cstep b c s s1" unfolding s1_def by (intro cstep_trans [OF cstep_trans [OF cstep_config(1) cstep_config(2)] cstep_config(3)])
  moreover have "cstep b c s1 (proc c s1)" by (rule assms(2) [OF _ _ _ na]) (simp_all add: s1_def)
  moreover have "cstep b c (proc c s1) s2" by (simp add: s2_def cstep_refl cstep_quiet quiet_steps)
  ultimately show ?thesis unfolding run using cstep_trans cstep_config(1) by metis
qed (simp add: call_def cstep_refl)

lemma call_aborted: "aborted s \<Longrightarrow> call proc full c s = s"
  by (simp add: call_def)

lemma exec_loop_aborted: "aborted s \<Longrightarrow> aborted (fst (exec_loop e c q m s))"
  by (induction e c q m s rule: exec_loop.induct) (simp_all add: Let_def call_aborted propagate_def addReply_def)

lemma cstep_argv: "cstep b c s (upd_client c (\<lambda>cl. cl\<lparr>c_argv := v, c_cmd := m\<rparr>) s)"
  by (rule cstep_own) (simp_all add: ok_cur_db)

lemma cstep_exec_loop:
  "\<not> aborted (fst (exec_loop e c q m s)) \<or> SETRANGE \<notin> fst ` set q \<Longrightarrow> EXEC \<notin> fst ` set q \<Longrightarrow> server_ok s \<Longrightarrow> c \<in> set (client_list s) \<Longrightarrow>
   cstep (SWAPDB \<in> fst ` set q) c s (fst (exec_loop e c q m s))"
proof (induction q arbitrary: m s)
  case (Cons x q)
  obtain cmd argv where x: "x = (cmd, argv)" by (cases x)
  let ?b = "SWAPDB \<in> fst ` set (x # q)"
  define s1 where "s1 = upd_client c (\<lambda>cl. cl\<lparr>c_argv := argv, c_cmd := cmd\<rparr>) s"
  define first where "first = (\<not> m \<and> \<not> loading s1 \<and> \<not> cmd_readonly cmd)"
  define s2 where "s2 = (if first then propagate (cur_db s1 c) [str ''MULTI''] s1 else s1)"
  define s3 where "s3 = (if e_acl_ok e c cmd argv then call (run_proc cmd) (\<not> loading s2) c s2
     else addReply c (RErr ''NOPERM ACLs rules changed between the moment the transaction was accumulated and the EXEC call'') s2)"
  have run: "exec_loop e c (x # q) m s = exec_loop e c q (m \<or> first) s3"
    by (simp add: x s1_def first_def s2_def s3_def Let_def)
  have a3: "\<not> aborted s3 \<or> cmd \<noteq> SETRANGE" using exec_loop_aborted [of s3] Cons.prems(1) unfolding run by (auto simp: x)
  have "cstep b c s s1" for b unfolding s1_def by (rule cstep_argv)
  moreover have "cstep b c s1 s2" for b by (simp add: s2_def cstep_refl cstep_quiet quiet_steps)
  ultimately have c2: "cstep b c s s2" for b using cstep_trans by blast
  have cl: "c \<in> set (client_list s2)" using cstep_client_list [OF c2 Cons.prems(3)] Cons.prems(4) by simp
  have "cstep (cmd = SWAPDB) c s2 s3"
  proof (cases "e_acl_ok e c cmd argv")
    case True
    then have s3: "s3 = call (run_proc cmd) (\<not> loading s2) c s2" by (simp add: s3_def)
    have ne: "cmd \<noteq> EXEC" using Cons.prems(2) x by auto
    show ?thesis
      unfolding s3
    proof (rule cstep_call)
      show "cstep (cmd = SWAPDB) c s' (run_proc cmd c s')"
        if "client_list s' = client_list s2" "\<not> aborted (run_proc cmd c s') \<or> cmd \<noteq> SETRANGE" for s'
        using cstep_run_proc [OF ne] cl that by simp
    qed (use a3 s3 in simp)
  qed (simp add: s3_def cstep_addReply cstep_refl)
  then have c3: "cstep ?b c s s3" using cstep_trans [OF c2] cstep_weaken [of "cmd = SWAPDB" c s2 s3 ?b] x by auto
  have ok3: "server_ok s3" "c \<in> set (client_list s3)"
    using c3 Cons.prems(3,4) cstep_client_list cstep_ok by metis+
  have "cstep (SWAPDB \<in> fst ` set q) c s3 (fst (exec_loop e c q (m \<or> first) s3))"
    using Cons.IH [of "m \<or> first" s3] Cons.prems(1,2) ok3 unfolding run by auto
  then have "cstep ?b c s3 (fst (exec_loop e c q (m \<or> first) s3))" by (rule cstep_weaken) simp
  then show ?case unfolding run using c3 cstep_trans by blast
qed (simp add: cstep_refl)

lemma unwatch_aborted: "aborted s \<Longrightarrow> aborted (unwatchAllKeys c s)"
proof -
  have "aborted s \<Longrightarrow> aborted (fold (unwatch_one c) ws s)" for ws s
    by (induction ws arbitrary: s) (simp_all add: unwatch_one_def Let_def case_prod_unfold serverAssert_def)
  then show "aborted s \<Longrightarrow> aborted (unwatchAllKeys c s)" by (simp add: unwatchAllKeys_def)
qed

lemma discard_aborted: "aborted s \<Longrightarrow> aborted (discardTransaction c s)"
  by (simp add: discardTransaction_def unwatch_aborted)

definition queue_ok :: "client \<Rightarrow> bool" where
  "queue_ok cl \<longleftrightarrow> (\<not> c_multi cl \<longrightarrow> c_mstate cl = [] \<and> \<not> c_dirty_exec cl) \<and>
     fst ` set (c_mstate cl) \<inter> {EXEC, DISCARD, MULTI, WATCH} = {} \<and>
     (c_mflags_write cl \<longleftrightarrow> (\<exists>x \<in> set (c_mstate cl). cmd_write (fst x)))"

text \<open>SETRANGE and SWAPDB among the commands of a transaction.\<close>

definition setranges :: "server \<Rightarrow> nat \<Rightarrow> bool" where
  "setranges s c \<longleftrightarrow> SETRANGE \<in> fst ` set (c_mstate (clients s c))"

definition swaps :: "server \<Rightarrow> nat \<Rightarrow> bool" where
  "swaps s c \<longleftrightarrow> SWAPDB \<in> fst ` set (c_mstate (clients s c))"

lemma cstep_exec_body:
  assumes "\<not> aborted (fst (exec_body e c s)) \<or> \<not> setranges s c" "queue_ok (clients s c)" "server_ok s" "c \<in> set (client_list s)"
  shows "cstep (swaps s c) c s (fst (exec_body e c s))"
proof -
  let ?q = "c_mstate (clients s c)"
  define s1 where "s1 = addReply c (RArrayLen (length ?q)) (unwatchAllKeys c s)"
  define r where "r = exec_loop e c ?q False s1"
  have run: "fst (exec_body e c s) = upd_client c (\<lambda>d. d\<lparr>c_argv := c_argv (clients s c), c_cmd := c_cmd (clients s c)\<rparr>) (fst r)"
    by (simp add: exec_body_def Let_def case_prod_unfold s1_def r_def)
  have c1: "cstep b c s s1" for b unfolding s1_def by (rule cstep_addReply [OF cstep_unwatch])
  have "EXEC \<notin> fst ` set ?q" using assms(2) by (auto simp: queue_ok_def)
  moreover have "\<not> aborted (fst r) \<or> SETRANGE \<notin> fst ` set ?q" using assms(1) by (simp add: run setranges_def)
  moreover have "server_ok s1" "c \<in> set (client_list s1)"
    using cstep_ok [OF c1 assms(3)] cstep_client_list [OF c1 assms(3)] assms(4) by simp_all
  ultimately have "cstep (swaps s c) c s1 (fst r)" unfolding r_def swaps_def by (intro cstep_exec_loop) simp_all
  from cstep_trans [OF cstep_trans [OF c1 this] cstep_argv] show ?thesis unfolding run .
qed

lemma cstep_flag: "cstep b c s (flagTransaction c s)"
  by (auto simp: flagTransaction_def ok_cur_db intro!: cstep_own cstep_refl)

lemma cstep_reply_discard: "cstep b c s (discardTransaction c (addReply c r s))"
  by (rule cstep_trans [OF cstep_addReply [OF cstep_refl] cstep_discard])

text \<open>EXEC either runs the whole queue and discards the transaction, or leaves without running anything.\<close>

lemma execCommand_simps:
  "\<not> c_multi (clients s c) \<Longrightarrow> execCommand e c s = addReply c (RErr ''EXEC without MULTI'') s"
  "c_multi (clients s c) \<Longrightarrow> lua_timedout s \<Longrightarrow> execCommand e c s = addReply c (RErr ''BUSY'') (flagTransaction c s)"
  "c_multi (clients s c) \<Longrightarrow> \<not> lua_timedout s \<Longrightarrow> c_dirty_exec (clients s c) \<Longrightarrow> execCommand e c s =
     discardTransaction c (addReply c (RErr ''EXECABORT Transaction discarded because of previous errors.'') s)"
  "c_multi (clients s c) \<Longrightarrow> \<not> lua_timedout s \<Longrightarrow> \<not> c_dirty_exec (clients s c) \<Longrightarrow> c_dirty_cas (clients s c) \<Longrightarrow>
     execCommand e c s = discardTransaction c (addReply c RNullArray s)"
  "c_multi (clients s c) \<Longrightarrow> \<not> lua_timedout s \<Longrightarrow> \<not> c_dirty_exec (clients s c) \<Longrightarrow> \<not> c_dirty_cas (clients s c) \<Longrightarrow>
     execCommand e c s =
     (if \<not> loading s \<and> is_replica s \<and> repl_slave_ro s \<and> \<not> c_master (clients s c) \<and> c_mflags_write (clients s c)
      then discardTransaction c (addReply c (RErr ''Transaction contains write commands but instance is now a read-only replica. EXEC aborted.'') s)
      else if snd (exec_body e c s) then incr_dirty (discardTransaction c (fst (exec_body e c s)))
      else discardTransaction c (fst (exec_body e c s)))"
  by (simp_all add: execCommand_def Let_def case_prod_unfold)

lemma execCommand_cases:
  obtains (no_multi) "\<not> c_multi (clients s c)" "execCommand e c s = addReply c (RErr ''EXEC without MULTI'') s"
  | (busy) "execCommand e c s = addReply c (RErr ''BUSY'') (flagTransaction c s)"
  | (discarded) r where "execCommand e c s = discardTransaction c (addReply c r s)"
  | (run) "c_multi (clients s c)" "\<not> c_dirty_cas (clients s c)" "\<not> c_dirty_exec (clients s c)"
      "execCommand e c s = (if snd (exec_body e c s) then incr_dirty (discardTransaction c (fst (exec_body e c s)))
        else discardTransaction c (fst (exec_body e c s)))"
proof -
  let ?cl = "clients s c"
  let ?ro = "\<not> loading s \<and> is_replica s \<and> repl_slave_ro s \<and> \<not> c_master ?cl \<and> c_mflags_write ?cl"
  consider "\<not> c_multi ?cl" | "c_multi ?cl" "lua_timedout s"
    | "c_multi ?cl" "\<not> lua_timedout s" "c_dirty_exec ?cl"
    | "c_multi ?cl" "\<not> lua_timedout s" "\<not> c_dirty_exec ?cl" "c_dirty_cas ?cl"
    | "c_multi ?cl" "\<not> lua_timedout s" "\<not> c_dirty_exec ?cl" "\<not> c_dirty_cas ?cl" "?ro"
    | "c_multi ?cl" "\<not> lua_timedout s" "\<not> c_dirty_exec ?cl" "\<not> c_dirty_cas ?cl" "\<not> ?ro" by blast
  then show ?thesis
  proof cases
    case 1
    then show ?thesis using no_multi execCommand_simps(1) by blast
  next
    case 2
    then show ?thesis using busy execCommand_simps(2) by blast
  next
    case 3
    then show ?thesis using discarded execCommand_simps(3) by blast
  next
    case 4
    then show ?thesis using discarded execCommand_simps(4) by blast
  next
    case 5
    then show ?thesis using discarded execCommand_simps(5) [OF 5(1-4)] by (simp only: simp_thms if_True)
  next
    case 6
    then show ?thesis using run execCommand_simps(5) [OF 6(1-4)] by (simp only: simp_thms if_False)
  qed
qed

lemma cstep_execCommand:
  assumes "\<not> aborted (execCommand e c s) \<or> \<not> setranges s c" "queue_ok (clients s c)" "server_ok s" "c \<in> set (client_list s)"
  shows "cstep (swaps s c) c s (execCommand e c s)"
proof (cases rule: execCommand_cases [of s c e])
  case run
  then have "\<not> aborted (fst (exec_body e c s)) \<or> \<not> setranges s c"
    using assms(1) discard_aborted by (auto simp: incr_dirty_def split: if_splits)
  then have "cstep (swaps s c) c s (discardTransaction c (fst (exec_body e c s)))"
    using assms cstep_exec_body cstep_discard cstep_trans by blast
  then show ?thesis using run(4) cstep_incr_dirty by auto
qed (auto intro!: cstep_addReply cstep_refl cstep_flag cstep_reply_discard)

section \<open>The queue holds only commands that may be queued\<close>

lemma queue_ok_frame: "client_frame a b \<Longrightarrow> queue_ok a \<Longrightarrow> queue_ok b"
  by (simp add: client_frame_def queue_ok_def)

lemma queue_ok_upd [simp]:
  "queue_ok (cl\<lparr>c_watched := w\<rparr>) = queue_ok cl" "queue_ok (cl\<lparr>c_reply := r\<rparr>) = queue_ok cl"
  "queue_ok (cl\<lparr>c_db := d\<rparr>) = queue_ok cl" "queue_ok (cl\<lparr>c_dirty_cas := x\<rparr>) = queue_ok cl"
  "queue_ok (cl\<lparr>c_argv := v\<rparr>) = queue_ok cl" "queue_ok (cl\<lparr>c_cmd := m\<rparr>) = queue_ok cl"
  by (simp_all add: queue_ok_def)

lemma queue_ok_addReply [simp]: "queue_ok (clients (addReply d r s) c) = queue_ok (clients s c)"
  by (simp add: addReply_def)

lemma queue_ok_wframe: "wframe c s s' \<Longrightarrow> queue_ok (clients s' c) = queue_ok (clients s c)"
  by (auto simp: wframe_def)

lemma queue_ok_discard: "server_ok s \<Longrightarrow> queue_ok (clients (discardTransaction c s) c)"
proof -
  assume ok: "server_ok s"
  let ?t = "upd_client c (\<lambda>cl. cl\<lparr>c_mstate := [], c_mflags_write := False, c_multi := False,
       c_dirty_cas := False, c_dirty_exec := False\<rparr>) s"
  have "cstep True c s ?t" by (rule cstep_own) (simp_all add: ok_cur_db)
  then have "wframe c ?t (unwatchAllKeys c ?t)" using unwatchAllKeys_ok cstep_ok ok by blast
  from queue_ok_wframe [OF this] show ?thesis by (simp add: discardTransaction_def queue_ok_def)
qed

lemma queue_ok_flag: "queue_ok (clients s c) \<Longrightarrow> queue_ok (clients (flagTransaction c s) c)"
  by (simp add: flagTransaction_def queue_ok_def)

lemma queue_ok_run_proc:
  assumes "cmd \<noteq> EXEC" "server_ok s" "c \<in> set (client_list s)" "\<not> aborted (run_proc cmd c s)" "queue_ok (clients s c)"
  shows "queue_ok (clients (run_proc cmd c s) c)"
proof (cases "data_command cmd")
  case True
  then show ?thesis
    using kstep_frame [OF kstep_run_proc [OF True] assms(2)] assms(4) assms(5) queue_ok_frame by blast
next
  case False
  have "clients (fst (dbSwapDatabases a b s)) = clients s" for a b using swap_ok [OF assms(2)] by simp
  then have sw: "queue_ok (clients (swapdbCommand c s) c)"
    using assms(5) by (simp add: swapdbCommand_def getLongLongFromObjectOrReply_def case_prod_unfold incr_dirty_def
        split: option.splits bool.splits)
  have se: "queue_ok (clients (selectCommand c s) c)"
    using assms(5) by (simp add: selectCommand_def getLongLongFromObjectOrReply_def selectDb_def case_prod_unfold
        split: option.splits bool.splits)
  have mu: "queue_ok (clients (multiCommand c s) c)"
    using assms(5) by (auto simp: multiCommand_def queue_ok_def addReply_def)
  have di: "queue_ok (clients (discardCommand c s) c)"
    using assms(5) queue_ok_discard [OF assms(2)] by (simp add: discardCommand_def)
  have wa: "queue_ok (clients (watchCommand c s) c)"
    using assms(5) queue_ok_wframe [OF conjunct2 [OF cstep_fold_watch [OF assms(2,3)]]] by (simp add: watchCommand_def)
  have un: "queue_ok (clients (unwatchCommand c s) c)"
    using assms(5) unwatchAllKeys_ok [OF assms(2), of c] queue_ok_wframe [of c s "unwatchAllKeys c s"]
    by (simp add: unwatchCommand_def)
  show ?thesis using False assms(1) sw se mu di wa un by (auto simp: data_command_def run_proc_def)
qed

lemma queue_ok_exec:
  assumes "server_ok s" "c \<in> set (client_list s)" "\<not> aborted (execCommand e c s)" "queue_ok (clients s c)"
  shows "queue_ok (clients (execCommand e c s) c)"
proof (cases rule: execCommand_cases [of s c e])
  case no_multi
  then show ?thesis using assms(4) by simp
next
  case busy
  then show ?thesis using assms(4) queue_ok_flag by simp
next
  case (discarded r)
  have "server_ok (addReply c r s)" using cstep_ok [OF cstep_addReply [OF cstep_refl] assms(1)] .
  then show ?thesis using discarded(1) queue_ok_discard by simp
next
  case run
  then have "\<not> aborted (fst (exec_body e c s))"
    using assms(3) discard_aborted by (auto simp: incr_dirty_def split: if_splits)
  then have "server_ok (fst (exec_body e c s))" using assms cstep_exec_body cstep_ok by blast
  then show ?thesis using run(4) queue_ok_discard by (auto simp: incr_dirty_def)
qed

text \<open>The command that a client sends now is, or contains, SWAPDB or SETRANGE.\<close>

definition swap_request :: "server \<Rightarrow> nat \<Rightarrow> bool" where
  "swap_request s c \<longleftrightarrow> lookupCommand (arg s c 0) = Some SWAPDB \<or> (lookupCommand (arg s c 0) = Some EXEC \<and> swaps s c)"

definition setrange_request :: "server \<Rightarrow> nat \<Rightarrow> bool" where
  "setrange_request s c \<longleftrightarrow>
     lookupCommand (arg s c 0) = Some SETRANGE \<or> (lookupCommand (arg s c 0) = Some EXEC \<and> setranges s c)"

lemma cstep_refuse: "cstep b c s (refuse c msg s)"
  unfolding refuse_def by (rule cstep_addReply [OF cstep_flag])

lemma queue_ok_refuse: "queue_ok (clients s c) \<Longrightarrow> queue_ok (clients (refuse c msg s) c)"
  by (simp add: refuse_def queue_ok_flag)

lemma queue_ok_queue:
  "queue_ok (clients s c) \<Longrightarrow> c_multi (clients s c) \<Longrightarrow> c_cmd (clients s c) \<notin> {EXEC, DISCARD, MULTI, WATCH} \<Longrightarrow>
   queue_ok (clients (queueMultiCommand c s) c)"
  by (auto simp: queueMultiCommand_def queue_ok_def)

lemma cstep_queue: "cstep b c s (queueMultiCommand c s)"
  by (auto simp: queueMultiCommand_def ok_cur_db intro!: cstep_refl cstep_own)

lemma call_queue_ok:
  assumes "\<not> aborted s"
    "\<And>s'. clients s' = clients s \<Longrightarrow> client_list s' = client_list s \<Longrightarrow> server_ok s' = server_ok s \<Longrightarrow>
       aborted (proc c s') = aborted (call proc full c s) \<Longrightarrow> queue_ok (clients (proc c s') c)"
  shows "queue_ok (clients (call proc full c s) c)"
proof -
  define s1 where "s1 = s\<lparr>fixed_time_expire := fixed_time_expire s + 1, cached_mstime := mstime s,
    current_readonly := (cmd_readonly (c_cmd (clients s c)) \<and> \<not> c_master (clients s c))\<rparr>"
  have c: "clients (call proc full c s) = clients (proc c s1)" "aborted (call proc full c s) = aborted (proc c s1)"
    using assms(1) by (simp_all add: call_def s1_def Let_def propagate_def)
  have "server_ok s1 = server_ok s" by (simp add: s1_def server_ok_def watch_ok_def)
  then have "queue_ok (clients (proc c s1) c)" by (intro assms(2)) (simp_all add: c s1_def)
  then show ?thesis by (simp add: c)
qed

lemma processCommand_cases:
  obtains (quit) "processCommand e c s = addReply c ROk s"
  | (unknown) "processCommand e c s = refuse c ''unknown command'' s"
  | (refused) msg cmd where "processCommand e c s = refuse c msg (upd_client c (\<lambda>cl. cl\<lparr>c_cmd := cmd\<rparr>) s)"
  | (denied) msg cmd where "processCommand e c s = addReply c (RErr msg) (upd_client c (\<lambda>cl. cl\<lparr>c_cmd := cmd\<rparr>) s)"
  | (runs) cmd where "lookupCommand (arg s c 0) = Some cmd"
      "processCommand e c s = dispatch e c cmd (upd_client c (\<lambda>cl. cl\<lparr>c_cmd := cmd\<rparr>) s)"
proof (cases "strcaseeq (takeWhile (\<lambda>x. x \<noteq> 0) (arg s c 0)) ''quit''")
  case True
  then show ?thesis using quit by (simp add: processCommand_def)
next
  case nq: False
  show ?thesis
  proof (cases "lookupCommand (arg s c 0)")
    case None
    then show ?thesis using nq unknown by (simp add: processCommand_def)
  next
    case (Some cmd)
    let ?s = "upd_client c (\<lambda>cl. cl\<lparr>c_cmd := cmd\<rparr>) s"
    have run: "processCommand e c s = (case check_command e c cmd ?s of
        Some (True, msg) \<Rightarrow> refuse c msg ?s | Some (False, msg) \<Rightarrow> addReply c (RErr msg) ?s | None \<Rightarrow> dispatch e c cmd ?s)"
      using nq Some by (simp add: processCommand_def Let_def)
    show ?thesis
      using run refused [of _ cmd] denied [of _ cmd] runs [OF Some] by (auto split: option.splits prod.splits bool.splits)
  qed
qed

lemma cstep_proc_of:
  assumes "\<not> aborted (proc_of e cmd c s) \<or> \<not> (cmd = SETRANGE \<or> (cmd = EXEC \<and> setranges s c))" "queue_ok (clients s c)" "c \<in> set (client_list s)"
  shows "cstep (cmd = SWAPDB \<or> (cmd = EXEC \<and> swaps s c)) c s (proc_of e cmd c s)"
proof (rule cstep_premise)
  assume ok: "server_ok s"
  show ?thesis
  proof (cases "cmd = EXEC")
    case True
    then show ?thesis using cstep_execCommand [OF _ assms(2) ok assms(3)] assms(1) by (simp add: proc_of_def)
  next
    case False
    then show ?thesis using cstep_run_proc [OF False assms(3)] assms(1) by (simp add: proc_of_def)
  qed
qed

lemma cstep_processCommand:
  assumes "\<not> aborted (processCommand e c s) \<or> \<not> setrange_request s c" "queue_ok (clients s c)" "c \<in> set (client_list s)"
  shows "cstep (swap_request s c) c s (processCommand e c s)"
proof (cases rule: processCommand_cases [of e c s])
  case (runs cmd)
  let ?s = "upd_client c (\<lambda>cl. cl\<lparr>c_cmd := cmd\<rparr>) s"
  have c0: "cstep b c s ?s" for b by (rule cstep_own) (simp_all add: ok_cur_db)
  have sw: "swap_request s c = (cmd = SWAPDB \<or> (cmd = EXEC \<and> swaps ?s c))"
    by (simp add: swap_request_def runs(1) swaps_def)
  have "cstep (swap_request s c) c ?s (dispatch e c cmd ?s)"
  proof (cases "c_multi (clients ?s c) \<and> cmd \<notin> {EXEC, DISCARD, MULTI, WATCH}")
    case True
    then show ?thesis unfolding dispatch_def by (simp add: cstep_addReply cstep_queue)
  next
    case False
    then have d: "dispatch e c cmd ?s = call (proc_of e cmd) True c ?s" unfolding dispatch_def by (simp only: if_False)
    show ?thesis
      unfolding d sw
    proof (rule cstep_call [where P = "\<not> setrange_request s c"])
      show "cstep (cmd = SWAPDB \<or> cmd = EXEC \<and> swaps ?s c) c s' (proc_of e cmd c s')"
        if "clients s' = clients ?s" "client_list s' = client_list ?s"
          "\<not> aborted (proc_of e cmd c s') \<or> \<not> setrange_request s c" for s'
        using cstep_proc_of [of e cmd c s'] that assms(2,3)
        by (auto simp: swaps_def setrange_request_def setranges_def runs(1))
    qed (use assms(1) runs(2) d in simp)
  qed
  then show ?thesis unfolding runs(2) using c0 cstep_trans by blast
next
  case (refused msg cmd)
  then show ?thesis using cstep_trans [OF cstep_own cstep_refuse] by (simp add: ok_cur_db)
next
  case (denied msg cmd)
  then show ?thesis using cstep_addReply [OF cstep_own] by (simp add: ok_cur_db)
qed (simp_all add: cstep_addReply cstep_refl cstep_refuse)

lemma queue_ok_processCommand:
  assumes "\<not> aborted (processCommand e c s)" "server_ok s" "queue_ok (clients s c)" "c \<in> set (client_list s)"
  shows "queue_ok (clients (processCommand e c s) c)"
proof (cases rule: processCommand_cases [of e c s])
  case (runs cmd)
  let ?s = "upd_client c (\<lambda>cl. cl\<lparr>c_cmd := cmd\<rparr>) s"
  have ok: "server_ok ?s" using cstep_own [of "\<lambda>cl. cl\<lparr>c_cmd := cmd\<rparr>" s c True] assms(2) cstep_ok by (simp add: ok_cur_db)
  have na: "\<not> aborted ?s" using assms(2) by (simp add: server_ok_def)
  show ?thesis
  proof (cases "c_multi (clients ?s c) \<and> cmd \<notin> {EXEC, DISCARD, MULTI, WATCH}")
    case True
    then show ?thesis using queue_ok_queue [of ?s c] assms(3) by (simp add: runs(2) dispatch_def)
  next
    case False
    then have d: "dispatch e c cmd ?s = call (proc_of e cmd) True c ?s" unfolding dispatch_def by (simp only: if_False)
    show ?thesis
      unfolding runs(2) d
    proof (rule call_queue_ok [OF na])
      show "queue_ok (clients (proc_of e cmd c s') c)"
        if "clients s' = clients ?s" "client_list s' = client_list ?s" "server_ok s' = server_ok ?s"
          "aborted (proc_of e cmd c s') = aborted (call (proc_of e cmd) True c ?s)" for s'
        using that assms(1,3,4) ok queue_ok_exec [of s' c e] queue_ok_run_proc [of cmd s' c]
        by (auto simp: proc_of_def runs(2) d split: if_splits)
    qed
  qed
qed (use assms(3) queue_ok_refuse in \<open>simp_all\<close>)

section \<open>The server as a step relation\<close>

definition connectClient :: "nat \<Rightarrow> server \<Rightarrow> server" where
  "connectClient c s = s\<lparr>client_list := client_list s @ [c], clients := (clients s)(c := new_client)\<rparr>"

definition freeClient :: "nat \<Rightarrow> server \<Rightarrow> server" where
  "freeClient c s =
     (let s = unwatchAllKeys c s
      in s\<lparr>client_list := remove1 c (client_list s), clients := (clients s)(c := new_client)\<rparr>)"

inductive server_step :: "env \<Rightarrow> server \<Rightarrow> server \<Rightarrow> bool" for e where
  command: "c \<in> set (client_list s) \<Longrightarrow> \<not> aborted s \<Longrightarrow> v \<noteq> [] \<Longrightarrow>
    server_step e s (processCommand e c (set_argv c v s))"
| connect: "c \<notin> set (client_list s) \<Longrightarrow> \<not> aborted s \<Longrightarrow> server_step e s (connectClient c s)"
| leave: "c \<in> set (client_list s) \<Longrightarrow> \<not> aborted s \<Longrightarrow> server_step e s (freeClient c s)"
| tick: "clock s \<le> t \<Longrightarrow> \<not> aborted s \<Longrightarrow> server_step e s (s\<lparr>clock := t\<rparr>)"
| active_expire: "i < length (dbs s) \<Longrightarrow> expires_at s i k = Some t \<Longrightarrow> \<not> aborted s \<Longrightarrow>
    server_step e s (fst (activeExpireCycleTryExpire i k t (mstime s) s))"

inductive_cases server_stepE: "server_step e s s'"

definition initial :: "server \<Rightarrow> bool" where
  "initial s \<longleftrightarrow> dbs s \<noteq> [] \<and> (\<forall>db \<in> set (dbs s). db = empty_db) \<and> (\<forall>c. clients s c = new_client) \<and>
     client_list s = [] \<and> \<not> aborted s"

definition system_ok :: "server \<Rightarrow> bool" where
  "system_ok s \<longleftrightarrow> server_ok s \<and> (\<forall>c. queue_ok (clients s c)) \<and> distinct (client_list s)"

lemma initial_ok: "initial s \<Longrightarrow> system_ok s"
proof -
  assume i: "initial s"
  have db: "dbs s ! i = empty_db" if "i < length (dbs s)" for i using i that by (simp add: initial_def)
  have cl: "clients s c = new_client" "dbs s \<noteq> []" "\<not> aborted s" "client_list s = []" for c
    using i by (simp_all add: initial_def)
  have "watch_ok s" by (rule watch_okI) (simp_all add: db cl empty_db_def new_client_def)
  moreover have "\<forall>db \<in> set (dbs s). db_ok db" using i by (auto simp: initial_def db_ok_def empty_db_def)
  ultimately show "system_ok s"
    by (simp add: system_ok_def server_ok_def cl) (simp add: queue_ok_def new_client_def cl)
qed

lemma system_ok_cstep:
  assumes "cstep b c s s'" "system_ok s" "queue_ok (clients s' c)"
  shows "system_ok s'"
proof -
  have ok: "server_ok s" using assms(2) by (simp add: system_ok_def)
  have "queue_ok (clients s' d)" for d
    using assms ok queue_ok_frame [of "clients s d" "clients s' d"] by (cases "d = c") (auto simp: cstep_def system_ok_def)
  then show ?thesis using assms(1,2) ok by (simp add: cstep_def system_ok_def)
qed

lemma set_argv_clients: "client_list (set_argv c v s) = client_list s"
  by (simp add: set_argv_def)

lemma set_argv_step: "cstep b c s (set_argv c v s)"
  by (rule cstep_quiet) (rule quiet_set_argv)

lemma system_ok_command:
  assumes "system_ok s" "c \<in> set (client_list s)" "\<not> aborted (processCommand e c (set_argv c v s))"
  shows "system_ok (processCommand e c (set_argv c v s))"
proof -
  let ?s = "set_argv c v s"
  have q: "queue_ok (clients ?s c)" using assms(1) by (simp add: system_ok_def set_argv_def)
  have ok: "system_ok ?s" by (rule system_ok_cstep [OF set_argv_step [of True] assms(1) q])
  have "c \<in> set (client_list ?s)" using assms(2) by (simp add: set_argv_def)
  moreover have "server_ok ?s" using ok by (simp add: system_ok_def)
  ultimately have "queue_ok (clients (processCommand e c ?s) c)" "cstep (swap_request ?s c) c ?s (processCommand e c ?s)"
    using queue_ok_processCommand [OF assms(3)] cstep_processCommand [of e c ?s] q assms(3) by blast+
  then show ?thesis using system_ok_cstep ok by blast
qed

lemma new_client_queue: "queue_ok new_client"
  by (simp add: queue_ok_def new_client_def)

lemma system_ok_reset:
  assumes "system_ok s" "c_watched (clients s c) = []" "distinct cs"
    "\<And>d. d \<noteq> c \<Longrightarrow> d \<in> set (client_list s) \<Longrightarrow> d \<in> set cs"
  shows "system_ok (s\<lparr>client_list := cs, clients := (clients s)(c := new_client)\<rparr>)"
proof -
  let ?t = "s\<lparr>client_list := cs, clients := (clients s)(c := new_client)\<rparr>"
  have ok: "server_ok s" "\<And>d. queue_ok (clients s d)" using assms(1) by (simp_all add: system_ok_def)
  have len: "0 < length (dbs s)" using ok_cur_db [OF ok(1), of c] by linarith
  have nw: "\<not> watching s c i k" for i k using assms(2) by simp
  have wo: "watch_ok s" using ok(1) by (simp add: server_ok_def)
  have w: "watching ?t d i k \<longleftrightarrow> watching s d i k" for d i k using nw by (simp add: new_client_def)
  have "watch_ok ?t"
  proof (rule watch_okI)
    show "(\<exists>xs. db_watched (dbs ?t ! i) k = Some xs \<and> d \<in> set xs) \<longleftrightarrow> watching ?t d i k" if "i < length (dbs ?t)" for i k d
      using watch_ok_mem [OF wo, of i k d] that unfolding w by simp
    show "watching ?t d i k \<Longrightarrow> i < length (dbs ?t)" for d i k unfolding w using wo by (auto simp: watch_ok_def)
  qed (use wo in \<open>auto simp: watch_ok_def new_client_def\<close>)
  moreover have "c_db (clients ?t d) < length (dbs s) \<and> (c_watched (clients ?t d) \<noteq> [] \<longrightarrow> d \<in> set cs)" for d
    using ok(1) len assms(4) by (simp add: server_ok_def new_client_def)
  ultimately show ?thesis
    using ok assms(3) new_client_queue by (simp add: system_ok_def server_ok_def)
qed

lemma system_ok_step: "server_step e s s' \<Longrightarrow> system_ok s \<Longrightarrow> \<not> aborted s' \<Longrightarrow> system_ok s'"
proof (induction rule: server_step.induct)
  case (command c s v)
  then show ?case using system_ok_command by blast
next
  case (connect c s)
  then have "c_watched (clients s c) = []" by (auto simp: system_ok_def server_ok_def)
  then show ?case
    unfolding connectClient_def using connect by (intro system_ok_reset) (simp_all add: system_ok_def)
next
  case (leave c s)
  let ?t = "unwatchAllKeys c s"
  have u: "server_ok ?t" "wframe c s ?t" "c_watched (clients ?t c) = []"
    using unwatchAllKeys_ok [of s c] leave.prems(1) by (auto simp: system_ok_def)
  have "system_ok ?t"
    using system_ok_cstep [OF cstep_unwatch [of True] leave.prems(1)] queue_ok_wframe [OF u(2)] leave.prems(1)
    by (simp add: system_ok_def)
  then show ?case
    unfolding freeClient_def Let_def using u by (intro system_ok_reset) (simp_all add: system_ok_def)
next
  case (tick s t)
  then show ?case by (simp add: system_ok_def server_ok_clock)
next
  case (active_expire i s k t)
  let ?t = "fst (activeExpireCycleTryExpire i k t (mstime s) s)"
  have "kstep {(i, k)} s ?t"
    using active_expire(1) by (auto simp: activeExpireCycleTryExpire_def propagateExpire_def Let_def intro!: kstep_intros)
  moreover have ok: "server_ok s" "\<And>d. queue_ok (clients s d)" "distinct (client_list s)"
    using active_expire.prems(1) by (simp_all add: system_ok_def)
  ultimately have "server_ok ?t" "config_frame s ?t" "\<And>d. client_frame (clients s d) (clients ?t d)"
    using kstep_ok kstep_config kstep_frame by blast+
  then have "server_ok ?t" "client_list ?t = client_list s" "\<And>d. queue_ok (clients ?t d)"
    using ok(2) queue_ok_frame unfolding config_frame_def by blast+
  then show ?case using ok by (simp add: system_ok_def)
qed

text \<open>C2: in every state that a server with connecting and leaving clients, commands, time and the
  active expire cycle can reach, unless an assertion has failed, every key with a time to live
  exists, watched keys and watching clients refer to each other, clients select existing
  databases, and transactions queue only commands that may be queued and are empty outside MULTI.\<close>

theorem reachable_invariant:
  assumes "(server_step e)\<^sup>*\<^sup>* s0 s" "initial s0"
  shows "aborted s \<or> system_ok s"
  using assms
proof (induction rule: rtranclp_induct)
  case base
  then show ?case using initial_ok by blast
next
  case (step s s')
  then have "\<not> aborted s" by (auto elim: server_stepE)
  then show ?case using step system_ok_step by blast
qed

lemma processCommand_safe:
  assumes "system_ok s" "c \<in> set (client_list s)" "\<not> setrange_request (set_argv c v s) c"
  shows "server_ok (processCommand e c (set_argv c v s))"
proof -
  let ?s = "set_argv c v s"
  have q: "queue_ok (clients ?s c)" using assms(1) by (simp add: system_ok_def set_argv_def)
  have "server_ok ?s" using assms(1) ok_set_argv by (simp add: system_ok_def)
  then show ?thesis
    using cstep_processCommand [of e c ?s] q assms(2,3) cstep_ok by (metis set_argv_clients)
qed

section \<open>Deadlines\<close>

text \<open>A command sees the time at which \<^verbatim>\<open>call\<close> was entered, and leaves what it is given when it returns.\<close>

definition call_entry :: "nat \<Rightarrow> server \<Rightarrow> server" where
  "call_entry c s = s\<lparr>fixed_time_expire := fixed_time_expire s + 1, cached_mstime := mstime s,
     current_readonly := (cmd_readonly (c_cmd (clients s c)) \<and> \<not> c_master (clients s c))\<rparr>"

lemma call_entry_simps [simp]:
  "dbs (call_entry c s) = dbs s" "clients (call_entry c s) = clients s" "clock (call_entry c s) = clock s"
  "is_replica (call_entry c s) = is_replica s" "loading (call_entry c s) = loading s" "lua_time (call_entry c s) = lua_time s"
  "server_ok (call_entry c s) = server_ok s"
  by (simp_all add: call_entry_def server_ok_def watch_ok_def)

lemma lua_time_set_argv [simp]: "lua_time (set_argv c v s) = lua_time s"
  by (simp add: set_argv_def upd_client_def)

lemma expired_call_entry:
  "\<not> loading s \<Longrightarrow> lua_time s = None \<Longrightarrow> expired (call_entry c s) i k \<longleftrightarrow> (\<exists>w. expires_at s i k = Some w \<and> 0 \<le> w \<and> w < clock s)"
  by (auto simp: expired_def expire_now_def call_entry_def mstime_def split: option.splits)

lemma call_fields:
  assumes "\<not> aborted s"
  shows "dbs (call proc full c s) = dbs (proc c (call_entry c s))"
    "clients (call proc full c s) = clients (proc c (call_entry c s))"
    "lua_timedout (call proc full c s) = lua_timedout (proc c (call_entry c s))"
  using assms by (simp_all add: call_def call_entry_def Let_def propagate_def)

lemma call_kstep:
  assumes "server_ok s" "\<And>t. kstep {} t (proc c t)"
  shows "server_ok (call proc full c s)" "c_db (clients (call proc full c s) c) = c_db (clients s c)"
    "clock (call proc full c s) = clock s" "is_replica (call proc full c s) = is_replica s"
    "loading (call proc full c s) = loading s" "lua_time (call proc full c s) = lua_time s"
proof -
  let ?t = "proc c (call_entry c s)"
  have e: "server_ok (call_entry c s)" using assms(1) by simp
  note k = assms(2) [of "call_entry c s"]
  have na: "\<not> aborted s" using assms(1) by (simp add: server_ok_def)
  have "clock (call proc full c s) = clock ?t" "is_replica (call proc full c s) = is_replica ?t"
    "loading (call proc full c s) = loading ?t" "lua_time (call proc full c s) = lua_time ?t"
    "clients (call proc full c s) = clients ?t" "server_ok (call proc full c s) = server_ok ?t"
    using na by (simp_all add: call_def call_entry_def Let_def propagate_def server_ok_def watch_ok_def)
  then show "server_ok (call proc full c s)" "c_db (clients (call proc full c s) c) = c_db (clients s c)"
    "clock (call proc full c s) = clock s" "is_replica (call proc full c s) = is_replica s"
    "loading (call proc full c s) = loading s" "lua_time (call proc full c s) = lua_time s"
    using kstep_ok [OF k e] cur_db_command [OF e k, of c] kstep_config [OF k e] by (simp_all add: config_frame_def)
qed

text \<open>C28: EXPIRE, run by \<^verbatim>\<open>call\<close> on a master with no script running, gives a key a deadline: the reply
  is 1, no other key changes, PTTL replies the whole time, and whatever the clock is when GET is called, it
  replies the value up to the deadline and nil after it. The commands compare the deadline with the time
  that \<^verbatim>\<open>call\<close> has cached for them.\<close>

theorem expire_deadline:
  assumes "server_ok s" "\<not> is_replica s" "\<not> loading s" "lua_time s = None" "0 \<le> clock s"
    "i = cur_db s c" "dict_at s i k = Some v" "\<forall>w. expires_at s i k = Some w \<longrightarrow> clock s \<le> w" "otype_of v = OBJ_STRING"
    "is_ll n" "0 < n" "n * 1000 + clock s \<le> LLONG_MAX"
    "s1 = call (run_proc EXPIRE) True c (set_argv c [a, k, sdec n] s)"
  shows "last_reply s1 c = RInt 1 \<and> others i k s s1 \<and>
    last_reply (call (run_proc PTTL) True c (set_argv c [b, k] s1)) c = RInt (n * 1000) \<and>
    (\<forall>t. last_reply (call (run_proc GET) True c (set_argv c [b, k] (s1\<lparr>clock := t\<rparr>))) c =
       (if t > clock s + n * 1000 then RNull else RBulk (getDecodedObject v)))"
proof -
  let ?s0 = "set_argv c [a, k, sdec n] s" and ?w = "n * 1000 + clock s"
  let ?e = "call_entry c ?s0"
  have ok0: "server_ok ?s0" using assms(1) ok_set_argv by simp
  have na: "\<not> aborted ?s0" using ok0 by (simp add: server_ok_def)
  have ex: "kstep {} t (run_proc EXPIRE d t)" for d t
    by (simp add: run_proc_def expireCommand_def kstep_expireGeneric)
  have c0: "loading ?s0 = loading s" "lua_time ?s0 = lua_time s" "is_replica ?s0 = is_replica s" by simp_all
  have "\<not> expired ?e i k" using expired_call_entry [of ?s0 c i k] assms(3,4,8) c0 by auto
  then have lv: "live_val ?e i k = Some v" using assms(7) by (simp add: live_val_def)
  have e: "last_reply s1 c = RInt 1" "others i k s s1" "dict_at s1 i k = Some v" "expires_at s1 i k = Some ?w"
    using expireCommand_effect [OF _ _ _ _ assms(10,11) lv, of c] ok0 assms(5,6,12) call_fields(1,2) [OF na, of "run_proc EXPIRE" True c]
    by (simp_all add: assms(13) run_proc_def others_def last_reply_def)
  have f: "server_ok s1" "cur_db s1 c = i" "clock s1 = clock s" "\<not> is_replica s1" "\<not> loading s1" "lua_time s1 = None"
    using call_kstep [of ?s0 "run_proc EXPIRE" c True, OF ok0 ex] assms(2-4,6) c0 by (simp_all add: assms(13))
  have x: "expired (call_entry c (set_argv c [b, k] (s1\<lparr>clock := t\<rparr>))) i k \<longleftrightarrow> t > ?w" for t
    using expired_call_entry [of "set_argv c [b, k] (s1\<lparr>clock := t\<rparr>)" c i k] e(4) f(5,6) assms(5,11) by simp
  have g: "last_reply (call proc True c u) c = last_reply (proc c (call_entry c u)) c" if "server_ok u" for proc u
    using call_fields(2) [of u] that by (simp add: server_ok_def last_reply_def)
  have get: "last_reply (call (run_proc GET) True c (set_argv c [b, k] (s1\<lparr>clock := t\<rparr>))) c =
       (if t > clock s + n * 1000 then RNull else RBulk (getDecodedObject v))" for t
  proof -
    let ?u = "set_argv c [b, k] (s1\<lparr>clock := t\<rparr>)"
    have u: "server_ok ?u" using f(1) by (simp add: server_ok_clock ok_set_argv)
    then show ?thesis
      using getCommand_master [of "call_entry c ?u" i c k v] x [of t] f(2,4) e(3) assms(9)
      by (simp add: g run_proc_def add.commute)
  qed
  have "last_reply (call (run_proc PTTL) True c (set_argv c [b, k] s1)) c = RInt (?w - clock s)"
  proof -
    let ?u = "set_argv c [b, k] s1"
    have u: "server_ok ?u" using f(1) ok_set_argv by simp
    have "\<not> expired (call_entry c ?u) i k" using expired_call_entry [of ?u c i k] e(4) f(3,5,6) assms(11) by simp
    then show ?thesis
      using pttlCommand_master [of "call_entry c ?u" i c k ?w] u f(2-4) e(3,4) assms(5,10-12)
      by (simp add: g run_proc_def is_ll_def ll_defs)
  qed
  then show ?thesis using e get by simp
qed

section \<open>Optimistic locking\<close>

text \<open>Steps of clients other than \<open>c\<close>, none of which asks for SWAPDB, and the passing of time.\<close>

inductive others_step :: "env \<Rightarrow> nat \<Rightarrow> server \<Rightarrow> server \<Rightarrow> bool" for e c where
  command: "d \<in> set (client_list s) \<Longrightarrow> d \<noteq> c \<Longrightarrow> \<not> swap_request (set_argv d v s) d \<Longrightarrow>
    others_step e c s (processCommand e d (set_argv d v s))"
| tick: "clock s \<le> t \<Longrightarrow> others_step e c s (s\<lparr>clock := t\<rparr>)"

lemma processCommand_sticky: "aborted s \<Longrightarrow> aborted (processCommand e c s)"
  by (cases rule: processCommand_cases [of e c s])
     (simp_all add: addReply_def refuse_def flagTransaction_def dispatch_def queueMultiCommand_def call_aborted)

lemma others_step_sticky: "others_step e c s s' \<Longrightarrow> aborted s \<Longrightarrow> aborted s'"
  by (induction rule: others_step.induct) (simp_all add: processCommand_sticky set_argv_def)

text \<open>What client \<open>c\<close> relies on: it stays in its transaction, keeps its watches, and each watched key
  has its old value or the client is marked.\<close>

definition guarded :: "nat \<Rightarrow> server \<Rightarrow> server \<Rightarrow> bool" where
  "guarded c s s' \<longleftrightarrow> client_frame (clients s c) (clients s' c) \<and>
     (\<forall>i k. watching s c i k \<longrightarrow> dict_at s' i k = dict_at s i k \<or> c_dirty_cas (clients s' c))"

lemma guarded_trans: "guarded c s t \<Longrightarrow> guarded c t u \<Longrightarrow> guarded c s u"
proof -
  assume a: "guarded c s t" "guarded c t u"
  have "c_watched (clients t c) = c_watched (clients s c)" "c_dirty_cas (clients t c) \<Longrightarrow> c_dirty_cas (clients u c)"
    using a by (simp_all add: guarded_def client_frame_def)
  then show ?thesis using a client_frame_trans unfolding guarded_def by metis
qed

lemma others_step_guarded:
  "others_step e c s s' \<Longrightarrow> system_ok s \<Longrightarrow> \<not> aborted s' \<Longrightarrow> system_ok s' \<and> guarded c s s'"
proof (induction rule: others_step.induct)
  case (command d s v)
  let ?s = "set_argv d v s"
  have "server_ok ?s" "queue_ok (clients ?s d)" "d \<in> set (client_list ?s)"
    using command ok_set_argv by (simp_all add: system_ok_def set_argv_def)
  then have "cstep False d ?s (processCommand e d ?s)"
    using cstep_processCommand [of e d ?s] command by (simp add: system_ok_def)
  then have "guarded c ?s (processCommand e d ?s)"
    using \<open>server_ok ?s\<close> command(2) by (auto simp: cstep_def guarded_def)
  moreover have "guarded c s ?s" using command(2) by (simp add: guarded_def set_argv_def)
  ultimately show ?case using guarded_trans system_ok_command command by blast
next
  case (tick s t)
  then show ?case by (simp add: guarded_def system_ok_def server_ok_clock)
qed

lemma others_steps_guarded:
  "(others_step e c)\<^sup>*\<^sup>* s s' \<Longrightarrow> system_ok s \<Longrightarrow> \<not> aborted s' \<Longrightarrow> system_ok s' \<and> guarded c s s'"
proof (induction rule: rtranclp_induct)
  case base
  then show ?case by (simp add: guarded_def)
next
  case (step t u)
  then have "\<not> aborted t" using others_step_sticky by blast
  then show ?case using step others_step_guarded guarded_trans by blast
qed

text \<open>C1: WATCH, MULTI, EXEC as an optimistic lock. If, while a client waits with its transaction, the
  commands of other clients (without SWAPDB) have changed the value of a key that it watches, in
  whatever order and number, EXEC replies nil, runs no queued command, changes no key, and ends
  the transaction with no key watched.\<close>

theorem exec_optimistic_lock:
  assumes "system_ok s" "(others_step e c)\<^sup>*\<^sup>* s s'" "\<not> aborted s'" "watching s c i k"
    "dict_at s' i k \<noteq> dict_at s i k" "c_multi (clients s c)" "\<not> c_dirty_exec (clients s c)" "\<not> lua_timedout s'"
  shows "last_reply (execCommand e c s') c = RNullArray \<and>
    (\<forall>j. dict_at (execCommand e c s') j = dict_at s' j \<and> expires_at (execCommand e c s') j = expires_at s' j) \<and>
    \<not> c_multi (clients (execCommand e c s') c) \<and> c_mstate (clients (execCommand e c s') c) = [] \<and>
    c_watched (clients (execCommand e c s') c) = []"
proof -
  have g: "system_ok s'" "guarded c s s'" using others_steps_guarded [OF assms(2,1,3)] by blast+
  then have "c_multi (clients s' c)" "\<not> c_dirty_exec (clients s' c)" "c_dirty_cas (clients s' c)"
    using assms(4-7) by (auto simp: guarded_def client_frame_def)
  then have run: "execCommand e c s' = discardTransaction c (addReply c RNullArray s')"
    using execCommand_simps(4) assms(8) by blast
  let ?t = "upd_client c (\<lambda>cl. cl\<lparr>c_mstate := [], c_mflags_write := False, c_multi := False,
       c_dirty_cas := False, c_dirty_exec := False\<rparr>) (addReply c RNullArray s')"
  have "server_ok (addReply c RNullArray s')"
    using cstep_ok [OF cstep_addReply [OF cstep_refl]] g(1) by (simp add: system_ok_def)
  moreover have "cstep True c (addReply c RNullArray s') ?t"
    by (rule cstep_own) (use ok_cur_db [of "addReply c RNullArray s'" c] in simp_all)
  ultimately have "server_ok ?t" using cstep_ok by blast
  then have u: "wframe c ?t (unwatchAllKeys c ?t)" "c_watched (clients (unwatchAllKeys c ?t) c) = []"
    using unwatchAllKeys_ok by blast+
  obtain w where w: "clients (unwatchAllKeys c ?t) c = (clients ?t c)\<lparr>c_watched := w\<rparr>" using u(1) by (auto simp: wframe_def)
  show ?thesis
    unfolding run discardTransaction_def using u w by (simp add: wframe_def last_reply_def addReply_def)
qed

text \<open>C36: SWAPDB replaces the values of two databases without a signal: a client that watches a key
  whose value differs between them is not marked, so that its transaction goes on although the
  key has changed.\<close>

theorem swapdb_unsignalled:
  assumes "arg s d 1 = sdec (int i)" "arg s d 2 = sdec (int j)" "is_ll (int i)" "is_ll (int j)"
    "i < length (dbs s)" "j < length (dbs s)" "i \<noteq> j" "dict_at s i k \<noteq> dict_at s j k"
  shows "dict_at (swapdbCommand d s) i k \<noteq> dict_at s i k \<and>
    (\<forall>c. c_dirty_cas (clients (swapdbCommand d s) c) = c_dirty_cas (clients s c))"
proof -
  have "swapdbCommand d s = addReply d ROk (incr_dirty (fst (dbSwapDatabases (int i) (int j) s)))"
    using assms by (simp add: swapdbCommand_def getLongLongFromObjectOrReply_def parse_sdec dbSwapDatabases_def Let_def)
  then show ?thesis
    using assms(5-8) by (auto simp: dbSwapDatabases_def Let_def nth_dbs_upd addReply_def incr_dirty_def)
qed

text \<open>C37: the active expire cycle deletes an expired key without a signal, unlike the expiry of a key
  that a command looks up: a client that watches the key is not marked.\<close>

theorem active_expire_unsignalled:
  assumes "i < length (dbs s)" "expires_at s i k = Some t" "t < mstime s"
  shows "dict_at (fst (activeExpireCycleTryExpire i k t (mstime s) s)) i k = None \<and>
    clients (fst (activeExpireCycleTryExpire i k t (mstime s) s)) = clients s"
  using assms
  by (simp add: activeExpireCycleTryExpire_def propagateExpire_def dbAsyncDelete_eq Let_def dict_delete
      notifyKeyspaceEvent_def propagate_def) (simp add: dbSyncDelete_def Let_def)

section \<open>Witnesses\<close>

definition open_env :: env where
  "open_env = \<lparr>e_auth_required = (\<lambda>_. False), e_acl_ok = (\<lambda>_ _ _. True), e_disk_error = False,
     e_few_replicas = False, e_pubsub = (\<lambda>_. False), e_link_down = False\<rparr>"

text \<open>Client 1 is in a transaction and watches a key; client 2 is connected.\<close>

definition watch_db :: redisDb where
  "watch_db = demo_db\<lparr>db_watched := [str ''k'' \<mapsto> [1]]\<rparr>"

definition watch_client :: client where
  "watch_client = new_client\<lparr>c_multi := True, c_watched := [(0, str ''k'')]\<rparr>"

definition watch_server :: server where
  "watch_server = demo_server\<lparr>dbs := [watch_db, empty_db], client_list := [1, 2],
     clients := (\<lambda>_. new_client)(1 := watch_client)\<rparr>"

lemma watch_server_ok: "system_ok watch_server"
proof -
  have wt: "watching watch_server c i k \<longleftrightarrow> c = 1 \<and> i = 0 \<and> k = str ''k''" for c i k
    by (simp add: watch_server_def watch_client_def new_client_def)
  have d: "dbs watch_server = [watch_db, empty_db]" by (simp add: watch_server_def)
  have "watch_ok watch_server"
  proof (rule watch_okI)
    show "(\<exists>xs. db_watched (dbs watch_server ! i) k = Some xs \<and> c \<in> set xs) \<longleftrightarrow> watching watch_server c i k"
      if "i < length (dbs watch_server)" for i k c
      using that unfolding wt d by (auto simp: watch_db_def empty_db_def demo_db_def less_Suc_eq split: if_splits)
    show "watching watch_server c i k \<Longrightarrow> i < length (dbs watch_server)" for c i k unfolding wt d by simp
    show "distinct (c_watched (clients watch_server c))" for c
      by (simp add: watch_server_def watch_client_def new_client_def)
  qed (auto simp: d watch_db_def empty_db_def demo_db_def less_Suc_eq split: if_splits)
  moreover have "db_ok watch_db" "db_ok empty_db" by (simp_all add: db_ok_def watch_db_def demo_db_def empty_db_def)
  moreover have "queue_ok (clients watch_server c)" for c
    by (simp add: queue_ok_def watch_server_def watch_client_def new_client_def)
  moreover have "c_db (clients watch_server c) < length (dbs watch_server) \<and>
      (c_watched (clients watch_server c) \<noteq> [] \<longrightarrow> c \<in> set (client_list watch_server))" for c
    by (simp add: watch_server_def watch_client_def new_client_def)
  moreover have "\<not> aborted watch_server" "distinct (client_list watch_server)"
    by (simp_all add: watch_server_def demo_server_def start_server_def)
  ultimately show ?thesis unfolding system_ok_def server_ok_def by (simp add: d)
qed

definition rival_set :: server where
  "rival_set = processCommand open_env 2 (set_argv 2 [str ''SET'', str ''k'', str ''w''] watch_server)"

lemma lookup_SET: "lookupCommand (str ''SET'') = Some SET"
  by code_simp

lemma not_quit: "\<not> strcaseeq (takeWhile (\<lambda>x. x \<noteq> 0) (str ''SET'')) ''quit''"
  by code_simp

lemma rival_requests:
  "\<not> setrange_request (set_argv 2 [str ''SET'', str ''k'', str ''w''] watch_server) 2"
  "\<not> swap_request (set_argv 2 [str ''SET'', str ''k'', str ''w''] watch_server) 2"
  by (simp_all only: setrange_request_def swap_request_def set_argv_simps nth_Cons_0 lookup_SET) simp_all

lemma rival_run: "dict_at rival_set 0 (str ''k'') = Some (encode_arg (str ''w''))" "\<not> lua_timedout rival_set"
proof -
  let ?v = "[str ''SET'', str ''k'', str ''w'']"
  define s0 where "s0 = upd_client 2 (\<lambda>cl. cl\<lparr>c_cmd := SET\<rparr>) (set_argv 2 ?v watch_server)"
  define s1 where "s1 = call_entry 2 s0"
  have f: "c_argv (clients s0 2) = ?v" "c_cmd (clients s0 2) = SET" "c_multi (clients s0 2) = False" "c_master (clients s0 2) = False"
    "cur_db s0 2 = 0" "is_replica s0 = False" "loading s0 = False" "lua_timedout s0 = False" "aborted s0 = False"
    by (simp_all add: s0_def set_argv_def upd_client_def watch_server_def new_client_def demo_server_def start_server_def
        del: str_simps)
  have "check_command open_env 2 SET s0 = None"
    by (simp add: check_command_def Let_def f arity_def open_env_def cmd_loading_def del: str_simps)
  then have "rival_set = dispatch open_env 2 SET s0"
    unfolding rival_set_def processCommand_def set_argv_simps nth_Cons_0 lookup_SET option.case Let_def if_not_P [OF not_quit]
      s0_def [symmetric] by simp
  then have r: "rival_set = call (proc_of open_env SET) True 2 s0" by (simp add: dispatch_def f)
  have c: "dbs rival_set = dbs (setCommand 2 s1)" "lua_timedout rival_set = lua_timedout (setCommand 2 s1)"
    unfolding r using call_fields [of s0 "proc_of open_env SET" True 2] f
    by (simp_all add: s1_def proc_of_def run_proc_def)
  have "setCommand 2 s1 = addReply 2 ROk (notifyKeyspaceEvent ''set'' (str ''k'') 0
      (incr_dirty (genericSetKey 0 (str ''k'') (encode_arg (str ''w'')) False True s1)))"
    using set_plain [of s1 2 "str ''SET''" "str ''k''" "str ''w''"] f by (simp add: s1_def del: str_simps)
  moreover have ok: "server_ok s1"
  proof -
    have "server_ok (set_argv 2 ?v watch_server)" using watch_server_ok ok_set_argv by (simp add: system_ok_def)
    moreover have "cstep True 2 (set_argv 2 ?v watch_server) s0"
      unfolding s0_def by (rule cstep_own) (simp_all add: watch_server_def new_client_def)
    ultimately have "server_ok s0" using cstep_ok by blast
    then show ?thesis by (simp add: s1_def)
  qed
  moreover have "0 < length (dbs s1)" by (simp add: s1_def s0_def set_argv_def watch_server_def)
  ultimately show "dict_at rival_set 0 (str ''k'') = Some (encode_arg (str ''w''))"
    using genericSetKey_effect(1) [of s1 0] c(1) by simp
  show "\<not> lua_timedout rival_set"
    using kstep_config [OF kstep_setCommand ok, of 2] f c(2) by (simp add: config_frame_def s1_def call_entry_def)
qed

theorem exec_optimistic_lock_witness:
  "last_reply (execCommand open_env 1 rival_set) 1 = RNullArray"
proof -
  have "others_step open_env 1 watch_server rival_set"
    unfolding rival_set_def by (rule others_step.command) (use rival_requests in \<open>simp_all add: watch_server_def\<close>)
  moreover have "server_ok rival_set"
    unfolding rival_set_def by (rule processCommand_safe [OF watch_server_ok _ rival_requests(1)]) (simp add: watch_server_def)
  moreover have "encode_arg (str ''w'') \<noteq> Embstr (str ''v'')" by code_simp
  ultimately show ?thesis
    using exec_optimistic_lock [OF watch_server_ok, of open_env 1 rival_set 0 "str ''k''"] rival_run
    by (simp add: server_ok_def watch_server_def watch_db_def demo_db_def watch_client_def new_client_def r_into_rtranclp
        del: str_simps)
qed

theorem reachable_invariant_witness:
  "aborted (connectClient 1 (start_server 2)) \<or> system_ok (connectClient 1 (start_server 2))"
proof (rule reachable_invariant [of open_env "start_server 2"])
  show "initial (start_server 2)" by (simp add: initial_def start_server_def)
  have "server_step open_env (start_server 2) (connectClient 1 (start_server 2))"
    by (rule server_step.connect) (simp_all add: start_server_def)
  then show "(server_step open_env)\<^sup>*\<^sup>* (start_server 2) (connectClient 1 (start_server 2))" by blast
qed

theorem expire_deadline_witness:
  "\<forall>t. last_reply (call (run_proc GET) True 1 (set_argv 1 [str ''GET'', str ''k'']
     ((call (run_proc EXPIRE) True 1 (set_argv 1 [str ''EXPIRE'', str ''k'', sdec 10] demo_server))\<lparr>clock := t\<rparr>))) 1 =
     (if t > 11000 then RNull else RBulk (str ''v''))"
proof -
  have "dict_at demo_server 0 (str ''k'') = Some (Embstr (str ''v''))" by (simp add: demo_server_def demo_db_def)
  then show ?thesis
    using expire_deadline [of demo_server 0 1 "str ''k''" "Embstr (str ''v'')" 10 _ "str ''EXPIRE''" "str ''GET''"]
      demo_server_ok
    by (simp add: demo_server_simps otype_of_def is_ll_def ll_defs getDecodedObject_def)
qed

theorem swapdb_unsignalled_witness:
  "dict_at (swapdbCommand 2 (set_argv 2 [str ''SWAPDB'', sdec (int 0), sdec (int 1)] watch_server)) 0 (str ''k'')
     \<noteq> Some (Embstr (str ''v'')) \<and>
   \<not> c_dirty_cas (clients (swapdbCommand 2 (set_argv 2 [str ''SWAPDB'', sdec (int 0), sdec (int 1)] watch_server)) 1)"
  using swapdb_unsignalled [of "set_argv 2 [str ''SWAPDB'', sdec (int 0), sdec (int 1)] watch_server" 2 0 1 "str ''k''"]
  by (simp add: watch_server_def watch_db_def demo_db_def empty_db_def watch_client_def new_client_def set_argv_def
      upd_client_def is_ll_def ll_defs)

theorem active_expire_unsignalled_witness:
  "dict_at (fst (activeExpireCycleTryExpire 0 (str ''k'') 5 1000
     (watch_server\<lparr>dbs := [watch_db\<lparr>db_expires := [str ''k'' \<mapsto> 5]\<rparr>]\<rparr>))) 0 (str ''k'') = None"
  using active_expire_unsignalled [of 0 "watch_server\<lparr>dbs := [watch_db\<lparr>db_expires := [str ''k'' \<mapsto> 5]\<rparr>]\<rparr>" "str ''k''" 5]
  by (simp add: mstime_def watch_server_def demo_server_def)

end
