(* ===== verification/Protocol.thy ===== *)
theory Protocol
  imports Util
begin

text \<open>
  From the bytes of a connection to argument vectors: the quoting of \<^verbatim>\<open>sds.c\<close>
  (\<^verbatim>\<open>sdscatrepr\<close>, \<^verbatim>\<open>sdssplitargs\<close>) and the request parser of \<^verbatim>\<open>networking.c\<close>. The
  state of a connection is its part of the client structure; the execution of a command is an
  argument, so that the parser composes with any server. Classification of characters is that of
  the C locale.
\<close>

section \<open>Quoted strings\<close>

definition isprint :: "u8 \<Rightarrow> bool" where
  "isprint c \<longleftrightarrow> 0x20 \<le> c \<and> c \<le> 0x7E"

definition is_hex_digit :: "u8 \<Rightarrow> bool" where
  "is_hex_digit c \<longleftrightarrow> (0x30 \<le> c \<and> c \<le> 0x39) \<or> (0x61 \<le> c \<and> c \<le> 0x66) \<or> (0x41 \<le> c \<and> c \<le> 0x46)"

definition hex_digit_to_int :: "u8 \<Rightarrow> u8" where
  "hex_digit_to_int c =
     (if 0x30 \<le> c \<and> c \<le> 0x39 then c - 0x30
      else if 0x61 \<le> c \<and> c \<le> 0x66 then c - 0x61 + 10
      else if 0x41 \<le> c \<and> c \<le> 0x46 then c - 0x41 + 10
      else 0)"

text \<open>The digits that \<^verbatim>\<open>%02x\<close> prints.\<close>

definition hex_char :: "u8 \<Rightarrow> u8" where
  "hex_char d = (if d < 10 then 0x30 + d else 0x61 + (d - 10))"

definition repr_char :: "u8 \<Rightarrow> bytes" where
  "repr_char c =
     (if c = 0x5C \<or> c = 0x22 then [0x5C, c]
      else if c = 0x0A then [0x5C, 0x6E]
      else if c = 0x0D then [0x5C, 0x72]
      else if c = 0x09 then [0x5C, 0x74]
      else if c = 0x07 then [0x5C, 0x61]
      else if c = 0x08 then [0x5C, 0x62]
      else if isprint c then [c]
      else [0x5C, 0x78, hex_char (drop_bit 4 c), hex_char (c AND 0x0F)])"

definition sdscatrepr :: "bytes \<Rightarrow> bytes \<Rightarrow> bytes" where
  "sdscatrepr s p = s @ [0x22] @ concat (map repr_char p) @ [0x22]"

definition unescape :: "u8 \<Rightarrow> u8" where
  "unescape c =
     (if c = 0x6E then 0x0A else if c = 0x72 then 0x0D else if c = 0x74 then 0x09
      else if c = 0x62 then 0x08 else if c = 0x61 then 0x07 else c)"

datatype quoting = Plain | InQ | InSq

text \<open>The loop that reads one token: the token and the rest of the line, or \<open>None\<close> for the error.
  A NUL byte, or the end of the string, ends the line.\<close>

function split_token :: "quoting \<Rightarrow> bytes \<Rightarrow> bytes \<Rightarrow> (bytes \<times> bytes) option" where
  "split_token m p cur =
     (case m of
        InQ \<Rightarrow>
          if at0 p 0 = 0x5C \<and> at0 p 1 = 0x78 \<and> is_hex_digit (at0 p 2) \<and> is_hex_digit (at0 p 3) then
            split_token InQ (drop 4 p) (cur @ [hex_digit_to_int (at0 p 2) * 16 + hex_digit_to_int (at0 p 3)])
          else if at0 p 0 = 0x5C \<and> at0 p 1 \<noteq> 0 then split_token InQ (drop 2 p) (cur @ [unescape (at0 p 1)])
          else if at0 p 0 = 0x22 then (if at0 p 1 \<noteq> 0 \<and> \<not> isspace (at0 p 1) then None else Some (cur, drop 1 p))
          else if at0 p 0 = 0 then None
          else split_token InQ (drop 1 p) (cur @ [at0 p 0])
      | InSq \<Rightarrow>
          if at0 p 0 = 0x5C \<and> at0 p 1 = 0x27 then split_token InSq (drop 2 p) (cur @ [0x27])
          else if at0 p 0 = 0x27 then (if at0 p 1 \<noteq> 0 \<and> \<not> isspace (at0 p 1) then None else Some (cur, drop 1 p))
          else if at0 p 0 = 0 then None
          else split_token InSq (drop 1 p) (cur @ [at0 p 0])
      | Plain \<Rightarrow>
          if at0 p 0 = 0 then Some (cur, p)
          else if at0 p 0 \<in> {0x20, 0x0A, 0x0D, 0x09} then Some (cur, drop 1 p)
          else if at0 p 0 = 0x22 then split_token InQ (drop 1 p) cur
          else if at0 p 0 = 0x27 then split_token InSq (drop 1 p) cur
          else split_token Plain (drop 1 p) (cur @ [at0 p 0]))"
  by pat_completeness auto

termination
  by (relation "measure (\<lambda>(m, p, cur). length p)") (auto simp: at0_def split: if_splits)

declare split_token.simps [simp del]

lemma split_token_length: "split_token m p cur = Some (t, r) \<Longrightarrow> length r \<le> length p"
proof (induction "length p" arbitrary: m p cur rule: less_induct)
  case less
  show ?case
  proof (cases "p = []")
    case True
    then show ?thesis using less.prems by (subst (asm) split_token.simps) (auto split: quoting.splits)
  next
    case False
    have st: "length r \<le> length p" if "split_token m' (drop n p) cur' = Some (t, r)" "0 < n" for m' n cur'
      using less.hyps [of "drop n p", OF _ that(1)] that(2) False by simp
    show ?thesis
      using less.prems st
      by (cases m; subst (asm) split_token.simps; simp only: quoting.case; auto split: if_splits)
  qed
qed

text \<open>A token that starts takes at least one character.\<close>

lemma split_token_consumes:
  assumes "split_token Plain p [] = Some (t, r)" "at0 p 0 \<noteq> 0" "\<not> isspace (at0 p 0)"
  shows "length r < length p"
proof -
  have "p \<noteq> []" using assms(2) by auto
  moreover have "at0 p 0 \<notin> {0x20, 0x0A, 0x0D, 0x09}" using assms(3) by (auto simp: isspace_def)
  then obtain m' cur' where "split_token m' (drop 1 p) cur' = Some (t, r)"
    using assms(1,2) by (subst (asm) split_token.simps) (auto split: if_splits)
  ultimately show ?thesis using split_token_length [of m' "drop 1 p" cur' t r] by (cases p) auto
qed

function sdssplitargs :: "bytes \<Rightarrow> bytes list option" where
  "sdssplitargs line =
     (let p = dropWhile isspace line in
      if at0 p 0 = 0 then Some []
      else case split_token Plain p [] of
          None \<Rightarrow> None
        | Some (current, p') \<Rightarrow> map_option ((#) current) (sdssplitargs p'))"
  by pat_completeness auto

termination
proof (relation "measure length", simp)
  fix line p z x y :: bytes and w
  assume "p = dropWhile isspace line" "at0 p 0 \<noteq> 0" "split_token Plain p [] = Some w" "(x, y) = w"
  moreover have "\<not> isspace (at0 p 0)"
  proof (cases p)
    case (Cons a q)
    then have "\<not> isspace a" using calculation(1) by (metis hd_dropWhile list.distinct(1) list.sel(1))
    then show ?thesis using Cons by simp
  qed (use calculation(2) in simp)
  ultimately show "(y, line) \<in> measure length"
    using split_token_consumes [of p x y] length_dropWhile_le [of isspace line] by force
qed

declare sdssplitargs.simps [simp del]


subsection \<open>Splitting undoes quoting\<close>

lemma all_u8: "(\<forall>n \<in> set [0..<256]. P (word_of_nat n)) \<Longrightarrow> P (c :: u8)"
  using unsigned_less [of c] by (auto dest: bspec [of _ _ "unat c"])

lemma at0_numeral [simp]: "at0 (x # p) (numeral n) = at0 p (pred_numeral n)"
  by (simp add: numeral_eq_Suc)

lemma repr_char_hex:
  fixes c :: u8
  shows "is_hex_digit (hex_char (drop_bit 4 c)) \<and> is_hex_digit (hex_char (c AND 0x0F)) \<and>
    hex_digit_to_int (hex_char (drop_bit 4 c)) * 16 + hex_digit_to_int (hex_char (c AND 0x0F)) = c"
  by (rule all_u8) code_simp

lemma split_token_repr_char:
  "split_token InQ (repr_char c @ r) cur = split_token InQ r (cur @ [c])"
proof -
  have "isprint c \<Longrightarrow> c \<noteq> 0" by (auto simp: isprint_def)
  then show ?thesis using repr_char_hex [of c]
    by (subst split_token.simps) (simp add: repr_char_def unescape_def)
qed

lemma split_token_repr:
  "split_token InQ (concat (map repr_char a) @ r) cur = split_token InQ r (cur @ a)"
  by (induction a arbitrary: cur) (simp_all add: split_token_repr_char)

lemma split_token_quoted:
  assumes "r = [] \<or> isspace (hd r)"
  shows "split_token Plain (sdscatrepr [] a @ r) [] = Some (a, r)"
proof -
  have "split_token InQ (0x22 # r) a = Some (a, r)"
    using assms by (subst split_token.simps) (cases r; simp)
  then show ?thesis
    by (subst split_token.simps) (simp add: sdscatrepr_def split_token_repr)
qed

text \<open>A line of quoted arguments, every one followed by a blank.\<close>

definition quote_line :: "bytes list \<Rightarrow> bytes" where
  "quote_line args = concat (map (\<lambda>a. sdscatrepr [] a @ [0x20]) args)"

lemma quote_line_splits: "sdssplitargs (0x20 # quote_line args) = Some args"
proof (induction args)
  case Nil
  then show ?case by (subst sdssplitargs.simps) (simp add: quote_line_def isspace_def)
next
  case (Cons a args)
  let ?r = "0x20 # quote_line args"
  have q: "quote_line (a # args) = sdscatrepr [] a @ ?r" by (simp add: quote_line_def)
  have "dropWhile isspace (0x20 # quote_line (a # args)) = sdscatrepr [] a @ ?r"
    by (simp add: q sdscatrepr_def isspace_def)
  moreover have "split_token Plain (sdscatrepr [] a @ ?r) [] = Some (a, ?r)"
    by (rule split_token_quoted) (simp add: isspace_def)
  moreover have "at0 (sdscatrepr [] a @ ?r) 0 \<noteq> 0" by (simp add: sdscatrepr_def)
  ultimately show ?case using Cons.IH by (subst sdssplitargs.simps) (simp add: Let_def)
qed


lemma quote_line_unclosed: "sdssplitargs (0x20 # quote_line args @ 0x22 # concat (map repr_char a)) = None"
proof (induction args)
  case Nil
  have "split_token InQ [] a = None" by (subst split_token.simps) simp
  then have "split_token Plain (0x22 # concat (map repr_char a)) [] = None"
    using split_token_repr [of a "[]" "[]"] by (subst split_token.simps) simp
  then show ?case by (subst sdssplitargs.simps) (simp add: quote_line_def isspace_def)
next
  case (Cons b args)
  let ?r = "0x20 # quote_line args @ 0x22 # concat (map repr_char a)"
  have q: "quote_line (b # args) @ 0x22 # concat (map repr_char a) = sdscatrepr [] b @ ?r" by (simp add: quote_line_def)
  have "dropWhile isspace (0x20 # quote_line (b # args) @ 0x22 # concat (map repr_char a)) = sdscatrepr [] b @ ?r"
    unfolding q by (simp add: sdscatrepr_def isspace_def)
  moreover have "split_token Plain (sdscatrepr [] b @ ?r) [] = Some (b, ?r)"
    by (rule split_token_quoted) (simp add: isspace_def)
  moreover have "at0 (sdscatrepr [] b @ ?r) 0 \<noteq> 0" by (simp add: sdscatrepr_def)
  ultimately show ?case using Cons.IH by (subst sdssplitargs.simps) (simp add: Let_def)
qed

section \<open>The state of a connection\<close>

datatype reqtype = PROTO_REQ_UNKNOWN | PROTO_REQ_INLINE | PROTO_REQ_MULTIBULK

text \<open>The fields of the client structure that reading uses. The flags are one field each;
  \<open>errors\<close> holds the messages given to \<^verbatim>\<open>addReplyError\<close>, \<open>fed\<close> the bytes passed to
  \<^verbatim>\<open>replicationFeedSlavesFromMasterStream\<close>, \<open>failed\<close> an assertion that did not hold, \<open>freed\<close> the end of the
  structure.\<close>

record conn =
  querybuf :: bytes
  qb_pos :: nat
  pending_querybuf :: bytes
  reqtype :: reqtype
  multibulklen :: int
  bulklen :: int
  conn_argv :: "bytes list"
  f_master :: bool
  f_slave :: bool
  f_monitor :: bool
  f_multi :: bool
  f_blocked :: bool
  f_blocked_module :: bool
  f_pending_read :: bool
  f_pending_command :: bool
  f_close_after_reply :: bool
  f_close_asap :: bool
  f_protocol_error :: bool
  reploff :: int
  read_reploff :: int
  repl_ack_time :: int
  lastinteraction :: int
  querybuf_peak :: nat
  errors :: "string list"
  fed :: bytes
  failed :: bool
  freed :: bool

text \<open>The configuration and the state of the server that reading depends on.\<close>

record rconf =
  proto_max_bulk_len :: int
  client_max_querybuf_len :: int
  gopher_enabled :: bool
  clients_paused :: bool
  script_timedout :: bool
  threaded_reads :: bool
  unixtime :: int

text \<open>What the execution of a command leaves in the client: the value that \<^verbatim>\<open>processCommand\<close>
  returns, the flags, and whether the client was freed.\<close>

record outcome =
  x_ok :: bool
  x_multi :: bool
  x_blocked :: bool
  x_blocked_module :: bool
  x_close :: bool
  x_freed :: bool

definition PROTO_INLINE_MAX_SIZE :: int where "PROTO_INLINE_MAX_SIZE = 64 * 1024"
definition PROTO_MBULK_BIG_ARG :: int where "PROTO_MBULK_BIG_ARG = 32 * 1024"
definition PROTO_IOBUF_LEN :: int where "PROTO_IOBUF_LEN = 16 * 1024"

text \<open>The bytes that are read and not yet parsed.\<close>

abbreviation unparsed :: "conn \<Rightarrow> bytes" where
  "unparsed c \<equiv> drop (qb_pos c) (querybuf c)"

text \<open>The index of a byte, on the string up to its first NUL.\<close>

definition strchr :: "bytes \<Rightarrow> u8 \<Rightarrow> nat option" where
  "strchr p ch =
     (let n = length (takeWhile (\<lambda>x. x \<noteq> ch \<and> x \<noteq> 0) p) in
      if n < length p \<and> p ! n = ch then Some n else None)"

definition addReplyError :: "string \<Rightarrow> conn \<Rightarrow> conn" where
  "addReplyError msg c = c\<lparr>errors := errors c @ [msg]\<rparr>"

text \<open>The formatted message, in which line ends are replaced by blanks.\<close>

definition expected_dollar :: "u8 \<Rightarrow> string" where
  "expected_dollar ch = ''Protocol error: expected '' @ [CHR 0x27, CHR ''$'', CHR 0x27] @ '', got '' @
     [CHR 0x27, if ch = 0x0A \<or> ch = 0x0D then CHR '' '' else char_of (unat ch), CHR 0x27]"

definition setProtocolError :: "conn \<Rightarrow> conn" where
  "setProtocolError c = c\<lparr>f_close_after_reply := True, f_protocol_error := True\<rparr>"

definition resetClient :: "conn \<Rightarrow> conn" where
  "resetClient c = c\<lparr>conn_argv := [], reqtype := PROTO_REQ_UNKNOWN, multibulklen := 0, bulklen := - 1\<rparr>"

definition trim_querybuf :: "conn \<Rightarrow> conn" where
  "trim_querybuf c = c\<lparr>querybuf := unparsed c, qb_pos := 0\<rparr>"

section \<open>Parsing requests\<close>

text \<open>The flag tells \<^verbatim>\<open>C_OK\<close>.\<close>

definition processInlineBuffer :: "rconf \<Rightarrow> conn \<Rightarrow> conn \<times> bool" where
  "processInlineBuffer cf c =
     (let p = unparsed c in
      case strchr p 0x0A of
        None \<Rightarrow>
          (if int (length p) > PROTO_INLINE_MAX_SIZE
           then setProtocolError (addReplyError ''Protocol error: too big inline request'' c) else c, False)
      | Some nl \<Rightarrow>
          let cr = (nl \<noteq> 0 \<and> p ! (nl - 1) = 0x0D);
              querylen = (if cr then nl - 1 else nl);
              linefeed_chars = (if cr then 2 else 1)
          in case sdssplitargs (take querylen p) of
              None \<Rightarrow> (setProtocolError (addReplyError ''Protocol error: unbalanced quotes in request'' c), False)
            | Some args \<Rightarrow>
                let c = (if querylen = 0 \<and> \<not> f_master c \<and> f_slave c \<and> \<not> f_monitor c
                         then c\<lparr>repl_ack_time := unixtime cf\<rparr> else c)
                in if querylen \<noteq> 0 \<and> f_master c then (setProtocolError c, False)
                   else (c\<lparr>qb_pos := qb_pos c + querylen + linefeed_chars, conn_argv := args\<rparr>, True))"

text \<open>How the reading of a header ends: with \<^verbatim>\<open>C_ERR\<close>, with \<^verbatim>\<open>C_OK\<close>, or by going on.\<close>

datatype header = Stop conn | Empty conn | Go conn

definition read_multibulk_len :: "conn \<Rightarrow> header" where
  "read_multibulk_len c =
     (let p = unparsed c in
      if conn_argv c \<noteq> [] then Stop (c\<lparr>failed := True\<rparr>)
      else case strchr p 0x0D of
        None \<Rightarrow> Stop (if int (length p) > PROTO_INLINE_MAX_SIZE
                      then setProtocolError (addReplyError ''Protocol error: too big mbulk count string'' c) else c)
      | Some nl \<Rightarrow>
          if int nl > int (length p) - 2 then Stop c
          else if at0 p 0 \<noteq> 0x2A then Stop (c\<lparr>failed := True\<rparr>)
          else case string2ll (take (nl - 1) (drop 1 p)) of
              None \<Rightarrow> Stop (setProtocolError (addReplyError ''Protocol error: invalid multibulk length'' c))
            | Some ll \<Rightarrow>
                if ll > 1024 * 1024
                then Stop (setProtocolError (addReplyError ''Protocol error: invalid multibulk length'' c))
                else
                  let c = c\<lparr>qb_pos := qb_pos c + nl + 2\<rparr> in
                  if ll \<le> 0 then Empty c else Go (c\<lparr>multibulklen := ll\<rparr>))"

definition read_bulk_len :: "rconf \<Rightarrow> conn \<Rightarrow> header" where
  "read_bulk_len cf c =
     (let p = unparsed c in
      case strchr p 0x0D of
        None \<Rightarrow> Stop (if int (length p) > PROTO_INLINE_MAX_SIZE
                      then setProtocolError (addReplyError ''Protocol error: too big bulk count string'' c) else c)
      | Some nl \<Rightarrow>
          if int nl > int (length p) - 2 then Stop c
          else if at0 p 0 \<noteq> 0x24 then
            Stop (setProtocolError (addReplyError (expected_dollar (at0 p 0)) c))
          else case string2ll (take (nl - 1) (drop 1 p)) of
              None \<Rightarrow> Stop (setProtocolError (addReplyError ''Protocol error: invalid bulk length'' c))
            | Some ll \<Rightarrow>
                if ll < 0 \<or> ll > proto_max_bulk_len cf
                then Stop (setProtocolError (addReplyError ''Protocol error: invalid bulk length'' c))
                else
                  let c = c\<lparr>qb_pos := qb_pos c + nl + 2\<rparr>;
                      c = (if ll \<ge> PROTO_MBULK_BIG_ARG \<and> int (length (unparsed c)) \<le> ll + 2
                           then trim_querybuf c else c)
                  in Go (c\<lparr>bulklen := ll\<rparr>))"

text \<open>The argument is in the buffer: it is copied, or the buffer becomes the argument.\<close>

definition take_bulk :: "conn \<Rightarrow> conn" where
  "take_bulk c =
     (let n = nat (bulklen c);
          c = (if qb_pos c = 0 \<and> bulklen c \<ge> PROTO_MBULK_BIG_ARG \<and> length (querybuf c) = n + 2
               then c\<lparr>conn_argv := conn_argv c @ [take n (querybuf c)], querybuf := []\<rparr>
               else c\<lparr>conn_argv := conn_argv c @ [take n (unparsed c)], qb_pos := qb_pos c + n + 2\<rparr>)
      in c\<lparr>bulklen := - 1, multibulklen := multibulklen c - 1\<rparr>)"

text \<open>The loop over the arguments, \<open>n\<close> of them still to read.\<close>

primrec bulk_loop :: "rconf \<Rightarrow> nat \<Rightarrow> conn \<Rightarrow> conn \<times> bool" where
  "bulk_loop cf 0 c = (c, True)"
| "bulk_loop cf (Suc n) c =
     (case (if bulklen c = - 1 then read_bulk_len cf c else Go c) of
        Go c \<Rightarrow> if int (length (unparsed c)) < bulklen c + 2 then (c, False) else bulk_loop cf n (take_bulk c)
      | Empty c \<Rightarrow> (c, False)
      | Stop c \<Rightarrow> (c, False))"

definition processMultibulkBuffer :: "rconf \<Rightarrow> conn \<Rightarrow> conn \<times> bool" where
  "processMultibulkBuffer cf c =
     (case (if multibulklen c = 0 then read_multibulk_len c else Go c) of
        Stop c \<Rightarrow> (c, False)
      | Empty c \<Rightarrow> (c, True)
      | Go c \<Rightarrow> if multibulklen c \<le> 0 then (c\<lparr>failed := True\<rparr>, False)
                else bulk_loop cf (nat (multibulklen c)) c)"


section \<open>Running the requests of the buffer\<close>

type_synonym 's executor = "bytes list \<Rightarrow> 's \<Rightarrow> 's \<times> outcome"

definition commandProcessed :: "conn \<Rightarrow> conn" where
  "commandProcessed c0 =
     (let prev_offset = reploff c0;
          c = (if f_master c0 \<and> \<not> f_multi c0
               then c0\<lparr>reploff := read_reploff c0 - int (length (querybuf c0)) + int (qb_pos c0)\<rparr> else c0);
          c = (if f_blocked c \<and> f_blocked_module c then c else resetClient c);
          applied = reploff c - prev_offset
      in if f_master c \<and> applied \<noteq> 0
         then c\<lparr>fed := fed c @ take (nat applied) (pending_querybuf c),
                pending_querybuf := drop (nat applied) (pending_querybuf c)\<rparr>
         else c)"

text \<open>The flag tells \<^verbatim>\<open>C_OK\<close>: the client is still there.\<close>

definition processCommandAndResetClient :: "'s executor \<Rightarrow> conn \<Rightarrow> 's \<Rightarrow> (conn \<times> 's) \<times> bool" where
  "processCommandAndResetClient exec c s =
     (let (s, x) = exec (conn_argv c) s;
          c = c\<lparr>f_multi := x_multi x, f_blocked := x_blocked x, f_blocked_module := x_blocked_module x,
                f_close_after_reply := (f_close_after_reply c \<or> x_close x), freed := x_freed x\<rparr>;
          c = (if x_ok x then commandProcessed c else c)
      in ((c, s), \<not> x_freed x))"

text \<open>The kind of the request is found out, then the request is parsed.\<close>

definition parse_request :: "rconf \<Rightarrow> conn \<Rightarrow> conn \<times> bool" where
  "parse_request cf c =
     (let c = (if reqtype c = PROTO_REQ_UNKNOWN
               then c\<lparr>reqtype := if querybuf c ! qb_pos c = 0x2A then PROTO_REQ_MULTIBULK else PROTO_REQ_INLINE\<rparr>
               else c)
      in if reqtype c = PROTO_REQ_INLINE then processInlineBuffer cf c else processMultibulkBuffer cf c)"

text \<open>The conditions under which the loop does not look at the buffer.\<close>

definition input_halted :: "rconf \<Rightarrow> conn \<Rightarrow> bool" where
  "input_halted cf c \<longleftrightarrow> (\<not> f_slave c \<and> clients_paused cf) \<or> f_blocked c \<or> f_pending_command c \<or>
     (script_timedout cf \<and> f_master c) \<or> f_close_after_reply c \<or> f_close_asap c"

definition gopher_request :: "rconf \<Rightarrow> conn \<Rightarrow> bool" where
  "gopher_request cf c \<longleftrightarrow> reqtype c = PROTO_REQ_INLINE \<and> gopher_enabled cf \<and>
     ((length (conn_argv c) = 1 \<and> at0 (conn_argv c ! 0) 0 = 0x2F) \<or> conn_argv c = [])"

text \<open>One round of the loop of \<^verbatim>\<open>processInputBuffer\<close>: it leaves the function, leaves the loop or goes
  on.\<close>

datatype 'a round = Return 'a | Break 'a | Again 'a

definition input_round :: "rconf \<Rightarrow> 's executor \<Rightarrow> conn \<Rightarrow> 's \<Rightarrow> (conn \<times> 's) round" where
  "input_round cf exec c s =
     (if length (querybuf c) \<le> qb_pos c \<or> input_halted cf c then Break (c, s)
      else
        let (c, ok) = parse_request cf c in
        if \<not> ok then Break (c, s)
        else if gopher_request cf c then Break ((resetClient c)\<lparr>f_close_after_reply := True\<rparr>, s)
        else if conn_argv c = [] then Again (resetClient c, s)
        else if f_pending_read c then Break (c\<lparr>f_pending_command := True\<rparr>, s)
        else case processCommandAndResetClient exec c s of
            (r, True) \<Rightarrow> Again r
          | (r, False) \<Rightarrow> Return r)"

subsection \<open>The parser only moves forward in the buffer\<close>

definition parse_frame :: "conn \<Rightarrow> conn \<Rightarrow> bool" where
  "parse_frame c c' \<longleftrightarrow> (\<exists>n. unparsed c' = drop n (unparsed c)) \<and> pending_querybuf c' = pending_querybuf c \<and>
     fed c' = fed c \<and> reploff c' = reploff c \<and> read_reploff c' = read_reploff c \<and> f_master c' = f_master c \<and>
     f_slave c' = f_slave c \<and> f_multi c' = f_multi c \<and> f_blocked c' = f_blocked c \<and>
     f_pending_read c' = f_pending_read c \<and> f_pending_command c' = f_pending_command c \<and> f_close_asap c' = f_close_asap c \<and>
     freed c' = freed c"

lemma parse_frame_forward:
  assumes "querybuf c' = querybuf c" "qb_pos c \<le> qb_pos c'" "pending_querybuf c' = pending_querybuf c"
    "fed c' = fed c" "reploff c' = reploff c" "read_reploff c' = read_reploff c" "f_master c' = f_master c"
    "f_slave c' = f_slave c" "f_multi c' = f_multi c" "f_blocked c' = f_blocked c"
    "f_pending_read c' = f_pending_read c" "f_pending_command c' = f_pending_command c" "f_close_asap c' = f_close_asap c"
    "freed c' = freed c"
  shows "parse_frame c c'"
  using assms unfolding parse_frame_def by (auto intro!: exI [of _ "qb_pos c' - qb_pos c"])

lemma parse_frame_refl [simp, intro]: "parse_frame c c"
  by (rule parse_frame_forward) simp_all

lemma parse_frame_trans [trans]:
  assumes "parse_frame c1 c2" "parse_frame c2 c3"
  shows "parse_frame c1 c3"
proof -
  obtain m n where "unparsed c2 = drop m (unparsed c1)" "unparsed c3 = drop n (unparsed c2)"
    using assms unfolding parse_frame_def by blast
  then have "unparsed c3 = drop (n + m) (unparsed c1)" by (metis drop_drop)
  then have "\<exists>n. unparsed c3 = drop n (unparsed c1)" by blast
  then show ?thesis using assms unfolding parse_frame_def by simp
qed

lemma parse_frame_length: "parse_frame c c' \<Longrightarrow> length (unparsed c') \<le> length (unparsed c)"
  unfolding parse_frame_def by (metis length_drop diff_le_self)

lemma parse_frame_error [simp]:
  "parse_frame c (setProtocolError (addReplyError m c))" "parse_frame c (setProtocolError c)"
  "parse_frame c (c\<lparr>failed := b\<rparr>)" "parse_frame c (resetClient c)" "parse_frame c (c\<lparr>reqtype := t\<rparr>)"
  "parse_frame c (setProtocolError (c\<lparr>repl_ack_time := t'\<rparr>))"
  unfolding setProtocolError_def addReplyError_def resetClient_def
  by (rule parse_frame_forward; simp)+

lemma unparsed_trim [simp]: "unparsed (trim_querybuf c) = unparsed c"
  by (simp add: trim_querybuf_def)

lemma parse_frame_trim: "parse_frame c c' \<Longrightarrow> parse_frame c (trim_querybuf c')"
  unfolding parse_frame_def by (simp add: trim_querybuf_def)

lemma strchr_less: "strchr p ch = Some n \<Longrightarrow> n < length p"
  by (auto simp: strchr_def Let_def split: if_splits)

lemma processInlineBuffer_frame:
  assumes "processInlineBuffer cf c = (c', ok)"
  shows "parse_frame c c'" "ok \<Longrightarrow> length (unparsed c') < length (unparsed c)"
proof -
  show "parse_frame c c'"
    using assms unfolding processInlineBuffer_def Let_def
    by (auto split: option.splits if_splits intro: parse_frame_forward)
  show "ok \<Longrightarrow> length (unparsed c') < length (unparsed c)"
    using assms unfolding processInlineBuffer_def Let_def
    by (auto dest!: strchr_less split: option.splits if_splits)
qed

lemma read_multibulk_len_frame:
  shows "read_multibulk_len c = Stop c' \<Longrightarrow> parse_frame c c'"
    and "read_multibulk_len c = Empty c' \<or> read_multibulk_len c = Go c' \<Longrightarrow>
      parse_frame c c' \<and> length (unparsed c') < length (unparsed c)"
  unfolding read_multibulk_len_def Let_def
  by (auto dest!: strchr_less split: option.splits if_splits intro: parse_frame_forward)

lemma read_bulk_len_frame:
  shows "read_bulk_len cf c = Stop c' \<or> read_bulk_len cf c = Go c' \<Longrightarrow> parse_frame c c'"
    and "read_bulk_len cf c = Go c' \<Longrightarrow> 0 \<le> bulklen c'"
    and "read_bulk_len cf c \<noteq> Empty c'"
proof -
  have *: "parse_frame c (trim_querybuf (c\<lparr>qb_pos := qb_pos c + n\<rparr>)\<lparr>bulklen := v\<rparr>)" for n v
    using parse_frame_trim [of c "c\<lparr>qb_pos := qb_pos c + n\<rparr>"] parse_frame_forward [of "c\<lparr>qb_pos := qb_pos c + n\<rparr>" c]
    by (simp add: parse_frame_def)
  show "read_bulk_len cf c = Stop c' \<or> read_bulk_len cf c = Go c' \<Longrightarrow> parse_frame c c'"
    unfolding read_bulk_len_def Let_def
    by (auto split: option.splits if_splits simp: add.assoc simp del: add_2_eq_Suc' intro: parse_frame_forward *)
  show "read_bulk_len cf c = Go c' \<Longrightarrow> 0 \<le> bulklen c'" "read_bulk_len cf c \<noteq> Empty c'"
    unfolding read_bulk_len_def Let_def by (auto split: option.splits if_splits)
qed

lemma take_bulk_frame:
  assumes "int (length (unparsed c)) \<ge> bulklen c + 2"
  shows "parse_frame c (take_bulk c)" "unparsed c \<noteq> [] \<Longrightarrow> length (unparsed (take_bulk c)) < length (unparsed c)"
    "bulklen (take_bulk c) = - 1" "multibulklen (take_bulk c) = multibulklen c - 1"
proof -
  show "parse_frame c (take_bulk c)"
  proof (cases "qb_pos c = 0 \<and> bulklen c \<ge> PROTO_MBULK_BIG_ARG \<and> length (querybuf c) = nat (bulklen c) + 2")
    case True
    then show ?thesis unfolding parse_frame_def take_bulk_def Let_def
      by (auto intro!: exI [of _ "length (querybuf c)"])
  next
    case False
    then show ?thesis unfolding take_bulk_def Let_def by (auto intro!: parse_frame_forward)
  qed
qed (use assms in \<open>auto simp: take_bulk_def Let_def PROTO_MBULK_BIG_ARG_def\<close>)

lemma bulk_loop_frame:
  assumes "bulk_loop cf n c = (c', ok)"
  shows "parse_frame c c'" "ok \<Longrightarrow> 0 < n \<Longrightarrow> unparsed c \<noteq> [] \<Longrightarrow> length (unparsed c') < length (unparsed c)"
proof -
  have "parse_frame c c' \<and> (ok \<longrightarrow> 0 < n \<longrightarrow> unparsed c \<noteq> [] \<longrightarrow> length (unparsed c') < length (unparsed c))"
    using assms
  proof (induction n arbitrary: c)
    case (Suc n)
    let ?h = "if bulklen c = - 1 then read_bulk_len cf c else Go c"
    show ?case
    proof (cases ?h)
      case (Go d)
      then have d: "parse_frame c d" "d = c \<or> 0 \<le> bulklen d"
        using read_bulk_len_frame [of cf c d] by (auto split: if_splits)
      show ?thesis
      proof (cases "int (length (unparsed d)) < bulklen d + 2")
        case True
        then show ?thesis using Suc.prems(1) Go d by simp
      next
        case False
        note t = take_bulk_frame [OF False [unfolded not_less]]
        have "bulk_loop cf n (take_bulk d) = (c', ok)" using Suc.prems(1) Go False by simp
        then have f: "parse_frame (take_bulk d) c'" using Suc.IH by blast
        have "unparsed c \<noteq> [] \<Longrightarrow> unparsed d \<noteq> []" using d(2) False by auto
        then have "unparsed c \<noteq> [] \<Longrightarrow> length (unparsed c') < length (unparsed c)"
          using parse_frame_length [OF f] parse_frame_length [OF d(1)] t(2) by linarith
        then show ?thesis using f parse_frame_trans d(1) t(1) by blast
      qed
    qed (use Suc.prems(1) read_bulk_len_frame [of cf c] in \<open>auto split: if_splits\<close>)
  qed simp
  then show "parse_frame c c'" "ok \<Longrightarrow> 0 < n \<Longrightarrow> unparsed c \<noteq> [] \<Longrightarrow> length (unparsed c') < length (unparsed c)"
    by blast+
qed

lemma processMultibulkBuffer_frame:
  assumes "processMultibulkBuffer cf c = (c', ok)"
  shows "parse_frame c c'" "ok \<Longrightarrow> unparsed c \<noteq> [] \<Longrightarrow> length (unparsed c') < length (unparsed c)"
proof -
  have "parse_frame c c' \<and> (ok \<longrightarrow> unparsed c \<noteq> [] \<longrightarrow> length (unparsed c') < length (unparsed c))"
  proof (cases "if multibulklen c = 0 then read_multibulk_len c else Go c")
    case (Go d)
    have d: "parse_frame c d" "d = c \<or> length (unparsed d) < length (unparsed c)"
      using Go read_multibulk_len_frame(2) [of c d] by (auto split: if_splits)
    show ?thesis
    proof (cases "multibulklen d \<le> 0")
      case False
      then have b: "bulk_loop cf (nat (multibulklen d)) d = (c', ok)"
        using assms(1) Go by (simp add: processMultibulkBuffer_def)
      note b = bulk_loop_frame [OF b]
      have "length (unparsed c') < length (unparsed c)" if "ok" "unparsed c \<noteq> []"
        using d(2) b(2) False that parse_frame_length [OF b(1)] by auto
      then show ?thesis using b(1) d(1) by (auto intro: parse_frame_trans)
    qed (use assms(1) Go d parse_frame_error(3) [of d] in \<open>auto simp: processMultibulkBuffer_def intro: parse_frame_trans\<close>)
  qed (use assms(1) read_multibulk_len_frame [of c] in \<open>auto simp: processMultibulkBuffer_def split: if_splits\<close>)
  then show "parse_frame c c'" "ok \<Longrightarrow> unparsed c \<noteq> [] \<Longrightarrow> length (unparsed c') < length (unparsed c)" by blast+
qed


lemma parse_request_frame:
  assumes "parse_request cf c = (c', ok)"
  shows "parse_frame c c'" "ok \<Longrightarrow> unparsed c \<noteq> [] \<Longrightarrow> length (unparsed c') < length (unparsed c)"
proof -
  define d where "d = (if reqtype c = PROTO_REQ_UNKNOWN
    then c\<lparr>reqtype := if querybuf c ! qb_pos c = 0x2A then PROTO_REQ_MULTIBULK else PROTO_REQ_INLINE\<rparr> else c)"
  have d: "parse_frame c d" "unparsed d = unparsed c" by (simp_all add: d_def)
  have "processInlineBuffer cf d = (c', ok) \<or> processMultibulkBuffer cf d = (c', ok)"
    using assms by (auto simp: parse_request_def d_def Let_def split: if_splits)
  then have "parse_frame d c' \<and> (ok \<longrightarrow> unparsed c \<noteq> [] \<longrightarrow> length (unparsed c') < length (unparsed c))"
    using processInlineBuffer_frame processMultibulkBuffer_frame d(2) by metis
  then show "parse_frame c c'" "ok \<Longrightarrow> unparsed c \<noteq> [] \<Longrightarrow> length (unparsed c') < length (unparsed c)"
    using parse_frame_trans d(1) by blast+
qed

lemma commandProcessed_unparsed [simp]: "unparsed (commandProcessed c) = unparsed c"
  by (simp add: commandProcessed_def resetClient_def Let_def)

lemma processCommand_unparsed:
  "processCommandAndResetClient exec c s = ((c', s'), b) \<Longrightarrow> unparsed c' = unparsed c"
  by (auto simp: processCommandAndResetClient_def Let_def split: prod.splits if_splits)

lemma input_round_less:
  assumes "input_round cf exec c s = Again (c', s')"
  shows "length (unparsed c') < length (unparsed c)"
proof -
  obtain d ok where p: "parse_request cf c = (d, ok)" by fastforce
  have c: "unparsed c \<noteq> []" using assms by (auto simp: input_round_def split: if_splits)
  then have "ok" "conn_argv d = [] \<and> c' = resetClient d \<or> processCommandAndResetClient exec d s = ((c', s'), True)"
    using assms p by (auto simp: input_round_def split: if_splits prod.splits bool.splits)
  then have "unparsed c' = unparsed d" using processCommand_unparsed by (auto simp: resetClient_def)
  then show ?thesis using parse_request_frame(2) [OF p] \<open>ok\<close> c by simp
qed

text \<open>The loop ends because every round consumes bytes.\<close>

function input_loop :: "rconf \<Rightarrow> 's executor \<Rightarrow> conn \<Rightarrow> 's \<Rightarrow> (conn \<times> 's) round" where
  "input_loop cf exec c s =
     (case input_round cf exec c s of Again (c', s') \<Rightarrow> input_loop cf exec c' s' | r \<Rightarrow> r)"
  by pat_completeness auto

termination
  by (relation "measure (\<lambda>(cf, exec, c, s). length (unparsed c))") (auto simp: input_round_less simp del: length_drop)

declare input_loop.simps [simp del]

definition processInputBuffer :: "rconf \<Rightarrow> 's executor \<Rightarrow> conn \<Rightarrow> 's \<Rightarrow> conn \<times> 's" where
  "processInputBuffer cf exec c s =
     (case input_loop cf exec c s of
        Return r \<Rightarrow> r
      | Break (c', s') \<Rightarrow> (trim_querybuf c', s')
      | Again r \<Rightarrow> r)"

definition read_len :: "conn \<Rightarrow> nat" where
  "read_len c =
     (let remaining = bulklen c + 2 - int (length (querybuf c)) in
      if reqtype c = PROTO_REQ_MULTIBULK \<and> multibulklen c \<noteq> 0 \<and> bulklen c \<noteq> - 1 \<and> bulklen c \<ge> PROTO_MBULK_BIG_ARG \<and>
        0 < remaining \<and> remaining < PROTO_IOBUF_LEN
      then nat remaining else nat PROTO_IOBUF_LEN)"

text \<open>What \<^verbatim>\<open>connRead\<close> gives for the length it is asked for: no data for now, an error, the end of
  the stream, or data.\<close>

datatype read_result = WouldBlock | ReadError | EndOfStream | Data bytes

definition freeClientAsync :: "conn \<Rightarrow> conn" where
  "freeClientAsync c = c\<lparr>f_close_asap := True\<rparr>"

text \<open>The bookkeeping of a read that returned data.\<close>

definition append_query :: "rconf \<Rightarrow> bytes \<Rightarrow> conn \<Rightarrow> conn" where
  "append_query cf data c =
     (let c = (if f_master c then c\<lparr>pending_querybuf := pending_querybuf c @ data\<rparr> else c);
          c = c\<lparr>querybuf := querybuf c @ data, lastinteraction := unixtime cf\<rparr>
      in if f_master c then c\<lparr>read_reploff := read_reploff c + int (length data)\<rparr> else c)"

definition readQueryFromClient :: "rconf \<Rightarrow> 's executor \<Rightarrow> (nat \<Rightarrow> read_result) \<Rightarrow> conn \<Rightarrow> 's \<Rightarrow> conn \<times> 's" where
  "readQueryFromClient cf exec connRead c s =
     (if threaded_reads cf \<and> \<not> f_master c \<and> \<not> f_slave c \<and> \<not> f_pending_read c
      then (c\<lparr>f_pending_read := True\<rparr>, s)
      else
        let readlen = read_len c;
            c = c\<lparr>querybuf_peak := max (querybuf_peak c) (length (querybuf c))\<rparr>
        in case connRead readlen of
            WouldBlock \<Rightarrow> (c, s)
          | ReadError \<Rightarrow> (freeClientAsync c, s)
          | EndOfStream \<Rightarrow> (freeClientAsync c, s)
          | Data data \<Rightarrow>
              let c = append_query cf data c in
              if int (length (querybuf c)) > client_max_querybuf_len cf then (freeClientAsync c, s)
              else processInputBuffer cf exec c s)"

text \<open>The readable events of a connection: bytes wait in the socket, and every event returns at
  least one of them and at most as many as are asked for, as the network decides. Where a read is
  postponed to a thread, the bytes of its event are taken from the socket and not seen by the client: a
  sequence of events describes a master, or a client of a server without threaded reads.\<close>

fun read_events :: "rconf \<Rightarrow> 's executor \<Rightarrow> nat list \<Rightarrow> bytes \<Rightarrow> conn \<Rightarrow> 's \<Rightarrow> bytes \<times> conn \<times> 's" where
  "read_events cf exec [] sock c s = (sock, c, s)"
| "read_events cf exec (k # ks) sock c s =
     (if sock = [] \<or> freed c then (sock, c, s)
      else
        let (c', s') = readQueryFromClient cf exec (\<lambda>len. Data (take (min (Suc k) len) sock)) c s
        in read_events cf exec ks (drop (min (Suc k) (read_len c)) sock) c' s')"

subsection \<open>Positions and assertions\<close>

text \<open>The position is inside the buffer, the counters have the values they can have, and no
  assertion has failed.\<close>

definition conn_wf :: "conn \<Rightarrow> bool" where
  "conn_wf c \<longleftrightarrow> \<not> failed c \<and> qb_pos c \<le> length (querybuf c) \<and> 0 \<le> multibulklen c \<and> - 1 \<le> bulklen c"

text \<open>Between two rounds the loop is halted for good, or the fields say how far the request is
  read.\<close>

definition input_stopped :: "conn \<Rightarrow> bool" where
  "input_stopped c \<longleftrightarrow> f_blocked c \<or> f_pending_command c \<or> f_close_after_reply c \<or> f_close_asap c"

definition input_ready :: "conn \<Rightarrow> bool" where
  "input_ready c \<longleftrightarrow>
     (multibulklen c = 0 \<longrightarrow> conn_argv c = [] \<and> bulklen c = - 1 \<and>
        (reqtype c = PROTO_REQ_MULTIBULK \<longrightarrow> at0 (unparsed c) 0 = 0x2A)) \<and>
     (multibulklen c \<noteq> 0 \<longrightarrow> reqtype c = PROTO_REQ_MULTIBULK)"

definition conn_ok :: "conn \<Rightarrow> bool" where
  "conn_ok c \<longleftrightarrow> freed c \<or> conn_wf c \<and> (input_stopped c \<or> input_ready c)"

lemma wf_error [simp]:
  "conn_wf (setProtocolError c) = conn_wf c" "conn_wf (addReplyError m c) = conn_wf c"
  "f_close_after_reply (setProtocolError c)"
  "conn_wf (c\<lparr>repl_ack_time := t\<rparr>) = conn_wf c" "conn_wf (c\<lparr>conn_argv := v\<rparr>) = conn_wf c"
  "conn_wf (c\<lparr>reqtype := r\<rparr>) = conn_wf c"
  by (simp_all add: conn_wf_def setProtocolError_def addReplyError_def)

lemma inline_safe:
  assumes "processInlineBuffer cf c = (c', ok)" "conn_wf c" "input_ready c" "reqtype c = PROTO_REQ_INLINE"
  shows "conn_wf c'" "\<not> ok \<Longrightarrow> c' = c \<or> f_close_after_reply c'" "ok \<Longrightarrow> multibulklen c' = 0 \<and> bulklen c' = - 1"
proof -
  show "conn_wf c'"
    using assms(1,2) unfolding processInlineBuffer_def Let_def
    by (auto split: option.splits if_splits dest!: strchr_less simp: conn_wf_def setProtocolError_def addReplyError_def)
  show "\<not> ok \<Longrightarrow> c' = c \<or> f_close_after_reply c'"
    using assms(1) unfolding processInlineBuffer_def Let_def by (auto split: option.splits if_splits)
  show "ok \<Longrightarrow> multibulklen c' = 0 \<and> bulklen c' = - 1"
    using assms(1,3,4) unfolding processInlineBuffer_def Let_def input_ready_def
    by (auto split: option.splits if_splits)
qed

lemma multibulk_len_safe:
  assumes "conn_wf c" "input_ready c" "multibulklen c = 0" "reqtype c = PROTO_REQ_MULTIBULK"
  shows "read_multibulk_len c = Stop c' \<Longrightarrow> conn_wf c' \<and> (c' = c \<or> f_close_after_reply c')"
    and "read_multibulk_len c = Empty c' \<Longrightarrow> conn_wf c' \<and> multibulklen c' = 0 \<and> bulklen c' = - 1"
    and "read_multibulk_len c = Go c' \<Longrightarrow> conn_wf c' \<and> 0 < multibulklen c' \<and> reqtype c' = PROTO_REQ_MULTIBULK"
proof -
  have r: "conn_argv c = []" "bulklen c = - 1" "at0 (unparsed c) 0 = 0x2A" using assms by (simp_all add: input_ready_def)
  show "read_multibulk_len c = Stop c' \<Longrightarrow> conn_wf c' \<and> (c' = c \<or> f_close_after_reply c')"
    using assms(1) r unfolding read_multibulk_len_def Let_def by (auto split: option.splits if_splits)
  show "read_multibulk_len c = Empty c' \<Longrightarrow> conn_wf c' \<and> multibulklen c' = 0 \<and> bulklen c' = - 1"
    "read_multibulk_len c = Go c' \<Longrightarrow> conn_wf c' \<and> 0 < multibulklen c' \<and> reqtype c' = PROTO_REQ_MULTIBULK"
    using assms r unfolding read_multibulk_len_def Let_def
    by (auto split: option.splits if_splits simp: conn_wf_def)
qed

lemma bulk_len_safe:
  assumes "conn_wf c"
  shows "read_bulk_len cf c = Stop c' \<Longrightarrow> conn_wf c' \<and> (c' = c \<or> f_close_after_reply c')"
    and "read_bulk_len cf c = Go c' \<Longrightarrow> conn_wf c' \<and> multibulklen c' = multibulklen c \<and> reqtype c' = reqtype c"
proof -
  show "read_bulk_len cf c = Stop c' \<Longrightarrow> conn_wf c' \<and> (c' = c \<or> f_close_after_reply c')"
    using assms unfolding read_bulk_len_def Let_def by (auto split: option.splits if_splits)
  have *: "conn_wf (c\<lparr>qb_pos := qb_pos c + nl + 2, bulklen := ll\<rparr>)" "conn_wf (trim_querybuf (c\<lparr>qb_pos := qb_pos c + nl + 2\<rparr>)\<lparr>bulklen := ll\<rparr>)"
    if "int nl \<le> int (length (unparsed c)) - 2" "0 \<le> ll" for nl ll
    using assms that by (auto simp: conn_wf_def trim_querybuf_def)
  show "read_bulk_len cf c = Go c' \<Longrightarrow> conn_wf c' \<and> multibulklen c' = multibulklen c \<and> reqtype c' = reqtype c"
    unfolding read_bulk_len_def Let_def
    by (auto split: option.splits if_splits simp: trim_querybuf_def intro!: * [unfolded trim_querybuf_def, simplified])
qed

lemma take_bulk_safe:
  assumes "conn_wf c" "int (length (unparsed c)) \<ge> bulklen c + 2" "0 < multibulklen c" "0 \<le> bulklen c"
  shows "conn_wf (take_bulk c)" "reqtype (take_bulk c) = reqtype c"
  using assms unfolding take_bulk_def Let_def by (auto simp: conn_wf_def)

lemma bulk_loop_safe:
  assumes "bulk_loop cf n c = (c', ok)" "conn_wf c" "reqtype c = PROTO_REQ_MULTIBULK" "multibulklen c = int n"
    "0 < n \<or> bulklen c = - 1"
  shows "conn_wf c' \<and> (if ok then multibulklen c' = 0 \<and> bulklen c' = - 1 else f_close_after_reply c' \<or> input_ready c')"
  using assms
proof (induction n arbitrary: c)
  case (Suc n)
  have rdy: "input_ready c" using Suc.prems by (simp add: input_ready_def)
  show ?case
  proof (cases "if bulklen c = - 1 then read_bulk_len cf c else Go c")
    case (Go d)
    then have d: "conn_wf d" "multibulklen d = int (Suc n)" "reqtype d = PROTO_REQ_MULTIBULK" "0 \<le> bulklen d"
      using Suc.prems bulk_len_safe [of c cf d] read_bulk_len_frame [of cf c d] by (auto split: if_splits simp: conn_wf_def)
    show ?thesis
    proof (cases "int (length (unparsed d)) < bulklen d + 2")
      case True
      then have "c' = d" "\<not> ok" using Suc.prems(1) Go by simp_all
      then show ?thesis using d by (simp add: input_ready_def)
    next
      case False
      then have "bulk_loop cf n (take_bulk d) = (c', ok)" using Suc.prems(1) Go by simp
      moreover have "conn_wf (take_bulk d)" "reqtype (take_bulk d) = PROTO_REQ_MULTIBULK"
        "multibulklen (take_bulk d) = int n" "bulklen (take_bulk d) = - 1"
        using take_bulk_safe [of d] take_bulk_frame [of d] d False by simp_all
      ultimately show ?thesis using Suc.IH [of "take_bulk d"] by blast
    qed
  next
    case (Stop d)
    then show ?thesis using Suc.prems rdy bulk_len_safe(1) [of c cf d] by (auto split: if_splits)
  qed (use read_bulk_len_frame(3) [of cf c] in \<open>auto split: if_splits\<close>)
qed simp

lemma multibulk_safe:
  assumes "processMultibulkBuffer cf c = (c', ok)" "conn_wf c" "input_ready c" "reqtype c = PROTO_REQ_MULTIBULK"
  shows "conn_wf c' \<and> (if ok then multibulklen c' = 0 \<and> bulklen c' = - 1 else f_close_after_reply c' \<or> input_ready c')"
proof (cases "if multibulklen c = 0 then read_multibulk_len c else Go c")
  case (Go d)
  then have d: "conn_wf d" "0 < multibulklen d" "reqtype d = PROTO_REQ_MULTIBULK"
    using assms multibulk_len_safe(3) [of c d] by (auto split: if_splits simp: conn_wf_def)
  then have "bulk_loop cf (nat (multibulklen d)) d = (c', ok)"
    using assms(1) Go by (simp add: processMultibulkBuffer_def)
  from bulk_loop_safe [OF this d(1,3)] d(2) show ?thesis by simp
next
  case (Stop d)
  then have "multibulklen c = 0" "read_multibulk_len c = Stop d" by (simp_all split: if_splits)
  moreover from this have "c' = d" "\<not> ok" using assms(1) by (simp_all add: processMultibulkBuffer_def)
  ultimately show ?thesis using multibulk_len_safe(1) [of c d] assms by auto
next
  case (Empty d)
  then have "multibulklen c = 0" "read_multibulk_len c = Empty d" by (simp_all split: if_splits)
  moreover from this have "c' = d" "ok" using assms(1) by (simp_all add: processMultibulkBuffer_def)
  ultimately show ?thesis using multibulk_len_safe(2) [of c d] assms by auto
qed

lemma parse_request_safe:
  assumes "parse_request cf c = (c', ok)" "conn_wf c" "input_ready c" "unparsed c \<noteq> []"
  shows "conn_wf c' \<and> (if ok then multibulklen c' = 0 \<and> bulklen c' = - 1 else f_close_after_reply c' \<or> input_ready c')"
proof -
  define d where "d = (if reqtype c = PROTO_REQ_UNKNOWN
    then c\<lparr>reqtype := if querybuf c ! qb_pos c = 0x2A then PROTO_REQ_MULTIBULK else PROTO_REQ_INLINE\<rparr> else c)"
  have "at0 (unparsed c) 0 = querybuf c ! qb_pos c" using assms(2,4) by (simp add: at0_def conn_wf_def)
  then have d: "conn_wf d" "input_ready d" "reqtype d = PROTO_REQ_INLINE \<or> reqtype d = PROTO_REQ_MULTIBULK"
    using assms(2,3) by (auto simp: d_def input_ready_def intro: reqtype.exhaust [of "reqtype c"])
  have "(c', ok) = (if reqtype d = PROTO_REQ_INLINE then processInlineBuffer cf d else processMultibulkBuffer cf d)"
    using assms(1) unfolding parse_request_def Let_def d_def by (rule sym)
  then show ?thesis
    using d inline_safe [of cf d c' ok] multibulk_safe [of cf d c' ok] by (auto split: if_splits)
qed

lemma commandProcessed_wf:
  assumes "conn_wf c" "multibulklen c = 0" "bulklen c = - 1"
  shows "conn_wf (commandProcessed c)" "freed (commandProcessed c) = freed c"
    "input_stopped (commandProcessed c) \<or> input_ready (commandProcessed c)"
  using assms by (auto simp: commandProcessed_def resetClient_def conn_wf_def input_stopped_def input_ready_def Let_def)

text \<open>What every round that goes on keeps holds in front of the round that ends the loop.\<close>

lemma input_loop_last:
  assumes "P c s" "\<And>c s c' s'. P c s \<Longrightarrow> input_round cf exec c s = Again (c', s') \<Longrightarrow> P c' s'"
  shows "\<exists>d t. P d t \<and> input_round cf exec d t = input_loop cf exec c s \<and> (\<forall>r. input_loop cf exec c s \<noteq> Again r)"
  using assms(1)
proof (induction "length (unparsed c)" arbitrary: c s rule: less_induct)
  case less
  show ?case
  proof (cases "input_round cf exec c s")
    case (Again r)
    then obtain c' s' where a: "input_round cf exec c s = Again (c', s')" by (cases r) auto
    then have "input_loop cf exec c s = input_loop cf exec c' s'" by (subst input_loop.simps) simp
    then show ?thesis using less.hyps [OF input_round_less [OF a]] assms(2) [OF less.prems a] by simp
  qed (use less.prems in \<open>subst (1 2) input_loop.simps; auto\<close>)+
qed

lemma trim_ok: "conn_ok c \<Longrightarrow> conn_ok (trim_querybuf c)"
  unfolding conn_ok_def input_ready_def unparsed_trim
  by (auto simp: trim_querybuf_def conn_wf_def input_stopped_def)

lemma append_query_simps [simp]:
  "querybuf (append_query cf b c) = querybuf c @ b" "qb_pos (append_query cf b c) = qb_pos c"
  "freed (append_query cf b c) = freed c" "f_master (append_query cf b c) = f_master c"
  "fed (append_query cf b c) = fed c" "reploff (append_query cf b c) = reploff c"
  "pending_querybuf (append_query cf b c) = pending_querybuf c @ (if f_master c then b else [])"
  "read_reploff (append_query cf b c) = read_reploff c + (if f_master c then int (length b) else 0)"
  by (simp_all add: append_query_def Let_def)

lemma append_query_ok:
  assumes "conn_ok c"
  shows "conn_ok (append_query cf b c)"
proof -
  let ?d = "append_query cf b c"
  have f: "multibulklen ?d = multibulklen c" "bulklen ?d = bulklen c" "conn_argv ?d = conn_argv c"
    "reqtype ?d = reqtype c" "failed ?d = failed c" "input_stopped ?d = input_stopped c"
    by (simp_all add: append_query_def Let_def input_stopped_def)
  have "at0 (unparsed ?d) 0 = 0x2A" if "at0 (unparsed c) 0 = 0x2A"
    using that by (cases "unparsed c") auto
  then show ?thesis using assms by (auto simp: conn_ok_def conn_wf_def input_ready_def f)
qed

text \<open>The contract of the part that executes commands: a command that is refused without being
  processed closes the connection or frees the client.\<close>

locale command_executor =
  fixes exec :: "'s executor"
  assumes refusal: "exec v s = (s', x) \<Longrightarrow> \<not> x_ok x \<Longrightarrow> x_close x \<or> x_freed x"
begin

lemma processCommand_ok:
  assumes "conn_wf c" "multibulklen c = 0" "bulklen c = - 1" "processCommandAndResetClient exec c s = ((c', s'), b)"
  shows "conn_ok c'" "freed c' \<longleftrightarrow> \<not> b"
proof -
  obtain t x where x: "exec (conn_argv c) s = (t, x)" by fastforce
  define d where "d = c\<lparr>f_multi := x_multi x, f_blocked := x_blocked x, f_blocked_module := x_blocked_module x,
    f_close_after_reply := (f_close_after_reply c \<or> x_close x), freed := x_freed x\<rparr>"
  have c': "c' = (if x_ok x then commandProcessed d else d)" "b \<longleftrightarrow> \<not> x_freed x"
    using assms(4) x by (auto simp: processCommandAndResetClient_def d_def Let_def)
  have d: "conn_wf d" "multibulklen d = 0" "bulklen d = - 1" "freed d = x_freed x"
    using assms(1-3) by (simp_all add: d_def conn_wf_def)
  note p = commandProcessed_wf [OF d(1-3)]
  show "freed c' \<longleftrightarrow> \<not> b" using c' d p(2) by simp
  have "\<not> x_ok x \<Longrightarrow> conn_ok d" using refusal [OF x] d by (auto simp: conn_ok_def input_stopped_def d_def)
  then show "conn_ok c'" using c'(1) p by (simp add: conn_ok_def)
qed

lemma input_round_ok:
  assumes "conn_ok c" "\<not> freed c"
  shows "case input_round cf exec c s of Return (c', s') \<Rightarrow> conn_ok c' | Break (c', s') \<Rightarrow> conn_ok c'
    | Again (c', s') \<Rightarrow> conn_ok c' \<and> \<not> freed c'"
proof (cases "length (querybuf c) \<le> qb_pos c \<or> input_halted cf c")
  case False
  then have c: "conn_wf c" "input_ready c" "unparsed c \<noteq> []"
    using assms by (auto simp: conn_ok_def input_stopped_def input_halted_def)
  obtain d ok where p: "parse_request cf c = (d, ok)" by fastforce
  note d = parse_request_safe [OF p c]
  have fr: "\<not> freed d" using parse_request_frame(1) [OF p] assms(2) by (simp add: parse_frame_def)
  show ?thesis
  proof (cases "ok \<and> \<not> gopher_request cf d \<and> conn_argv d \<noteq> [] \<and> \<not> f_pending_read d")
    case True
    obtain c' s' b where r: "processCommandAndResetClient exec d s = ((c', s'), b)" by (metis prod.exhaust)
    show ?thesis using processCommand_ok [OF _ _ _ r] d True p False r
      by (cases b) (simp_all add: input_round_def)
  next
    case ok: False
    then show ?thesis using d p False fr
      by (auto simp: input_round_def conn_ok_def input_stopped_def input_ready_def resetClient_def conn_wf_def)
  qed
qed (use assms in \<open>auto simp: input_round_def\<close>)

lemma processInputBuffer_ok:
  assumes "conn_ok c" "\<not> freed c" "processInputBuffer cf exec c s = (c', s')"
  shows "conn_ok c'"
proof -
  have "conn_ok c' \<and> \<not> freed c'" if "conn_ok c \<and> \<not> freed c" "input_round cf exec c s = Again (c', s')" for c s c' s'
    using input_round_ok [of c cf s] that by simp
  then obtain d t where d: "conn_ok d" "\<not> freed d" "input_round cf exec d t = input_loop cf exec c s"
    "\<forall>r. input_loop cf exec c s \<noteq> Again r"
    using input_loop_last [of "\<lambda>c s. conn_ok c \<and> \<not> freed c" c s cf exec] assms(1,2) by blast
  then show ?thesis using assms(3) input_round_ok [OF d(1,2), of cf t] trim_ok
    by (auto simp: processInputBuffer_def split: round.splits prod.splits)
qed

lemma readQuery_ok:
  assumes "conn_ok c" "\<not> freed c" "readQueryFromClient cf exec rd c s = (c', s')"
  shows "conn_ok c'"
proof -
  let ?c = "c\<lparr>querybuf_peak := max (querybuf_peak c) (length (querybuf c))\<rparr>"
  have f: "conn_ok (freeClientAsync d)" "conn_ok (d\<lparr>f_pending_read := b\<rparr>)" "conn_ok (d\<lparr>querybuf_peak := n\<rparr>)"
    if "conn_ok d" for d b n
    using that by (auto simp: conn_ok_def freeClientAsync_def conn_wf_def input_stopped_def input_ready_def)
  have c: "conn_ok ?c" "\<not> freed ?c" using f(3) assms(1,2) by simp_all
  have a: "conn_ok (append_query cf b ?c)" for b using append_query_ok [OF c(1)] .
  have "processInputBuffer cf exec (append_query cf b ?c) s = (c', s') \<Longrightarrow> conn_ok c'" for b
    using processInputBuffer_ok [OF a] c(2) by simp
  then show ?thesis
    using assms(3) f assms(1) c(1) a
    by (auto simp: readQueryFromClient_def Let_def split: read_result.splits if_splits)
qed

lemma read_events_ok:
  "conn_ok c \<Longrightarrow> read_events cf exec ks sock c s = (sock', c', s') \<Longrightarrow> conn_ok c'"
proof (induction ks arbitrary: sock c s)
  case (Cons k ks)
  obtain d t where r: "readQueryFromClient cf exec (\<lambda>len. Data (take (min (Suc k) len) sock)) c s = (d, t)" by fastforce
  show ?case using Cons.prems Cons.IH [of d _ t] readQuery_ok [OF _ _ r] r by (auto split: if_splits)
qed simp

end

subsection \<open>The replication stream of a master\<close>

text \<open>What was passed on and what is pending make up the bytes \<open>st\<close> received so far; the offsets count
  them from \<open>r0\<close>, and the bytes not yet parsed are the end of what is pending.\<close>

definition stream_ok :: "int \<Rightarrow> bytes \<Rightarrow> conn \<Rightarrow> bool" where
  "stream_ok r0 st c \<longleftrightarrow> f_master c \<and> fed c @ pending_querybuf c = st \<and> reploff c = r0 + int (length (fed c)) \<and>
     read_reploff c = r0 + int (length st) \<and> (\<exists>n. unparsed c = drop n (pending_querybuf c))"

lemma stream_ok_frame: "parse_frame c c' \<Longrightarrow> stream_ok r0 st c \<Longrightarrow> stream_ok r0 st c'"
  unfolding parse_frame_def stream_ok_def by (metis drop_drop)

lemma stream_ok_commandProcessed:
  assumes "stream_ok r0 st c" "qb_pos c \<le> length (querybuf c)"
  shows "stream_ok r0 st (commandProcessed c)"
    and "\<not> f_multi c \<Longrightarrow> pending_querybuf (commandProcessed c) = unparsed (commandProcessed c)"
proof -
  obtain n where n: "unparsed c = drop n (pending_querybuf c)" using assms(1) by (auto simp: stream_ok_def)
  define m where "m = min n (length (pending_querybuf c))"
  have m: "unparsed c = drop m (pending_querybuf c)" "m \<le> length (pending_querybuf c)"
    using n by (auto simp: m_def min_def)
  have len: "length (querybuf c) - qb_pos c = length (pending_querybuf c) - m"
    using m(1) by (metis length_drop)
  have st: "f_master c" "st = fed c @ pending_querybuf c" "reploff c = r0 + int (length (fed c))"
    "read_reploff c = r0 + int (length st)" using assms(1) by (simp_all add: stream_ok_def)
  have applied: "read_reploff c - int (length (querybuf c)) + int (qb_pos c) = reploff c + int m"
    using st m(2) len assms(2) by simp
  have eq: "fed (commandProcessed c) = fed c @ take k (pending_querybuf c) \<and>
      pending_querybuf (commandProcessed c) = drop k (pending_querybuf c) \<and>
      reploff (commandProcessed c) = reploff c + int k \<and> read_reploff (commandProcessed c) = read_reploff c \<and>
      f_master (commandProcessed c)"
    if "k = (if f_multi c then 0 else m)" for k
    using that st(1) applied by (auto simp: commandProcessed_def Let_def resetClient_def)
  obtain k where k: "k = (if f_multi c then 0 else m)" by blast
  have "unparsed (commandProcessed c) = drop (m - k) (drop k (pending_querybuf c))"
    unfolding commandProcessed_unparsed using m k by simp
  then show "stream_ok r0 st (commandProcessed c)"
    using eq [OF k] st m(2) k by (auto simp: stream_ok_def min_def intro!: exI [of _ "m - k"])
  show "\<not> f_multi c \<Longrightarrow> pending_querybuf (commandProcessed c) = unparsed (commandProcessed c)"
    unfolding commandProcessed_unparsed using eq [OF k] k m(1) by simp
qed

lemma stream_ok_processCommand:
  assumes "stream_ok r0 st c" "qb_pos c \<le> length (querybuf c)" "processCommandAndResetClient exec c s = ((c', s'), b)"
  shows "stream_ok r0 st c'"
proof -
  obtain t x where x: "exec (conn_argv c) s = (t, x)" by fastforce
  define d where "d = c\<lparr>f_multi := x_multi x, f_blocked := x_blocked x, f_blocked_module := x_blocked_module x,
    f_close_after_reply := (f_close_after_reply c \<or> x_close x), freed := x_freed x\<rparr>"
  have "c' = (if x_ok x then commandProcessed d else d)"
    using assms(3) x by (auto simp: processCommandAndResetClient_def d_def Let_def)
  moreover have "stream_ok r0 st d" "qb_pos d \<le> length (querybuf d)"
    using assms(1,2) by (simp_all add: d_def stream_ok_def)
  ultimately show ?thesis using stream_ok_commandProcessed(1) by simp
qed

lemma stream_ok_round:
  assumes "stream_ok r0 st c" "conn_ok c" "\<not> freed c"
  shows "case input_round cf exec c s of Return (c', s') \<Rightarrow> stream_ok r0 st c' | Break (c', s') \<Rightarrow> stream_ok r0 st c'
    | Again (c', s') \<Rightarrow> stream_ok r0 st c'"
proof (cases "length (querybuf c) \<le> qb_pos c \<or> input_halted cf c")
  case False
  then have c: "conn_wf c" "input_ready c" "unparsed c \<noteq> []"
    using assms by (auto simp: conn_ok_def input_stopped_def input_halted_def)
  obtain d ok where p: "parse_request cf c = (d, ok)" by fastforce
  have d: "stream_ok r0 st d" "qb_pos d \<le> length (querybuf d)"
    using stream_ok_frame [OF parse_request_frame(1) [OF p] assms(1)] parse_request_safe [OF p c]
    by (simp_all add: conn_wf_def)
  obtain c' s' b where r: "processCommandAndResetClient exec d s = ((c', s'), b)" by (metis prod.exhaust)
  have "stream_ok r0 st c'" using stream_ok_processCommand [OF d r] .
  moreover have "stream_ok r0 st (resetClient d)" "stream_ok r0 st ((resetClient d)\<lparr>f_close_after_reply := True\<rparr>)"
    "stream_ok r0 st (d\<lparr>f_pending_command := True\<rparr>)"
    using d(1) by (simp_all add: stream_ok_def resetClient_def)
  ultimately show ?thesis using d(1) p False r by (cases b) (auto simp: input_round_def)
qed (use assms in \<open>auto simp: input_round_def\<close>)

lemma stream_ok_trim: "stream_ok r0 st c \<Longrightarrow> stream_ok r0 st (trim_querybuf c)"
  using stream_ok_frame [OF parse_frame_trim [OF parse_frame_refl]] .

lemma stream_ok_append:
  assumes "stream_ok r0 st c" "conn_wf c"
  shows "stream_ok r0 (st @ b) (append_query cf b c)"
proof -
  obtain n where n: "unparsed c = drop n (pending_querybuf c)" using assms(1) by (auto simp: stream_ok_def)
  define m where "m = min n (length (pending_querybuf c))"
  have "unparsed c = drop m (pending_querybuf c)" "m \<le> length (pending_querybuf c)"
    using n by (auto simp: m_def min_def)
  then show ?thesis using assms by (auto simp: stream_ok_def conn_wf_def intro!: exI [of _ m])
qed

context command_executor
begin

lemma processInputBuffer_stream:
  assumes "stream_ok r0 st c" "conn_ok c" "\<not> freed c" "processInputBuffer cf exec c s = (c', s')"
  shows "stream_ok r0 st c'"
proof -
  let ?P = "\<lambda>c s. stream_ok r0 st c \<and> conn_ok c \<and> \<not> freed c"
  have "?P c' s'" if "?P c s" "input_round cf exec c s = Again (c', s')" for c s c' s'
    using input_round_ok [of c cf s] stream_ok_round [of r0 st c cf exec s] that by simp
  then obtain d t where d: "?P d t" "input_round cf exec d t = input_loop cf exec c s"
    "\<forall>r. input_loop cf exec c s \<noteq> Again r"
    using input_loop_last [of ?P c s cf exec] assms(1-3) by blast
  then show ?thesis using assms(4) stream_ok_round [of r0 st d cf exec t] stream_ok_trim
    by (auto simp: processInputBuffer_def split: round.splits prod.splits)
qed

lemma readQuery_stream:
  assumes "stream_ok r0 st c" "conn_ok c" "\<not> freed c" "readQueryFromClient cf exec (\<lambda>n. Data (b n)) c s = (c', s')"
  shows "stream_ok r0 (st @ b (read_len c)) c'"
proof -
  let ?c = "c\<lparr>querybuf_peak := max (querybuf_peak c) (length (querybuf c))\<rparr>"
  let ?d = "append_query cf (b (read_len c)) ?c"
  have "stream_ok r0 st ?c" "conn_wf ?c" "conn_ok ?c" "f_master c"
    using assms(1-3) by (auto simp: stream_ok_def conn_ok_def conn_wf_def input_stopped_def input_ready_def)
  then have d: "stream_ok r0 (st @ b (read_len c)) ?d" "conn_ok ?d" "\<not> freed ?d" "f_master c"
    using stream_ok_append append_query_ok assms(3) by simp_all
  have "stream_ok r0 (st @ b (read_len c)) (freeClientAsync ?d)"
    using d(1) by (simp add: stream_ok_def freeClientAsync_def del: append_query_simps)
  then show ?thesis
    using assms(4) d(4) processInputBuffer_stream [OF d(1-3)]
    by (auto simp: readQueryFromClient_def Let_def split: if_splits)
qed

lemma read_events_stream:
  assumes "stream_ok r0 st c" "conn_ok c" "read_events cf exec ks sock c s = (sock', c', s')"
  shows "\<exists>b. sock = b @ sock' \<and> stream_ok r0 (st @ b) c'"
  using assms
proof (induction ks arbitrary: st sock c s)
  case (Cons k ks)
  obtain d t where r: "readQueryFromClient cf exec (\<lambda>len. Data (take (min (Suc k) len) sock)) c s = (d, t)" by fastforce
  show ?case
  proof (cases "sock = [] \<or> freed c")
    case False
    let ?n = "min (Suc k) (read_len c)"
    have d: "stream_ok r0 (st @ take ?n sock) d" "conn_ok d"
      using readQuery_stream [OF Cons.prems(1,2) _ r] readQuery_ok [OF Cons.prems(2) _ r] False by blast+
    have "read_events cf exec ks (drop ?n sock) d t = (sock', c', s')" using Cons.prems(3) False r by simp
    from Cons.IH [OF d this] obtain b where "drop ?n sock = b @ sock'" "stream_ok r0 ((st @ take ?n sock) @ b) c'" by blast
    then show ?thesis by (intro exI [of _ "take ?n sock @ b"]) (metis append.assoc append_take_drop_id)
  qed (use Cons.prems in auto)
qed simp

end

section \<open>Requests in the multibulk format\<close>

text \<open>The writer of the append only file and the replication stream. The arguments are decoded
  strings.\<close>

definition cat_count :: "u8 \<Rightarrow> nat \<Rightarrow> bytes" where
  "cat_count mark n =
     (case ll2string (replicate 31 0) 31 (int n) of
        Some (len, buf) \<Rightarrow> mark # take len buf @ [0x0D, 0x0A]
      | None \<Rightarrow> [])"

definition catAppendOnlyGenericCommand :: "bytes \<Rightarrow> bytes list \<Rightarrow> bytes" where
  "catAppendOnlyGenericCommand dst argv =
     dst @ cat_count 0x2A (length argv) @ concat (map (\<lambda>a. cat_count 0x24 (length a) @ a @ [0x0D, 0x0A]) argv)"

abbreviation enc_request :: "bytes list \<Rightarrow> bytes" where
  "enc_request \<equiv> catAppendOnlyGenericCommand []"

abbreviation enc_bulk :: "bytes \<Rightarrow> bytes" where
  "enc_bulk a \<equiv> cat_count 0x24 (length a) @ a @ [0x0D, 0x0A]"

abbreviation enc_requests :: "bytes list list \<Rightarrow> bytes" where
  "enc_requests rs \<equiv> concat (map enc_request rs)"

definition request_ok :: "rconf \<Rightarrow> bytes list \<Rightarrow> bool" where
  "request_ok cf v \<longleftrightarrow> v \<noteq> [] \<and> length v \<le> 1024 * 1024 \<and>
     (\<forall>a \<in> set v. int (length a) \<le> proto_max_bulk_len cf \<and> length a < 2 ^ 63)"

lemma length_dec_word: "n < 2 ^ 63 \<Longrightarrow> length (dec n) \<le> 19"
  using length_dec [of n 18] by simp

lemma cat_count: "n < 2 ^ 63 \<Longrightarrow> cat_count m n = m # dec n @ [0x0D, 0x0A]"
  using ll2string_sdec [of "int n" 31 "replicate 31 0"] length_dec_word [of n]
  by (simp add: cat_count_def sdec_def is_ll_def ll_defs)

lemma dec_no_special: "0x0D \<notin> set (dec n)" "0 \<notin> set (dec n)"
proof -
  have "list_all is_digit (dec n)"
    using dec_digits [of n] by (cases "n = 0") (auto simp: is_digit_def dec_small word_le_nat_alt unat_word_ariths)
  then show "0x0D \<notin> set (dec n)" "0 \<notin> set (dec n)" by (auto simp: list_all_iff is_digit_def)
qed

lemma strchr_none: "ch \<notin> set p \<Longrightarrow> strchr p ch = None"
  by (auto simp: strchr_def Let_def dest: nth_mem split: if_splits)

lemma strchr_found:
  assumes "ch \<notin> set h" "0 \<notin> set h"
  shows "strchr (h @ ch # x) ch = Some (length h)"
proof -
  have "takeWhile (\<lambda>x. x \<noteq> ch \<and> x \<noteq> 0) (h @ ch # x) = h" using assms by (subst takeWhile_append2) auto
  then show ?thesis by (simp add: strchr_def)
qed

text \<open>The part \<open>p\<close> of a stream that is in the buffer, when the stream starts with a header: the header
  is complete, or more bytes are to come.\<close>

lemma header_cases:
  assumes "p @ fut = cat_count m n @ tail" "n < 2 ^ 63" "m \<noteq> 0x0D" "m \<noteq> 0"
  obtains (partial) "strchr p 0x0D = None" "length p \<le> 20" "fut \<noteq> []"
    | (cr) "strchr p 0x0D = Some (Suc (length (dec n)))" "int (Suc (length (dec n))) > int (length p) - 2" "fut \<noteq> []"
    | (full) x where "p = m # dec n @ 0x0D # 0x0A # x" "x @ fut = tail" "strchr p 0x0D = Some (Suc (length (dec n)))"
proof -
  let ?h = "m # dec n"
  have s: "p @ fut = ?h @ 0x0D # 0x0A # tail" using assms(1) by (simp add: cat_count [OF assms(2)])
  have h: "0x0D \<notin> set ?h" "0 \<notin> set ?h" using dec_no_special assms(3,4) by auto
  have no_cr: thesis if "h' @ us = ?h" "p = h'" "fut \<noteq> []" for h' us
  proof -
    have "set ?h = set h' \<union> set us" "length ?h = length h' + length us"
      unfolding that(1) [symmetric] by simp_all
    then have "set p \<subseteq> set ?h" "length p \<le> 20" using that(2) length_dec_word [OF assms(2)] by auto
    then have "0x0D \<notin> set p" "length p \<le> 20" using h(1) by blast+
    then show thesis using that(3) by (intro partial strchr_none)
  qed
  from s obtain us where us: "p = ?h @ us \<and> us @ fut = 0x0D # 0x0A # tail \<or> p @ us = ?h \<and> fut = us @ 0x0D # 0x0A # tail"
    unfolding append_eq_append_conv2 by blast
  then show ?thesis
  proof
    assume b: "p = ?h @ us \<and> us @ fut = 0x0D # 0x0A # tail"
    consider "us = []" | "us = [0x0D]" | x where "us = 0x0D # 0x0A # x"
      using b by (cases us; cases "List.tl us") auto
    then show ?thesis
    proof cases
      case 1
      then show ?thesis using b no_cr [of p "[]"] by auto
    next
      case 2
      then show ?thesis using b strchr_found [OF h, of "[]"] cr by auto
    next
      case 3
      then show ?thesis using b strchr_found [OF h, of "0x0A # x"] full [of x] by auto
    qed
  qed (use no_cr in auto)
qed

lemma append_prefixE:
  assumes "p @ fut = h @ r" "length h \<le> length p"
  obtains x where "p = h @ x" "x @ fut = r"
proof -
  have "h = take (length h) p" using arg_cong [OF assms(1), of "take (length h)"] assms(2) by simp
  then have "p = h @ drop (length h) p" by (metis append_take_drop_id)
  moreover from this have "drop (length h) p @ fut = r" using assms(1) by (metis append.assoc same_append_eq)
  ultimately show ?thesis using that by blast
qed

text \<open>The connection is in the middle of a request: the arguments \<open>todo\<close> and then the bytes \<open>tail\<close> are
  to come, partly from the buffer and partly from the network (\<open>fut\<close>).\<close>

definition awaits :: "conn \<Rightarrow> bytes list \<Rightarrow> bytes \<Rightarrow> bytes \<Rightarrow> bool" where
  "awaits c todo fut tail \<longleftrightarrow> reqtype c = PROTO_REQ_MULTIBULK \<and> multibulklen c = int (length todo) \<and>
     (bulklen c = - 1 \<and> unparsed c @ fut = concat (map enc_bulk todo) @ tail \<or>
      (\<exists>a t. todo = a # t \<and> bulklen c = int (length a) \<and>
         unparsed c @ fut = a @ 0x0D # 0x0A # concat (map enc_bulk t) @ tail))"

definition same_parser :: "conn \<Rightarrow> conn \<Rightarrow> bool" where
  "same_parser c c' \<longleftrightarrow> f_close_after_reply c' = f_close_after_reply c \<and> errors c' = errors c \<and> failed c' = failed c"

lemma awaits_len:
  assumes "awaits c (a # t) fut tail" "bulklen c = - 1" "int (length a) \<le> proto_max_bulk_len cf" "length a < 2 ^ 63"
  shows "(read_bulk_len cf c = Stop c \<and> fut \<noteq> []) \<or>
    (\<exists>d. read_bulk_len cf c = Go d \<and> awaits d (a # t) fut tail \<and> bulklen d = int (length a) \<and>
       conn_argv d = conn_argv c \<and> same_parser c d)"
proof -
  let ?tail = "a @ 0x0D # 0x0A # concat (map enc_bulk t) @ tail"
  have w: "reqtype c = PROTO_REQ_MULTIBULK" "multibulklen c = int (length (a # t))"
    "unparsed c @ fut = cat_count 0x24 (length a) @ ?tail"
    using assms(1,2) by (auto simp: awaits_def)
  have m: "(0x24 :: u8) \<noteq> 0x0D" "(0x24 :: u8) \<noteq> 0" by simp_all
  from w(3) assms(4) m show ?thesis
  proof (cases rule: header_cases)
    case (full x)
    have st: "string2ll (dec (length a)) = Some (int (length a))" using string2ll_dec [of "length a"] assms(4) by simp
    define e where "e = c\<lparr>qb_pos := qb_pos c + Suc (length (dec (length a))) + 2\<rparr>"
    define d where "d = (if int (length a) \<ge> PROTO_MBULK_BIG_ARG \<and> int (length (unparsed e)) \<le> int (length a) + 2
      then trim_querybuf e else e)\<lparr>bulklen := int (length a)\<rparr>"
    have "unparsed e = drop (Suc (length (dec (length a))) + 2) (unparsed c)" by (simp add: e_def add.commute add.left_commute)
    then have "unparsed e = x" unfolding full(1) by simp
    then have "unparsed d = x" by (simp add: d_def trim_querybuf_def)
    then have "awaits d (a # t) fut tail" "bulklen d = int (length a)" "conn_argv d = conn_argv c" "same_parser c d"
      using w full(2) by (auto simp: awaits_def d_def e_def trim_querybuf_def same_parser_def)
    moreover have "read_bulk_len cf c = Go d"
      unfolding read_bulk_len_def Let_def full(3) d_def e_def using st assms(3) by (simp add: full(1))
    ultimately show ?thesis by blast
  qed (simp_all add: read_bulk_len_def PROTO_INLINE_MAX_SIZE_def)
qed

lemma awaits_take:
  assumes "awaits d (a # t) fut tail" "bulklen d = int (length a)"
  shows "(int (length (unparsed d)) < bulklen d + 2 \<and> fut \<noteq> []) \<or>
    (int (length (unparsed d)) \<ge> bulklen d + 2 \<and> awaits (take_bulk d) t fut tail \<and>
      bulklen (take_bulk d) = - 1 \<and> conn_argv (take_bulk d) = conn_argv d @ [a] \<and> same_parser d (take_bulk d))"
proof -
  let ?r = "concat (map enc_bulk t) @ tail"
  have w: "reqtype d = PROTO_REQ_MULTIBULK" "multibulklen d = int (Suc (length t))"
    "unparsed d @ fut = (a @ [0x0D, 0x0A]) @ ?r"
    using assms by (auto simp: awaits_def)
  show ?thesis
  proof (cases "int (length (unparsed d)) < bulklen d + 2")
    case True
    then have "fut \<noteq> []" using arg_cong [OF w(3), of length] assms(2) by auto
    then show ?thesis using True by blast
  next
    case False
    then have len: "length (a @ [0x0D, 0x0A]) \<le> length (unparsed d)" using assms(2) by simp
    obtain x where x: "unparsed d = (a @ [0x0D, 0x0A]) @ x" "x @ fut = ?r"
      by (rule append_prefixE [OF w(3) len])
    have tk: "take (length a) (unparsed d) = a" "drop (length a + 2) (unparsed d) = x" by (simp_all add: x(1))
    have "conn_argv (take_bulk d) = conn_argv d @ [a] \<and> unparsed (take_bulk d) = x"
    proof (cases "qb_pos d = 0 \<and> bulklen d \<ge> PROTO_MBULK_BIG_ARG \<and> length (querybuf d) = nat (bulklen d) + 2")
      case True
      then have "querybuf d = a @ [0x0D, 0x0A] @ x" "length (querybuf d) = length a + 2" using x(1) assms(2) by simp_all
      then show ?thesis using True assms(2) by (simp add: take_bulk_def)
    next
      case False
      then show ?thesis unfolding take_bulk_def Let_def if_not_P [OF False] using tk assms(2)
        by (simp add: add.commute add.left_commute)
    qed
    then have "awaits (take_bulk d) t fut tail" "bulklen (take_bulk d) = - 1" "same_parser d (take_bulk d)"
      using w x(2) by (simp_all add: awaits_def same_parser_def take_bulk_def Let_def)
    then show ?thesis using False \<open>conn_argv (take_bulk d) = _ \<and> _\<close> by simp
  qed
qed

lemma same_parser_trans: "same_parser c d \<Longrightarrow> same_parser d e \<Longrightarrow> same_parser c e"
  by (simp add: same_parser_def)

lemma same_parser_refl [simp]: "same_parser c c"
  by (simp add: same_parser_def)

lemma bulk_loop_awaits:
  assumes "awaits c todo fut tail" "todo = [] \<Longrightarrow> bulklen c = - 1"
    "\<forall>a \<in> set todo. int (length a) \<le> proto_max_bulk_len cf \<and> length a < 2 ^ 63"
    "bulk_loop cf (length todo) c = (c', ok)"
  shows "same_parser c c' \<and>
    (if ok then conn_argv c' = conn_argv c @ todo \<and> awaits c' [] fut tail \<and> bulklen c' = - 1
     else fut \<noteq> [] \<and> (\<exists>t. t \<noteq> [] \<and> conn_argv c' @ t = conn_argv c @ todo \<and> awaits c' t fut tail))"
  using assms
proof (induction todo arbitrary: c)
  case (Cons a t)
  let ?h = "if bulklen c = - 1 then read_bulk_len cf c else Go c"
  have a: "int (length a) \<le> proto_max_bulk_len cf" "length a < 2 ^ 63" using Cons.prems(3) by simp_all
  consider "?h = Stop c" "fut \<noteq> []" | d where "?h = Go d" "awaits d (a # t) fut tail" "bulklen d = int (length a)"
      "conn_argv d = conn_argv c" "same_parser c d"
    using awaits_len [OF Cons.prems(1) _ a] Cons.prems(1) by (cases "bulklen c = - 1") (auto simp: awaits_def)
  then show ?case
  proof cases
    case 1
    then have "c' = c" "\<not> ok" using Cons.prems(4) by auto
    then show ?thesis using 1(2) Cons.prems(1) by (auto intro!: exI [of _ "a # t"])
  next
    case (2 d)
    from awaits_take [OF 2(2,3)] show ?thesis
    proof
      assume e: "int (length (unparsed d)) < bulklen d + 2 \<and> fut \<noteq> []"
      then have "c' = d" "\<not> ok" using Cons.prems(4) 2(1) by auto
      then show ?thesis using e 2 by (auto intro!: exI [of _ "a # t"])
    next
      let ?d = "take_bulk d"
      assume e: "int (length (unparsed d)) \<ge> bulklen d + 2 \<and> awaits ?d t fut tail \<and> bulklen ?d = - 1 \<and>
        conn_argv ?d = conn_argv d @ [a] \<and> same_parser d ?d"
      then have b: "bulk_loop cf (length t) ?d = (c', ok)" using Cons.prems(4) 2(1) by simp
      have p3: "\<forall>a \<in> set t. int (length a) \<le> proto_max_bulk_len cf \<and> length a < 2 ^ 63" using Cons.prems(3) by simp
      have ih: "same_parser ?d c' \<and>
        (if ok then conn_argv c' = conn_argv ?d @ t \<and> awaits c' [] fut tail \<and> bulklen c' = - 1
         else fut \<noteq> [] \<and> (\<exists>t'. t' \<noteq> [] \<and> conn_argv c' @ t' = conn_argv ?d @ t \<and> awaits c' t' fut tail))"
        using e by (intro Cons.IH p3 b) blast+
      have "conn_argv ?d @ t = conn_argv c @ a # t" using e 2(4) by simp
      moreover have "same_parser c c'" using ih e 2(5) same_parser_trans by blast
      ultimately show ?thesis using ih by metis
    qed
  qed
qed simp

text \<open>Between two requests, or in the middle of the first of the requests \<open>rs\<close>.\<close>

definition expects :: "conn \<Rightarrow> bytes \<Rightarrow> bytes list list \<Rightarrow> bool" where
  "expects c fut rs \<longleftrightarrow>
     (multibulklen c = 0 \<and> conn_argv c = [] \<and> bulklen c = - 1 \<and> reqtype c \<noteq> PROTO_REQ_INLINE \<and>
        unparsed c @ fut = enc_requests rs) \<or>
     (\<exists>t rs'. t \<noteq> [] \<and> rs = (conn_argv c @ t) # rs' \<and> awaits c t fut (enc_requests rs'))"

lemma multibulk_awaits:
  assumes "processMultibulkBuffer cf c = (c', ok)" "awaits c todo fut tail" "todo \<noteq> []"
    "\<forall>a \<in> set todo. int (length a) \<le> proto_max_bulk_len cf \<and> length a < 2 ^ 63"
  shows "same_parser c c' \<and>
    (if ok then conn_argv c' = conn_argv c @ todo \<and> awaits c' [] fut tail \<and> bulklen c' = - 1
     else fut \<noteq> [] \<and> (\<exists>t. t \<noteq> [] \<and> conn_argv c' @ t = conn_argv c @ todo \<and> awaits c' t fut tail))"
proof -
  have "multibulklen c = int (length todo)" using assms(2) by (simp add: awaits_def)
  then have "bulk_loop cf (length todo) c = (c', ok)" using assms(1,3) by (simp add: processMultibulkBuffer_def)
  then show ?thesis using bulk_loop_awaits [OF assms(2) _ assms(4)] assms(3) by blast
qed

lemma multibulk_header:
  assumes "multibulklen c = 0" "conn_argv c = []" "bulklen c = - 1" "reqtype c = PROTO_REQ_MULTIBULK"
    "unparsed c @ fut = enc_request v @ tail" "request_ok cf v"
  shows "(processMultibulkBuffer cf c = (c, False) \<and> fut \<noteq> []) \<or>
    (\<exists>d. processMultibulkBuffer cf c = processMultibulkBuffer cf d \<and> awaits d v fut tail \<and> conn_argv d = [] \<and> same_parser c d)"
proof -
  have v: "length v < 2 ^ 63" "v \<noteq> []" "int (length v) \<le> 1024 * 1024" using assms(6) by (auto simp: request_ok_def)
  have u: "unparsed c @ fut = cat_count 0x2A (length v) @ concat (map enc_bulk v) @ tail"
    using assms(5) by (simp add: catAppendOnlyGenericCommand_def)
  have m: "(0x2A :: u8) \<noteq> 0x0D" "(0x2A :: u8) \<noteq> 0" by simp_all
  from u v(1) m show ?thesis
  proof (cases rule: header_cases)
    case (full x)
    have st: "string2ll (dec (length v)) = Some (int (length v))" using string2ll_dec [of "length v"] v(1) by simp
    define d where "d = c\<lparr>qb_pos := qb_pos c + Suc (length (dec (length v))) + 2, multibulklen := int (length v)\<rparr>"
    have "unparsed d = drop (Suc (length (dec (length v))) + 2) (unparsed c)" by (simp add: d_def add.commute add.left_commute)
    then have "unparsed d = x" unfolding full(1) by simp
    then have "awaits d v fut tail" "conn_argv d = []" "same_parser c d"
      using assms(2-4) full(2) by (simp_all add: awaits_def d_def same_parser_def)
    moreover have "read_multibulk_len c = Go d"
      unfolding read_multibulk_len_def Let_def full(3) d_def using st v assms(2) by (simp add: full(1))
    moreover have "multibulklen d \<noteq> 0" using v(2) by (simp add: d_def)
    ultimately show ?thesis using assms(1) by (auto simp: processMultibulkBuffer_def)
  qed (simp_all add: processMultibulkBuffer_def read_multibulk_len_def PROTO_INLINE_MAX_SIZE_def assms)
qed

text \<open>The loop will look at the buffer and execute what it finds.\<close>

definition receptive :: "rconf \<Rightarrow> conn \<Rightarrow> bool" where
  "receptive cf c \<longleftrightarrow> conn_ok c \<and> \<not> input_halted cf c \<and> \<not> f_pending_read c \<and> \<not> freed c"

text \<open>A command that leaves the connection open.\<close>

definition steady :: "'s executor \<Rightarrow> bytes list \<Rightarrow> bool" where
  "steady exec v \<longleftrightarrow> (\<forall>s. let x = snd (exec v s) in x_ok x \<and> \<not> x_blocked x \<and> \<not> x_close x \<and> \<not> x_freed x)"

lemma expects_nonempty:
  assumes "expects c fut rs" "unparsed c \<noteq> []"
  obtains v rs' where "rs = v # rs'"
  using assms by (cases rs) (auto simp: expects_def)

lemma enc_request_Cons:
  assumes "request_ok cf v"
  shows "\<exists>x. enc_request v = 0x2A # x"
  using assms cat_count [of "length v" "0x2A"] by (simp add: catAppendOnlyGenericCommand_def request_ok_def)

text \<open>Whatever was read before, the parser goes on with the arguments of the first request, or waits
  for its header.\<close>

lemma expects_start:
  assumes "expects c fut (v # rs)" "unparsed c \<noteq> []" "qb_pos c \<le> length (querybuf c)" "request_ok cf v"
  shows "(\<exists>e. parse_request cf c = (e, False) \<and> fut \<noteq> [] \<and> expects e fut (v # rs) \<and> same_parser c e) \<or>
    (\<exists>d t. parse_request cf c = processMultibulkBuffer cf d \<and> awaits d t fut (enc_requests rs) \<and>
       conn_argv d @ t = v \<and> t \<noteq> [] \<and> same_parser c d)"
proof (cases "multibulklen c = 0")
  case True
  define e where "e = (if reqtype c = PROTO_REQ_UNKNOWN then c\<lparr>reqtype := PROTO_REQ_MULTIBULK\<rparr> else c)"
  have i: "conn_argv c = []" "bulklen c = - 1" "reqtype c \<noteq> PROTO_REQ_INLINE" "unparsed c @ fut = enc_requests (v # rs)"
    using assms(1) True by (auto simp: expects_def awaits_def)
  have "at0 (unparsed c) 0 = 0x2A"
    using enc_request_Cons [OF assms(4)] i(4) assms(2) by (cases "unparsed c") auto
  then have "querybuf c ! qb_pos c = 0x2A" using assms(2,3) by (simp add: at0_def)
  then have p: "parse_request cf c = processMultibulkBuffer cf e"
    using i(3) by (cases "reqtype c") (simp_all add: parse_request_def e_def)
  have e: "multibulklen e = 0" "conn_argv e = []" "bulklen e = - 1" "reqtype e = PROTO_REQ_MULTIBULK"
      "unparsed e @ fut = enc_request v @ enc_requests rs" "same_parser c e"
    using i True by (cases "reqtype c"; simp add: e_def same_parser_def)+
  from multibulk_header [OF e(1-5) assms(4)] show ?thesis
  proof
    assume "processMultibulkBuffer cf e = (e, False) \<and> fut \<noteq> []"
    moreover have "expects e fut (v # rs)" using e unfolding expects_def by simp
    ultimately show ?thesis using p e(6) by auto
  next
    assume "\<exists>d. processMultibulkBuffer cf e = processMultibulkBuffer cf d \<and> awaits d v fut (enc_requests rs) \<and>
      conn_argv d = [] \<and> same_parser e d"
    then obtain d where d: "processMultibulkBuffer cf e = processMultibulkBuffer cf d" "awaits d v fut (enc_requests rs)"
      "conn_argv d = []" "same_parser e d" by blast
    have "v \<noteq> []" using assms(4) by (simp add: request_ok_def)
    then show ?thesis using d p same_parser_trans [OF e(6) d(4)] by (intro disjI2 exI [of _ d] exI [of _ v]) simp
  qed
next
  case False
  then obtain t where t: "t \<noteq> []" "conn_argv c @ t = v" "awaits c t fut (enc_requests rs)"
    using assms(1) by (auto simp: expects_def)
  then have "parse_request cf c = processMultibulkBuffer cf c" by (simp add: parse_request_def awaits_def)
  then show ?thesis using t by (metis same_parser_refl)
qed

lemma expects_parse:
  assumes "expects c fut (v # rs)" "unparsed c \<noteq> []" "qb_pos c \<le> length (querybuf c)" "request_ok cf v"
    "parse_request cf c = (c', ok)"
  shows "same_parser c c' \<and>
    (if ok then conn_argv c' = v \<and> reqtype c' = PROTO_REQ_MULTIBULK \<and> unparsed c' @ fut = enc_requests rs
     else fut \<noteq> [] \<and> expects c' fut (v # rs))"
  using expects_start [OF assms(1-4)]
proof
  assume "\<exists>d t. parse_request cf c = processMultibulkBuffer cf d \<and> awaits d t fut (enc_requests rs) \<and>
    conn_argv d @ t = v \<and> t \<noteq> [] \<and> same_parser c d"
  then obtain d t where d: "processMultibulkBuffer cf d = (c', ok)" "awaits d t fut (enc_requests rs)" "t \<noteq> []"
    "conn_argv d @ t = v" "same_parser c d"
    using assms(5) by auto
  have "\<forall>a \<in> set t. int (length a) \<le> proto_max_bulk_len cf \<and> length a < 2 ^ 63"
    using assms(4) d(4) by (auto simp: request_ok_def)
  note m = multibulk_awaits [OF d(1-3) this]
  then have sp: "same_parser c c'" using same_parser_trans [OF d(5)] by blast
  show ?thesis
  proof (cases ok)
    case True
    then show ?thesis using m sp d(4) by (auto simp: awaits_def)
  next
    case False
    then obtain t' where "t' \<noteq> []" "conn_argv c' @ t' = v" "awaits c' t' fut (enc_requests rs)" "fut \<noteq> []"
      using m d(4) by auto
    then have "expects c' fut (v # rs)" unfolding expects_def by blast
    then show ?thesis using False sp \<open>fut \<noteq> []\<close> by simp
  qed
qed (use assms(5) in auto)

lemma commandProcessed_open:
  assumes "\<not> f_blocked c"
  shows "multibulklen (commandProcessed c) = 0" "bulklen (commandProcessed c) = - 1" "conn_argv (commandProcessed c) = []"
    "reqtype (commandProcessed c) = PROTO_REQ_UNKNOWN" "input_halted cf (commandProcessed c) = input_halted cf c"
    "f_pending_read (commandProcessed c) = f_pending_read c" "freed (commandProcessed c) = freed c"
  using assms by (simp_all add: commandProcessed_def resetClient_def input_halted_def Let_def)

lemma steady_command:
  assumes "steady exec (conn_argv d)" "\<not> input_halted cf d" "\<not> f_pending_read d"
  obtains c' where "processCommandAndResetClient exec d s = ((c', fst (exec (conn_argv d) s)), True)"
    "\<not> input_halted cf c'" "\<not> f_pending_read c'" "\<not> freed c'" "unparsed c' = unparsed d"
    "multibulklen c' = 0" "bulklen c' = - 1" "conn_argv c' = []" "reqtype c' = PROTO_REQ_UNKNOWN"
proof -
  obtain t x where x: "exec (conn_argv d) s = (t, x)" by fastforce
  define e where "e = d\<lparr>f_multi := x_multi x, f_blocked := x_blocked x, f_blocked_module := x_blocked_module x,
    f_close_after_reply := (f_close_after_reply d \<or> x_close x), freed := x_freed x\<rparr>"
  have st: "x_ok x" "\<not> x_blocked x" "\<not> x_close x" "\<not> x_freed x"
    using assms(1) x unfolding steady_def Let_def by (metis snd_conv)+
  have "processCommandAndResetClient exec d s = ((commandProcessed e, t), True)"
    using x st by (simp add: processCommandAndResetClient_def e_def)
  moreover have e: "\<not> f_blocked e" "\<not> input_halted cf e" "\<not> f_pending_read e" "\<not> freed e" "unparsed e = unparsed d"
    using st assms(2,3) by (simp_all add: e_def input_halted_def)
  ultimately show ?thesis
    using that [of "commandProcessed e"] commandProcessed_open [OF e(1)] x by simp
qed

context command_executor
begin

lemma expects_round:
  assumes "receptive cf c" "expects c fut rs" "unparsed c \<noteq> []" "\<forall>v \<in> set rs. request_ok cf v \<and> steady exec v"
  shows "(\<exists>c'. input_round cf exec c s = Break (c', s) \<and> receptive cf c' \<and> expects c' fut rs \<and> fut \<noteq> []) \<or>
    (\<exists>v rs' c'. rs = v # rs' \<and> input_round cf exec c s = Again (c', fst (exec v s)) \<and> receptive cf c' \<and> expects c' fut rs')"
proof -
  obtain v rs' where rs: "rs = v # rs'" using expects_nonempty [OF assms(2,3)] .
  have c: "conn_wf c" "input_ready c" "\<not> input_halted cf c"
    using assms(1) by (auto simp: receptive_def conn_ok_def input_stopped_def input_halted_def)
  have v: "request_ok cf v" "steady exec v" "v \<noteq> []" using assms(4) rs by (auto simp: request_ok_def)
  have pos: "\<not> length (querybuf c) \<le> qb_pos c" "qb_pos c \<le> length (querybuf c)" using assms(3) by simp_all
  obtain d ok where p: "parse_request cf c = (d, ok)" by fastforce
  note e = expects_parse [OF assms(2) [unfolded rs] assms(3) pos(2) v(1) p]
  have fr: "parse_frame c d" using parse_request_frame(1) [OF p] .
  have h: "\<not> input_halted cf d" "\<not> f_pending_read d" "\<not> freed d"
    using e fr c(3) assms(1) by (auto simp: input_halted_def same_parser_def parse_frame_def receptive_def)
  have okr: "case input_round cf exec c s of Return (c', s') \<Rightarrow> conn_ok c' | Break (c', s') \<Rightarrow> conn_ok c'
    | Again (c', s') \<Rightarrow> conn_ok c' \<and> \<not> freed c'"
    using input_round_ok assms(1) by (simp add: receptive_def)
  show ?thesis
  proof (cases ok)
    case True
    then have d: "conn_argv d = v" "reqtype d = PROTO_REQ_MULTIBULK" "unparsed d @ fut = enc_requests rs'"
      using e by simp_all
    have st: "steady exec (conn_argv d)" using v(2) d(1) by simp
    obtain c' where c': "processCommandAndResetClient exec d s = ((c', fst (exec v s)), True)"
      "\<not> input_halted cf c'" "\<not> f_pending_read c'" "\<not> freed c'" "unparsed c' = unparsed d"
      "multibulklen c' = 0" "bulklen c' = - 1" "conn_argv c' = []" "reqtype c' = PROTO_REQ_UNKNOWN"
      by (rule steady_command [OF st h(1,2), of s, unfolded d(1)])
    have "input_round cf exec c s = Again (c', fst (exec v s))"
      using p True c(3) pos(1) h d(1,2) v(3) c'(1) by (simp add: input_round_def gopher_request_def)
    moreover have "expects c' fut rs'" using c' d(3) by (simp add: expects_def)
    ultimately show ?thesis using rs okr c' by (auto simp: receptive_def)
  next
    case False
    then have "input_round cf exec c s = Break (d, s)" using p c(3) pos(1) by (simp add: input_round_def)
    then show ?thesis using e False okr h rs by (auto simp: receptive_def)
  qed
qed

lemma expects_done:
  assumes "expects c [] rs" "unparsed c = []" "\<forall>v \<in> set rs. request_ok cf v"
  shows "rs = []"
proof (rule ccontr)
  assume "rs \<noteq> []"
  then obtain v rs' where rs: "rs = v # rs'" by (cases rs) auto
  have "enc_requests rs \<noteq> []" using enc_request_Cons [of cf v] assms(3) rs by auto
  then obtain t where "t \<noteq> []" "awaits c t [] (enc_requests rs')"
    using assms(1,2) rs by (auto simp: expects_def)
  then show False using assms(2) by (cases t) (simp_all add: awaits_def)
qed

lemma expects_trim: "expects (trim_querybuf c) fut rs = expects c fut rs"
  by (simp add: expects_def awaits_def trim_querybuf_def)

text \<open>The loop executes the requests that are complete, in their order.\<close>

lemma processInputBuffer_expects:
  assumes "receptive cf c" "expects c fut rs" "\<forall>v \<in> set rs. request_ok cf v \<and> steady exec v"
    "processInputBuffer cf exec c s = (c', s')"
  shows "\<exists>past rs'. rs = past @ rs' \<and> s' = foldl (\<lambda>s v. fst (exec v s)) s past \<and> receptive cf c' \<and> expects c' fut rs' \<and>
    qb_pos c' = 0 \<and> (fut = [] \<longrightarrow> rs' = [])"
proof -
  define P where "P d t \<longleftrightarrow> (\<exists>past rs'. rs = past @ rs' \<and> t = foldl (\<lambda>s v. fst (exec v s)) s past \<and>
    receptive cf d \<and> expects d fut rs')" for d t
  have step: "P d' t'" if p: "P d t" and rd: "input_round cf exec d t = Again (d', t')" for d t d' t'
  proof -
    obtain past rs' where d: "rs = past @ rs'" "t = foldl (\<lambda>s v. fst (exec v s)) s past" "receptive cf d" "expects d fut rs'"
      using p unfolding P_def by blast
    have ne: "unparsed d \<noteq> []" using rd by (auto simp: input_round_def split: if_splits)
    have r: "\<forall>v \<in> set rs'. request_ok cf v \<and> steady exec v" using assms(3) d(1) by simp
    obtain v rs'' where "rs' = v # rs''" "t' = fst (exec v t)" "receptive cf d'" "expects d' fut rs''"
      using expects_round [OF d(3,4) ne r, of t] unfolding rd by blast
    then show ?thesis using d(1,2) unfolding P_def by (intro exI [of _ "past @ [v]"] exI [of _ rs'']) simp
  qed
  have "P c s" using assms(1,2) unfolding P_def by (intro exI [of _ "[]"] exI [of _ rs]) simp
  then obtain d t where l: "P d t" "input_round cf exec d t = input_loop cf exec c s" "\<forall>r. input_loop cf exec c s \<noteq> Again r"
    using input_loop_last [of P c s cf exec] step by blast
  then obtain past rs' where d: "rs = past @ rs'" "t = foldl (\<lambda>s v. fst (exec v s)) s past" "receptive cf d" "expects d fut rs'"
    unfolding P_def by blast
  have r: "\<forall>v \<in> set rs'. request_ok cf v \<and> steady exec v" using assms(3) d(1) by simp
  obtain d' where d': "input_loop cf exec c s = Break (d', t)" "receptive cf d'" "expects d' fut rs'" "fut = [] \<longrightarrow> rs' = []"
  proof (cases "unparsed d = []")
    case True
    then have "input_loop cf exec c s = Break (d, t)" using l(2) by (simp add: input_round_def)
    moreover have "fut = [] \<longrightarrow> rs' = []" using expects_done [OF _ True, of rs' cf] d(4) r by blast
    ultimately show thesis using d that by blast
  next
    case False
    show thesis using expects_round [OF d(3,4) False r, of t] l(3) that unfolding l(2) by blast
  qed
  have c': "c' = trim_querybuf d'" "s' = t" using assms(4) d'(1) by (simp_all add: processInputBuffer_def)
  have "receptive cf c'" using d'(2) trim_ok unfolding c' by (auto simp: receptive_def input_halted_def trim_querybuf_def)
  moreover have "expects c' fut rs'" "qb_pos c' = 0" using d'(3) unfolding c' expects_trim by (simp_all add: trim_querybuf_def)
  ultimately show ?thesis using d(1,2) c'(2) d'(4) by blast
qed

text \<open>A read passes bytes from the network to the buffer; the first bytes it brings are the future.\<close>

lemma append_expects:
  assumes "expects c (b @ fut) rs" "qb_pos c \<le> length (querybuf c)"
  shows "expects (append_query cf b c) fut rs"
proof -
  let ?d = "append_query cf b c"
  have "unparsed ?d @ fut = unparsed c @ b @ fut" using assms(2) by simp
  moreover have "multibulklen ?d = multibulklen c" "conn_argv ?d = conn_argv c" "bulklen ?d = bulklen c" "reqtype ?d = reqtype c"
    by (simp_all add: append_query_def Let_def)
  ultimately show ?thesis using assms(1) unfolding expects_def awaits_def by simp
qed

lemma append_receptive: "receptive cf c \<Longrightarrow> receptive cf (append_query cf' b c)"
  using append_query_ok [of c cf' b] by (simp add: receptive_def append_query_def input_halted_def Let_def)

lemma peak_irrelevant:
  "receptive cf (c\<lparr>querybuf_peak := n\<rparr>) = receptive cf c" "expects (c\<lparr>querybuf_peak := n\<rparr>) fut rs = expects c fut rs"
  by (simp_all add: receptive_def conn_ok_def conn_wf_def input_stopped_def input_ready_def input_halted_def expects_def awaits_def)

lemma readQuery_expects:
  assumes "receptive cf c" "expects c (b (read_len c) @ fut) rs" "\<forall>v \<in> set rs. request_ok cf v \<and> steady exec v"
    "qb_pos c = 0" "\<not> threaded_reads cf" "int (length (querybuf c) + length (b (read_len c))) \<le> client_max_querybuf_len cf"
    "readQueryFromClient cf exec (\<lambda>n. Data (b n)) c s = (c', s')"
  shows "\<exists>past rs'. rs = past @ rs' \<and> s' = foldl (\<lambda>s v. fst (exec v s)) s past \<and> receptive cf c' \<and> expects c' fut rs' \<and>
    qb_pos c' = 0 \<and> (fut = [] \<longrightarrow> rs' = [])"
proof -
  define d where "d = append_query cf (b (read_len c)) (c\<lparr>querybuf_peak := max (querybuf_peak c) (length (querybuf c))\<rparr>)"
  let ?c = "c\<lparr>querybuf_peak := max (querybuf_peak c) (length (querybuf c))\<rparr>"
  have rc: "receptive cf ?c" and ex: "expects ?c (b (read_len c) @ fut) rs" and qp: "qb_pos ?c \<le> length (querybuf ?c)"
    using assms(1,2,4) by (simp_all add: peak_irrelevant)
  have rd: "receptive cf d" "expects d fut rs"
    unfolding d_def by (rule append_receptive [OF rc], rule append_expects [OF ex qp])
  have "processInputBuffer cf exec d s = (c', s')"
    using assms(5-7) by (simp add: readQueryFromClient_def Let_def d_def)
  then show ?thesis by (rule processInputBuffer_expects [OF rd assms(3)])
qed

text \<open>The buffer never holds more than the bytes that are still to be parsed, so a stream that fits the
  limit of the query buffer is served to its end however the network cuts it.\<close>

lemma expects_querybuf:
  assumes "expects c fut rs"
  shows "length (unparsed c @ fut) \<le> length (enc_requests rs)"
proof -
  have *: "length (concat (map enc_bulk t) @ tail) \<le> length (enc_request (v @ t) @ tail)" for v t tail
    by (simp add: catAppendOnlyGenericCommand_def)
  have "length (unparsed c @ fut) \<le> length (concat (map enc_bulk t) @ tail)" if "awaits c t fut tail" for t tail
    using that unfolding awaits_def by (elim conjE disjE exE) (simp_all only:, simp_all)
  then have "length (unparsed c @ fut) \<le> length (enc_request (v @ t) @ tail)" if "awaits c t fut tail" for v t tail
    using * le_trans that by blast
  then show ?thesis
    using assms unfolding expects_def by (elim disjE exE conjE) (simp_all only: list.map concat.simps)
qed

lemma read_len_pos: "0 < read_len c"
  by (simp add: read_len_def Let_def PROTO_IOBUF_LEN_def)

lemma read_events_expects:
  assumes "receptive cf c" "expects c sock rs" "\<forall>v \<in> set rs. request_ok cf v \<and> steady exec v" "qb_pos c = 0"
    "\<not> threaded_reads cf" "int (length (enc_requests rs)) \<le> client_max_querybuf_len cf" "sock = [] \<longrightarrow> rs = []"
    "read_events cf exec ks sock c s = (sock', c', s')"
  shows "\<exists>past rs'. rs = past @ rs' \<and> s' = foldl (\<lambda>s v. fst (exec v s)) s past \<and> receptive cf c' \<and> expects c' sock' rs' \<and>
    (sock' = [] \<longrightarrow> rs' = []) \<and> (length sock \<le> length ks \<longrightarrow> sock' = [])"
  using assms(1-4,6-8)
proof (induction ks arbitrary: sock c s rs)
  case (Cons k ks)
  define n where "n = min (Suc k) (read_len c)"
  obtain d t where r: "readQueryFromClient cf exec (\<lambda>len. Data (take (min (Suc k) len) sock)) c s = (d, t)" by fastforce
  have nf: "\<not> freed c" using Cons.prems(1) by (simp add: receptive_def)
  show ?case
  proof (cases "sock = []")
    case False
    have e: "expects c (take n sock @ drop n sock) rs" using Cons.prems(2) by simp
    have len: "int (length (querybuf c) + length (take n sock)) \<le> client_max_querybuf_len cf"
      using expects_querybuf [OF Cons.prems(2)] Cons.prems(4,5) by simp
    obtain past rs' where p: "rs = past @ rs'" "t = foldl (\<lambda>s v. fst (exec v s)) s past" "receptive cf d"
      "expects d (drop n sock) rs'" "qb_pos d = 0" "drop n sock = [] \<longrightarrow> rs' = []"
      using readQuery_expects [OF Cons.prems(1) e [unfolded n_def] Cons.prems(3,4) assms(5) len [unfolded n_def] r]
      unfolding n_def by blast
    have "read_events cf exec ks (drop n sock) d t = (sock', c', s')"
      using Cons.prems(7) False nf r by (simp add: n_def)
    from Cons.IH [OF p(3,4) _ p(5) _ p(6) this] p(1) Cons.prems(3,5) obtain past' rs'' where q:
      "rs' = past' @ rs''" "s' = foldl (\<lambda>s v. fst (exec v s)) t past'" "receptive cf c'" "expects c' sock' rs''"
      "sock' = [] \<longrightarrow> rs'' = []" "length (drop n sock) \<le> length ks \<longrightarrow> sock' = []" by auto
    have "length (drop n sock) < length sock" using False read_len_pos [of c] by (simp add: n_def)
    then show ?thesis using p(1,2) q by (intro exI [of _ "past @ past'"] exI [of _ rs'']) auto
  qed (use Cons.prems in \<open>auto intro!: exI [of _ "[]"]\<close>)
next
  case Nil
  then show ?case by (intro exI [of _ "[]"] exI [of _ rs]) simp
qed
end

subsection \<open>Whatever the bytes are\<close>

text \<open>The executions that reading can cause: a sequence of argument vectors, none of them empty.\<close>

definition executions :: "'s executor \<Rightarrow> 's \<Rightarrow> 's \<Rightarrow> bool" where
  "executions exec s s' \<longleftrightarrow> (\<exists>vs. [] \<notin> set vs \<and> s' = foldl (\<lambda>s v. fst (exec v s)) s vs)"

lemma executions_refl [simp, intro]: "executions exec s s"
  unfolding executions_def by (rule exI [of _ "[]"]) simp

lemma executions_one: "v \<noteq> [] \<Longrightarrow> executions exec s (fst (exec v s))"
  unfolding executions_def by (rule exI [of _ "[v]"]) simp

lemma executions_trans [trans]:
  assumes "executions exec s t" "executions exec t u"
  shows "executions exec s u"
proof -
  obtain vs ws where "[] \<notin> set vs" "t = foldl (\<lambda>s v. fst (exec v s)) s vs" "[] \<notin> set ws"
    "u = foldl (\<lambda>s v. fst (exec v s)) t ws" using assms unfolding executions_def by blast
  then show ?thesis unfolding executions_def by (intro exI [of _ "vs @ ws"]) simp
qed

lemma input_round_executes:
  "case input_round cf exec c s of Return (c', s') \<Rightarrow> executions exec s s' | Break (c', s') \<Rightarrow> executions exec s s'
    | Again (c', s') \<Rightarrow> executions exec s s'"
proof -
  obtain d ok where p: "parse_request cf c = (d, ok)" by fastforce
  obtain c' s' b where r: "processCommandAndResetClient exec d s = ((c', s'), b)" by (metis prod.exhaust)
  have "s' = fst (exec (conn_argv d) s)"
    using r by (auto simp: processCommandAndResetClient_def Let_def split: prod.splits)
  then have "conn_argv d \<noteq> [] \<Longrightarrow> executions exec s s'" using executions_one by simp
  then show ?thesis using p r by (cases b) (auto simp: input_round_def)
qed

lemma processInputBuffer_executes:
  assumes "processInputBuffer cf exec c s = (c', s')"
  shows "executions exec s s'"
proof -
  have "executions exec s t'" if "executions exec s t" "input_round cf exec d t = Again (d', t')" for d t d' t'
    using executions_trans [OF that(1)] input_round_executes [where cf = cf and exec = exec and c = d and s = t] that(2) by simp
  then obtain d t where l: "executions exec s t" "input_round cf exec d t = input_loop cf exec c s"
    "\<forall>r. input_loop cf exec c s \<noteq> Again r"
    using input_loop_last [of "\<lambda>_. executions exec s" c s cf exec] by blast
  then show ?thesis
    using assms input_round_executes [where cf = cf and exec = exec and c = d and s = t] executions_trans [OF l(1)]
    by (auto simp: processInputBuffer_def split: round.splits)
qed

lemma readQuery_executes: "readQueryFromClient cf exec rd c s = (c', s') \<Longrightarrow> executions exec s s'"
  by (auto simp: readQueryFromClient_def Let_def processInputBuffer_executes split: if_splits read_result.splits)

lemma read_events_executes: "read_events cf exec ks sock c s = (sock', c', s') \<Longrightarrow> executions exec s s'"
proof (induction ks arbitrary: sock c s)
  case (Cons k ks)
  obtain d t where r: "readQueryFromClient cf exec (\<lambda>len. Data (take (min (Suc k) len) sock)) c s = (d, t)" by fastforce
  show ?case
  proof (cases "sock = [] \<or> freed c")
    case False
    then have "read_events cf exec ks (drop (min (Suc k) (read_len c)) sock) d t = (sock', c', s')"
      using Cons.prems r by simp
    then show ?thesis by (rule executions_trans [OF readQuery_executes [OF r] Cons.IH])
  qed (use Cons.prems in auto)
qed simp

text \<open>Once a connection is to be closed, nothing more is executed.\<close>

lemma closing_silent:
  assumes "f_close_after_reply c" "readQueryFromClient cf exec rd c s = (c', s')"
  shows "f_close_after_reply c' \<and> s' = s"
proof -
  have "processInputBuffer cf exec d s = (trim_querybuf d, s)" if "f_close_after_reply d" for d
    using that by (subst processInputBuffer_def, subst input_loop.simps) (simp add: input_round_def input_halted_def)
  moreover have "f_close_after_reply (append_query cf b d) = f_close_after_reply d" for b d
    by (simp add: append_query_def Let_def)
  ultimately show ?thesis using assms
    by (auto simp: readQueryFromClient_def Let_def freeClientAsync_def trim_querybuf_def split: if_splits read_result.splits)
qed

text \<open>An executor that never frees the client.\<close>

locale keeping_executor = command_executor +
  assumes keeps: "exec v s = (s', x) \<Longrightarrow> \<not> x_freed x"
begin

lemma round_not_freed:
  assumes "\<not> freed c"
  shows "case input_round cf exec c s of Return (c', s') \<Rightarrow> False | Break (c', s') \<Rightarrow> \<not> freed c' | Again (c', s') \<Rightarrow> \<not> freed c'"
proof -
  obtain d ok where p: "parse_request cf c = (d, ok)" by fastforce
  obtain c' s' b where r: "processCommandAndResetClient exec d s = ((c', s'), b)" by (metis prod.exhaust)
  obtain t x where x: "exec (conn_argv d) s = (t, x)" by fastforce
  have "\<not> freed d" using parse_request_frame(1) [OF p] assms by (simp add: parse_frame_def)
  moreover have "b" "\<not> freed c'"
    using r x keeps [OF x] by (auto simp: processCommandAndResetClient_def commandProcessed_def resetClient_def Let_def split: if_splits)
  ultimately show ?thesis using p r assms by (auto simp: input_round_def resetClient_def)
qed

lemma read_events_not_freed:
  assumes "\<not> freed c" "read_events cf exec ks sock c s = (sock', c', s')"
  shows "\<not> freed c'"
  using assms
proof (induction ks arbitrary: sock c s)
  case (Cons k ks)
  obtain d t where r: "readQueryFromClient cf exec (\<lambda>len. Data (take (min (Suc k) len) sock)) c s = (d, t)" by fastforce
  have "\<not> freed d'" if nf: "\<not> freed c'" and pb: "processInputBuffer cf exec c' s' = (d', t')" for c' s' d' t'
  proof -
    have "\<not> freed d'" if "\<not> freed d" "input_round cf exec d t = Again (d', t')" for d t d' t'
      using round_not_freed [OF that(1), of cf t] that(2) by simp
    then obtain d t where l: "\<not> freed d" "input_round cf exec d t = input_loop cf exec c' s'"
      "\<forall>r. input_loop cf exec c' s' \<noteq> Again r"
      using input_loop_last [of "\<lambda>c s. \<not> freed c" c' s' cf exec] nf by blast
    then show ?thesis
      using pb round_not_freed [OF l(1), of cf t]
      by (auto simp: processInputBuffer_def trim_querybuf_def split: round.splits)
  qed
  then have "processInputBuffer cf exec (append_query cf b (c\<lparr>querybuf_peak := n\<rparr>)) s = (d, t) \<Longrightarrow> \<not> freed d" for b n
    using Cons.prems(1) append_query_simps(3) [of cf b "c\<lparr>querybuf_peak := n\<rparr>"] by fastforce
  then have "\<not> freed d" using r Cons.prems(1)
    by (auto simp: readQueryFromClient_def Let_def freeClientAsync_def split: if_splits)
  then show ?case using Cons.prems Cons.IH [of d _ t] r by (auto split: if_splits)
qed simp

end

text \<open>A client that has just connected.\<close>

definition new_conn :: "bool \<Rightarrow> int \<Rightarrow> conn" where
  "new_conn master r0 =
     \<lparr>querybuf = [], qb_pos = 0, pending_querybuf = [], reqtype = PROTO_REQ_UNKNOWN, multibulklen = 0, bulklen = - 1,
      conn_argv = [], f_master = master, f_slave = False, f_monitor = False, f_multi = False, f_blocked = False,
      f_blocked_module = False, f_pending_read = False, f_pending_command = False, f_close_after_reply = False,
      f_close_asap = False, f_protocol_error = False, reploff = r0, read_reploff = r0, repl_ack_time = 0,
      lastinteraction = 0, querybuf_peak = 0, errors = [], fed = [], failed = False, freed = False\<rparr>"

lemma new_conn_ok: "conn_ok (new_conn m r0)"
  by (simp add: new_conn_def conn_ok_def conn_wf_def input_ready_def)

lemma new_conn_expects: "expects (new_conn m r0) (enc_requests rs) rs"
  by (simp add: new_conn_def expects_def)

lemma new_conn_receptive:
  "\<not> clients_paused cf \<Longrightarrow> \<not> (script_timedout cf \<and> m) \<Longrightarrow> receptive cf (new_conn m r0)"
  using new_conn_ok [of m r0] by (auto simp: receptive_def input_halted_def new_conn_def)

lemma new_conn_stream: "stream_ok r0 [] (new_conn True r0)"
  by (simp add: stream_ok_def new_conn_def)

section \<open>Properties\<close>

text \<open>C17: splitting a line of arguments that \<^verbatim>\<open>sdscatrepr\<close> quoted and blanks separate gives the
  arguments back, for all bytes, and a quote that is not closed is refused.\<close>

theorem sdssplitargs_roundtrip:
  "sdssplitargs (0x20 # quote_line args) = Some args \<and>
   sdssplitargs (0x20 # quote_line args @ 0x22 # concat (map repr_char a)) = None"
proof
  show "sdssplitargs (0x20 # quote_line args) = Some args" by (rule quote_line_splits)
  show "sdssplitargs (0x20 # quote_line args @ 0x22 # concat (map repr_char a)) = None"
    by (rule quote_line_unclosed)
qed

end
