(* ===== verification/Session.thy ===== *)
theory Session
  imports Multi Protocol
begin

text \<open>
  The server behind a connection: \<^verbatim>\<open>processCommand\<close> as the executor of the requests that the
  parser finds. The contract of the parser is interpreted on it, and the properties say what a
  stream of bytes, well formed or not and cut by the network in any way, does to the server.
\<close>

section \<open>The executor\<close>

text \<open>\<^verbatim>\<open>QUIT\<close> is the only command here that \<^verbatim>\<open>processCommand\<close> does not report as processed; it marks
  the connection for closing. Nothing runs after an assertion has failed.\<close>

definition is_quit :: "bytes list \<Rightarrow> bool" where
  "is_quit v \<longleftrightarrow> v \<noteq> [] \<and> strcaseeq (takeWhile (\<lambda>x. x \<noteq> 0) (v ! 0)) ''quit''"

definition run_command :: "env \<Rightarrow> nat \<Rightarrow> server executor" where
  "run_command e c v s =
     (let s' = (if aborted s then s else processCommand e c (set_argv c v s)) in
      (s', \<lparr>x_ok = \<not> is_quit v, x_multi = c_multi (clients s' c), x_blocked = False, x_blocked_module = False,
            x_close = is_quit v, x_freed = False\<rparr>))"

interpretation rc: keeping_executor "run_command e c" for e c
  by unfold_locales (auto simp: run_command_def Let_def)

lemma run_command_steady: "\<not> is_quit v \<Longrightarrow> steady (run_command e c) v"
  by (simp add: steady_def run_command_def Let_def)

lemma run_command_step:
  "aborted s \<Longrightarrow> fst (run_command e c v s) = s"
  "\<not> aborted s \<Longrightarrow> fst (run_command e c v s) = processCommand e c (set_argv c v s)"
  by (simp_all add: run_command_def Let_def)

section \<open>Streams of bytes as runs of the server\<close>

lemma processCommand_clients:
  assumes "system_ok s" "c \<in> set (client_list s)" "\<not> aborted (processCommand e c (set_argv c v s))"
  shows "client_list (processCommand e c (set_argv c v s)) = client_list s"
proof -
  let ?s = "set_argv c v s"
  have "queue_ok (clients ?s c)" "server_ok ?s" using assms(1) ok_set_argv by (simp_all add: system_ok_def set_argv_def)
  moreover have "c \<in> set (client_list ?s)" using assms(2) by (simp add: set_argv_clients)
  ultimately have "cstep (swap_request ?s c) c ?s (processCommand e c ?s)" "server_ok ?s"
    using cstep_processCommand assms(3) by blast+
  then show ?thesis unfolding cstep_def by (simp add: set_argv_clients)
qed

text \<open>Executing argument vectors one after the other is a run of the server.\<close>

lemma executions_run:
  assumes "executions (run_command e c) s s'" "aborted s \<or> system_ok s \<and> c \<in> set (client_list s)"
  shows "(server_step e)\<^sup>*\<^sup>* s s' \<and> (aborted s' \<or> system_ok s' \<and> c \<in> set (client_list s'))"
proof -
  obtain vs where vs: "[] \<notin> set vs" "s' = foldl (\<lambda>s v. fst (run_command e c v s)) s vs"
    using assms(1) unfolding executions_def by blast
  have "(server_step e)\<^sup>*\<^sup>* s (foldl (\<lambda>s v. fst (run_command e c v s)) s vs) \<and>
      (let t = foldl (\<lambda>s v. fst (run_command e c v s)) s vs in aborted t \<or> system_ok t \<and> c \<in> set (client_list t))"
    using vs(1) assms(2)
  proof (induction vs arbitrary: s)
    case (Cons v vs)
    let ?t = "fst (run_command e c v s)"
    have "(server_step e)\<^sup>*\<^sup>* s ?t \<and> (aborted ?t \<or> system_ok ?t \<and> c \<in> set (client_list ?t))"
    proof (cases "aborted s")
      case False
      then have s: "system_ok s" "c \<in> set (client_list s)" using Cons.prems(2) by simp_all
      have "server_step e s (processCommand e c (set_argv c v s))"
        using server_step.command [OF s(2) False, of v] Cons.prems(1) by (metis list.set_intros(1))
      then show ?thesis
        using system_ok_command [OF s] processCommand_clients [OF s] s(2) False
        by (auto simp: run_command_step)
    qed (use Cons.prems in \<open>simp add: run_command_step\<close>)
    then show ?case using Cons.IH [of ?t] Cons.prems(1) by (auto simp: Let_def)
  qed (simp add: Let_def)
  then show ?thesis unfolding vs(2) Let_def .
qed

section \<open>Properties\<close>

text \<open>C3: a stream of requests in the multibulk format of the append only file, sent on a fresh
  connection and cut by the network in any way, runs exactly the commands of the requests, in their
  order: at any time those of some first requests, and all of them once as many reads have happened
  as there are bytes.\<close>

theorem session_runs_requests:
  assumes "\<forall>v \<in> set rs. request_ok cf v \<and> \<not> is_quit v" "\<not> threaded_reads cf" "\<not> clients_paused cf"
    "int (length (enc_requests rs)) \<le> client_max_querybuf_len cf"
    "read_events cf (run_command e c) ks (enc_requests rs) (new_conn False 0) s = (sock, d, s')"
  shows "\<exists>past future. rs = past @ future \<and>
    s' = foldl (\<lambda>s v. if aborted s then s else processCommand e c (set_argv c v s)) s past \<and>
    (length (enc_requests rs) \<le> length ks \<longrightarrow> future = [])"
proof -
  have "\<forall>v \<in> set rs. request_ok cf v \<and> steady (run_command e c) v" using assms(1) run_command_steady by blast
  moreover have "enc_requests rs = [] \<longrightarrow> rs = []"
    using assms(1) enc_request_Cons by (cases rs) fastforce+
  moreover have "receptive cf (new_conn False 0)" "qb_pos (new_conn False 0) = 0"
    using new_conn_receptive assms(3) by (simp_all add: new_conn_def)
  ultimately obtain past future where "rs = past @ future" "s' = foldl (\<lambda>s v. fst (run_command e c v s)) s past"
      "sock = [] \<longrightarrow> future = []" "length (enc_requests rs) \<le> length ks \<longrightarrow> sock = []"
    using rc.read_events_expects [OF _ new_conn_expects _ _ assms(2,4) _ assms(5)] by blast
  then show ?thesis by (auto simp: run_command_def Let_def)
qed

text \<open>C4: whatever bytes a client sends, well formed or not, and however they arrive: no assertion of
  the parser fails, its position stays inside the query buffer, and the server makes steps of
  clients that send commands, so that its invariant holds afterwards unless a command aborted it.\<close>

theorem session_any_input:
  assumes "system_ok s" "c \<in> set (client_list s)"
    "read_events cf (run_command e c) ks sock (new_conn False 0) s = (sock', d, s')"
  shows "\<not> failed d \<and> qb_pos d \<le> length (querybuf d) \<and> (server_step e)\<^sup>*\<^sup>* s s' \<and> (aborted s' \<or> system_ok s')"
proof -
  have "\<not> freed (new_conn False 0)" by (simp add: new_conn_def)
  then have "\<not> freed d" using rc.read_events_not_freed assms(3) by blast
  then have "conn_wf d" using rc.read_events_ok [OF new_conn_ok assms(3)] by (simp add: conn_ok_def)
  moreover have "executions (run_command e c) s s'" using read_events_executes [OF assms(3)] .
  ultimately show ?thesis using executions_run assms(1,2) by (auto simp: conn_wf_def)
qed

text \<open>C14: of the stream that a master sends, the part that was passed on to the sub-replicas and the
  part kept as pending are together exactly the bytes received, the replication offset counts the
  bytes passed on, and what is still to be parsed is the end of the pending part.\<close>

theorem master_stream_accounted:
  assumes "read_events cf (run_command e c) ks sock (new_conn True r0) s = (sock', d, s')"
  shows "fed d @ pending_querybuf d @ sock' = sock \<and> reploff d = r0 + int (length (fed d)) \<and>
    read_reploff d = r0 + int (length sock) - int (length sock') \<and> (\<exists>n. unparsed d = drop n (pending_querybuf d))"
proof -
  obtain b where "sock = b @ sock'" "stream_ok r0 ([] @ b) d"
    using rc.read_events_stream [OF new_conn_stream new_conn_ok assms] by blast
  then show ?thesis by (auto simp: stream_ok_def)
qed

section \<open>Witnesses\<close>

definition default_rconf :: rconf where
  "default_rconf = \<lparr>proto_max_bulk_len = 512 * 1024 * 1024, client_max_querybuf_len = 1024 * 1024 * 1024,
     gopher_enabled = False, clients_paused = False, script_timedout = False, threaded_reads = False, unixtime = 0\<rparr>"

definition demo_requests :: "bytes list list" where
  "demo_requests = [[str ''SET'', str ''k'', str ''v''], [str ''GET'', str ''k'']]"

lemma demo_requests_len: "length (enc_requests demo_requests) = 47"
  by (simp add: demo_requests_def catAppendOnlyGenericCommand_def cat_count dec.simps str_def)


lemma demo_requests_ok: "\<forall>v \<in> set demo_requests. request_ok default_rconf v \<and> \<not> is_quit v"
  by (simp add: demo_requests_def request_ok_def default_rconf_def is_quit_def str_def strcaseeq_def)

theorem session_runs_requests_witness:
  "snd (snd (read_events default_rconf (run_command open_env 2) (replicate 47 4) (enc_requests demo_requests)
      (new_conn False 0) watch_server)) =
   foldl (\<lambda>s v. if aborted s then s else processCommand open_env 2 (set_argv 2 v s)) watch_server demo_requests"
proof -
  obtain sock d s' where r: "read_events default_rconf (run_command open_env 2) (replicate 47 4) (enc_requests demo_requests)
      (new_conn False 0) watch_server = (sock, d, s')" by (metis prod.exhaust)
  have "\<not> threaded_reads default_rconf" "\<not> clients_paused default_rconf"
    "int (length (enc_requests demo_requests)) \<le> client_max_querybuf_len default_rconf"
    unfolding demo_requests_len by (simp_all add: default_rconf_def)
  from session_runs_requests [OF demo_requests_ok this r] show ?thesis
    unfolding demo_requests_len r by auto
qed

theorem session_any_input_witness:
  "\<not> failed (fst (snd (read_events default_rconf (run_command open_env 2) [0, 5] [0x2A, 0x0D, 0x0A, 0]
      (new_conn False 0) watch_server)))"
proof -
  obtain sock d s' where r: "read_events default_rconf (run_command open_env 2) [0, 5] [0x2A, 0x0D, 0x0A, 0]
      (new_conn False 0) watch_server = (sock, d, s')" by (metis prod.exhaust)
  have "2 \<in> set (client_list watch_server)" by (simp add: watch_server_def)
  from session_any_input [OF watch_server_ok this r] show ?thesis unfolding r by simp
qed

theorem master_stream_accounted_witness:
  "case read_events default_rconf (run_command open_env 2) [3] (enc_requests demo_requests) (new_conn True 10) watch_server of
     (sock', d, s') \<Rightarrow> fed d @ pending_querybuf d @ sock' = enc_requests demo_requests"
proof -
  obtain sock' d s' where r: "read_events default_rconf (run_command open_env 2) [3] (enc_requests demo_requests)
      (new_conn True 10) watch_server = (sock', d, s')" by (metis prod.exhaust)
  from master_stream_accounted [OF r] show ?thesis unfolding r by simp
qed

end
