(* ===== verification/Skiplist.thy ===== *)
theory Skiplist
  imports Prelude "HOL-Library.AList" "HOL-Library.Monad_Syntax" "HOL-Library.List_Lexorder" "HOL-Library.Product_Lexorder"
begin

text \<open>
  The skip list of sorted sets (\<^verbatim>\<open>t_zset.c\<close>), on a heap of nodes with an array of forward pointers
  and spans each. An access through a pointer that is not allocated, or to a level that a node does
  not have, makes an operation \<open>None\<close>; so does a loop over forward pointers that does not end.
  Addresses are natural numbers, and the address that an allocation returns is an argument. Scores
  are of any linearly ordered type, as doubles without NaN are.
\<close>

section \<open>Nodes\<close>

text \<open>The first node, the header, has no element.\<close>

record 'd znode =
  z_ele :: "bytes option"
  z_score :: 'd
  z_backward :: "nat option"
  z_level :: "(nat option \<times> int) list"

type_synonym 'd zheap = "nat \<rightharpoonup> 'd znode"

record 'd zskiplist =
  zheap :: "'d zheap"
  header :: nat
  tail :: "nat option"
  zlength :: nat
  zlevel :: nat

definition ZSKIPLIST_MAXLEVEL :: nat where "ZSKIPLIST_MAXLEVEL = 32"

fun sdscmp :: "bytes \<Rightarrow> bytes \<Rightarrow> int" where
  "sdscmp [] [] = 0"
| "sdscmp [] (b # y) = - 1"
| "sdscmp (a # x) [] = 1"
| "sdscmp (a # x) (b # y) = (if a < b then - 1 else if b < a then 1 else sdscmp x y)"

definition znode_level :: "'d zheap \<Rightarrow> nat \<Rightarrow> nat \<Rightarrow> (nat option \<times> int) option" where
  "znode_level h x i =
     (case h x of None \<Rightarrow> None | Some n \<Rightarrow> if i < length (z_level n) then Some (z_level n ! i) else None)"

definition set_level :: "'d zheap \<Rightarrow> nat \<Rightarrow> nat \<Rightarrow> nat option \<times> int \<Rightarrow> 'd zheap option" where
  "set_level h x i e =
     (case h x of
        None \<Rightarrow> None
      | Some n \<Rightarrow> if i < length (z_level n) then Some (h(x \<mapsto> n\<lparr>z_level := (z_level n)[i := e]\<rparr>)) else None)"

definition set_backward :: "'d zheap \<Rightarrow> nat \<Rightarrow> nat option \<Rightarrow> 'd zheap option" where
  "set_backward h x b = (case h x of None \<Rightarrow> None | Some n \<Rightarrow> Some (h(x \<mapsto> n\<lparr>z_backward := b\<rparr>)))"

section \<open>Creation\<close>

text \<open>The levels of a new node, uninitialised in C, are all written before they are read.\<close>

definition zslCreateNode :: "nat \<Rightarrow> 'd \<Rightarrow> bytes option \<Rightarrow> 'd znode" where
  "zslCreateNode level score ele =
     \<lparr>z_ele = ele, z_score = score, z_backward = None, z_level = replicate level (None, 0)\<rparr>"

definition zslCreate :: "nat \<Rightarrow> 'd :: zero zskiplist" where
  "zslCreate a =
     \<lparr>zheap = [a \<mapsto> zslCreateNode ZSKIPLIST_MAXLEVEL 0 None], header = a, tail = None, zlength = 0, zlevel = 1\<rparr>"

text \<open>\<open>rs\<close> are the values, up to the one that ends the loop, of \<^verbatim>\<open>random()\<close>; the product of the probability and \<^verbatim>\<open>0xFFFF\<close> is 16383.75.\<close>

definition zslRandomLevel :: "nat list \<Rightarrow> nat" where
  "zslRandomLevel rs =
     (let level = 1 + length (takeWhile (\<lambda>r. r mod 0x10000 < 16384) rs) in
      if level < ZSKIPLIST_MAXLEVEL then level else ZSKIPLIST_MAXLEVEL)"

section \<open>Searching\<close>

text \<open>The loop on one level: forward while the next node satisfies \<open>P\<close>, counting the spans. The
  condition may depend on the rank of the next node. Callers that do not need the rank ignore it.\<close>

partial_function (option) zsl_walk ::
  "(int \<Rightarrow> 'd znode \<Rightarrow> bool) \<Rightarrow> 'd zheap \<Rightarrow> nat \<Rightarrow> nat \<Rightarrow> int \<Rightarrow> (nat \<times> int) option" where
  "zsl_walk P h i x r =
     Option.bind (znode_level h x i) (\<lambda>(f, span).
       case f of
         None \<Rightarrow> Some (x, r)
       | Some y \<Rightarrow> Option.bind (h y) (\<lambda>n.
           if P (r + span) n then zsl_walk P h i y (r + span) else Some (x, r)))"

declare zsl_walk.simps [code]

text \<open>The loop over the levels, from the highest of \<open>k\<close> down; the result is the array of the nodes and
  ranks at which each level was left.\<close>

primrec zsl_descend ::
  "(int \<Rightarrow> 'd znode \<Rightarrow> bool) \<Rightarrow> 'd zheap \<Rightarrow> nat \<Rightarrow> nat \<Rightarrow> int \<Rightarrow> (nat \<times> int) list option" where
  "zsl_descend P h 0 x r = Some []"
| "zsl_descend P h (Suc i) x r = do {
     (x', r') \<leftarrow> zsl_walk P h i x r;
     us \<leftarrow> zsl_descend P h i x' r';
     Some (us @ [(x', r')])
   }"

text \<open>The order of the nodes: by score, then by element.\<close>

definition node_before :: "'d :: linorder \<Rightarrow> bytes \<Rightarrow> 'd znode \<Rightarrow> bool" where
  "node_before score ele n \<longleftrightarrow> z_score n < score \<or>
     (z_score n = score \<and> (case z_ele n of Some e \<Rightarrow> sdscmp e ele < 0 | None \<Rightarrow> False))"

definition zsl_search :: "'d :: linorder zskiplist \<Rightarrow> 'd \<Rightarrow> bytes \<Rightarrow> (nat \<times> int) list option" where
  "zsl_search z score ele = zsl_descend (\<lambda>_. node_before score ele) (zheap z) (zlevel z) (header z) 0"

section \<open>Insertion\<close>

text \<open>New levels start at the header, with the whole list as their span.\<close>

primrec zsl_grow :: "nat \<Rightarrow> int \<Rightarrow> nat list \<Rightarrow> 'd zheap \<Rightarrow> 'd zheap option" where
  "zsl_grow hdr len [] h = Some h"
| "zsl_grow hdr len (i # js) h = do {
     (f, _) \<leftarrow> znode_level h hdr i;
     h \<leftarrow> set_level h hdr i (f, len);
     zsl_grow hdr len js h
   }"

text \<open>The ranks are 32 bit numbers, and so is what is computed from them.\<close>

definition rank_diff :: "(nat \<times> int) list \<Rightarrow> nat \<Rightarrow> int" where
  "rank_diff us i = (snd (us ! 0) mod 2 ^ 32 - snd (us ! i) mod 2 ^ 32) mod 2 ^ 32"

definition rank_step :: "(nat \<times> int) list \<Rightarrow> nat \<Rightarrow> int" where
  "rank_step us i = (rank_diff us i + 1) mod 2 ^ 32"

primrec zsl_link :: "nat \<Rightarrow> (nat \<times> int) list \<Rightarrow> nat list \<Rightarrow> 'd zheap \<Rightarrow> 'd zheap option" where
  "zsl_link x us [] h = Some h"
| "zsl_link x us (i # js) h = do {
     (f, span) \<leftarrow> znode_level h (fst (us ! i)) i;
     h \<leftarrow> set_level h x i (f, span - rank_diff us i);
     h \<leftarrow> set_level h (fst (us ! i)) i (Some x, rank_step us i);
     zsl_link x us js h
   }"

primrec zsl_bump :: "int \<Rightarrow> (nat \<times> int) list \<Rightarrow> nat list \<Rightarrow> 'd zheap \<Rightarrow> 'd zheap option" where
  "zsl_bump d us [] h = Some h"
| "zsl_bump d us (i # js) h = do {
     (f, span) \<leftarrow> znode_level h (fst (us ! i)) i;
     h \<leftarrow> set_level h (fst (us ! i)) i (f, span + d);
     zsl_bump d us js h
   }"

text \<open>\<open>x\<close> is the address of the new node.\<close>

definition zslInsert :: "'d :: linorder zskiplist \<Rightarrow> 'd \<Rightarrow> bytes \<Rightarrow> nat list \<Rightarrow> nat \<Rightarrow> 'd zskiplist option" where
  "zslInsert z score ele rs x = do {
     us \<leftarrow> zsl_search z score ele;
     let level = zslRandomLevel rs;
     h \<leftarrow> zsl_grow (header z) (int (zlength z)) [zlevel z..<level] (zheap z);
     let us = us @ replicate (level - zlevel z) (header z, 0);
     let top = max level (zlevel z);
     h \<leftarrow> zsl_link x us [0..<level] (h(x \<mapsto> zslCreateNode level score (Some ele)));
     h \<leftarrow> zsl_bump 1 us [level..<top] h;
     h \<leftarrow> set_backward h x (if fst (us ! 0) = header z then None else Some (fst (us ! 0)));
     (f, _) \<leftarrow> znode_level h x 0;
     (h, t) \<leftarrow> (case f of
         Some y \<Rightarrow> map_option (\<lambda>h. (h, tail z)) (set_backward h y (Some x))
       | None \<Rightarrow> Some (h, Some x));
     Some (z\<lparr>zheap := h, tail := t, zlength := zlength z + 1, zlevel := top\<rparr>)
   }"

section \<open>Deletion\<close>

primrec zsl_unlink :: "nat \<Rightarrow> (nat \<times> int) list \<Rightarrow> nat list \<Rightarrow> 'd zheap \<Rightarrow> 'd zheap option" where
  "zsl_unlink x us [] h = Some h"
| "zsl_unlink x us (i # js) h = do {
     (f, span) \<leftarrow> znode_level h (fst (us ! i)) i;
     h \<leftarrow> (if f = Some x then do {
            (f', span') \<leftarrow> znode_level h x i;
            set_level h (fst (us ! i)) i (f', span + (span' - 1))
          } else set_level h (fst (us ! i)) i (f, span - 1));
     zsl_unlink x us js h
   }"

fun zsl_shrink :: "'d zheap \<Rightarrow> nat \<Rightarrow> nat \<Rightarrow> nat option" where
  "zsl_shrink h hdr l =
     (if 1 < l then
        case znode_level h hdr (l - 1) of
          None \<Rightarrow> None
        | Some (None, _) \<Rightarrow> zsl_shrink h hdr (l - 1)
        | Some (Some _, _) \<Rightarrow> Some l
      else Some l)"

declare zsl_shrink.simps [simp del]

text \<open>The node itself stays allocated until it is freed.\<close>

definition zslDeleteNode :: "'d zskiplist \<Rightarrow> nat \<Rightarrow> (nat \<times> int) list \<Rightarrow> 'd zskiplist option" where
  "zslDeleteNode z x us = do {
     h \<leftarrow> zsl_unlink x us [0..<zlevel z] (zheap z);
     n \<leftarrow> h x;
     (f, _) \<leftarrow> znode_level h x 0;
     (h, t) \<leftarrow> (case f of
         Some y \<Rightarrow> map_option (\<lambda>h. (h, tail z)) (set_backward h y (z_backward n))
       | None \<Rightarrow> Some (h, z_backward n));
     l \<leftarrow> zsl_shrink h (header z) (zlevel z);
     Some (z\<lparr>zheap := h, tail := t, zlevel := l, zlength := zlength z - 1\<rparr>)
   }"

definition zslFreeNode :: "nat \<Rightarrow> 'd zskiplist \<Rightarrow> 'd zskiplist" where
  "zslFreeNode x z = z\<lparr>zheap := (zheap z)(x := None)\<rparr>"

text \<open>The node with a given score and element, after a search for them.\<close>

definition found_node :: "'d :: linorder zskiplist \<Rightarrow> (nat \<times> int) list \<Rightarrow> 'd \<Rightarrow> bytes \<Rightarrow> nat option option" where
  "found_node z us score ele = do {
     (f, _) \<leftarrow> znode_level (zheap z) (fst (us ! 0)) 0;
     case f of
       None \<Rightarrow> Some None
     | Some x \<Rightarrow> do {
         n \<leftarrow> zheap z x;
         Some (if score = z_score n \<and> (case z_ele n of Some e \<Rightarrow> sdscmp e ele = 0 | None \<Rightarrow> False) then Some x else None)
       }
   }"

definition zslDelete :: "'d :: linorder zskiplist \<Rightarrow> 'd \<Rightarrow> bytes \<Rightarrow> ('d zskiplist \<times> bool) option" where
  "zslDelete z score ele = do {
     us \<leftarrow> zsl_search z score ele;
     found \<leftarrow> found_node z us score ele;
     case found of
       None \<Rightarrow> Some (z, False)
     | Some x \<Rightarrow> do {
         z \<leftarrow> zslDeleteNode z x us;
         Some (zslFreeNode x z, True)
       }
   }"

text \<open>The assertion that the element exists is a failure here. The result is the node of the element.\<close>

definition zslUpdateScore ::
  "'d :: linorder zskiplist \<Rightarrow> 'd \<Rightarrow> bytes \<Rightarrow> 'd \<Rightarrow> nat list \<Rightarrow> nat \<Rightarrow> ('d zskiplist \<times> nat) option" where
  "zslUpdateScore z curscore ele newscore rs a = do {
     us \<leftarrow> zsl_search z curscore ele;
     found \<leftarrow> found_node z us curscore ele;
     x \<leftarrow> found;
     n \<leftarrow> zheap z x;
     before \<leftarrow> (case z_backward n of None \<Rightarrow> Some True | Some b \<Rightarrow> map_option (\<lambda>m. z_score m < newscore) (zheap z b));
     (f, _) \<leftarrow> znode_level (zheap z) x 0;
     after \<leftarrow> (case f of None \<Rightarrow> Some True | Some y \<Rightarrow> map_option (\<lambda>m. newscore < z_score m) (zheap z y));
     if before \<and> after then Some (z\<lparr>zheap := (zheap z)(x \<mapsto> n\<lparr>z_score := newscore\<rparr>)\<rparr>, x)
     else do {
       z \<leftarrow> zslDeleteNode z x us;
       z \<leftarrow> zslInsert z newscore ele rs a;
       Some (zslFreeNode x z, a)
     }
   }"

section \<open>Ranks\<close>

text \<open>A search that looks, after each level, whether it has arrived: \<open>Q\<close> tells from the rank and the
  node.\<close>

primrec zsl_find :: "(int \<Rightarrow> 'd znode \<Rightarrow> bool) \<Rightarrow> (int \<Rightarrow> 'd znode \<Rightarrow> bool) \<Rightarrow> 'd zheap \<Rightarrow> nat \<Rightarrow> nat \<Rightarrow> int \<Rightarrow> (nat \<times> int) option option" where
  "zsl_find P Q h 0 x r = Some None"
| "zsl_find P Q h (Suc i) x r = do {
     (x', r') \<leftarrow> zsl_walk P h i x r;
     n \<leftarrow> h x';
     if Q r' n then Some (Some (x', r')) else zsl_find P Q h i x' r'
   }"

definition node_upto :: "'d :: linorder \<Rightarrow> bytes \<Rightarrow> 'd znode \<Rightarrow> bool" where
  "node_upto score ele n \<longleftrightarrow> z_score n < score \<or>
     (z_score n = score \<and> (case z_ele n of Some e \<Rightarrow> sdscmp e ele \<le> 0 | None \<Rightarrow> False))"

definition zslGetRank :: "'d :: linorder zskiplist \<Rightarrow> 'd \<Rightarrow> bytes \<Rightarrow> int option" where
  "zslGetRank z score ele =
     map_option (\<lambda>r. case r of Some (x, rank) \<Rightarrow> rank | None \<Rightarrow> 0)
       (zsl_find (\<lambda>_. node_upto score ele) (\<lambda>_ n. case z_ele n of Some e \<Rightarrow> sdscmp e ele = 0 | None \<Rightarrow> False)
         (zheap z) (zlevel z) (header z) 0)"

definition zslGetElementByRank :: "'d zskiplist \<Rightarrow> int \<Rightarrow> nat option option" where
  "zslGetElementByRank z rank =
     map_option (map_option fst) (zsl_find (\<lambda>r _. r \<le> rank) (\<lambda>r _. r = rank) (zheap z) (zlevel z) (header z) 0)"

section \<open>Ranges of scores\<close>

record 'd zrangespec =
  zr_min :: 'd
  zr_max :: 'd
  zr_minex :: bool
  zr_maxex :: bool

definition zslValueGteMin :: "'d :: linorder \<Rightarrow> 'd zrangespec \<Rightarrow> bool" where
  "zslValueGteMin v spec = (if zr_minex spec then v > zr_min spec else v \<ge> zr_min spec)"

definition zslValueLteMax :: "'d :: linorder \<Rightarrow> 'd zrangespec \<Rightarrow> bool" where
  "zslValueLteMax v spec = (if zr_maxex spec then v < zr_max spec else v \<le> zr_max spec)"

definition zslIsInRange :: "'d :: linorder zskiplist \<Rightarrow> 'd zrangespec \<Rightarrow> bool option" where
  "zslIsInRange z spec =
     (if zr_min spec > zr_max spec \<or> (zr_min spec = zr_max spec \<and> (zr_minex spec \<or> zr_maxex spec)) then Some False
      else case tail z of
          None \<Rightarrow> Some False
        | Some t \<Rightarrow> do {
            n \<leftarrow> zheap z t;
            if \<not> zslValueGteMin (z_score n) spec then Some False
            else do {
              (f, _) \<leftarrow> znode_level (zheap z) (header z) 0;
              case f of
                None \<Rightarrow> Some False
              | Some x \<Rightarrow> map_option (\<lambda>n. zslValueLteMax (z_score n) spec) (zheap z x)
            }
          })"

text \<open>The assertion that there is a next node is a failure here.\<close>

definition zslFirstInRange :: "'d :: linorder zskiplist \<Rightarrow> 'd zrangespec \<Rightarrow> nat option option" where
  "zslFirstInRange z spec = do {
     inr \<leftarrow> zslIsInRange z spec;
     if \<not> inr then Some None
     else do {
       us \<leftarrow> zsl_descend (\<lambda>_ n. \<not> zslValueGteMin (z_score n) spec) (zheap z) (zlevel z) (header z) 0;
       (f, _) \<leftarrow> znode_level (zheap z) (fst (us ! 0)) 0;
       x \<leftarrow> f;
       n \<leftarrow> zheap z x;
       Some (if zslValueLteMax (z_score n) spec then Some x else None)
     }
   }"

definition zslLastInRange :: "'d :: linorder zskiplist \<Rightarrow> 'd zrangespec \<Rightarrow> nat option option" where
  "zslLastInRange z spec = do {
     inr \<leftarrow> zslIsInRange z spec;
     if \<not> inr then Some None
     else do {
       us \<leftarrow> zsl_descend (\<lambda>_ n. zslValueLteMax (z_score n) spec) (zheap z) (zlevel z) (header z) 0;
       n \<leftarrow> zheap z (fst (us ! 0));
       Some (if zslValueGteMin (z_score n) spec then Some (fst (us ! 0)) else None)
     }
   }"

section \<open>Deletion of ranges\<close>

text \<open>The loop that deletes nodes while the condition holds of the rank and the node, from the skip
  list and from the dictionary (its entries, with distinct keys); it counts them.\<close>

partial_function (option) zsl_delete_while ::
  "(int \<Rightarrow> 'd znode \<Rightarrow> bool) \<Rightarrow> (nat \<times> int) list \<Rightarrow> 'd zskiplist \<Rightarrow> nat option \<Rightarrow> int \<Rightarrow> (bytes \<times> 'v) list \<Rightarrow> nat \<Rightarrow>
    ('d zskiplist \<times> (bytes \<times> 'v) list \<times> nat) option" where
  "zsl_delete_while C us z x traversed d removed =
     (case x of
        None \<Rightarrow> Some (z, d, removed)
      | Some x \<Rightarrow> Option.bind (zheap z x) (\<lambda>n.
          if \<not> C traversed n then Some (z, d, removed)
          else Option.bind (znode_level (zheap z) x 0) (\<lambda>(nxt, _).
            Option.bind (zslDeleteNode z x us) (\<lambda>z.
              Option.bind (z_ele n) (\<lambda>ele.
                zsl_delete_while C us (zslFreeNode x z) nxt (traversed + 1) (AList.delete ele d) (removed + 1))))))"

declare zsl_delete_while.simps [code]

definition zslDeleteRangeByScore ::
  "'d :: linorder zskiplist \<Rightarrow> 'd zrangespec \<Rightarrow> (bytes \<times> 'v) list \<Rightarrow> ('d zskiplist \<times> (bytes \<times> 'v) list \<times> nat) option" where
  "zslDeleteRangeByScore z spec d = do {
     us \<leftarrow> zsl_descend (\<lambda>_ n. if zr_minex spec then z_score n \<le> zr_min spec else z_score n < zr_min spec)
            (zheap z) (zlevel z) (header z) 0;
     (x, _) \<leftarrow> znode_level (zheap z) (fst (us ! 0)) 0;
     zsl_delete_while (\<lambda>_ n. if zr_maxex spec then z_score n < zr_max spec else z_score n \<le> zr_max spec) us z x 0 d 0
   }"

text \<open>The two ranks are 32 bit arguments.\<close>

definition zslDeleteRangeByRank ::
  "'d zskiplist \<Rightarrow> int \<Rightarrow> int \<Rightarrow> (bytes \<times> 'v) list \<Rightarrow> ('d zskiplist \<times> (bytes \<times> 'v) list \<times> nat) option" where
  "zslDeleteRangeByRank z start stop d = do {
     us \<leftarrow> zsl_descend (\<lambda>r _. r < start mod 2 ^ 32) (zheap z) (zlevel z) (header z) 0;
     (x, _) \<leftarrow> znode_level (zheap z) (fst (us ! 0)) 0;
     zsl_delete_while (\<lambda>traversed _. traversed \<le> stop mod 2 ^ 32) us z x (snd (us ! 0) + 1) d 0
   }"

section \<open>What the loops do to a heap\<close>

text \<open>Two heaps with the same nodes, up to the contents of their levels.\<close>

definition zframe :: "'d zheap \<Rightarrow> 'd zheap \<Rightarrow> bool" where
  "zframe h h' \<longleftrightarrow> (\<forall>a. case h a of None \<Rightarrow> h' a = None
     | Some n \<Rightarrow> (\<exists>l. h' a = Some (n\<lparr>z_level := l\<rparr>) \<and> length l = length (z_level n)))"

lemma zframe_refl [simp]: "zframe h h"
  unfolding zframe_def by (auto split: option.splits intro!: exI [of _ "z_level _"])

lemma zframe_trans [trans]: "zframe h1 h2 \<Longrightarrow> zframe h2 h3 \<Longrightarrow> zframe h1 h3"
  unfolding zframe_def by (force split: option.splits)

definition height :: "'d zheap \<Rightarrow> nat \<Rightarrow> nat" where
  "height h a = (case h a of None \<Rightarrow> 0 | Some n \<Rightarrow> length (z_level n))"

lemma znode_level_None: "znode_level h a i = None \<longleftrightarrow> height h a \<le> i"
  by (auto simp: znode_level_def height_def split: option.splits)

lemma znode_levelE:
  assumes "i < height h a"
  obtains f sp where "znode_level h a i = Some (f, sp)"
  using assms znode_level_None [of h a i] by (cases "znode_level h a i") auto

lemma zframe_height: "zframe h h' \<Longrightarrow> height h' a = height h a"
  unfolding zframe_def height_def by (drule spec [of _ a]) (auto split: option.splits)

lemma set_level_ex:
  assumes "i < height h a"
  obtains h' where "set_level h a i e = Some h'" "zframe h h'"
    "\<And>b j. znode_level h' b j = (if b = a \<and> j = i then Some e else znode_level h b j)"
proof -
  obtain n where n: "h a = Some n" "i < length (z_level n)" using assms by (auto simp: height_def split: option.splits)
  let ?h = "h(a \<mapsto> n\<lparr>z_level := (z_level n)[i := e]\<rparr>)"
  have "zframe h ?h" using n zframe_refl [of h] unfolding zframe_def by (auto split: option.splits)
  moreover have "znode_level ?h b j = (if b = a \<and> j = i then Some e else znode_level h b j)" for b j
    using n by (auto simp: znode_level_def)
  ultimately show ?thesis using that n by (simp add: set_level_def)
qed

lemma zsl_grow_ex:
  assumes "\<forall>i \<in> set js. i < height h hdr" "distinct js"
  obtains h' where "zsl_grow hdr len js h = Some h'" "zframe h h'"
    "\<And>b j. znode_level h' b j = (if b = hdr \<and> j \<in> set js then map_option (\<lambda>(f, _). (f, len)) (znode_level h b j) else znode_level h b j)"
  using assms
proof (induction js arbitrary: h thesis)
  case (Cons i js)
  obtain f sp where l: "znode_level h hdr i = Some (f, sp)" using Cons.prems(2) znode_levelE [of i h hdr] by auto
  obtain g where g: "set_level h hdr i (f, len) = Some g" "zframe h g"
    "\<And>b j. znode_level g b j = (if b = hdr \<and> j = i then Some (f, len) else znode_level h b j)"
    using set_level_ex [of i h hdr "(f, len)"] Cons.prems(2) by auto
  have "\<forall>i \<in> set js. i < height g hdr" "distinct js" using Cons.prems g(2) by (simp_all add: zframe_height)
  then obtain h' where h': "zsl_grow hdr len js g = Some h'" "zframe g h'"
    "\<And>b j. znode_level h' b j = (if b = hdr \<and> j \<in> set js then map_option (\<lambda>(f, _). (f, len)) (znode_level g b j) else znode_level g b j)"
    using Cons.IH [of g] by blast
  show ?case
  proof (rule Cons.prems(1))
    show "zsl_grow hdr len (i # js) h = Some h'" using l g h' by simp
    show "zframe h h'" using zframe_trans g(2) h'(2) .
    show "znode_level h' b j = (if b = hdr \<and> j \<in> set (i # js) then map_option (\<lambda>(f, _). (f, len)) (znode_level h b j) else znode_level h b j)" for b j
      using g(3) h'(3) l Cons.prems(3) by auto
  qed
qed simp

lemma zsl_link_ex:
  assumes "\<forall>i \<in> set js. i < height h x \<and> i < height h (fst (us ! i)) \<and> fst (us ! i) \<noteq> x" "distinct js"
  obtains h' where "zsl_link x us js h = Some h'" "zframe h h'"
    "\<And>b j. znode_level h' b j = (if j \<notin> set js then znode_level h b j
       else if b = x then map_option (\<lambda>(f, sp). (f, sp - rank_diff us j)) (znode_level h (fst (us ! j)) j)
       else if b = fst (us ! j) then Some (Some x, rank_step us j)
       else znode_level h b j)"
  using assms
proof (induction js arbitrary: h thesis)
  case (Cons i js)
  have i: "i < height h x" "i < height h (fst (us ! i))" "fst (us ! i) \<noteq> x" using Cons.prems(2) by auto
  obtain f sp where l: "znode_level h (fst (us ! i)) i = Some (f, sp)" using i(2) znode_levelE by blast
  obtain g where g: "set_level h x i (f, sp - rank_diff us i) = Some g" "zframe h g"
    "\<And>b j. znode_level g b j = (if b = x \<and> j = i then Some (f, sp - rank_diff us i) else znode_level h b j)"
    using set_level_ex [OF i(1)] by metis
  have "i < height g (fst (us ! i))" using i(2) g(2) by (simp add: zframe_height)
  then obtain g' where g': "set_level g (fst (us ! i)) i (Some x, rank_step us i) = Some g'" "zframe g g'"
    "\<And>b j. znode_level g' b j = (if b = fst (us ! i) \<and> j = i then Some (Some x, rank_step us i) else znode_level g b j)"
    using set_level_ex by metis
  have "\<forall>i \<in> set js. i < height g' x \<and> i < height g' (fst (us ! i)) \<and> fst (us ! i) \<noteq> x" "distinct js"
    using Cons.prems g(2) g'(2) by (simp_all add: zframe_height)
  then obtain h' where h': "zsl_link x us js g' = Some h'" "zframe g' h'"
    "\<And>b j. znode_level h' b j = (if j \<notin> set js then znode_level g' b j
       else if b = x then map_option (\<lambda>(f, sp). (f, sp - rank_diff us j)) (znode_level g' (fst (us ! j)) j)
       else if b = fst (us ! j) then Some (Some x, rank_step us j)
       else znode_level g' b j)"
    using Cons.IH [of g'] by blast
  show ?case
  proof (rule Cons.prems(1))
    show "zsl_link x us (i # js) h = Some h'" using l g(1) g'(1) h'(1) by simp
    show "zframe h h'" using zframe_trans g(2) g'(2) h'(2) by blast
    show "znode_level h' b j = (if j \<notin> set (i # js) then znode_level h b j
       else if b = x then map_option (\<lambda>(f, sp). (f, sp - rank_diff us j)) (znode_level h (fst (us ! j)) j)
       else if b = fst (us ! j) then Some (Some x, rank_step us j)
       else znode_level h b j)" for b j
      using l i Cons.prems(3) by (simp add: g(3) g'(3) h'(3))
  qed
qed simp

lemma zsl_bump_ex:
  assumes "\<forall>i \<in> set js. i < height h (fst (us ! i))" "distinct js"
  obtains h' where "zsl_bump d us js h = Some h'" "zframe h h'"
    "\<And>b j. znode_level h' b j = (if j \<in> set js \<and> b = fst (us ! j) then map_option (\<lambda>(f, sp). (f, sp + d)) (znode_level h b j)
       else znode_level h b j)"
  using assms
proof (induction js arbitrary: h thesis)
  case (Cons i js)
  obtain f sp where l: "znode_level h (fst (us ! i)) i = Some (f, sp)" using Cons.prems(2) znode_levelE by (metis list.set_intros(1))
  obtain g where g: "set_level h (fst (us ! i)) i (f, sp + d) = Some g" "zframe h g"
    "\<And>b j. znode_level g b j = (if b = fst (us ! i) \<and> j = i then Some (f, sp + d) else znode_level h b j)"
    using set_level_ex Cons.prems(2) by (metis list.set_intros(1))
  have "\<forall>i \<in> set js. i < height g (fst (us ! i))" "distinct js" using Cons.prems g(2) by (simp_all add: zframe_height)
  then obtain h' where h': "zsl_bump d us js g = Some h'" "zframe g h'"
    "\<And>b j. znode_level h' b j = (if j \<in> set js \<and> b = fst (us ! j) then map_option (\<lambda>(f, sp). (f, sp + d)) (znode_level g b j)
       else znode_level g b j)" using Cons.IH [of g] by blast
  show ?case
  proof (rule Cons.prems(1))
    show "zsl_bump d us (i # js) h = Some h'" using l g(1) h'(1) by simp
    show "zframe h h'" using zframe_trans g(2) h'(2) by blast
    show "znode_level h' b j = (if j \<in> set (i # js) \<and> b = fst (us ! j) then map_option (\<lambda>(f, sp). (f, sp + d)) (znode_level h b j)
       else znode_level h b j)" for b j
      using l Cons.prems(3) by (auto simp: g(3) h'(3))
  qed
qed simp

lemma zsl_unlink_ex:
  assumes "\<forall>i \<in> set js. i < height h (fst (us ! i)) \<and> fst (us ! i) \<noteq> x \<and>
      (\<forall>sp. znode_level h (fst (us ! i)) i = Some (Some x, sp) \<longrightarrow> i < height h x)" "distinct js"
  obtains h' where "zsl_unlink x us js h = Some h'" "zframe h h'"
    "\<And>b j. znode_level h' b j = (if j \<in> set js \<and> b = fst (us ! j)
       then (case znode_level h b j of None \<Rightarrow> None | Some (f, sp) \<Rightarrow>
         if f = Some x then map_option (\<lambda>(f', sp'). (f', sp + (sp' - 1))) (znode_level h x j) else Some (f, sp - 1))
       else znode_level h b j)"
  using assms
proof (induction js arbitrary: h thesis)
  case (Cons i js)
  let ?u = "fst (us ! i)"
  have i: "i < height h ?u" "?u \<noteq> x" using Cons.prems(2) by auto
  obtain f sp where l: "znode_level h ?u i = Some (f, sp)" using i(1) znode_levelE by blast
  define e where "e = (if f = Some x then map_option (\<lambda>(f', sp'). (f', sp + (sp' - 1))) (znode_level h x i) else Some (f, sp - 1))"
  have "e \<noteq> None" using l Cons.prems(2) znode_level_None [of h x i] by (auto simp: e_def)
  then obtain ee where ee: "e = Some ee" by blast
  obtain g where g: "set_level h ?u i ee = Some g" "zframe h g"
    "\<And>b j. znode_level g b j = (if b = ?u \<and> j = i then Some ee else znode_level h b j)"
    using set_level_ex [OF i(1)] by metis
  have eq: "zsl_unlink x us (i # js) h = zsl_unlink x us js g"
  proof (cases "f = Some x")
    case True
    then obtain f' sp' where "znode_level h x i = Some (f', sp')" "ee = (f', sp + (sp' - 1))" using ee by (auto simp: e_def)
    then show ?thesis using l True g(1) by simp
  next
    case False
    then show ?thesis using l g(1) ee by (auto simp: e_def)
  qed
  have "\<forall>i \<in> set js. i < height g (fst (us ! i)) \<and> fst (us ! i) \<noteq> x \<and>
      (\<forall>sp. znode_level g (fst (us ! i)) i = Some (Some x, sp) \<longrightarrow> i < height g x)" "distinct js"
    using Cons.prems g(2,3) by (auto simp: zframe_height)
  then obtain h' where h': "zsl_unlink x us js g = Some h'" "zframe g h'"
    "\<And>b j. znode_level h' b j = (if j \<in> set js \<and> b = fst (us ! j)
       then (case znode_level g b j of None \<Rightarrow> None | Some (f, sp) \<Rightarrow>
         if f = Some x then map_option (\<lambda>(f', sp'). (f', sp + (sp' - 1))) (znode_level g x j) else Some (f, sp - 1))
       else znode_level g b j)" using Cons.IH [of g] by blast
  show ?case
  proof (rule Cons.prems(1))
    show "zsl_unlink x us (i # js) h = Some h'" using eq h'(1) by simp
    show "zframe h h'" using zframe_trans g(2) h'(2) by blast
    show "znode_level h' b j = (if j \<in> set (i # js) \<and> b = fst (us ! j)
       then (case znode_level h b j of None \<Rightarrow> None | Some (f, sp) \<Rightarrow>
         if f = Some x then map_option (\<lambda>(f', sp'). (f', sp + (sp' - 1))) (znode_level h x j) else Some (f, sp - 1))
       else znode_level h b j)" for b j
      using l ee i(2) Cons.prems(3) unfolding h'(3) g(3) by (auto simp: e_def)
  qed
qed simp

section \<open>The shape of a skip list\<close>

text \<open>\<open>ns\<close> lists the nodes in their order, the header first. The next node of level \<open>i\<close> after position
  \<open>p\<close> is the first one behind it that has the level; the span is its distance, or what is left of the
  list.\<close>

definition next_ok :: "'d zheap \<Rightarrow> nat list \<Rightarrow> nat \<Rightarrow> nat \<Rightarrow> nat option \<Rightarrow> int \<Rightarrow> bool" where
  "next_ok h ns i p f span \<longleftrightarrow>
     (case f of
        None \<Rightarrow> (\<forall>r. p < r \<and> r < length ns \<longrightarrow> height h (ns ! r) \<le> i) \<and> span = int (length ns) - 1 - int p
      | Some y \<Rightarrow> (\<exists>q. p < q \<and> q < length ns \<and> ns ! q = y \<and> i < height h y \<and>
          (\<forall>r. p < r \<and> r < q \<longrightarrow> height h (ns ! r) \<le> i) \<and> span = int q - int p))"

definition levels_ok :: "'d zheap \<Rightarrow> nat list \<Rightarrow> nat \<Rightarrow> bool" where
  "levels_ok h ns k \<longleftrightarrow> (\<forall>p i f span. p < length ns \<longrightarrow> i < k \<longrightarrow> znode_level h (ns ! p) i = Some (f, span) \<longrightarrow>
     next_ok h ns i p f span)"

definition shape_ok :: "'d zskiplist \<Rightarrow> nat list \<Rightarrow> bool" where
  "shape_ok z ns \<longleftrightarrow>
     distinct ns \<and> ns \<noteq> [] \<and> ns ! 0 = header z \<and> zlength z = length ns - 1 \<and>
     1 \<le> zlevel z \<and> zlevel z \<le> ZSKIPLIST_MAXLEVEL \<and> height (zheap z) (header z) = ZSKIPLIST_MAXLEVEL \<and>
     (\<forall>p. 0 < p \<longrightarrow> p < length ns \<longrightarrow> 1 \<le> height (zheap z) (ns ! p) \<and> height (zheap z) (ns ! p) \<le> zlevel z) \<and>
     levels_ok (zheap z) ns (zlevel z) \<and>
     (\<forall>i f span. zlevel z \<le> i \<longrightarrow> znode_level (zheap z) (header z) i = Some (f, span) \<longrightarrow> f = None)"

text \<open>The last position up to \<open>m\<close> that has level \<open>i\<close>.\<close>

definition last_at :: "'d zheap \<Rightarrow> nat list \<Rightarrow> nat \<Rightarrow> nat \<Rightarrow> nat \<Rightarrow> bool" where
  "last_at h ns m i u \<longleftrightarrow> u \<le> m \<and> i < height h (ns ! u) \<and> (\<forall>r. u < r \<and> r \<le> m \<longrightarrow> height h (ns ! r) \<le> i)"

text \<open>The condition of a search holds up to position \<open>m\<close>.\<close>

definition cuts :: "(int \<Rightarrow> 'd znode \<Rightarrow> bool) \<Rightarrow> 'd zheap \<Rightarrow> nat list \<Rightarrow> nat \<Rightarrow> bool" where
  "cuts P h ns m \<longleftrightarrow> (\<forall>q. q < length ns \<longrightarrow> (\<exists>n. h (ns ! q) = Some n \<and> (0 < q \<longrightarrow> (P (int q) n \<longleftrightarrow> q \<le> m))))"

lemma zsl_walk_stops:
  assumes "levels_ok h ns k" "i < k" "m < length ns" "p \<le> m" "i < height h (ns ! p)"
    "cuts P h ns m"
  shows "\<exists>u. zsl_walk P h i (ns ! p) (int p) = Some (ns ! u, int u) \<and> p \<le> u \<and> last_at h ns m i u"
  using assms(4,5)
proof (induction "m - p" arbitrary: p rule: less_induct)
  case less
  obtain f sp where l: "znode_level h (ns ! p) i = Some (f, sp)" using less.prems(2) znode_levelE by blast
  have p: "p < length ns" using less.prems(1) assms(3) by simp
  have nx: "next_ok h ns i p f sp" using assms(1,2) l p unfolding levels_ok_def by blast
  show ?case
  proof (cases f)
    case None
    then have "zsl_walk P h i (ns ! p) (int p) = Some (ns ! p, int p)" using l by (subst zsl_walk.simps) simp
    moreover have "last_at h ns m i p" using nx None less.prems assms(3) by (auto simp: last_at_def next_ok_def)
    ultimately show ?thesis by blast
  next
    case (Some y)
    then obtain q where q: "p < q" "q < length ns" "ns ! q = y" "i < height h y"
      "\<forall>r. p < r \<and> r < q \<longrightarrow> height h (ns ! r) \<le> i" "sp = int q - int p"
      using nx by (auto simp: next_ok_def)
    obtain n where n: "h y = Some n" "P (int q) n \<longleftrightarrow> q \<le> m"
      using assms(6) q(1-3) unfolding cuts_def by (metis gr_zeroI less_nat_zero_code)
    then have P: "P (int p + sp) n \<longleftrightarrow> q \<le> m" using q(6) by simp
    show ?thesis
    proof (cases "q \<le> m")
      case True
      then have "zsl_walk P h i (ns ! p) (int p) = zsl_walk P h i (ns ! q) (int q)"
        using l Some n(1) P q(3,6) by (subst zsl_walk.simps) simp
      moreover have "m - q < m - p" using q(1) True by simp
      ultimately show ?thesis using less.hyps [of q] True q by fastforce
    next
      case False
      then have "zsl_walk P h i (ns ! p) (int p) = Some (ns ! p, int p)"
        using l Some n(1) P by (subst zsl_walk.simps) simp
      moreover have "last_at h ns m i p" using q(5) False less.prems by (auto simp: last_at_def)
      ultimately show ?thesis by blast
    qed
  qed
qed

text \<open>The nodes where the levels are left, with their ranks.\<close>

definition updates_ok :: "'d zheap \<Rightarrow> nat list \<Rightarrow> nat \<Rightarrow> nat \<Rightarrow> (nat \<times> int) list \<Rightarrow> bool" where
  "updates_ok h ns m k us \<longleftrightarrow> length us = k \<and> (\<forall>i < k. \<exists>u. us ! i = (ns ! u, int u) \<and> last_at h ns m i u)"

lemma zsl_descend_stops:
  assumes "levels_ok h ns l" "k \<le> l" "m < length ns" "p \<le> m" "k \<le> height h (ns ! p)"
    "cuts P h ns m"
  shows "\<exists>us. zsl_descend P h k (ns ! p) (int p) = Some us \<and> updates_ok h ns m k us"
  using assms(2,4,5)
proof (induction k arbitrary: p)
  case (Suc k)
  have "k < l" "k < height h (ns ! p)" using Suc.prems by simp_all
  then obtain u where u: "zsl_walk P h k (ns ! p) (int p) = Some (ns ! u, int u)" "last_at h ns m k u"
    using zsl_walk_stops [OF assms(1) _ assms(3) _ _ assms(6), of k p] Suc.prems(2) by blast
  then have "k \<le> l" "u \<le> m" "k \<le> height h (ns ! u)" using Suc.prems by (auto simp: last_at_def)
  then obtain us where us: "zsl_descend P h k (ns ! u) (int u) = Some us" "updates_ok h ns m k us" using Suc.IH by blast
  have "updates_ok h ns m (Suc k) (us @ [(ns ! u, int u)])"
    using us(2) u(2) unfolding updates_ok_def by (auto simp: nth_append less_Suc_eq)
  then show ?case using u(1) us(1) by simp
qed (simp add: updates_ok_def)

lemma updates_zero:
  assumes "updates_ok h ns m k us" "0 < k" "\<And>p. 0 < p \<Longrightarrow> p \<le> m \<Longrightarrow> 1 \<le> height h (ns ! p)"
  shows "us ! 0 = (ns ! m, int m)"
proof -
  obtain u where u: "us ! 0 = (ns ! u, int u)" "last_at h ns m 0 u" using assms(1,2) by (auto simp: updates_ok_def)
  then have "u = m" using assms(3) [of m] by (cases "u = m") (auto simp: last_at_def)
  then show ?thesis using u by simp
qed

lemma shape_height:
  assumes "shape_ok z ns"
  shows "0 < p \<Longrightarrow> p < length ns \<Longrightarrow> 1 \<le> height (zheap z) (ns ! p)"
    and "0 < p \<Longrightarrow> p < length ns \<Longrightarrow> height (zheap z) (ns ! p) \<le> zlevel z"
    and "height (zheap z) (ns ! 0) = ZSKIPLIST_MAXLEVEL" "0 < length ns"
  using assms unfolding shape_ok_def by simp_all

lemma shape_alloc:
  assumes "shape_ok z ns" "q < length ns"
  shows "zheap z (ns ! q) \<noteq> None"
proof -
  have "0 < height (zheap z) (ns ! q)"
    using shape_height(1) [OF assms(1), of q] shape_height(3) [OF assms(1)] assms(2) by (cases "q = 0") (simp_all add: ZSKIPLIST_MAXLEVEL_def)
  then show ?thesis by (auto simp: height_def split: option.splits)
qed

lemma shape_descend:
  assumes "shape_ok z ns" "m < length ns"
    "cuts P (zheap z) ns m"
  obtains us where "zsl_descend P (zheap z) (zlevel z) (header z) 0 = Some us"
    "updates_ok (zheap z) ns m (zlevel z) us" "us ! 0 = (ns ! m, int m)"
proof -
  have z: "levels_ok (zheap z) ns (zlevel z)" "ns ! 0 = header z" "0 < zlevel z"
    "\<And>p. 0 < p \<Longrightarrow> p \<le> m \<Longrightarrow> 1 \<le> height (zheap z) (ns ! p)" "zlevel z \<le> height (zheap z) (ns ! 0)"
    using assms(1,2) by (auto simp: shape_ok_def)
  obtain us where us: "zsl_descend P (zheap z) (zlevel z) (header z) 0 = Some us" "updates_ok (zheap z) ns m (zlevel z) us"
    using zsl_descend_stops [OF z(1) order_refl assms(2) _ z(5) assms(3)] z(2) by auto
  then show ?thesis using updates_zero [OF us(2) z(3,4)] that by blast
qed

section \<open>Linking and unlinking a node\<close>

definition insert_at :: "nat \<Rightarrow> nat \<Rightarrow> nat list \<Rightarrow> nat list" where
  "insert_at m x ns = take (Suc m) ns @ x # drop (Suc m) ns"

lemma insert_at_nth:
  assumes "m < length ns"
  shows "length (insert_at m x ns) = Suc (length ns)" "r \<le> m \<Longrightarrow> insert_at m x ns ! r = ns ! r"
    "insert_at m x ns ! Suc m = x" "m < r \<Longrightarrow> insert_at m x ns ! Suc r = ns ! r"
proof -
  show "m < r \<Longrightarrow> insert_at m x ns ! Suc r = ns ! r"
    using assms by (cases "r - m") (auto simp: insert_at_def nth_append Suc_diff_Suc, metis Suc_eq_plus1_left add.commute add_Suc_right le_add_diff_inverse2 less_imp_le_nat)
qed (use assms in \<open>simp_all add: insert_at_def nth_append\<close>)

lemma insert_at_cases:
  assumes "m < length ns" "r < length (insert_at m x ns)"
  obtains (low) "r \<le> m" "insert_at m x ns ! r = ns ! r" | (new) "r = Suc m" "insert_at m x ns ! r = x"
    | (high) r' where "r = Suc r'" "m < r'" "r' < length ns" "insert_at m x ns ! r = ns ! r'"
proof -
  consider "r \<le> m" | "r = Suc m" | "Suc m < r" by linarith
  then show ?thesis
  proof cases
    case 3
    then obtain r' where "r = Suc r'" "m < r'" by (cases r) auto
    then show ?thesis using assms insert_at_nth(1,4) [OF assms(1)] high by simp
  qed (use insert_at_nth(2,3) [OF assms(1)] low new in auto)
qed

text \<open>How the entries of a level change when a node \<open>x\<close> is inserted after position \<open>m\<close>.\<close>

lemma next_ok_insert:
  assumes m: "m < length ns" and ht: "\<And>r. r < length ns \<Longrightarrow> height h' (ns ! r) = height h (ns ! r)"
    and nx: "next_ok h ns i p f s"
  shows "m < p \<Longrightarrow> next_ok h' (insert_at m x ns) i (Suc p) f s"
    and "f = Some (ns ! q) \<Longrightarrow> q \<le> m \<Longrightarrow> distinct ns \<Longrightarrow> next_ok h' (insert_at m x ns) i p f s"
    and "p \<le> m \<Longrightarrow> \<forall>r. p < r \<and> r \<le> m \<longrightarrow> height h (ns ! r) \<le> i \<Longrightarrow> height h' x \<le> i \<Longrightarrow>
      next_ok h' (insert_at m x ns) i p f (s + 1)"
    and "p \<le> m \<Longrightarrow> \<forall>r. p < r \<and> r \<le> m \<longrightarrow> height h (ns ! r) \<le> i \<Longrightarrow>
      next_ok h' (insert_at m x ns) i (Suc m) f (s - (int m - int p))"
proof -
  note nth = insert_at_nth [OF m]
  have q: "\<exists>q. p < q \<and> q < length ns \<and> ns ! q = y \<and> i < height h y \<and> (\<forall>r. p < r \<and> r < q \<longrightarrow> height h (ns ! r) \<le> i) \<and> s = int q - int p"
    if "f = Some y" for y using nx that by (simp add: next_ok_def)
  have n: "(\<forall>r. p < r \<and> r < length ns \<longrightarrow> height h (ns ! r) \<le> i) \<and> s = int (length ns) - 1 - int p" if "f = None"
    using nx that by (simp add: next_ok_def)
  have le: "height h' (insert_at m x ns ! r) \<le> i"
    if "r < length (insert_at m x ns)" "r = Suc m \<Longrightarrow> height h' x \<le> i" "r \<le> m \<Longrightarrow> height h (ns ! r) \<le> i"
      "\<And>r'. r = Suc r' \<Longrightarrow> m < r' \<Longrightarrow> height h (ns ! r') \<le> i" for r
    using m that(1)
  proof (cases rule: insert_at_cases)
    case low
    then show ?thesis using that(3) ht m by simp
  next
    case (high r')
    then show ?thesis using that(4) ht by simp
  qed (use that(2) in simp)
  show "next_ok h' (insert_at m x ns) i (Suc p) f s" if "m < p"
  proof (cases f)
    case None
    then show ?thesis using n that nth(1) by (auto simp: next_ok_def intro!: le)
  next
    case (Some y)
    obtain q where "p < q" "q < length ns" "ns ! q = y" "i < height h y" "\<forall>r. p < r \<and> r < q \<longrightarrow> height h (ns ! r) \<le> i"
      "s = int q - int p" using q [OF Some] by blast
    then show ?thesis using Some that nth ht by (auto simp: next_ok_def intro!: exI [of _ "Suc q"] le)
  qed
  show "next_ok h' (insert_at m x ns) i p f s" if c: "f = Some (ns ! q)" "q \<le> m" "distinct ns" for q
  proof -
    obtain q' where q': "p < q'" "q' < length ns" "ns ! q' = ns ! q" "i < height h (ns ! q)" "\<forall>r. p < r \<and> r < q' \<longrightarrow> height h (ns ! r) \<le> i"
      "s = int q' - int p" using q [OF c(1)] by blast
    then have "q' = q" using c m nth_eq_iff_index_eq by (metis le_less_trans)
    then show ?thesis using q' c nth ht m by (auto simp: next_ok_def intro!: exI [of _ q] le)
  qed
  show "next_ok h' (insert_at m x ns) i p f (s + 1)"
    if c: "p \<le> m" "\<forall>r. p < r \<and> r \<le> m \<longrightarrow> height h (ns ! r) \<le> i" "height h' x \<le> i"
  proof (cases f)
    case None
    then show ?thesis using n c nth(1) by (auto simp: next_ok_def intro!: le)
  next
    case (Some y)
    obtain q where q: "p < q" "q < length ns" "ns ! q = y" "i < height h y" "\<forall>r. p < r \<and> r < q \<longrightarrow> height h (ns ! r) \<le> i"
      "s = int q - int p" using q [OF Some] by blast
    then have "m < q" using c(2) by (metis not_less)
    then show ?thesis using Some c q nth ht by (auto simp: next_ok_def intro!: exI [of _ "Suc q"] le)
  qed
  show "next_ok h' (insert_at m x ns) i (Suc m) f (s - (int m - int p))"
    if c: "p \<le> m" "\<forall>r. p < r \<and> r \<le> m \<longrightarrow> height h (ns ! r) \<le> i"
  proof (cases f)
    case None
    then show ?thesis using n c nth(1) by (auto simp: next_ok_def intro!: le)
  next
    case (Some y)
    obtain q where q: "p < q" "q < length ns" "ns ! q = y" "i < height h y" "\<forall>r. p < r \<and> r < q \<longrightarrow> height h (ns ! r) \<le> i"
      "s = int q - int p" using q [OF Some] by blast
    then have "m < q" using c(2) by (metis not_less)
    then show ?thesis using Some c q nth ht by (auto simp: next_ok_def intro!: exI [of _ "Suc q"] le)
  qed
qed

lemma link_levels_ok:
  assumes ok: "levels_ok h ns k" and up: "updates_ok h ns m k us" and m: "m < length ns" and x: "x \<notin> set ns" and d: "distinct ns"
    and ht: "\<And>b. b \<noteq> x \<Longrightarrow> height h' b = height h b" and lv: "height h' x = lv" "lv \<le> k"
    and view: "\<And>b j. j < k \<Longrightarrow> znode_level h' b j =
      (if b = x then (if j < lv then map_option (\<lambda>(f, sp). (f, sp - (int m - snd (us ! j)))) (znode_level h (fst (us ! j)) j) else None)
       else if b = fst (us ! j) then
         (if j < lv then Some (Some x, int m - snd (us ! j) + 1) else map_option (\<lambda>(f, sp). (f, sp + 1)) (znode_level h b j))
       else znode_level h b j)"
  shows "levels_ok h' (insert_at m x ns) k"
  unfolding levels_ok_def
proof (intro allI impI)
  fix p' i f sp
  assume a: "p' < length (insert_at m x ns)" "i < k" "znode_level h' (insert_at m x ns ! p') i = Some (f, sp)"
  note nth = insert_at_nth [OF m]
  obtain u where u: "us ! i = (ns ! u, int u)" "last_at h ns m i u" using up a(2) by (auto simp: updates_ok_def)
  then have um: "u \<le> m" "u < length ns" "i < height h (ns ! u)" "\<And>r. u < r \<Longrightarrow> r \<le> m \<Longrightarrow> height h (ns ! r) \<le> i"
    using m by (auto simp: last_at_def)
  obtain fu su where fu: "znode_level h (ns ! u) i = Some (fu, su)" using um(3) znode_levelE by blast
  have nu: "next_ok h ns i u fu su" using ok um(2) a(2) fu unfolding levels_ok_def by blast
  have hn: "height h' (ns ! r) = height h (ns ! r)" if "r < length ns" for r using ht x that by (metis nth_mem)
  have uneq: "ns ! p \<noteq> ns ! u" if "p < length ns" "p \<noteq> u" for p using d that um(2) nth_eq_iff_index_eq by blast
  have xneq: "ns ! p \<noteq> x" if "p < length ns" for p using x that by auto
  from m a(1) show "next_ok h' (insert_at m x ns) i p' f sp"
  proof (cases rule: insert_at_cases)
    case new
    then have "i < lv" using a(2,3) view by (auto split: if_splits)
    then have "f = fu" "sp = su - (int m - int u)" using a(2,3) new view u(1) fu by auto
    then show ?thesis using next_ok_insert(4) [OF m hn nu um(1)] um(4) new by auto
  next
    case (high p)
    then have "znode_level h (ns ! p) i = Some (f, sp)"
      using a(2,3) view xneq uneq [of p] um(1) u(1) by auto
    then have "next_ok h ns i p f sp" using ok a(2) high(3) unfolding levels_ok_def by blast
    then show ?thesis using next_ok_insert(1) [OF m hn] high by auto
  next
    case low
    show ?thesis
    proof (cases "p' = u")
      case True
      show ?thesis
      proof (cases "i < lv")
        case True
        have "f = Some x" "sp = int m - int u + 1" using a(2,3) low view True \<open>p' = u\<close> u(1) um(2) xneq by auto
        moreover have "next_ok h' (insert_at m x ns) i u (Some x) (int m - int u + 1)"
          using nth um(1) hn um(4) m lv True by (auto simp: next_ok_def intro!: exI [of _ "Suc m"])
        ultimately show ?thesis using \<open>p' = u\<close> by simp
      next
        case False
        then have "f = fu" "sp = su + 1" using a(2,3) low view \<open>p' = u\<close> u(1) um(2) xneq fu by auto
        then show ?thesis using next_ok_insert(3) [OF m hn nu um(1)] um(4) False lv(1) \<open>p' = u\<close> by auto
      qed
    next
      case False
      have pl: "p' < length ns" using low m by simp
      have en: "znode_level h (ns ! p') i = Some (f, sp)"
        using a(2,3) view xneq [OF pl] uneq [OF pl False] u(1) low by auto
      then have nx: "next_ok h ns i p' f sp" using ok a(2) pl unfolding levels_ok_def by blast
      have "i < height h (ns ! p')" using en znode_level_None [of h "ns ! p'" i] by (metis not_less option.distinct(1))
      then have "p' < u" using False um(4) low(1) by (metis linorder_neqE_nat not_less)
      then obtain q where q: "f = Some (ns ! q)" "q < length ns" "\<forall>r. p' < r \<and> r < q \<longrightarrow> height h (ns ! r) \<le> i"
        using nx um(2,3) by (cases f) (auto simp: next_ok_def)
      have "q \<le> u" using q(3) \<open>p' < u\<close> um(3) by (metis not_less)
      then show ?thesis using next_ok_insert(2) [OF m hn nx q(1)] um(1) d by auto
    qed
  qed
qed

text \<open>The same for the removal of the node \<open>x\<close> after position \<open>m\<close>.\<close>

lemma next_ok_remove:
  assumes m: "m < length ns" and d: "distinct (insert_at m x ns)"
    and ht: "\<And>r. r < length ns \<Longrightarrow> height h' (ns ! r) = height h (ns ! r)"
  shows "next_ok h (insert_at m x ns) i (Suc p) f s \<Longrightarrow> m < p \<Longrightarrow> next_ok h' ns i p f s"
    and "next_ok h (insert_at m x ns) i p (Some (ns ! q)) s \<Longrightarrow> q \<le> m \<Longrightarrow> next_ok h' ns i p (Some (ns ! q)) s"
    and "next_ok h (insert_at m x ns) i p f s \<Longrightarrow> p \<le> m \<Longrightarrow> \<forall>r. p < r \<and> r \<le> m \<longrightarrow> height h (ns ! r) \<le> i \<Longrightarrow>
      height h x \<le> i \<Longrightarrow> next_ok h' ns i p f (s - 1)"
    and "next_ok h (insert_at m x ns) i (Suc m) f s \<Longrightarrow> p \<le> m \<Longrightarrow> \<forall>r. p < r \<and> r \<le> m \<longrightarrow> height h (ns ! r) \<le> i \<Longrightarrow>
      next_ok h' ns i p f (s + (int m - int p))"
proof -
  note nth = insert_at_nth [OF m]
  let ?ns = "insert_at m x ns"
  have hi: "height h' (ns ! r) \<le> i" if "\<forall>r. a < r \<and> r < b \<longrightarrow> height h (?ns ! r) \<le> i" "a \<le> r" "Suc r < b" "m < r" "r < length ns" for r a b
    using that nth(4) ht by (metis le_imp_less_Suc)
  have lo: "height h' (ns ! r) \<le> i" if "\<forall>r. p < r \<and> r \<le> m \<longrightarrow> height h (ns ! r) \<le> i" "p < r" "r \<le> m" for r p
    using that ht m by simp
  have high_pos: "\<exists>q'. q = Suc q' \<and> m < q' \<and> q' < length ns \<and> ?ns ! q = ns ! q'" if "Suc m < q" "q < length ?ns" for q
    using that m by (cases rule: insert_at_cases [OF m that(2)]) auto
  have fin: "next_ok h' ns i p (Some y) s'"
    if "p < q'" "q' < length ns" "ns ! q' = y" "i < height h y" "\<And>r. p < r \<Longrightarrow> r < q' \<Longrightarrow> height h' (ns ! r) \<le> i"
      "s' = int q' - int p" for p q' y s'
    using that ht [OF that(2)] by (auto simp: next_ok_def)
  show "next_ok h' ns i p f s" if c: "next_ok h ?ns i (Suc p) f s" "m < p"
  proof (cases f)
    case None
    then have "\<forall>r. Suc p < r \<and> r < length ?ns \<longrightarrow> height h (?ns ! r) \<le> i" using c(1) by (simp add: next_ok_def)
    from hi [OF this] show ?thesis using None c nth(1) by (auto simp: next_ok_def)
  next
    case (Some y)
    then obtain q where q: "Suc p < q" "q < length ?ns" "?ns ! q = y" "i < height h y"
      "\<forall>r. Suc p < r \<and> r < q \<longrightarrow> height h (?ns ! r) \<le> i" "s = int q - int (Suc p)" using c(1) by (auto simp: next_ok_def)
    then obtain q' where q': "q = Suc q'" "m < q'" "q' < length ns" "ns ! q' = y" using high_pos [of q] c(2) by auto
    have "height h' (ns ! r) \<le> i" if "p < r" "r < q'" for r using hi [OF q(5), of r] that q' c(2) by auto
    then show ?thesis unfolding Some using fin [OF _ q'(3,4) q(4)] q(1,6) q'(1,2) c(2) by simp
  qed
  show "next_ok h' ns i p (Some (ns ! q)) s" if c: "next_ok h ?ns i p (Some (ns ! q)) s" "q \<le> m" for q
  proof -
    obtain q' where q: "p < q'" "q' < length ?ns" "?ns ! q' = ns ! q" "i < height h (ns ! q)"
      "\<forall>r. p < r \<and> r < q' \<longrightarrow> height h (?ns ! r) \<le> i" "s = int q' - int p" using c(1) by (auto simp: next_ok_def)
    have "?ns ! q = ns ! q" using nth(2) c(2) by simp
    then have "q' = q" using nth_eq_iff_index_eq [OF d q(2), of q] q(3) nth(1) c(2) m by simp
    moreover have "height h' (ns ! r) \<le> i" if "p < r" "r < q'" for r
      using q(5) that ht [of r] nth(2) [of r] \<open>q' = q\<close> c(2) m by auto
    ultimately show ?thesis using fin [of p q "ns ! q" s] q(1,4,6) c(2) m by simp
  qed
  show "next_ok h' ns i p f (s - 1)"
    if c: "next_ok h ?ns i p f s" "p \<le> m" "\<forall>r. p < r \<and> r \<le> m \<longrightarrow> height h (ns ! r) \<le> i" "height h x \<le> i"
  proof (cases f)
    case None
    then have a: "\<forall>r. p < r \<and> r < length ?ns \<longrightarrow> height h (?ns ! r) \<le> i" "s = int (length ?ns) - 1 - int p"
      using c(1) by (auto simp: next_ok_def)
    have "height h' (ns ! r) \<le> i" if "p < r" "r < length ns" for r
      using lo [OF c(3)] hi [OF a(1), of r] that nth(1) by (cases "r \<le> m") auto
    then show ?thesis using None a(2) nth(1) by (auto simp: next_ok_def)
  next
    case (Some y)
    then obtain q where q: "p < q" "q < length ?ns" "?ns ! q = y" "i < height h y"
      "\<forall>r. p < r \<and> r < q \<longrightarrow> height h (?ns ! r) \<le> i" "s = int q - int p" using c(1) by (auto simp: next_ok_def)
    have "Suc m < q"
    proof (rule ccontr)
      assume "\<not> Suc m < q"
      then have "q \<le> m \<or> q = Suc m" by linarith
      then have "height h y \<le> i" using q(1,3) c(3,4) nth(2,3) by auto
      then show False using q(4) by simp
    qed
    then obtain q' where q': "q = Suc q'" "m < q'" "q' < length ns" "ns ! q' = y" using high_pos [of q] q(2,3) by auto
    have "height h' (ns ! r) \<le> i" if "p < r" "r < q'" for r
      using lo [OF c(3)] hi [OF q(5), of r] that q' by (cases "r \<le> m") auto
    then show ?thesis unfolding Some using fin [OF _ q'(3,4) q(4)] q(1,6) q'(1,2) c(2) by simp
  qed
  show "next_ok h' ns i p f (s + (int m - int p))"
    if c: "next_ok h ?ns i (Suc m) f s" "p \<le> m" "\<forall>r. p < r \<and> r \<le> m \<longrightarrow> height h (ns ! r) \<le> i"
  proof (cases f)
    case None
    then have a: "\<forall>r. Suc m < r \<and> r < length ?ns \<longrightarrow> height h (?ns ! r) \<le> i" "s = int (length ?ns) - 1 - int (Suc m)"
      using c(1) by (auto simp: next_ok_def)
    have "height h' (ns ! r) \<le> i" if "p < r" "r < length ns" for r
      using lo [OF c(3)] hi [OF a(1), of r] that nth(1) by (cases "r \<le> m") auto
    then show ?thesis using None a(2) nth(1) by (auto simp: next_ok_def)
  next
    case (Some y)
    then obtain q where q: "Suc m < q" "q < length ?ns" "?ns ! q = y" "i < height h y"
      "\<forall>r. Suc m < r \<and> r < q \<longrightarrow> height h (?ns ! r) \<le> i" "s = int q - int (Suc m)" using c(1) by (auto simp: next_ok_def)
    then obtain q' where q': "q = Suc q'" "m < q'" "q' < length ns" "ns ! q' = y" using high_pos [of q] by auto
    have "height h' (ns ! r) \<le> i" if "p < r" "r < q'" for r
      using lo [OF c(3)] hi [OF q(5), of r] that q' by (cases "r \<le> m") auto
    then show ?thesis unfolding Some using fin [OF _ q'(3,4) q(4)] q(1,6) q'(1,2) c(2) by simp
  qed
qed

lemma unlink_levels_ok:
  assumes ok: "levels_ok h (insert_at m x ns) k" and up: "updates_ok h (insert_at m x ns) m k us" and m: "m < length ns"
    and d: "distinct (insert_at m x ns)" and ht: "\<And>b. height h' b = height h b"
    and view: "\<And>b j. j < k \<Longrightarrow> b \<noteq> x \<Longrightarrow> znode_level h' b j = (if b = fst (us ! j)
       then (case znode_level h b j of None \<Rightarrow> None | Some (f, sp) \<Rightarrow>
         if f = Some x then map_option (\<lambda>(f', sp'). (f', sp + (sp' - 1))) (znode_level h x j) else Some (f, sp - 1))
       else znode_level h b j)"
  shows "levels_ok h' ns k"
  unfolding levels_ok_def
proof (intro allI impI)
  let ?ns = "insert_at m x ns"
  fix p i f sp
  assume a: "p < length ns" "i < k" "znode_level h' (ns ! p) i = Some (f, sp)"
  note nth = insert_at_nth [OF m]
  have dn: "distinct ns" "x \<notin> set ns" using d by (auto simp: insert_at_def dest: in_set_takeD in_set_dropD)
     (metis append_take_drop_id distinct_append disjoint_iff, metis append_take_drop_id in_set_conv_decomp Un_iff set_append)
  obtain u where u: "us ! i = (?ns ! u, int u)" "last_at h ?ns m i u" using up a(2) by (auto simp: updates_ok_def)
  then have nu: "?ns ! u = ns ! u" using nth(2) by (simp add: last_at_def)
  then have um: "u \<le> m" "u < length ns" "i < height h (ns ! u)" "\<And>r. u < r \<Longrightarrow> r \<le> m \<Longrightarrow> height h (ns ! r) \<le> i"
    using u m nth(2) by (auto simp: last_at_def)
  have xneq: "ns ! p \<noteq> x" using dn(2) a(1) by auto
  show "next_ok h' ns i p f sp"
  proof (cases "p = u")
    case True
    obtain fu su where fu: "znode_level h (ns ! u) i = Some (fu, su)" using um(3) znode_levelE by blast
    then have nx: "next_ok h ?ns i u fu su" using ok um(1) nth(1) a(2) nu m unfolding levels_ok_def by fastforce
    show ?thesis
    proof (cases "fu = Some x")
      case fx: True
      then have "i < height h x" using nx by (auto simp: next_ok_def)
      then obtain f' s' where f': "znode_level h x i = Some (f', s')" using znode_levelE by blast
      have "next_ok h ?ns i (Suc m) f' s'" using ok f' nth(1,3) a(2) m unfolding levels_ok_def by fastforce
      moreover have su: "su = int (Suc m) - int u"
      proof -
        obtain q where "q < length ?ns" "?ns ! q = x" "su = int q - int u" using nx fx by (auto simp: next_ok_def)
        moreover have "q = Suc m" using calculation d nth(1,3) m by (metis Suc_mono nth_eq_iff_index_eq)
        ultimately show ?thesis by simp
      qed
      moreover have "f = f'" "sp = su + (s' - 1)" using a(2,3) view xneq True fx fu f' u(1) nu by auto
      moreover from this su have "sp = s' + (int m - int u)" by simp
      ultimately show ?thesis using next_ok_remove(4) [OF m d ht _ um(1), of i f' s'] um(4) True by simp
    next
      case False
      have "height h x \<le> i"
      proof (rule ccontr)
        assume h: "\<not> height h x \<le> i"
        have "fu \<noteq> None"
        proof
          assume "fu = None"
          then have "\<forall>r. u < r \<and> r < length ?ns \<longrightarrow> height h (?ns ! r) \<le> i" using nx by (simp add: next_ok_def)
          from spec [OF this, of "Suc m"] show False using h nth(1,3) um(1) m by simp
        qed
        then obtain y q where q: "fu = Some y" "u < q" "q < length ?ns" "?ns ! q = y" "i < height h y"
          "\<forall>r. u < r \<and> r < q \<longrightarrow> height h (?ns ! r) \<le> i" using nx by (auto simp: next_ok_def split: option.splits)
        have "q \<noteq> Suc m" using q(1,4) False nth(3) by auto
        moreover have "\<not> Suc m < q" using q(6) h nth(3) um(1) by (metis le_imp_less_Suc)
        moreover have "\<not> q \<le> m" using q(2,4,5) um(4) nth(2) by (metis not_less)
        ultimately show False by linarith
      qed
      moreover have "f = fu" "sp = su - 1" using a(2,3) view xneq True False fu u(1) nu by auto
      ultimately show ?thesis using next_ok_remove(3) [OF m d ht nx um(1)] um(4) True by auto
    qed
  next
    case False
    then have en: "znode_level h (ns ! p) i = Some (f, sp)"
      using a view xneq dn(1) um(2) u(1) nu by (auto simp: nth_eq_iff_index_eq)
    show ?thesis
    proof (cases "p \<le> m")
      case True
      then have nx: "next_ok h ?ns i p f sp" using ok en nth(1,2) a(1,2) unfolding levels_ok_def by fastforce
      have "i < height h (ns ! p)" using en znode_level_None [of h "ns ! p" i] by (metis not_less option.distinct(1))
      then have "p < u" using False um(4) True by (metis linorder_neqE_nat not_less)
      then obtain q where q: "f = Some (?ns ! q)" "q < length ?ns" "\<forall>r. p < r \<and> r < q \<longrightarrow> height h (?ns ! r) \<le> i"
        using nx um(1-3) nth(1) nu by (cases f) (auto simp: next_ok_def)
      have "q \<le> u" using q(3) \<open>p < u\<close> um(3) nu by (metis not_less)
      then show ?thesis using next_ok_remove(2) [OF m d ht] nx q(1) nth(2) um(1) by auto
    next
      case pm: False
      then have "next_ok h ?ns i (Suc p) f sp" using ok en nth(1,4) a(1,2) unfolding levels_ok_def by fastforce
      then show ?thesis using next_ok_remove(1) [OF m d ht] pm by auto
    qed
  qed
qed

section \<open>The contents\<close>

definition node_key :: "'d znode \<Rightarrow> 'd \<times> bytes" where
  "node_key n = (z_score n, case z_ele n of Some e \<Rightarrow> e | None \<Rightarrow> [])"

text \<open>The skip list \<open>z\<close> with the nodes \<open>ns\<close> stores the pairs \<open>xs\<close>, in strictly ascending order; the
  backward pointers and the tail lead through them in the opposite direction.\<close>

definition zsl_rep :: "'d :: linorder zskiplist \<Rightarrow> nat list \<Rightarrow> ('d \<times> bytes) list \<Rightarrow> bool" where
  "zsl_rep z ns xs \<longleftrightarrow> shape_ok z ns \<and> length ns = Suc (length xs) \<and> sorted_wrt (<) xs \<and>
     (\<exists>n. zheap z (header z) = Some n \<and> z_ele n = None) \<and>
     (\<forall>p < length xs. \<exists>n. zheap z (ns ! Suc p) = Some n \<and> z_ele n \<noteq> None \<and> node_key n = xs ! p \<and>
        z_backward n = (if p = 0 then None else Some (ns ! p))) \<and>
     tail z = (if xs = [] then None else Some (ns ! length xs))"

lemma sdscmp_less: "sdscmp a b < 0 \<longleftrightarrow> a < b"
  by (induction a b rule: sdscmp.induct) auto

lemma sdscmp_eq: "sdscmp a b = 0 \<longleftrightarrow> a = b"
  by (induction a b rule: sdscmp.induct) auto

lemma node_before_key: "z_ele n \<noteq> None \<Longrightarrow> node_before s e n \<longleftrightarrow> node_key n < (s, e)"
  by (auto simp: node_before_def node_key_def sdscmp_less)

text \<open>A condition that holds for the smaller keys cuts the list in two.\<close>

lemma sorted_prefix:
  assumes "sorted_wrt (<) (xs :: 'a :: order list)" "\<And>x y. x < y \<Longrightarrow> Q y \<Longrightarrow> Q x" "p < length xs"
  shows "Q (xs ! p) \<longleftrightarrow> p < length (takeWhile Q xs)"
proof
  assume q: "Q (xs ! p)"
  have all: "Q (xs ! r)" if "r \<le> p" for r
    using assms q that sorted_wrt_nth_less [OF assms(1), of r p] by (cases "r = p") auto
  show "p < length (takeWhile Q xs)"
  proof (rule ccontr)
    assume "\<not> p < length (takeWhile Q xs)"
    then have l: "length (takeWhile Q xs) \<le> p" by simp
    then have "\<not> Q (xs ! length (takeWhile Q xs))" using assms(3) nth_length_takeWhile [of Q xs] by simp
    then show False using all l by blast
  qed
qed (metis nth_mem set_takeWhileD takeWhile_nth)

lemma zsl_rep_cuts:
  assumes "zsl_rep z ns xs" "\<And>x y. x < y \<Longrightarrow> Q y \<Longrightarrow> Q x"
    "\<And>p n. z_ele n \<noteq> None \<Longrightarrow> P p n \<longleftrightarrow> Q (node_key n)"
  shows "cuts P (zheap z) ns (length (takeWhile Q xs))"
  unfolding cuts_def
proof (intro allI impI)
  fix q assume q: "q < length ns"
  show "\<exists>n. zheap z (ns ! q) = Some n \<and> (0 < q \<longrightarrow> P (int q) n = (q \<le> length (takeWhile Q xs)))"
  proof (cases q)
    case 0
    then show ?thesis using assms(1) by (auto simp: zsl_rep_def shape_ok_def)
  next
    case (Suc p)
    then have p: "p < length xs" using q assms(1) by (simp add: zsl_rep_def)
    then obtain n where n: "zheap z (ns ! q) = Some n" "z_ele n \<noteq> None" "node_key n = xs ! p"
      using assms(1) Suc unfolding zsl_rep_def by blast
    have "Q (xs ! p) \<longleftrightarrow> p < length (takeWhile Q xs)"
      using sorted_prefix [of xs Q p] assms(1,2) p by (auto simp: zsl_rep_def)
    then show ?thesis using n assms(3) Suc by (auto simp: less_Suc_eq_le Suc_le_eq)
  qed
qed

text \<open>The search of insertions and deletions.\<close>

definition keys_below :: "'d :: linorder \<times> bytes \<Rightarrow> ('d \<times> bytes) list \<Rightarrow> nat" where
  "keys_below k xs = length (takeWhile (\<lambda>y. y < k) xs)"

lemma zsl_search_stops:
  assumes "zsl_rep z ns xs"
  obtains us where "zsl_search z s e = Some us" "updates_ok (zheap z) ns (keys_below (s, e) xs) (zlevel z) us"
    "us ! 0 = (ns ! keys_below (s, e) xs, int (keys_below (s, e) xs))" "keys_below (s, e) xs < length ns"
proof -
  let ?m = "keys_below (s, e) xs"
  have c: "cuts (\<lambda>_. node_before s e) (zheap z) ns ?m"
    unfolding keys_below_def by (rule zsl_rep_cuts [OF assms]) (auto simp: node_before_key)
  have m: "?m < length ns"
    using assms length_takeWhile_le [of "\<lambda>y. y < (s, e)" xs] by (simp add: zsl_rep_def keys_below_def)
  have "shape_ok z ns" using assms by (simp add: zsl_rep_def)
  from shape_descend [OF this m c] that m show ?thesis unfolding zsl_search_def by blast
qed

lemma zframe_node: "zframe h h' \<Longrightarrow> h a = Some n \<Longrightarrow> \<exists>l. h' a = Some (n\<lparr>z_level := l\<rparr>)"
  unfolding zframe_def by (drule spec [of _ a]) auto

lemma zframe_upd: "zframe h h' \<Longrightarrow> zframe (h(x \<mapsto> n)) (h'(x \<mapsto> n))"
  unfolding zframe_def
proof (intro allI)
  fix a assume "\<forall>a. case h a of None \<Rightarrow> h' a = None | Some n \<Rightarrow> \<exists>l. h' a = Some (n\<lparr>z_level := l\<rparr>) \<and> length l = length (z_level n)"
  from spec [OF this, of a]
  show "case (h(x \<mapsto> n)) a of None \<Rightarrow> (h'(x \<mapsto> n)) a = None
    | Some k \<Rightarrow> \<exists>l. (h'(x \<mapsto> n)) a = Some (k\<lparr>z_level := l\<rparr>) \<and> length l = length (z_level k)"
    by (cases "a = x") (auto intro!: exI [of _ "z_level n"] split: option.splits)
qed

lemma set_backward_ex:
  assumes "h a = Some n"
  shows "set_backward h a b = Some (h(a \<mapsto> n\<lparr>z_backward := b\<rparr>))"
    "znode_level (h(a \<mapsto> n\<lparr>z_backward := b\<rparr>)) c i = znode_level h c i" "height (h(a \<mapsto> n\<lparr>z_backward := b\<rparr>)) c = height h c"
  using assms by (auto simp: set_backward_def znode_level_def height_def)

section \<open>Insertion\<close>

lemma next_ok_cong: "(\<And>b. b \<in> set ns \<Longrightarrow> height h' b = height h b) \<Longrightarrow> next_ok h' ns i p f s = next_ok h ns i p f s"
  unfolding next_ok_def by (auto split: option.splits)

lemma levels_ok_cong:
  "(\<And>b i. znode_level h' b i = znode_level h b i) \<Longrightarrow> (\<And>b. height h' b = height h b) \<Longrightarrow> levels_ok h' ns k = levels_ok h ns k"
  by (simp add: levels_ok_def next_ok_cong [of ns h' h])

text \<open>Before a node is linked in, the list is given as many levels as the node has.\<close>

lemma grow_ok:
  assumes sh: "shape_ok z ns" and up: "updates_ok (zheap z) ns m (zlevel z) us" and m: "m < length ns" and lv: "level \<le> ZSKIPLIST_MAXLEVEL"
  obtains h where "zsl_grow (header z) (int (zlength z)) [zlevel z..<level] (zheap z) = Some h" "zframe (zheap z) h"
    "levels_ok h ns (max level (zlevel z))"
    "updates_ok h ns m (max level (zlevel z)) (us @ replicate (level - zlevel z) (header z, 0))"
    "\<And>i f sp. max level (zlevel z) \<le> i \<Longrightarrow> znode_level h (header z) i = Some (f, sp) \<Longrightarrow> f = None"
proof -
  have s: "ns ! 0 = header z" "distinct ns" "height (zheap z) (header z) = ZSKIPLIST_MAXLEVEL" "int (zlength z) = int (length ns) - 1"
    "levels_ok (zheap z) ns (zlevel z)"
    "\<And>i f sp. zlevel z \<le> i \<Longrightarrow> znode_level (zheap z) (header z) i = Some (f, sp) \<Longrightarrow> f = None"
    using sh m by (auto simp: shape_ok_def)
  have "\<forall>i \<in> set [zlevel z..<level]. i < height (zheap z) (header z)" using lv s(3) by simp
  then obtain h where h: "zsl_grow (header z) (int (zlength z)) [zlevel z..<level] (zheap z) = Some h" "zframe (zheap z) h"
    "\<And>b j. znode_level h b j = (if b = header z \<and> j \<in> set [zlevel z..<level] then map_option (\<lambda>(f, _). (f, int (zlength z))) (znode_level (zheap z) b j)
       else znode_level (zheap z) b j)"
    using zsl_grow_ex [of "[zlevel z..<level]" "zheap z" "header z" "int (zlength z)"] by (metis distinct_upt)
  note ht = zframe_height [OF h(2)]
  have nx: "next_ok h ns i p f sp = next_ok (zheap z) ns i p f sp" for i p f sp by (rule next_ok_cong) (rule ht)
  have "levels_ok h ns (max level (zlevel z))"
    unfolding levels_ok_def
  proof (intro allI impI)
    fix p i f sp
    assume a: "p < length ns" "i < max level (zlevel z)" "znode_level h (ns ! p) i = Some (f, sp)"
    show "next_ok h ns i p f sp"
    proof (cases "i < zlevel z")
      case True
      then have "znode_level (zheap z) (ns ! p) i = Some (f, sp)" using a(3) h(3) by simp
      then show ?thesis using s(5) True a(1) unfolding nx levels_ok_def by blast
    next
      case False
      have hi: "height (zheap z) (ns ! r) \<le> i" if "0 < r" "r < length ns" for r
        using shape_height(2) [OF sh that] False by simp
      have "i < height h (ns ! p)" using a(3) znode_level_None [of h "ns ! p" i] by (metis not_less option.distinct(1))
      then have p: "p = 0" using hi [of p] a(1) ht by (metis gr0I not_le)
      moreover have "i < level" using a(2) False by simp
      ultimately obtain sp' where "znode_level (zheap z) (header z) i = Some (f, sp')" "sp = int (zlength z)"
        using a(3) False s(1) by (auto simp: h(3))
      then have "f = None" "sp = int (zlength z)" using s(6) [of i] False by auto
      then show ?thesis unfolding nx using hi p s(4) by (auto simp: next_ok_def)
    qed
  qed
  moreover have "updates_ok h ns m (max level (zlevel z)) (us @ replicate (level - zlevel z) (header z, 0))"
    unfolding updates_ok_def
  proof (intro conjI allI impI)
    fix i assume i: "i < max level (zlevel z)"
    show "\<exists>u. (us @ replicate (level - zlevel z) (header z, 0)) ! i = (ns ! u, int u) \<and> last_at h ns m i u"
    proof (cases "i < zlevel z")
      case True
      then show ?thesis using up unfolding updates_ok_def last_at_def ht by (auto simp: nth_append)
    next
      case False
      have "height (zheap z) (ns ! r) \<le> i" if "0 < r" "r \<le> m" for r
        using shape_height(2) [OF sh that(1)] that m False by (meson le_trans linorder_not_less order_le_less_trans)
      then have "last_at h ns m i 0" using i lv False s(1,3) unfolding last_at_def ht by auto
      moreover have "(us @ replicate (level - zlevel z) (header z, 0)) ! i = (header z, 0)"
        using i False up by (auto simp: updates_ok_def nth_append)
      ultimately show ?thesis using s(1) by (intro exI [of _ 0]) simp
    qed
  qed (use up in \<open>auto simp: updates_ok_def\<close>)
  moreover have "f = None" if "max level (zlevel z) \<le> i" "znode_level h (header z) i = Some (f, sp)" for i f sp
    using that h(3) s(6) [of i f sp] by auto
  ultimately show ?thesis using that h(1,2) by blast
qed

lemma rank_diff_eq:
  assumes "updates_ok h ns m k us" "us ! 0 = (a, int m)" "m < 2 ^ 32" "i < k"
  shows "rank_diff us i = int m - snd (us ! i)"
proof -
  obtain u where "us ! i = (ns ! u, int u)" "u \<le> m" using assms(1,4) by (auto simp: updates_ok_def last_at_def)
  then show ?thesis using assms(2,3) by (simp add: rank_diff_def)
qed

lemma rank_step_eq:
  assumes "updates_ok h ns m k us" "us ! 0 = (a, int m)" "Suc m < 2 ^ 32" "i < k"
  shows "rank_step us i = int m - snd (us ! i) + 1"
proof -
  have "0 \<le> snd (us ! i)" "snd (us ! i) \<le> int m" using assms(1,4) by (auto simp: updates_ok_def last_at_def)
  moreover have "rank_diff us i = int m - snd (us ! i)" using rank_diff_eq [OF assms(1,2) _ assms(4)] assms(3) by simp
  moreover have "int m + 1 < 2 ^ 32" using assms(3) by simp
  ultimately show ?thesis by (simp add: rank_step_def)
qed

lemma zslRandomLevel_bounds: "1 \<le> zslRandomLevel rs" "zslRandomLevel rs \<le> ZSKIPLIST_MAXLEVEL"
  by (simp_all add: zslRandomLevel_def ZSKIPLIST_MAXLEVEL_def Let_def)

text \<open>The heap after the node has been linked into its levels and the spans above it have grown.\<close>

lemma link_ok:
  assumes lo: "levels_ok h ns k" and up: "updates_ok h ns m k us" and m: "m < length ns" "Suc m < 2 ^ 32" and z0: "us ! 0 = (ns ! m, int m)"
    and x: "x \<notin> set ns" and d: "distinct ns" and lv: "0 < lv" "lv \<le> k" and n: "length (z_level n) = lv"
  obtains h1 h2 where "zsl_link x us [0..<lv] (h(x \<mapsto> n)) = Some h1" "zsl_bump 1 us [lv..<k] h1 = Some h2" "zframe (h(x \<mapsto> n)) h2"
    "levels_ok h2 (insert_at m x ns) k" "\<And>b i. k \<le> i \<Longrightarrow> b \<noteq> x \<Longrightarrow> znode_level h2 b i = znode_level h b i"
proof -
  let ?g = "h(x \<mapsto> n)"
  have g: "height ?g b = (if b = x then lv else height h b)" "b \<noteq> x \<Longrightarrow> znode_level ?g b i = znode_level h b i" for b i
    by (simp_all add: height_def znode_level_def n)
  have u: "fst (us ! i) \<noteq> x \<and> i < height h (fst (us ! i))" if i: "i < k" for i
  proof -
    obtain u where "us ! i = (ns ! u, int u)" "last_at h ns m i u" using up i by (auto simp: updates_ok_def)
    then show ?thesis using x m by (auto simp: last_at_def)
  qed
  have "\<forall>i \<in> set [0..<lv]. i < height ?g x \<and> i < height ?g (fst (us ! i)) \<and> fst (us ! i) \<noteq> x"
    using u lv(2) by (auto simp: g(1))
  from zsl_link_ex [OF this distinct_upt] obtain h1 where h1: "zsl_link x us [0..<lv] ?g = Some h1" "zframe ?g h1"
    "\<And>b j. znode_level h1 b j = (if j \<notin> set [0..<lv] then znode_level ?g b j
       else if b = x then map_option (\<lambda>(f, sp). (f, sp - rank_diff us j)) (znode_level ?g (fst (us ! j)) j)
       else if b = fst (us ! j) then Some (Some x, rank_step us j)
       else znode_level ?g b j)" by metis
  have "\<forall>i \<in> set [lv..<k]. i < height h1 (fst (us ! i))" using u by (auto simp: zframe_height [OF h1(2)] g(1))
  from zsl_bump_ex [OF this distinct_upt] obtain h2 where h2: "zsl_bump 1 us [lv..<k] h1 = Some h2" "zframe h1 h2"
    "\<And>b j. znode_level h2 b j = (if j \<in> set [lv..<k] \<and> b = fst (us ! j) then map_option (\<lambda>(f, sp). (f, sp + 1)) (znode_level h1 b j)
       else znode_level h1 b j)" by metis
  have fr: "zframe ?g h2" using zframe_trans h1(2) h2(2) .
  have rd: "rank_diff us j = int m - snd (us ! j)" if "j < k" for j using rank_diff_eq [OF up z0 _ that] m(2) by simp
  have rs: "rank_step us j = int m - snd (us ! j) + 1" if "j < k" for j using rank_step_eq [OF up z0 m(2) that] .
  have xl: "znode_level h2 x j = None" if "\<not> j < lv" for j
    using that zframe_height [OF fr, of x] g(1) [of x] by (simp add: znode_level_None)
  have "levels_ok h2 (insert_at m x ns) k"
  proof (rule link_levels_ok [OF lo up m(1) x d, of h2 lv])
    fix b j assume j: "j < k"
    show "znode_level h2 b j =
      (if b = x then (if j < lv then map_option (\<lambda>(f, sp). (f, sp - (int m - snd (us ! j)))) (znode_level h (fst (us ! j)) j) else None)
       else if b = fst (us ! j) then
         (if j < lv then Some (Some x, int m - snd (us ! j) + 1) else map_option (\<lambda>(f, sp). (f, sp + 1)) (znode_level h b j))
       else znode_level h b j)"
      using u [OF j] rd [OF j] rs [OF j] j xl [of j] by (auto simp: h2(3) h1(3) g(2))
  qed (use zframe_height [OF fr] g(1) lv(2) in auto)
  moreover have "znode_level h2 b i = znode_level h b i" if "k \<le> i" "b \<noteq> x" for b i
    using that lv(2) by (simp add: h2(3) h1(3) g(2))
  ultimately show ?thesis using that h1(1) h2(1) fr by blast
qed

text \<open>The last steps: the backward pointers and the tail.\<close>

lemma insert_at_last:
  "m < length ns \<Longrightarrow> insert_at m x ns ! length ns = (if m = length ns - 1 then x else ns ! (length ns - 1))"
  using insert_at_nth(3) [of m ns x] insert_at_nth(4) [of m ns "length ns - 1" x] by (cases "length ns") auto

definition insert_key :: "nat \<Rightarrow> 'a \<Rightarrow> 'a list \<Rightarrow> 'a list" where
  "insert_key m k xs = take m xs @ k # drop m xs"

lemma insert_key_nth:
  assumes "m \<le> length xs"
  shows "length (insert_key m k xs) = Suc (length xs)" "p < m \<Longrightarrow> insert_key m k xs ! p = xs ! p"
    "insert_key m k xs ! m = k" "m \<le> p \<Longrightarrow> insert_key m k xs ! Suc p = xs ! p" "set (insert_key m k xs) = insert k (set xs)"
proof -
  have "set xs = set (take m xs) \<union> set (drop m xs)" by (metis append_take_drop_id set_append)
  then show "set (insert_key m k xs) = insert k (set xs)" by (auto simp: insert_key_def)
  show "m \<le> p \<Longrightarrow> insert_key m k xs ! Suc p = xs ! p"
    using assms by (simp add: insert_key_def nth_append Suc_diff_le)
qed (use assms in \<open>simp_all add: insert_key_def nth_append\<close>)

lemma sorted_insert_mid:
  "sorted_wrt R (A @ B) \<Longrightarrow> \<forall>a \<in> set A. R a k \<Longrightarrow> \<forall>b \<in> set B. R k b \<Longrightarrow> sorted_wrt R (A @ k # B)"
  by (simp add: sorted_wrt_append)

lemma insert_key_sorted:
  assumes "sorted_wrt (<) xs" "k \<notin> set xs"
  shows "sorted_wrt (<) (insert_key (keys_below k xs) k xs)"
proof -
  let ?Q = "\<lambda>y. y < k"
  have xs: "xs = takeWhile ?Q xs @ dropWhile ?Q xs" by simp
  have eqs: "take (keys_below k xs) xs = takeWhile ?Q xs" "drop (keys_below k xs) xs = dropWhile ?Q xs"
    unfolding keys_below_def by (simp_all add: takeWhile_eq_take [symmetric] dropWhile_eq_drop [symmetric])
  have "\<forall>y \<in> set (takeWhile ?Q xs). y < k" using set_takeWhileD by fastforce
  moreover have "\<forall>y \<in> set (dropWhile ?Q xs). k < y"
  proof
    fix y assume y: "y \<in> set (dropWhile ?Q xs)"
    have "dropWhile ?Q xs \<noteq> []" using y by (metis empty_iff list.set(1))
    then have hd: "\<not> hd (dropWhile ?Q xs) < k" using hd_dropWhile [of ?Q xs] by blast
    have "sorted_wrt (<) (dropWhile ?Q xs)" using assms(1) xs by (metis sorted_wrt_append)
    then have "hd (dropWhile ?Q xs) \<le> y" using y by (cases "dropWhile ?Q xs") auto
    then have "k \<le> y" using hd by simp
    moreover have "y \<noteq> k" using y assms(2) set_dropWhileD by metis
    ultimately show "k < y" by simp
  qed
  moreover have "sorted_wrt (<) (takeWhile ?Q xs @ dropWhile ?Q xs)" using assms(1) by simp
  ultimately have "sorted_wrt (<) (takeWhile ?Q xs @ k # dropWhile ?Q xs)" by (intro sorted_insert_mid)
  then show ?thesis unfolding insert_key_def eqs .
qed

text \<open>The node behind a position on the lowest level is the next one.\<close>

lemma next_ok_zero:
  assumes "next_ok h ns 0 p f sp" "\<And>r. 0 < r \<Longrightarrow> r < length ns \<Longrightarrow> 1 \<le> height h (ns ! r)" "p < length ns"
  shows "f = (if Suc p < length ns then Some (ns ! Suc p) else None)"
proof (cases f)
  case None
  then have "Suc p < length ns \<Longrightarrow> height h (ns ! Suc p) \<le> 0" using assms(1) by (auto simp: next_ok_def)
  then show ?thesis using None assms(2) [of "Suc p"] by auto
next
  case (Some y)
  then obtain q where q: "p < q" "q < length ns" "ns ! q = y" "\<forall>r. p < r \<and> r < q \<longrightarrow> height h (ns ! r) \<le> 0"
    using assms(1) by (auto simp: next_ok_def)
  have "q = Suc p"
  proof (rule ccontr)
    assume "q \<noteq> Suc p"
    then have "height h (ns ! Suc p) \<le> 0" using q(1,4) by simp
    then show False using assms(2) [of "Suc p"] q(1,2) by auto
  qed
  then show ?thesis using Some q by simp
qed

lemma zslInsert_steps:
  assumes rep: "zsl_rep z ns xs" and x: "x \<notin> dom (zheap z)" and len: "Suc (length xs) < 2 ^ 32" and k: "m = keys_below (s, e) xs"
  obtains h top where "zframe ((zheap z)(x \<mapsto> zslCreateNode (zslRandomLevel rs) s (Some e))) h" "zlevel z \<le> top" "top \<le> ZSKIPLIST_MAXLEVEL"
    "zslRandomLevel rs \<le> top" "levels_ok h (insert_at m x ns) top" "m < length ns" "x \<notin> set ns"
    "\<forall>i f sp. top \<le> i \<longrightarrow> znode_level h (header z) i = Some (f, sp) \<longrightarrow> f = None"
    "zslInsert z s e rs x = do {
       h \<leftarrow> set_backward h x (if m = 0 then None else Some (ns ! m));
       (h, t) \<leftarrow> (if Suc m < length ns then map_option (\<lambda>h. (h, tail z)) (set_backward h (ns ! Suc m) (Some x))
                 else Some (h, Some x));
       Some (z\<lparr>zheap := h, tail := t, zlength := zlength z + 1, zlevel := top\<rparr>)
     }"
proof -
  have sh: "shape_ok z ns" and s: "distinct ns" "ns ! 0 = header z" "zlevel z \<le> ZSKIPLIST_MAXLEVEL" "0 < zlevel z"
    using rep by (auto simp: zsl_rep_def shape_ok_def)
  define lv where "lv = zslRandomLevel rs"
  have lv: "0 < lv" "lv \<le> ZSKIPLIST_MAXLEVEL" using zslRandomLevel_bounds [of rs] by (simp_all add: lv_def)
  define top where "top = max lv (zlevel z)"
  obtain us where us: "zsl_search z s e = Some us" "updates_ok (zheap z) ns m (zlevel z) us" "us ! 0 = (ns ! m, int m)" "m < length ns"
    using zsl_search_stops [OF rep] k by metis
  have ml: "Suc m < 2 ^ 32" using us(4) len rep by (simp add: zsl_rep_def)
  have xn: "x \<notin> set ns" using x shape_alloc [OF sh] by (metis domIff in_set_conv_nth)
  obtain g where g: "zsl_grow (header z) (int (zlength z)) [zlevel z..<lv] (zheap z) = Some g" "zframe (zheap z) g"
    "levels_ok g ns top" "updates_ok g ns m top (us @ replicate (lv - zlevel z) (header z, 0))"
    "\<And>i f sp. top \<le> i \<Longrightarrow> znode_level g (header z) i = Some (f, sp) \<Longrightarrow> f = None"
    using grow_ok [OF sh us(2,4) lv(2)] unfolding top_def by metis
  define us' where "us' = us @ replicate (lv - zlevel z) (header z, 0)"
  have z0: "us' ! 0 = (ns ! m, int m)" using us(2,3) s(4) by (simp add: us'_def nth_append updates_ok_def)
  have "length (z_level (zslCreateNode lv s (Some e))) = lv" by (simp add: zslCreateNode_def)
  from link_ok [OF g(3) g(4) [folded us'_def] us(4) ml z0 xn s(1) lv(1) _ this]
  obtain h1 h where h: "zsl_link x us' [0..<lv] (g(x \<mapsto> zslCreateNode lv s (Some e))) = Some h1" "zsl_bump 1 us' [lv..<top] h1 = Some h"
    "zframe (g(x \<mapsto> zslCreateNode lv s (Some e))) h" "levels_ok h (insert_at m x ns) top"
    "\<And>b i. top \<le> i \<Longrightarrow> b \<noteq> x \<Longrightarrow> znode_level h b i = znode_level g b i" by (metis max.cobounded1 top_def)
  have "zframe ((zheap z)(x \<mapsto> zslCreateNode lv s (Some e))) (g(x \<mapsto> zslCreateNode lv s (Some e)))"
    using zframe_upd [OF g(2)] .
  then have fr: "zframe ((zheap z)(x \<mapsto> zslCreateNode lv s (Some e))) h" using h(3) zframe_trans by blast
  have hx: "header z \<noteq> x" using xn s(2) us(4) by (metis gr_implies_not0 neq0_conv nth_mem)
  have hdr: "(fst (us' ! 0) = header z) = (m = 0)" using z0 s(1,2) us(4) by (metis fst_conv gr_implies_not0 neq0_conv nth_eq_iff_index_eq)
  have ht: "height h b = (if b = x then lv else height (zheap z) b)" for b
    using zframe_height [OF fr, of b] by (simp add: height_def zslCreateNode_def)
  have "0 < height h x" using ht lv(1) by simp
  then obtain f sp where f: "znode_level h x 0 = Some (f, sp)" using znode_levelE by blast
  note nth = insert_at_nth [OF us(4)]
  have f0: "f = (if Suc m < length ns then Some (ns ! Suc m) else None)"
  proof -
    have "next_ok h (insert_at m x ns) 0 (Suc m) f sp"
      using h(4) f nth(1,3) us(4) lv(1) unfolding levels_ok_def top_def by (metis less_max_iff_disj Suc_mono)
    moreover have "1 \<le> height h (insert_at m x ns ! r)" if r: "0 < r" "r < length (insert_at m x ns)" for r
      using us(4) r(2) by (cases rule: insert_at_cases) (use r shape_height(1) [OF sh] lv(1) us(4) in \<open>auto simp: ht\<close>)
    ultimately show ?thesis using next_ok_zero [of h "insert_at m x ns" "Suc m" f sp] nth(1,4) us(4) by auto
  qed
  have bwl: "znode_level (the (set_backward h x b)) x 0 = Some (f, sp) \<and> set_backward h x b \<noteq> None" for b
    using set_backward_ex [of h x] zframe_node [OF fr, of x] f by auto
  have "zslInsert z s e rs x = do {
       h \<leftarrow> set_backward h x (if m = 0 then None else Some (ns ! m));
       (h, t) \<leftarrow> (if Suc m < length ns then map_option (\<lambda>h. (h, tail z)) (set_backward h (ns ! Suc m) (Some x))
                 else Some (h, Some x));
       Some (z\<lparr>zheap := h, tail := t, zlength := zlength z + 1, zlevel := top\<rparr>)
     }"
    unfolding zslInsert_def Let_def lv_def [symmetric] us(1) Option.bind.simps g(1) us'_def [symmetric]
      top_def [symmetric] h(1,2)
    using bwl [of "if m = 0 then None else Some (ns ! m)"] hdr z0 f0
    by (cases "set_backward h x (if m = 0 then None else Some (ns ! m))") auto
  then show ?thesis
    using that [of h top] fr h(4) h(5) hx g(5) us(4) xn lv s(3) unfolding lv_def top_def by force
qed

text \<open>The backward pointers of the result.\<close>

lemma zslInsert_result:
  assumes rep: "zsl_rep z ns xs" and x: "x \<notin> dom (zheap z)" and len: "Suc (length xs) < 2 ^ 32" and k: "m = keys_below (s, e) xs"
  obtains h t top where "zslInsert z s e rs x = Some (z\<lparr>zheap := h, tail := t, zlength := zlength z + 1, zlevel := top\<rparr>)"
    "zlevel z \<le> top" "top \<le> ZSKIPLIST_MAXLEVEL" "levels_ok h (insert_at m x ns) top" "m < length ns" "x \<notin> set ns"
    "\<forall>i f sp. top \<le> i \<longrightarrow> znode_level h (header z) i = Some (f, sp) \<longrightarrow> f = None"
    "t = Some (insert_at m x ns ! length ns)" "1 \<le> height h x" "height h x \<le> top"
    "\<And>b. b \<noteq> x \<Longrightarrow> height h b = height (zheap z) b"
    "\<exists>l. h x = Some \<lparr>z_ele = Some e, z_score = s, z_backward = (if m = 0 then None else Some (ns ! m)), z_level = l\<rparr>"
    "\<And>b n. b \<noteq> x \<Longrightarrow> zheap z b = Some n \<Longrightarrow>
      \<exists>l. h b = Some (n\<lparr>z_level := l, z_backward := if Suc m < length ns \<and> b = ns ! Suc m then Some x else z_backward n\<rparr>)"
    "\<And>b. b \<noteq> x \<Longrightarrow> zheap z b = None \<Longrightarrow> h b = None"
proof -
  obtain h top where h: "zframe ((zheap z)(x \<mapsto> zslCreateNode (zslRandomLevel rs) s (Some e))) h" "zlevel z \<le> top" "top \<le> ZSKIPLIST_MAXLEVEL"
    "zslRandomLevel rs \<le> top" "levels_ok h (insert_at m x ns) top" "m < length ns" "x \<notin> set ns"
    "\<forall>i f sp. top \<le> i \<longrightarrow> znode_level h (header z) i = Some (f, sp) \<longrightarrow> f = None"
    "zslInsert z s e rs x = do {
       h \<leftarrow> set_backward h x (if m = 0 then None else Some (ns ! m));
       (h, t) \<leftarrow> (if Suc m < length ns then map_option (\<lambda>h. (h, tail z)) (set_backward h (ns ! Suc m) (Some x))
                 else Some (h, Some x));
       Some (z\<lparr>zheap := h, tail := t, zlength := zlength z + 1, zlevel := top\<rparr>)
     }" using zslInsert_steps [OF assms, of rs] by blast
  note res = that
  define b0 where "b0 = (if m = 0 then None else Some (ns ! m))"
  obtain l where hx: "h x = Some \<lparr>z_ele = Some e, z_score = s, z_backward = None, z_level = l\<rparr>" "length l = zslRandomLevel rs"
    using spec [OF h(1) [unfolded zframe_def], of x] by (auto simp: zslCreateNode_def)
  define h1 where "h1 = h(x \<mapsto> \<lparr>z_ele = Some e, z_score = s, z_backward = b0, z_level = l\<rparr>)"
  have sb: "set_backward h x b0 = Some h1" using set_backward_ex(1) [of h x _ b0, OF hx(1)] by (simp add: h1_def)
  have v1: "znode_level h1 c i = znode_level h c i" "height h1 c = height h c" for c i
    using set_backward_ex(2) [of h x _ b0, OF hx(1)] set_backward_ex(3) [of h x _ b0, OF hx(1)] by (simp_all add: h1_def)
  have old: "\<exists>l. h1 b = Some (n\<lparr>z_level := l\<rparr>)" if "b \<noteq> x" "zheap z b = Some n" for b n
    using zframe_node [OF h(1), of b n] that by (simp add: h1_def)
  have none: "h1 b = None" if "b \<noteq> x" "zheap z b = None" for b
    using spec [OF h(1) [unfolded zframe_def], of b] that by (simp add: h1_def)
  have hts: "height h b = (if b = x then zslRandomLevel rs else height (zheap z) b)" for b
    using zframe_height [OF h(1), of b] by (simp add: height_def zslCreateNode_def)
  have fin: thesis
    if v: "\<And>c i. znode_level H c i = znode_level h c i" "\<And>c. height H c = height h c"
      and i: "zslInsert z s e rs x = Some (z\<lparr>zheap := H, tail := t, zlength := zlength z + 1, zlevel := top\<rparr>)"
      and t: "t = Some (insert_at m x ns ! length ns)" and nx: "H x = Some \<lparr>z_ele = Some e, z_score = s, z_backward = b0, z_level = l\<rparr>"
      and bw: "\<And>b n. b \<noteq> x \<Longrightarrow> zheap z b = Some n \<Longrightarrow>
        \<exists>l. H b = Some (n\<lparr>z_level := l, z_backward := if Suc m < length ns \<and> b = ns ! Suc m then Some x else z_backward n\<rparr>)"
      and no: "\<And>b. b \<noteq> x \<Longrightarrow> zheap z b = None \<Longrightarrow> H b = None" for H t
  proof (rule res [OF i h(2,3) _ h(6,7) _ t _ _ _ _ bw no])
    show "levels_ok H (insert_at m x ns) top" using h(5) levels_ok_cong [where h' = H and h = h] v by simp
    show "\<exists>l. H x = Some \<lparr>z_ele = Some e, z_score = s, z_backward = (if m = 0 then None else Some (ns ! m)), z_level = l\<rparr>"
      using nx unfolding b0_def by blast
  qed (use h(4,8) v hts zslRandomLevel_bounds(1) [of rs] in auto)
  have tl: "tail z = (if xs = [] then None else Some (ns ! length xs))" "length ns = Suc (length xs)"
    using rep by (simp_all add: zsl_rep_def)
  have sh: "shape_ok z ns" "distinct ns" using rep by (simp_all add: zsl_rep_def shape_ok_def)
  show ?thesis
  proof (cases "Suc m < length ns")
    case True
    let ?y = "ns ! Suc m"
    have yx: "?y \<noteq> x" using h(7) True nth_mem by metis
    obtain n where n: "zheap z ?y = Some n" using shape_alloc [OF sh(1) True] by blast
    obtain ly where y: "h1 ?y = Some (n\<lparr>z_level := ly\<rparr>)" using old [OF yx n] by blast
    define h2 where "h2 = h1(?y \<mapsto> n\<lparr>z_level := ly, z_backward := Some x\<rparr>)"
    have sb2: "set_backward h1 ?y (Some x) = Some h2" using set_backward_ex(1) [of h1 ?y _ "Some x", OF y] by (simp add: h2_def)
    have v2: "znode_level h2 c i = znode_level h c i" "height h2 c = height h c" for c i
      using set_backward_ex(2) [of h1 ?y _ "Some x", OF y] set_backward_ex(3) [of h1 ?y _ "Some x", OF y] v1 [of c] by (simp_all add: h2_def)
    show ?thesis
    proof (rule fin [where H = h2 and t = "tail z"])
      show "zslInsert z s e rs x = Some (z\<lparr>zheap := h2, tail := tail z, zlength := zlength z + 1, zlevel := top\<rparr>)"
        using h(9) sb sb2 True by (simp add: b0_def)
      show "tail z = Some (insert_at m x ns ! length ns)" using tl True insert_at_last [OF h(6), of x] by auto
      show "h2 x = Some \<lparr>z_ele = Some e, z_score = s, z_backward = b0, z_level = l\<rparr>" using yx by (simp add: h2_def h1_def)
    next
      fix b n' assume b: "b \<noteq> x" "zheap z b = Some n'"
      show "\<exists>l. h2 b = Some (n'\<lparr>z_level := l, z_backward := if Suc m < length ns \<and> b = ?y then Some x else z_backward n'\<rparr>)"
        using old [OF b] n b(2) True by (auto simp: h2_def)
    next
      fix b assume "b \<noteq> x" "zheap z b = None"
      then show "h2 b = None" using none [of b] n by (auto simp: h2_def)
    qed (rule v2)+
  next
    case False
    then have "m = length ns - 1" using h(6) by simp
    then have t: "Some x = Some (insert_at m x ns ! length ns)" using insert_at_last [OF h(6), of x] by simp
    show ?thesis
    proof (rule fin [OF v1, where t = "Some x"])
      show "zslInsert z s e rs x = Some (z\<lparr>zheap := h1, tail := Some x, zlength := zlength z + 1, zlevel := top\<rparr>)"
        using h(9) sb False by (simp add: b0_def)
      show "h1 x = Some \<lparr>z_ele = Some e, z_score = s, z_backward = b0, z_level = l\<rparr>" by (simp add: h1_def)
    next
      fix b n' assume b: "b \<noteq> x" "zheap z b = Some n'"
      show "\<exists>l. h1 b = Some (n'\<lparr>z_level := l, z_backward := if Suc m < length ns \<and> b = ns ! Suc m then Some x else z_backward n'\<rparr>)"
        using old [OF b] False by auto
    qed (rule t, rule none)
  qed
qed

lemma zslInsert_rep:
  assumes rep: "zsl_rep z ns xs" and x: "x \<notin> dom (zheap z)" and len: "Suc (length xs) < 2 ^ 32" and new: "(s, e) \<notin> set xs"
  shows "\<exists>z'. zslInsert z s e rs x = Some z' \<and> header z' = header z \<and> dom (zheap z') = insert x (dom (zheap z)) \<and>
    zsl_rep z' (insert_at (keys_below (s, e) xs) x ns) (insert_key (keys_below (s, e) xs) (s, e) xs)"
proof -
  define m where "m = keys_below (s, e) xs"
  obtain h t top where r: "zslInsert z s e rs x = Some (z\<lparr>zheap := h, tail := t, zlength := zlength z + 1, zlevel := top\<rparr>)"
    "zlevel z \<le> top" "top \<le> ZSKIPLIST_MAXLEVEL" "levels_ok h (insert_at m x ns) top" "m < length ns" "x \<notin> set ns"
    "\<forall>i f sp. top \<le> i \<longrightarrow> znode_level h (header z) i = Some (f, sp) \<longrightarrow> f = None"
    "t = Some (insert_at m x ns ! length ns)" "1 \<le> height h x" "height h x \<le> top"
    "\<And>b. b \<noteq> x \<Longrightarrow> height h b = height (zheap z) b"
    "\<exists>l. h x = Some \<lparr>z_ele = Some e, z_score = s, z_backward = (if m = 0 then None else Some (ns ! m)), z_level = l\<rparr>"
    "\<And>b n. b \<noteq> x \<Longrightarrow> zheap z b = Some n \<Longrightarrow>
      \<exists>l. h b = Some (n\<lparr>z_level := l, z_backward := if Suc m < length ns \<and> b = ns ! Suc m then Some x else z_backward n\<rparr>)"
    "\<And>b. b \<noteq> x \<Longrightarrow> zheap z b = None \<Longrightarrow> h b = None"
    by (rule zslInsert_result [OF rep x len m_def, of rs]) (rule that; assumption)
  let ?z = "z\<lparr>zheap := h, tail := t, zlength := zlength z + 1, zlevel := top\<rparr>"
  let ?ns = "insert_at m x ns" and ?xs = "insert_key m (s, e) xs"
  have sh: "shape_ok z ns" "distinct ns" "ns ! 0 = header z" "length ns = Suc (length xs)"
    "\<exists>n. zheap z (header z) = Some n \<and> z_ele n = None" "zlength z = length ns - 1" "0 < zlevel z"
    "height (zheap z) (header z) = ZSKIPLIST_MAXLEVEL"
    using rep by (auto simp: zsl_rep_def shape_ok_def)
  note nth = insert_at_nth [OF r(5)]
  have mx: "m \<le> length xs" using r(5) sh(4) by simp
  note knth = insert_key_nth [OF mx]
  have hx: "header z \<noteq> x" using r(6) sh(3) r(5) by (metis gr_implies_not0 neq0_conv nth_mem)
  have nx: "ns ! p \<noteq> x" if "p < length ns" for p using r(6) that nth_mem by metis
  have "distinct ?ns" using sh(2) r(6) by (auto simp: insert_at_def dest: in_set_takeD in_set_dropD) (metis append_take_drop_id distinct_append disjoint_iff)
  moreover have ub: "1 \<le> height h (ns ! p) \<and> height h (ns ! p) \<le> top" if "0 < p" "p < length ns" for p
    using shape_height(1,2) [OF sh(1) that] r(2) r(11) [OF nx [OF that(2)]] by linarith
  moreover have "1 \<le> height h (?ns ! p) \<and> height h (?ns ! p) \<le> top" if p: "0 < p" "p < length ?ns" for p
    using r(5) p(2) by (cases rule: insert_at_cases) (use p r(5,9,10) ub in auto)
  moreover have "?ns \<noteq> []" by (simp add: insert_at_def)
  ultimately have "shape_ok ?z ?ns"
    using r(2-5,7) hx r(11) [of "header z"] sh(3,6-8) nth(1,2) by (auto simp: shape_ok_def)
  moreover have "\<exists>n. h (?ns ! Suc p) = Some n \<and> z_ele n \<noteq> None \<and> node_key n = ?xs ! p \<and>
      z_backward n = (if p = 0 then None else Some (?ns ! p))" if p: "p < length ?xs" for p
  proof -
    have old: "\<exists>n. h (ns ! Suc q) = Some n \<and> z_ele n \<noteq> None \<and> node_key n = xs ! q \<and>
        z_backward n = (if q = m then Some x else if q = 0 then None else Some (ns ! q))" if q: "q < length xs" for q
    proof -
      obtain n where n: "zheap z (ns ! Suc q) = Some n" "z_ele n \<noteq> None" "node_key n = xs ! q"
        "z_backward n = (if q = 0 then None else Some (ns ! q))" using rep q unfolding zsl_rep_def by blast
      have "(Suc m < length ns \<and> ns ! Suc q = ns ! Suc m) = (q = m)"
        using sh(2,4) q by (auto simp: nth_eq_iff_index_eq)
      then show ?thesis using r(13) [OF nx n(1)] q sh(4) n by (auto simp: node_key_def)
    qed
    consider "p < m" | "p = m" | q where "p = Suc q" "m \<le> q" "q < length xs"
      using p knth(1) by (cases p) (auto simp: less_Suc_eq_le, linarith)
    then show ?thesis
    proof cases
      case 1
      then show ?thesis using old [of p] mx nth(2) knth(2) by auto
    next
      case 2
      then show ?thesis using r(12) nth(2,3) knth(3) by (auto simp: node_key_def)
    next
      case 3
      then show ?thesis using old [of q] nth(3,4) knth(4) by (auto simp: le_less)
    qed
  qed
  moreover have "sorted_wrt (<) ?xs" using insert_key_sorted [of xs "(s, e)"] rep new by (simp add: m_def zsl_rep_def)
  moreover have "\<exists>n. h (header z) = Some n \<and> z_ele n = None" using r(13) [OF hx] sh(5) by fastforce
  ultimately have "zsl_rep ?z ?ns ?xs"
    using r(8) nth(1) knth(1) sh(4) by (simp add: zsl_rep_def) (metis length_0_conv nat.distinct(1))
  moreover have "h b \<noteq> None \<longleftrightarrow> b = x \<or> zheap z b \<noteq> None" for b
    using r(12) r(13) [of b] r(14) [of b] by (cases "b = x"; cases "zheap z b") auto
  then have "dom h = insert x (dom (zheap z))" by (simp add: dom_def set_eq_iff)
  ultimately show ?thesis using r(1) unfolding m_def by simp
qed

section \<open>Deletion\<close>

lemma zsl_shrink_ex:
  assumes "l \<le> height h hdr"
  obtains l' where "zsl_shrink h hdr l = Some l'" "l' \<le> l" "1 \<le> l \<Longrightarrow> 1 \<le> l'"
    "\<forall>i. l' \<le> i \<and> i < l \<longrightarrow> (\<exists>sp. znode_level h hdr i = Some (None, sp))"
  using assms
proof (induction l arbitrary: thesis)
  case (Suc l)
  show ?case
  proof (cases "1 < Suc l")
    case True
    then obtain f sp where f: "znode_level h hdr l = Some (f, sp)" using Suc.prems(2) znode_levelE [of l h hdr] by auto
    show ?thesis
    proof (cases f)
      case None
      obtain l' where l': "zsl_shrink h hdr l = Some l'" "l' \<le> l" "1 \<le> l \<Longrightarrow> 1 \<le> l'"
        "\<forall>i. l' \<le> i \<and> i < l \<longrightarrow> (\<exists>sp. znode_level h hdr i = Some (None, sp))"
        using Suc.IH Suc.prems(2) by (metis Suc_leD)
      have "zsl_shrink h hdr (Suc l) = Some l'" using True f None l'(1) by (subst zsl_shrink.simps) simp
      then show ?thesis using Suc.prems(1) l' f None True by (auto simp: less_Suc_eq)
    next
      case (Some y)
      then have "zsl_shrink h hdr (Suc l) = Some (Suc l)" using True f by (subst zsl_shrink.simps) simp
      then show ?thesis by (rule Suc.prems(1)) auto
    qed
  next
    case False
    then have "zsl_shrink h hdr (Suc l) = Some (Suc l)" by (subst zsl_shrink.simps) simp
    then show ?thesis by (rule Suc.prems(1)) auto
  qed
qed (subst (asm) zsl_shrink.simps, simp)

text \<open>The heap after the node \<open>x\<close> behind position \<open>m\<close> has been unlinked.\<close>

lemma unlink_ok:
  assumes lo: "levels_ok h (insert_at m x ns) k" and up: "updates_ok h (insert_at m x ns) m k (take k us)" and m: "m < length ns"
    and d: "distinct (insert_at m x ns)"
  obtains h' where "zsl_unlink x us [0..<k] h = Some h'" "zframe h h'" "levels_ok h' ns k"
    "\<forall>i. znode_level h' x i = znode_level h x i" "\<forall>b i. k \<le> i \<longrightarrow> znode_level h' b i = znode_level h b i"
proof -
  note nth = insert_at_nth [OF m]
  have up': "updates_ok h (insert_at m x ns) m k (take k us)" by (rule up)
  have us: "\<exists>u. us ! i = (insert_at m x ns ! u, int u) \<and> last_at h (insert_at m x ns) m i u" if "i < k" for i
    using up that by (auto simp: updates_ok_def)
  have c: "i < height h (fst (us ! i)) \<and> fst (us ! i) \<noteq> x \<and>
      (\<forall>sp. znode_level h (fst (us ! i)) i = Some (Some x, sp) \<longrightarrow> i < height h x)" if i: "i < k" for i
  proof -
    obtain u where u: "us ! i = (insert_at m x ns ! u, int u)" "last_at h (insert_at m x ns) m i u" using us [OF i] by blast
    then have ul: "u \<le> m" "u < length (insert_at m x ns)" "u \<noteq> Suc m" using m nth(1) by (auto simp: last_at_def)
    have "insert_at m x ns ! u \<noteq> insert_at m x ns ! Suc m"
      using nth_eq_iff_index_eq [OF d ul(2), of "Suc m"] ul(3) nth(1) m by simp
    moreover have "i < height h x" if "znode_level h (insert_at m x ns ! u) i = Some (Some x, sp)" for sp
      using lo ul(2) i that unfolding levels_ok_def next_ok_def by fastforce
    ultimately show ?thesis using u nth(3) by (auto simp: last_at_def)
  qed
  then have "\<forall>i \<in> set [0..<k]. i < height h (fst (us ! i)) \<and> fst (us ! i) \<noteq> x \<and>
      (\<forall>sp. znode_level h (fst (us ! i)) i = Some (Some x, sp) \<longrightarrow> i < height h x)" by simp
  then obtain h' where h': "zsl_unlink x us [0..<k] h = Some h'" "zframe h h'"
    "\<And>b j. znode_level h' b j = (if j \<in> set [0..<k] \<and> b = fst (us ! j)
       then (case znode_level h b j of None \<Rightarrow> None | Some (f, sp) \<Rightarrow>
         if f = Some x then map_option (\<lambda>(f', sp'). (f', sp + (sp' - 1))) (znode_level h x j) else Some (f, sp - 1))
       else znode_level h b j)" by (rule zsl_unlink_ex [OF _ distinct_upt]) (rule that; assumption)
  have "levels_ok h' ns k"
    by (rule unlink_levels_ok [OF lo up' m d zframe_height [OF h'(2)]]) (simp add: h'(3))
  moreover have "znode_level h' x i = znode_level h x i" for i using c [of i] by (auto simp: h'(3))
  moreover have "znode_level h' b i = znode_level h b i" if "k \<le> i" for b i using that by (simp add: h'(3))
  ultimately show ?thesis using that h'(1,2) by blast
qed

lemma insert_at_distinct: "distinct (insert_at m x ns) \<longleftrightarrow> distinct ns \<and> x \<notin> set ns"
proof -
  have "distinct (A @ x # B) \<longleftrightarrow> distinct (A @ B) \<and> x \<notin> set (A @ B)" for A B :: "nat list" by auto
  then show ?thesis unfolding insert_at_def by (metis append_take_drop_id)
qed

lemma levels_ok_mono: "levels_ok h ns k \<Longrightarrow> l \<le> k \<Longrightarrow> levels_ok h ns l"
  by (auto simp: levels_ok_def)

lemma insert_at_heights:
  assumes "m < length ns" "0 < p" "p < length ns" "\<And>p. 0 < p \<Longrightarrow> p < length (insert_at m x ns) \<Longrightarrow> Q (insert_at m x ns ! p)"
  shows "Q (ns ! p)"
  using assms(4) [of p] assms(4) [of "Suc p"] assms(2,3) insert_at_nth(1,2,4) [OF assms(1)] by (cases "p \<le> m") auto

lemma updates_ok_remove:
  assumes "updates_ok h (insert_at m x ns) m k (take k us)" "m < length ns" "l \<le> k" "\<And>b. height h' b = height h b"
  shows "updates_ok h' ns m l (take l us)"
  unfolding updates_ok_def
proof (intro conjI allI impI)
  show "length (take l us) = l" using assms(1,3) by (auto simp: updates_ok_def min_def split: if_splits)
  fix i assume i: "i < l"
  obtain u where u: "us ! i = (insert_at m x ns ! u, int u)" "last_at h (insert_at m x ns) m i u"
    using assms(1,3) i unfolding updates_ok_def by (metis nth_take order_less_le_trans)
  have "insert_at m x ns ! r = ns ! r" if "r \<le> m" for r using insert_at_nth(2) [OF assms(2) that] .
  then have "last_at h' ns m i u" "insert_at m x ns ! u = ns ! u" using u(2) assms(4) by (auto simp: last_at_def)
  then show "\<exists>u. take l us ! i = (ns ! u, int u) \<and> last_at h' ns m i u" using u(1) i by auto
qed

text \<open>The steps of \<^verbatim>\<open>zslDeleteNode\<close>; \<open>h\<close> is the heap with the node unlinked.\<close>

lemma zslDeleteNode_result:
  assumes rep: "zsl_rep z (insert_at m x ns) (insert_key m k xs)" and m: "m < length ns" and len: "length ns = Suc (length xs)"
    and up: "updates_ok (zheap z) (insert_at m x ns) m (zlevel z) (take (zlevel z) us)"
  obtains h l t where "zslDeleteNode z x us = Some (z\<lparr>zheap := h, tail := t, zlevel := l, zlength := zlength z - 1\<rparr>)"
    "1 \<le> l" "l \<le> zlevel z" "levels_ok h ns (zlevel z)" "\<And>b. height h b = height (zheap z) b"
    "\<forall>i f sp. l \<le> i \<longrightarrow> znode_level h (header z) i = Some (f, sp) \<longrightarrow> f = None"
    "t = (if xs = [] then None else Some (ns ! length xs))"
    "\<And>b n. zheap z b = Some n \<Longrightarrow>
      \<exists>lv. h b = Some (n\<lparr>z_level := lv, z_backward := if Suc m < length ns \<and> b = ns ! Suc m then (if m = 0 then None else Some (ns ! m)) else z_backward n\<rparr>)"
    "\<And>b. zheap z b = None \<Longrightarrow> h b = None"
proof -
  let ?ns = "insert_at m x ns"
  have sh: "shape_ok z ?ns" "distinct ?ns" "levels_ok (zheap z) ?ns (zlevel z)" "?ns ! 0 = header z" "1 \<le> zlevel z"
    "height (zheap z) (header z) = ZSKIPLIST_MAXLEVEL" "zlevel z \<le> ZSKIPLIST_MAXLEVEL"
    "\<forall>i f span. zlevel z \<le> i \<longrightarrow> znode_level (zheap z) (header z) i = Some (f, span) \<longrightarrow> f = None"
    using rep by (simp_all add: zsl_rep_def shape_ok_def)
  note nth = insert_at_nth [OF m]
  have mx: "m \<le> length xs" using m len by simp
  obtain h1 where h1: "zsl_unlink x us [0..<zlevel z] (zheap z) = Some h1" "zframe (zheap z) h1" "levels_ok h1 ns (zlevel z)"
    "\<forall>i. znode_level h1 x i = znode_level (zheap z) x i" "\<forall>b i. zlevel z \<le> i \<longrightarrow> znode_level h1 b i = znode_level (zheap z) b i"
    using unlink_ok [OF sh(3) up m sh(2)] by blast
  have hts: "height h1 b = height (zheap z) b" for b using zframe_height [OF h1(2)] .
  define b0 where "b0 = (if m = 0 then None else Some (ns ! m))"
  have pm: "m < length (insert_key m k xs)" using insert_key_nth(1) [OF mx] mx by simp
  obtain nx where nx: "zheap z x = Some nx" "z_backward nx = b0"
  proof -
    have "\<exists>n. zheap z (?ns ! Suc m) = Some n \<and> z_backward n = (if m = 0 then None else Some (?ns ! m))"
      using rep pm unfolding zsl_rep_def by blast
    then show thesis using that nth(2) [of m] nth(3) by (auto simp: b0_def)
  qed
  obtain lx where lx: "h1 x = Some (nx\<lparr>z_level := lx\<rparr>)" using zframe_node [OF h1(2) nx(1)] by blast
  obtain f sp where f: "znode_level h1 x 0 = Some (f, sp)"
    using h1(4) znode_levelE [of 0 "zheap z" x] shape_height(1) [OF sh(1), of "Suc m"] nth(1,3) m by auto
  have f0: "f = (if Suc m < length ns then Some (ns ! Suc m) else None)"
  proof -
    have "next_ok (zheap z) ?ns 0 (Suc m) f sp"
      using sh(3,5) f h1(4) nth(1,3) m unfolding levels_ok_def by (metis Suc_le_lessD Suc_mono One_nat_def)
    from next_ok_zero [OF this shape_height(1) [OF sh(1)]] show ?thesis using nth(1,4) m by auto
  qed
  note res = that
  have no1: "h1 b = None" if "zheap z b = None" for b using spec [OF h1(2) [unfolded zframe_def], of b] that by simp
  have old: "\<exists>l. h1 b = Some (n\<lparr>z_level := l\<rparr>)" if "zheap z b = Some n" for b n using zframe_node [OF h1(2) that] .
  have fin: thesis if v: "\<And>c i. znode_level H c i = znode_level h1 c i" "\<And>c. height H c = height h1 c"
      and e: "(case f of Some y \<Rightarrow> map_option (\<lambda>h. (h, tail z)) (set_backward h1 y b0) | None \<Rightarrow> Some (h1, b0)) = Some (H, t)"
      and t: "t = (if xs = [] then None else Some (ns ! length xs))"
      and bw: "\<And>b n. zheap z b = Some n \<Longrightarrow>
        \<exists>lv. H b = Some (n\<lparr>z_level := lv, z_backward := if Suc m < length ns \<and> b = ns ! Suc m then b0 else z_backward n\<rparr>)"
      and no: "\<And>b. zheap z b = None \<Longrightarrow> H b = None" for H t
  proof -
    have "zlevel z \<le> height H (header z)" using v(2) hts sh(6,7) by simp
    then obtain l where l: "zsl_shrink H (header z) (zlevel z) = Some l" "l \<le> zlevel z" "1 \<le> zlevel z \<Longrightarrow> 1 \<le> l"
      "\<forall>i. l \<le> i \<and> i < zlevel z \<longrightarrow> (\<exists>sp. znode_level H (header z) i = Some (None, sp))" by (rule zsl_shrink_ex) (rule that; assumption)
    show thesis
    proof (rule res [where h = H and t = t and l = l])
      show "zslDeleteNode z x us = Some (z\<lparr>zheap := H, tail := t, zlevel := l, zlength := zlength z - 1\<rparr>)"
        using h1(1) lx f e l(1) nx(2) by (cases f) (simp_all add: zslDeleteNode_def)
      show "levels_ok H ns (zlevel z)" using h1(3) levels_ok_cong [where h' = H and h = h1] v by simp
      show "\<forall>i f sp. l \<le> i \<longrightarrow> znode_level H (header z) i = Some (f, sp) \<longrightarrow> f = None"
      proof (intro allI impI)
        fix i f sp assume i: "l \<le> i" "znode_level H (header z) i = Some (f, sp)"
        show "f = None"
        proof (cases "i < zlevel z")
          case True
          then show ?thesis using l(4) i by auto
        next
          case False
          then have "znode_level (zheap z) (header z) i = Some (f, sp)" using i(2) v(1) h1(5) by simp
          then show ?thesis using sh(8) False by (meson not_less)
        qed
      qed
    next
      fix b n assume "zheap z b = Some n"
      from bw [OF this] show "\<exists>lv. H b = Some (n\<lparr>z_level := lv, z_backward := if Suc m < length ns \<and> b = ns ! Suc m
          then (if m = 0 then None else Some (ns ! m)) else z_backward n\<rparr>)" unfolding b0_def .
    qed (use l sh(5) t v hts no in auto)
  qed
  show ?thesis
  proof (cases "Suc m < length ns")
    case True
    let ?y = "ns ! Suc m"
    obtain n where n: "zheap z ?y = Some n" using shape_alloc [OF sh(1), of "Suc (Suc m)"] nth(1,4) True by auto
    obtain ly where y: "h1 ?y = Some (n\<lparr>z_level := ly\<rparr>)" using old [OF n] by blast
    define h2 where "h2 = h1(?y \<mapsto> n\<lparr>z_level := ly, z_backward := b0\<rparr>)"
    have sb2: "set_backward h1 ?y b0 = Some h2" using set_backward_ex(1) [of h1 ?y _ b0, OF y] by (simp add: h2_def)
    have v2: "znode_level h2 c i = znode_level h1 c i" "height h2 c = height h1 c" for c i
      using set_backward_ex(2) [of h1 ?y _ b0, OF y] set_backward_ex(3) [of h1 ?y _ b0, OF y] by (simp_all add: h2_def)
    show ?thesis
    proof (rule fin [OF v2, where t = "tail z"])
      show "(case f of Some y \<Rightarrow> map_option (\<lambda>h. (h, tail z)) (set_backward h1 y b0) | None \<Rightarrow> Some (h1, b0)) = Some (h2, tail z)"
        using f0 True sb2 by simp
      show "tail z = (if xs = [] then None else Some (ns ! length xs))"
        using rep True len nth(4) [of "length xs"] insert_key_nth(1) [OF mx, of k] by (auto simp: zsl_rep_def)
    next
      fix b n' assume b: "zheap z b = Some n'"
      show "\<exists>lv. h2 b = Some (n'\<lparr>z_level := lv, z_backward := if Suc m < length ns \<and> b = ?y then b0 else z_backward n'\<rparr>)"
        using old [OF b] n b True by (auto simp: h2_def)
    next
      fix b assume "zheap z b = None"
      then show "h2 b = None" using no1 n by (auto simp: h2_def)
    qed
  next
    case False
    then have "m = length xs" using m len by simp
    show ?thesis
    proof (rule fin [where H = h1 and t = b0])
      show "(case f of Some y \<Rightarrow> map_option (\<lambda>h. (h, tail z)) (set_backward h1 y b0) | None \<Rightarrow> Some (h1, b0)) = Some (h1, b0)"
        using f0 False by simp
      show "b0 = (if xs = [] then None else Some (ns ! length xs))" using \<open>m = length xs\<close> by (simp add: b0_def)
    next
      fix b n' assume b: "zheap z b = Some n'"
      show "\<exists>lv. h1 b = Some (n'\<lparr>z_level := lv, z_backward := if Suc m < length ns \<and> b = ns ! Suc m then b0 else z_backward n'\<rparr>)"
        using old [OF b] False by auto
    qed (use no1 in simp_all)
  qed
qed

lemma zslDeleteNode_rep:
  assumes rep: "zsl_rep z (insert_at m x ns) (insert_key m k xs)" and m: "m < length ns" and len: "length ns = Suc (length xs)"
    and up: "updates_ok (zheap z) (insert_at m x ns) m (zlevel z) (take (zlevel z) us)"
  obtains z' where "zslDeleteNode z x us = Some z'" "zsl_rep z' ns xs" "header z' = header z"
    "updates_ok (zheap z') ns m (zlevel z') (take (zlevel z') us)" "\<And>b. (zheap z' b = None) = (zheap z b = None)"
proof -
  let ?ns = "insert_at m x ns" and ?xs = "insert_key m k xs"
  obtain h l t where r: "zslDeleteNode z x us = Some (z\<lparr>zheap := h, tail := t, zlevel := l, zlength := zlength z - 1\<rparr>)"
    "1 \<le> l" "l \<le> zlevel z" "levels_ok h ns (zlevel z)" "\<And>b. height h b = height (zheap z) b"
    "\<forall>i f sp. l \<le> i \<longrightarrow> znode_level h (header z) i = Some (f, sp) \<longrightarrow> f = None"
    "t = (if xs = [] then None else Some (ns ! length xs))"
    "\<And>b n. zheap z b = Some n \<Longrightarrow>
      \<exists>lv. h b = Some (n\<lparr>z_level := lv, z_backward := if Suc m < length ns \<and> b = ns ! Suc m then (if m = 0 then None else Some (ns ! m)) else z_backward n\<rparr>)"
    "\<And>b. zheap z b = None \<Longrightarrow> h b = None"
    by (rule zslDeleteNode_result [OF assms]) (rule that; assumption)
  let ?z = "z\<lparr>zheap := h, tail := t, zlevel := l, zlength := zlength z - 1\<rparr>"
  have sh: "shape_ok z ?ns" "distinct ?ns" "?ns ! 0 = header z" "zlevel z \<le> ZSKIPLIST_MAXLEVEL" "zlength z = length ?ns - 1"
    "height (zheap z) (header z) = ZSKIPLIST_MAXLEVEL" "\<exists>n. zheap z (header z) = Some n \<and> z_ele n = None" "sorted_wrt (<) ?xs"
    using rep by (simp_all add: zsl_rep_def shape_ok_def)
  note nth = insert_at_nth [OF m]
  have mx: "m \<le> length xs" using m len by simp
  note knth = insert_key_nth [OF mx]
  have d: "distinct ns" "x \<notin> set ns" using sh(2) by (simp_all add: insert_at_distinct)
  have h0: "ns ! 0 = header z" using sh(3) nth(2) by simp
  have ge: "1 \<le> height h (ns ! p)" if "0 < p" "p < length ns" for p
    using insert_at_heights [OF m that, of x "\<lambda>a. 1 \<le> height h a"] shape_height(1) [OF sh(1)] r(5) by simp
  have le: "height h (ns ! p) \<le> l" if p: "0 < p" "p < length ns" for p
  proof (rule ccontr)
    assume c: "\<not> height h (ns ! p) \<le> l"
    have "height h (ns ! p) \<le> zlevel z"
      using insert_at_heights [OF m p, of x "\<lambda>a. height h a \<le> zlevel z"] shape_height(2) [OF sh(1)] r(5) by simp
    then have lz: "l < zlevel z" using c by simp
    then obtain f sp where f: "znode_level h (ns ! 0) l = Some (f, sp)"
      using znode_levelE [of l h "ns ! 0"] r(5) sh(4,6) h0 by auto
    then have "f = None" using r(6) h0 by auto
    moreover have "0 < length ns" using p(2) by linarith
    then have "next_ok h ns l 0 f sp" using r(4) lz f unfolding levels_ok_def by blast
    ultimately have "height h (ns ! p) \<le> l" using p by (simp add: next_ok_def)
    then show False using c by simp
  qed
  have "shape_ok ?z ns"
    using d(1) h0 sh(4-6) r(2-6) m ge le levels_ok_mono [OF r(4,3)] nth(1) by (auto simp: shape_ok_def)
  moreover have "\<exists>n. h (ns ! Suc p) = Some n \<and> z_ele n \<noteq> None \<and> node_key n = xs ! p \<and>
      z_backward n = (if p = 0 then None else Some (ns ! p))" if p: "p < length xs" for p
  proof -
    define q where "q = (if p < m then p else Suc p)"
    have q: "?ns ! Suc q = ns ! Suc p" "?xs ! q = xs ! p" "q < length ?xs"
      using nth(2,4) knth(1,2,4) p m by (auto simp: q_def)
    obtain n where n: "zheap z (ns ! Suc p) = Some n" "z_ele n \<noteq> None" "node_key n = xs ! p"
      "z_backward n = (if q = 0 then None else Some (?ns ! q))" using rep q unfolding zsl_rep_def by metis
    obtain lv where lv: "h (ns ! Suc p) = Some (n\<lparr>z_level := lv, z_backward := if Suc m < length ns \<and> ns ! Suc p = ns ! Suc m
        then (if m = 0 then None else Some (ns ! m)) else z_backward n\<rparr>)" using r(8) [OF n(1)] by blast
    have "(Suc m < length ns \<and> ns ! Suc p = ns ! Suc m) = (p = m)" using d(1) p len by (auto simp: nth_eq_iff_index_eq)
    then show ?thesis using lv n nth(2) [of p] nth(4) [of p] by (auto simp: node_key_def q_def)
  qed
  moreover have "sorted_wrt (<) xs"
    using sh(8) unfolding insert_key_def by (metis append_take_drop_id sorted_wrt_append list.set_intros(2) sorted_wrt.simps(2))
  moreover have "\<exists>n. h (header z) = Some n \<and> z_ele n = None" using r(8) sh(7) by fastforce
  ultimately have "zsl_rep ?z ns xs" using r(7) len by (simp add: zsl_rep_def)
  moreover have "updates_ok h ns m l (take l us)" using updates_ok_remove [OF up m r(3) r(5)] .
  moreover have "(h b = None) = (zheap z b = None)" for b
    using r(8,9) [of b] by (cases "zheap z b") auto
  ultimately show ?thesis using that r(1) by simp
qed

lemma zsl_rep_free:
  assumes "zsl_rep z ns xs" "x \<notin> set ns"
  shows "zsl_rep (zslFreeNode x z) ns xs"
proof -
  let ?h = "(zheap z)(x := None)"
  have ne: "ns ! p \<noteq> x" if "p < length ns" for p using assms(2) that nth_mem by metis
  have s: "shape_ok z ns" "length ns = Suc (length xs)" "ns ! 0 = header z" using assms(1) by (simp_all add: zsl_rep_def shape_ok_def)
  have v: "b \<noteq> x \<Longrightarrow> znode_level ?h b i = znode_level (zheap z) b i" "b \<noteq> x \<Longrightarrow> height ?h b = height (zheap z) b" for b i
    by (simp_all add: znode_level_def height_def)
  have hx: "header z \<noteq> x" using ne [of 0] s by simp
  have "next_ok ?h ns i p f sp = next_ok (zheap z) ns i p f sp" for i p f sp
    by (rule next_ok_cong) (metis v(2) assms(2))
  then have "levels_ok ?h ns (zlevel z)" using s(1) ne v(1) by (simp add: shape_ok_def levels_ok_def)
  then have "shape_ok (zslFreeNode x z) ns" using s(1) ne v hx by (simp add: shape_ok_def zslFreeNode_def)
  moreover have "?h (ns ! Suc p) = zheap z (ns ! Suc p)" if "p < length xs" for p using ne [of "Suc p"] that s(2) by simp
  ultimately show ?thesis using assms(1) hx by (simp add: zsl_rep_def zslFreeNode_def)
qed

definition drop_nth :: "nat \<Rightarrow> 'a list \<Rightarrow> 'a list" where
  "drop_nth m xs = take m xs @ drop (Suc m) xs"

lemma drop_nth_insert:
  "m < length xs \<Longrightarrow> insert_key m (xs ! m) (drop_nth m xs) = xs"
  "Suc m < length ns \<Longrightarrow> insert_at m (ns ! Suc m) (drop_nth (Suc m) ns) = ns"
  by (simp_all add: insert_key_def insert_at_def drop_nth_def id_take_nth_drop [symmetric] min_def)

lemma length_drop_nth: "m < length xs \<Longrightarrow> length (drop_nth m xs) = length xs - 1"
  by (simp add: drop_nth_def)

lemma set_drop_nth: "distinct xs \<Longrightarrow> m < length xs \<Longrightarrow> set (drop_nth m xs) = set xs - {xs ! m}"
proof -
  assume d: "distinct xs" and m: "m < length xs"
  have "xs = take m xs @ xs ! m # drop (Suc m) xs" using id_take_nth_drop [OF m] .
  then have "distinct (take m xs @ xs ! m # drop (Suc m) xs)" "set xs = set (take m xs @ xs ! m # drop (Suc m) xs)" using d by simp_all
  then show ?thesis unfolding drop_nth_def by auto
qed

lemma sorted_keys_below:
  assumes "sorted_wrt (<) xs" "k \<in> set xs"
  shows "keys_below k xs < length xs" "xs ! keys_below k xs = k"
proof -
  obtain p where p: "p < length xs" "xs ! p = k" using assms(2) by (auto simp: in_set_conv_nth)
  have iff: "xs ! q < k \<longleftrightarrow> q < keys_below k xs" if "q < length xs" for q
    unfolding keys_below_def by (rule sorted_prefix [OF assms(1) _ that]) (rule less_trans)
  have "keys_below k xs \<le> p" using iff [OF p(1)] p(2) by simp
  moreover have "\<not> keys_below k xs < p"
  proof
    assume l: "keys_below k xs < p"
    then have "xs ! keys_below k xs < k" using sorted_wrt_nth_less [OF assms(1), of "keys_below k xs" p] p by simp
    then show False using iff [of "keys_below k xs"] l p(1) by simp
  qed
  ultimately have "keys_below k xs = p" by simp
  then show "keys_below k xs < length xs" "xs ! keys_below k xs = k" using p by simp_all
qed

lemma zsl_rep_next:
  assumes "zsl_rep z ns xs" "p < length ns"
  obtains sp where "znode_level (zheap z) (ns ! p) 0 = Some (if p < length xs then Some (ns ! Suc p) else None, sp)"
proof -
  have sh: "shape_ok z ns" "length ns = Suc (length xs)" using assms(1) by (simp_all add: zsl_rep_def)
  have "0 < height (zheap z) (ns ! p)"
    using shape_height(1) [OF sh(1), of p] shape_height(3) [OF sh(1)] assms(2) by (cases "p = 0") (auto simp: ZSKIPLIST_MAXLEVEL_def)
  then obtain f sp where f: "znode_level (zheap z) (ns ! p) 0 = Some (f, sp)" using znode_levelE by blast
  then have "next_ok (zheap z) ns 0 p f sp" using sh(1) assms(2) by (auto simp: shape_ok_def levels_ok_def)
  from next_ok_zero [OF this shape_height(1) [OF sh(1)] assms(2)] f sh(2) that show ?thesis by simp
qed

lemma found_node_rep:
  assumes rep: "zsl_rep z ns xs" and u: "us ! 0 = (ns ! keys_below (s, e) xs, r)" and m: "keys_below (s, e) xs < length ns"
  shows "found_node z us s e = Some (if (s, e) \<in> set xs then Some (ns ! Suc (keys_below (s, e) xs)) else None)"
proof -
  let ?m = "keys_below (s, e) xs"
  obtain sp where l: "znode_level (zheap z) (ns ! ?m) 0 = Some (if ?m < length xs then Some (ns ! Suc ?m) else None, sp)"
    using zsl_rep_next [OF rep m] .
  have srt: "sorted_wrt (<) xs" using rep by (simp add: zsl_rep_def)
  show ?thesis
  proof (cases "?m < length xs")
    case True
    obtain n where n: "zheap z (ns ! Suc ?m) = Some n" "z_ele n \<noteq> None" "node_key n = xs ! ?m"
      using rep True unfolding zsl_rep_def by blast
    have "(s, e) \<in> set xs \<longleftrightarrow> xs ! ?m = (s, e)" using sorted_keys_below [OF srt, of "(s, e)"] True nth_mem by metis
    moreover have "xs ! ?m = (s, e) \<longleftrightarrow> s = z_score n \<and> (case z_ele n of Some e' \<Rightarrow> sdscmp e' e = 0 | None \<Rightarrow> False)"
      using n by (auto simp: node_key_def sdscmp_eq)
    ultimately show ?thesis using l u n True by (simp add: found_node_def)
  next
    case False
    then have "(s, e) \<notin> set xs" using sorted_keys_below(1) [OF srt] by blast
    then show ?thesis using l u False by (simp add: found_node_def)
  qed
qed

text \<open>Deleting a pair: present or not.\<close>

lemma zslDelete_rep:
  assumes rep: "zsl_rep z ns xs"
  shows "(s, e) \<notin> set xs \<Longrightarrow> zslDelete z s e = Some (z, False)"
    and "(s, e) \<in> set xs \<Longrightarrow> m = keys_below (s, e) xs \<Longrightarrow>
      \<exists>z'. zslDelete z s e = Some (z', True) \<and> zsl_rep z' (drop_nth (Suc m) ns) (drop_nth m xs) \<and> header z' = header z \<and>
        dom (zheap z') \<subseteq> dom (zheap z)"
proof -
  let ?m = "keys_below (s, e) xs"
  obtain us where us: "zsl_search z s e = Some us" "updates_ok (zheap z) ns ?m (zlevel z) us" "us ! 0 = (ns ! ?m, int ?m)" "?m < length ns"
    using zsl_search_stops [OF rep] by metis
  note f = found_node_rep [OF rep us(3,4)]
  have sh: "sorted_wrt (<) xs" "length ns = Suc (length xs)" "distinct ns" using rep by (simp_all add: zsl_rep_def shape_ok_def)
  show "(s, e) \<notin> set xs \<Longrightarrow> zslDelete z s e = Some (z, False)" using us(1) f by (simp add: zslDelete_def)
  assume k: "(s, e) \<in> set xs" "m = keys_below (s, e) xs"
  then have m: "m < length xs" "Suc m < length ns" "xs ! m = (s, e)" using sorted_keys_below [OF sh(1) k(1)] sh(2) by simp_all
  define x where "x = ns ! Suc m"
  have ins: "insert_at m x (drop_nth (Suc m) ns) = ns" "insert_key m (s, e) (drop_nth m xs) = xs"
    using drop_nth_insert(2) [OF m(2)] drop_nth_insert(1) [OF m(1)] m(3) by (simp_all add: x_def)
  have len: "m < length (drop_nth (Suc m) ns)" "length (drop_nth (Suc m) ns) = Suc (length (drop_nth m xs))"
    using length_drop_nth [OF m(2)] length_drop_nth [OF m(1)] m sh(2) by simp_all
  have up: "updates_ok (zheap z) ns m (zlevel z) (take (zlevel z) us)" using us(2) k(2) by (simp add: updates_ok_def)
  obtain z' where z': "zslDeleteNode z x us = Some z'" "zsl_rep z' (drop_nth (Suc m) ns) (drop_nth m xs)" "header z' = header z"
    "\<And>b. (zheap z' b = None) = (zheap z b = None)"
    using zslDeleteNode_rep [of z m x "drop_nth (Suc m) ns" "(s, e)" "drop_nth m xs" us] rep up len unfolding ins by blast
  have "x \<notin> set (drop_nth (Suc m) ns)" using set_drop_nth [OF sh(3) m(2)] by (simp add: x_def)
  then have "zsl_rep (zslFreeNode x z') (drop_nth (Suc m) ns) (drop_nth m xs)" using zsl_rep_free z'(2) by blast
  moreover have "zslDelete z s e = Some (zslFreeNode x z', True)" using us(1) f k z'(1) by (simp add: zslDelete_def x_def)
  moreover have "dom (zheap z') = dom (zheap z)" using z'(4) by (simp add: dom_def)
  ultimately show "\<exists>z'. zslDelete z s e = Some (z', True) \<and> zsl_rep z' (drop_nth (Suc m) ns) (drop_nth m xs) \<and> header z' = header z \<and>
      dom (zheap z') \<subseteq> dom (zheap z)"
    using z'(3) by (auto simp: zslFreeNode_def)
qed

section \<open>Changing a score\<close>

text \<open>Which node stores which pair.\<close>

definition zassoc :: "nat list \<Rightarrow> 'a list \<Rightarrow> (nat \<times> 'a) set" where
  "zassoc ns xs = set (zip (tl ns) xs)"

lemma tl_insert_at: "ns \<noteq> [] \<Longrightarrow> tl (insert_at m x ns) = insert_key m x (tl ns)"
  by (cases ns) (simp_all add: insert_at_def insert_key_def)

lemma zip_insert_key:
  "length as = length bs \<Longrightarrow> zip (insert_key m a as) (insert_key m b bs) = insert_key m (a, b) (zip as bs)"
  by (simp add: insert_key_def take_zip drop_zip)

lemma zassoc_insert:
  assumes "length ns = Suc (length xs)" "m \<le> length xs"
  shows "zassoc (insert_at m x ns) (insert_key m k xs) = insert (x, k) (zassoc ns xs)"
proof -
  have "ns \<noteq> []" "length (tl ns) = length xs" using assms(1) by auto
  then show ?thesis unfolding zassoc_def
    using insert_key_nth(5) [of m "zip (tl ns) xs" "(x, k)"] assms(2) by (simp add: tl_insert_at zip_insert_key)
qed

lemma zassoc_drop:
  assumes "length ns = Suc (length xs)" "m < length xs" "distinct ns"
  shows "zassoc (drop_nth (Suc m) ns) (drop_nth m xs) = zassoc ns xs - {(ns ! Suc m, xs ! m)}"
proof -
  have l: "length (drop_nth (Suc m) ns) = Suc (length (drop_nth m xs))" "m \<le> length (drop_nth m xs)"
    using assms(1,2) by (simp_all add: length_drop_nth)
  have z: "zassoc ns xs = insert (ns ! Suc m, xs ! m) (zassoc (drop_nth (Suc m) ns) (drop_nth m xs))"
    using zassoc_insert [OF l, of "ns ! Suc m" "xs ! m"] drop_nth_insert(1) [OF assms(2)] drop_nth_insert(2) [of m ns] assms(1,2) by simp
  have "ns ! Suc m \<notin> set (drop_nth (Suc m) ns)" using set_drop_nth [OF assms(3), of "Suc m"] assms(1,2) by simp
  then have "(ns ! Suc m, xs ! m) \<notin> zassoc (drop_nth (Suc m) ns) (drop_nth m xs)"
    unfolding zassoc_def by (cases "drop_nth (Suc m) ns") (auto dest: set_zip_leftD)
  then show ?thesis using z by blast
qed

lemma zassoc_iff:
  assumes "length ns = Suc (length xs)"
  shows "(a, k) \<in> zassoc ns xs \<longleftrightarrow> (\<exists>p < length xs. ns ! Suc p = a \<and> xs ! p = k)"
  using assms by (cases ns) (auto simp: zassoc_def set_zip)

lemma zsl_rep_node:
  assumes "zsl_rep z ns xs" "(a, k) \<in> zassoc ns xs"
  obtains n where "zheap z a = Some n" "node_key n = k" "z_ele n = Some (snd k)"
proof -
  have l: "length ns = Suc (length xs)" using assms(1) by (simp add: zsl_rep_def)
  obtain p where p: "p < length xs" "ns ! Suc p = a" "xs ! p = k" using assms(2) unfolding zassoc_iff [OF l] by (elim exE conjE)
  have "\<exists>n. zheap z (ns ! Suc p) = Some n \<and> z_ele n \<noteq> None \<and> node_key n = xs ! p" using assms(1) p(1) unfolding zsl_rep_def by blast
  then obtain n where "zheap z a = Some n" "z_ele n \<noteq> None" "node_key n = k" unfolding p(2,3) by blast
  then show ?thesis using that by (auto simp: node_key_def)
qed

text \<open>A score is changed in its place when the order allows it.\<close>

lemma zsl_rep_rescore:
  assumes rep: "zsl_rep z ns xs" and m: "m < length xs" and k: "xs ! m = (c, e)" and n: "zheap z (ns ! Suc m) = Some n"
    and lo: "\<And>p. p < m \<Longrightarrow> xs ! p < (s, e)" and hi: "\<And>p. m < p \<Longrightarrow> p < length xs \<Longrightarrow> (s, e) < xs ! p"
  shows "zsl_rep (z\<lparr>zheap := (zheap z)(ns ! Suc m \<mapsto> n\<lparr>z_score := s\<rparr>)\<rparr>) ns (xs[m := (s, e)])"
proof -
  let ?x = "ns ! Suc m" and ?h = "(zheap z)(ns ! Suc m \<mapsto> n\<lparr>z_score := s\<rparr>)"
  have v: "znode_level ?h b i = znode_level (zheap z) b i" "height ?h b = height (zheap z) b" for b i
    using n by (auto simp: znode_level_def height_def)
  have sh: "shape_ok z ns" "length ns = Suc (length xs)" "distinct ns" "ns ! 0 = header z" "sorted_wrt (<) xs"
    using rep by (simp_all add: zsl_rep_def shape_ok_def)
  have "levels_ok ?h ns (zlevel z)" using levels_ok_cong [where h' = ?h and h = "zheap z"] v sh(1) by (simp add: shape_ok_def)
  then have "shape_ok (z\<lparr>zheap := ?h\<rparr>) ns" using sh(1) unfolding shape_ok_def by (simp add: v)
  moreover have "sorted_wrt (<) (xs[m := (s, e)])"
    unfolding sorted_wrt_iff_nth_less
  proof (intro allI impI)
    fix p q assume pq: "p < q" "q < length (xs[m := (s, e)])"
    have "xs ! p < xs ! q" using sh(5) pq sorted_wrt_nth_less by fastforce
    then show "xs[m := (s, e)] ! p < xs[m := (s, e)] ! q"
      using pq lo [of p] hi [of q] by (cases "p = m"; cases "q = m") simp_all
  qed
  moreover have "header z \<noteq> ?x" using sh(2-4) m by (metis Suc_less_eq less_Suc_eq_0_disj nat.distinct(1) nth_eq_iff_index_eq zero_less_Suc)
  moreover have "\<exists>n'. ?h (ns ! Suc p) = Some n' \<and> z_ele n' \<noteq> None \<and> node_key n' = xs[m := (s, e)] ! p \<and>
      z_backward n' = (if p = 0 then None else Some (ns ! p))" if p: "p < length xs" for p
  proof -
    obtain n' where n': "zheap z (ns ! Suc p) = Some n'" "z_ele n' \<noteq> None" "node_key n' = xs ! p"
      "z_backward n' = (if p = 0 then None else Some (ns ! p))" using rep p unfolding zsl_rep_def by blast
    have "(ns ! Suc p = ?x) = (p = m)" using sh(2,3) p m by (simp add: nth_eq_iff_index_eq)
    then show ?thesis using n' n k p by (cases "p = m") (auto simp: node_key_def)
  qed
  ultimately show ?thesis using rep by (auto simp: zsl_rep_def)
qed

lemma zsl_rep_nodes:
  assumes "zsl_rep z ns xs" "p < length xs"
  obtains n where "zheap z (ns ! Suc p) = Some n" "z_ele n = Some (snd (xs ! p))" "z_score n = fst (xs ! p)"
    "z_backward n = (if p = 0 then None else Some (ns ! p))"
proof -
  obtain n where "zheap z (ns ! Suc p) = Some n" "z_ele n \<noteq> None" "node_key n = xs ! p"
    "z_backward n = (if p = 0 then None else Some (ns ! p))" using assms unfolding zsl_rep_def by blast
  then show ?thesis using that by (cases "xs ! p") (auto simp: node_key_def)
qed

lemma strict_sorted_distinct: "sorted_wrt (<) (xs :: 'a :: linorder list) \<Longrightarrow> distinct xs"
  by (simp add: strict_sorted_iff)

lemma zassoc_update:
  assumes "length ns = Suc (length xs)" "m < length xs" "distinct xs"
  shows "zassoc ns (xs[m := k]) = insert (ns ! Suc m, k) (zassoc ns xs - {(ns ! Suc m, xs ! m)})"
proof -
  have l: "length (tl ns) = length xs" "tl ns ! m = ns ! Suc m" using assms(1,2) by (simp_all add: nth_tl)
  have "zip (tl ns) (xs[m := k]) = (zip (tl ns) xs)[m := (ns ! Suc m, k)]"
    using update_zip [of "tl ns" xs m "(ns ! Suc m, k)"] l(2) list_update_id [of "tl ns" m] by simp
  moreover have "distinct (zip (tl ns) xs)" using distinct_zipI2 [OF assms(3)] l(1) by simp
  ultimately show ?thesis unfolding zassoc_def using assms(2) l by (simp add: set_update_distinct)
qed

lemma sorted_fst_le:
  fixes xs :: "('d :: linorder \<times> bytes) list"
  assumes "sorted_wrt (<) xs" "p \<le> q" "q < length xs"
  shows "fst (xs ! p) \<le> fst (xs ! q)"
proof (cases "p = q")
  case False
  then have "xs ! p < xs ! q" using sorted_wrt_nth_less [OF assms(1)] assms(2,3) by simp
  then show ?thesis by (auto simp: less_prod_def')
qed simp

text \<open>When the score of the next and of the previous node allow it, the order is kept.\<close>

lemma score_fits:
  fixes xs :: "('d :: linorder \<times> bytes) list"
  assumes "sorted_wrt (<) xs" "m < length xs"
  shows "m = 0 \<or> fst (xs ! (m - 1)) < s \<Longrightarrow> p < m \<Longrightarrow> xs ! p < (s, e)"
    and "Suc m = length xs \<or> s < fst (xs ! Suc m) \<Longrightarrow> m < p \<Longrightarrow> p < length xs \<Longrightarrow> (s, e) < xs ! p"
proof -
  assume "m = 0 \<or> fst (xs ! (m - 1)) < s" "p < m"
  then have "fst (xs ! p) < s" using sorted_fst_le [OF assms(1), of p "m - 1"] assms(2) by (cases m) (auto intro: le_less_trans)
  then show "xs ! p < (s, e)" by (auto simp: less_prod_def')
next
  assume "Suc m = length xs \<or> s < fst (xs ! Suc m)" "m < p" "p < length xs"
  then have "s < fst (xs ! p)" using sorted_fst_le [OF assms(1), of "Suc m" p] by (auto intro: less_le_trans)
  then show "(s, e) < xs ! p" by (auto simp: less_prod_def')
qed

lemma zsl_search_found:
  assumes rep: "zsl_rep z ns xs" and k: "(c, e) \<in> set xs"
  obtains us m where "zsl_search z c e = Some us" "updates_ok (zheap z) ns m (zlevel z) (take (zlevel z) us)"
    "found_node z us c e = Some (Some (ns ! Suc m))" "m < length xs" "xs ! m = (c, e)" "m = keys_below (c, e) xs"
proof -
  let ?m = "keys_below (c, e) xs"
  obtain us where us: "zsl_search z c e = Some us" "updates_ok (zheap z) ns ?m (zlevel z) us" "us ! 0 = (ns ! ?m, int ?m)" "?m < length ns"
    using zsl_search_stops [OF rep] by metis
  have "sorted_wrt (<) xs" using rep by (simp add: zsl_rep_def)
  note m = sorted_keys_below [OF this k]
  show ?thesis using that [OF us(1) _ _ m refl] us(2) found_node_rep [OF rep us(3,4)] k by (simp add: updates_ok_def)
qed

lemma zslUpdateScore_moves:
  assumes rep: "zsl_rep z ns xs" and m: "m < length xs" "xs ! m = (c, e)" and new: "(s, e) \<in> set xs \<Longrightarrow> s = c"
    and a: "a \<notin> dom (zheap z)" and len: "length xs < 2 ^ 32"
    and us: "updates_ok (zheap z) ns m (zlevel z) (take (zlevel z) us)"
  shows "\<exists>z1 z2 ns' xs'. zslDeleteNode z (ns ! Suc m) us = Some z1 \<and> zslInsert z1 s e rs a = Some z2 \<and>
    zsl_rep (zslFreeNode (ns ! Suc m) z2) ns' xs' \<and> header z2 = header z \<and>
    zassoc ns' xs' = insert (a, (s, e)) (zassoc ns xs - {(ns ! Suc m, (c, e))}) \<and> length xs' = length xs \<and>
    dom (zheap z2) = insert a (dom (zheap z))"
proof -
  let ?x = "ns ! Suc m" and ?ns = "drop_nth (Suc m) ns" and ?xs = "drop_nth m xs"
  have sh: "sorted_wrt (<) xs" "length ns = Suc (length xs)" "distinct ns" using rep by (simp_all add: zsl_rep_def shape_ok_def)
  have mn: "Suc m < length ns" using m(1) sh(2) by simp
  have ins: "insert_at m ?x ?ns = ns" "insert_key m (c, e) ?xs = xs"
    using drop_nth_insert(2) [OF mn] drop_nth_insert(1) [OF m(1)] m(2) by simp_all
  have l: "m < length ?ns" "length ?ns = Suc (length ?xs)" "length ?xs = length xs - 1"
    using length_drop_nth [OF mn] length_drop_nth [OF m(1)] m(1) sh(2) by simp_all
  obtain z1 where z1: "zslDeleteNode z ?x us = Some z1" "zsl_rep z1 ?ns ?xs" "header z1 = header z" "\<And>b. (zheap z1 b = None) = (zheap z b = None)"
    using zslDeleteNode_rep [of z m ?x ?ns "(c, e)" ?xs us] rep us l unfolding ins by blast
  have dx: "set ?xs = set xs - {(c, e)}" "?x \<notin> set ?ns"
    using set_drop_nth [of xs m] set_drop_nth [OF sh(3) mn] strict_sorted_distinct [OF sh(1)] m by simp_all
  have "a \<notin> dom (zheap z1)" "Suc (length ?xs) < 2 ^ 32" "(s, e) \<notin> set ?xs" using a z1(4) [of a] l(3) len m(1) new dx(1) by auto
  then obtain z2 where z2: "zslInsert z1 s e rs a = Some z2" "header z2 = header z1" "dom (zheap z2) = insert a (dom (zheap z1))"
    "zsl_rep z2 (insert_at (keys_below (s, e) ?xs) a ?ns) (insert_key (keys_below (s, e) ?xs) (s, e) ?xs)"
    using zslInsert_rep [OF z1(2)] by blast
  have kb: "keys_below (s, e) ?xs \<le> length ?xs" by (simp add: keys_below_def length_takeWhile_le)
  have "zheap z ?x \<noteq> None" using shape_alloc mn rep by (auto simp: zsl_rep_def)
  then have "?x \<noteq> a" using a by auto
  then have "?x \<notin> set (insert_at (keys_below (s, e) ?xs) a ?ns)"
    using dx(2) by (auto simp: insert_at_def dest: in_set_takeD in_set_dropD)
  note fr = zsl_rep_free [OF z2(4) this]
  have "zassoc (insert_at (keys_below (s, e) ?xs) a ?ns) (insert_key (keys_below (s, e) ?xs) (s, e) ?xs)
      = insert (a, (s, e)) (zassoc ns xs - {(?x, (c, e))})"
    using zassoc_insert [OF l(2) kb] zassoc_drop [OF sh(2) m(1) sh(3)] m(2) by simp
  moreover have "length (insert_key (keys_below (s, e) ?xs) (s, e) ?xs) = length xs"
    using insert_key_nth(1) [OF kb] l(3) m(1) by simp
  moreover have "dom (zheap z1) = dom (zheap z)" using z1(4) by (simp add: dom_def)
  ultimately show ?thesis using z1(1,3) z2(1-3) fr by metis
qed

lemma zslUpdateScore_rep:
  assumes rep: "zsl_rep z ns xs" and k: "(x, (c, e)) \<in> zassoc ns xs" and new: "(s, e) \<in> set xs \<Longrightarrow> s = c"
    and a: "a \<notin> dom (zheap z)" and len: "length xs < 2 ^ 32"
  shows "\<exists>z' x' ns' xs'. zslUpdateScore z c e s rs a = Some (z', x') \<and> zsl_rep z' ns' xs' \<and> header z' = header z \<and>
    zassoc ns' xs' = insert (x', (s, e)) (zassoc ns xs - {(x, (c, e))}) \<and> length xs' = length xs \<and>
    dom (zheap z') \<subseteq> insert a (dom (zheap z))"
proof -
  have sh: "sorted_wrt (<) xs" "length ns = Suc (length xs)" "distinct ns" "distinct xs"
    using rep by (simp_all add: zsl_rep_def shape_ok_def strict_sorted_distinct)
  obtain q where q: "q < length xs" "ns ! Suc q = x" "xs ! q = (c, e)" using k unfolding zassoc_iff [OF sh(2)] by (elim exE conjE)
  have "(c, e) \<in> set xs" using q(1,3) nth_mem by metis
  then obtain us m where us: "zsl_search z c e = Some us" "updates_ok (zheap z) ns m (zlevel z) (take (zlevel z) us)"
    "found_node z us c e = Some (Some (ns ! Suc m))" "m < length xs" "xs ! m = (c, e)"
    using zsl_search_found [OF rep] by metis
  have x: "ns ! Suc m = x" using us(4,5) q sh(4) nth_eq_iff_index_eq by metis
  obtain n where n: "zheap z x = Some n" "z_ele n = Some e" "z_score n = c" "z_backward n = (if m = 0 then None else Some (ns ! m))"
    using zsl_rep_nodes [OF rep us(4)] us(5) x by auto
  define before where "before \<longleftrightarrow> m = 0 \<or> fst (xs ! (m - 1)) < s"
  define after where "after \<longleftrightarrow> Suc m = length xs \<or> s < fst (xs ! Suc m)"
  have b: "(case z_backward n of None \<Rightarrow> Some True | Some b \<Rightarrow> map_option (\<lambda>m. z_score m < s) (zheap z b)) = Some before"
  proof (cases m)
    case (Suc m')
    then have "m' < length xs" using us(4) by simp
    then obtain n' where "zheap z (ns ! m) = Some n'" "z_score n' = fst (xs ! m')" using zsl_rep_nodes [OF rep] Suc by metis
    then show ?thesis using n(4) Suc by (simp add: before_def)
  qed (use n in \<open>simp add: before_def\<close>)
  obtain sp where nx: "znode_level (zheap z) x 0 = Some (if Suc m < length xs then Some (ns ! Suc (Suc m)) else None, sp)"
    using zsl_rep_next [OF rep, of "Suc m"] us(4) sh(2) x by auto
  have af: "(case (if Suc m < length xs then Some (ns ! Suc (Suc m)) else None) of None \<Rightarrow> Some True
      | Some y \<Rightarrow> map_option (\<lambda>m. s < z_score m) (zheap z y)) = Some after"
  proof (cases "Suc m < length xs")
    case True
    then obtain n' where "zheap z (ns ! Suc (Suc m)) = Some n'" "z_score n' = fst (xs ! Suc m)" using zsl_rep_nodes [OF rep] by metis
    then show ?thesis using True by (auto simp: after_def)
  qed (use us(4) in \<open>auto simp: after_def\<close>)
  note step = us(1,3) x n(1) b nx af
  show ?thesis
  proof (cases "before \<and> after")
    case True
    let ?z = "z\<lparr>zheap := (zheap z)(x \<mapsto> n\<lparr>z_score := s\<rparr>)\<rparr>"
    have run: "zslUpdateScore z c e s rs a = Some (?z, x)" using step True by (simp add: zslUpdateScore_def)
    have "zsl_rep ?z ns (xs[m := (s, e)])"
    proof -
      have "xs ! p < (s, e)" if "p < m" for p using score_fits(1) [OF sh(1) us(4) _ that] True by (simp add: before_def)
      moreover have "(s, e) < xs ! p" if "m < p" "p < length xs" for p using score_fits(2) [OF sh(1) us(4) _ that] True by (simp add: after_def)
      ultimately show ?thesis using zsl_rep_rescore [OF rep us(4,5), of n s] n(1) x by simp
    qed
    moreover have "zassoc ns (xs[m := (s, e)]) = insert (x, (s, e)) (zassoc ns xs - {(x, (c, e))})"
      using zassoc_update [OF sh(2) us(4) sh(4)] us(5) x by simp
    moreover have "dom (zheap ?z) \<subseteq> insert a (dom (zheap z))" using n(1) by auto
    ultimately show ?thesis using run by fastforce
  next
    case False
    obtain z1 z2 ns' xs' where m: "zslDeleteNode z x us = Some z1" "zslInsert z1 s e rs a = Some z2" "zsl_rep (zslFreeNode x z2) ns' xs'"
      "header z2 = header z" "zassoc ns' xs' = insert (a, (s, e)) (zassoc ns xs - {(x, (c, e))})" "length xs' = length xs"
      "dom (zheap z2) = insert a (dom (zheap z))"
      using zslUpdateScore_moves [OF rep us(4,5) new a len us(2)] x by metis
    have "zslUpdateScore z c e s rs a = Some (zslFreeNode x z2, a)" using step False m(1,2) by (auto simp: zslUpdateScore_def)
    moreover have "dom (zheap (zslFreeNode x z2)) \<subseteq> insert a (dom (zheap z))" using m(7) by (auto simp: zslFreeNode_def)
    ultimately show ?thesis using m(3-6) by (auto simp: zslFreeNode_def)
  qed
qed

section \<open>Ranks and ranges\<close>

text \<open>A search that may stop early stops at the last position that satisfies its condition, or nowhere.\<close>

lemma zsl_find_stops:
  assumes lv: "levels_ok h ns l" and m: "m < length ns" and c: "cuts P h ns m" and k: "k \<le> l" "0 < k"
    and p: "p \<le> m" "k \<le> height h (ns ! p)" and ht: "\<And>q. 0 < q \<Longrightarrow> q \<le> m \<Longrightarrow> 1 \<le> height h (ns ! q)"
    and Q: "\<And>q n. q \<le> m \<Longrightarrow> h (ns ! q) = Some n \<Longrightarrow> Q (int q) n \<longleftrightarrow> q = m \<and> hit"
  shows "zsl_find P Q h k (ns ! p) (int p) = Some (if hit then Some (ns ! m, int m) else None)"
  using k p
proof (induction k arbitrary: p)
  case (Suc k)
  have "k < l" "k < height h (ns ! p)" using Suc.prems by simp_all
  then obtain u where u: "zsl_walk P h k (ns ! p) (int p) = Some (ns ! u, int u)" "last_at h ns m k u"
    using zsl_walk_stops [OF lv _ m Suc.prems(3) _ c, of k] by blast
  have um: "u \<le> m" "k < height h (ns ! u)" using u(2) by (simp_all add: last_at_def)
  then obtain n where n: "h (ns ! u) = Some n" using c m unfolding cuts_def by (meson le_less_trans)
  note q = Q [OF um(1) n]
  show ?case
  proof (cases "u = m \<and> hit")
    case True
    then show ?thesis using u(1) n q by simp
  next
    case False
    have run: "zsl_find P Q h (Suc k) (ns ! p) (int p) = zsl_find P Q h k (ns ! u) (int u)" using u(1) n q False by simp
    show ?thesis
    proof (cases "k = 0")
      case True
      have "u = m" using u(2) True ht [of m] by (cases "u = m") (auto simp: last_at_def)
      then show ?thesis using run False True by simp
    next
      case f: False
      have "zsl_find P Q h k (ns ! u) (int u) = Some (if hit then Some (ns ! m, int m) else None)"
        by (rule Suc.IH) (use Suc.prems(1) f um in auto)
      then show ?thesis using run by simp
    qed
  qed
qed simp

lemma shape_find:
  assumes "shape_ok z ns" "m < length ns" "cuts P (zheap z) ns m"
    and "\<And>q n. q \<le> m \<Longrightarrow> zheap z (ns ! q) = Some n \<Longrightarrow> Q (int q) n \<longleftrightarrow> q = m \<and> hit"
  shows "zsl_find P Q (zheap z) (zlevel z) (header z) 0 = Some (if hit then Some (ns ! m, int m) else None)"
proof -
  have z: "levels_ok (zheap z) ns (zlevel z)" "ns ! 0 = header z" "0 < zlevel z"
    "\<And>p. 0 < p \<Longrightarrow> p \<le> m \<Longrightarrow> 1 \<le> height (zheap z) (ns ! p)" "zlevel z \<le> height (zheap z) (ns ! 0)"
    using assms(1,2) by (auto simp: shape_ok_def)
  show ?thesis using zsl_find_stops [OF z(1) assms(2,3) order_refl z(3) le0 z(5,4) assms(4)] z(2) by simp
qed

lemma sdscmp_le: "sdscmp a b \<le> 0 \<longleftrightarrow> a \<le> b"
  using sdscmp_less [of a b] sdscmp_eq [of a b] by (metis le_less)

lemma node_upto_key: "z_ele n \<noteq> None \<Longrightarrow> node_upto s e n \<longleftrightarrow> node_key n \<le> (s, e)"
  by (auto simp: node_upto_def node_key_def sdscmp_le)

text \<open>The rank of a stored pair is its position, counted from one; an element that is not stored has
  rank zero.\<close>

lemma zslGetRank_rep:
  assumes rep: "zsl_rep z ns xs" and d: "distinct (map snd xs)"
  shows "p < length xs \<Longrightarrow> xs ! p = (s, e) \<Longrightarrow> zslGetRank z s e = Some (int p + 1)"
    and "e \<notin> snd ` set xs \<Longrightarrow> zslGetRank z s e = Some 0"
proof -
  let ?m = "length (takeWhile (\<lambda>y. y \<le> (s, e)) xs)"
  let ?Q = "\<lambda>(_ :: int) n. case z_ele n of Some e' \<Rightarrow> sdscmp e' e = 0 | None \<Rightarrow> False"
  have sh: "shape_ok z ns" "length ns = Suc (length xs)" "sorted_wrt (<) xs" "ns ! 0 = header z" using rep by (simp_all add: zsl_rep_def shape_ok_def)
  have m: "?m < length ns" using sh(2) length_takeWhile_le [of "\<lambda>y. y \<le> (s, e)" xs] by simp
  have cut: "cuts (\<lambda>_. node_upto s e) (zheap z) ns ?m" by (rule zsl_rep_cuts [OF rep]) (auto simp: node_upto_key)
  have iff: "?Q (int q) n \<longleftrightarrow> 0 < q \<and> snd (xs ! (q - 1)) = e" if "q < length ns" "zheap z (ns ! q) = Some n" for q n
  proof (cases q)
    case 0
    then show ?thesis using rep that sh(4) by (auto simp: zsl_rep_def)
  next
    case (Suc r)
    then have "r < length xs" using that(1) sh(2) by simp
    then obtain n' where "zheap z (ns ! Suc r) = Some n'" "z_ele n' = Some (snd (xs ! r))" using zsl_rep_nodes [OF rep] by metis
    then show ?thesis using that(2) Suc by (simp add: sdscmp_eq)
  qed
  show "zslGetRank z s e = Some 0" if "e \<notin> snd ` set xs"
  proof -
    have "?Q (int q) n \<longleftrightarrow> q = ?m \<and> False" if q: "q \<le> ?m" "zheap z (ns ! q) = Some n" for q n
    proof -
      have l: "q < length ns" using q(1) m by simp
      have "q = 0 \<or> xs ! (q - 1) \<in> set xs" using l sh(2) by (cases q) auto
      then show ?thesis using iff [OF l q(2)] \<open>e \<notin> snd ` set xs\<close> by auto
    qed
    then show ?thesis using shape_find [OF sh(1) m cut, of ?Q False] by (simp add: zslGetRank_def)
  qed
  show "zslGetRank z s e = Some (int p + 1)" if p: "p < length xs" "xs ! p = (s, e)"
  proof -
    have mem: "r < ?m \<longleftrightarrow> xs ! r \<le> (s, e)" if "r < length xs" for r
      by (rule sorted_prefix [OF sh(3) _ that, symmetric]) (rule order_trans [OF less_imp_le])
    have "p < ?m" using mem [OF p(1)] p(2) by simp
    moreover have "\<not> Suc p < ?m"
    proof
      assume s: "Suc p < ?m"
      then have "Suc p < length xs" using m sh(2) by simp
      then have "xs ! p < xs ! Suc p" "xs ! Suc p \<le> (s, e)" using sorted_wrt_nth_less [OF sh(3), of p "Suc p"] mem s by simp_all
      then show False using p(2) by simp
    qed
    ultimately have mp: "?m = Suc p" by simp
    have "?Q (int q) n \<longleftrightarrow> q = ?m \<and> True" if q: "q \<le> ?m" "zheap z (ns ! q) = Some n" for q n
    proof -
      have l: "q < length ns" using q(1) m by simp
      have "snd (xs ! r) = e \<longleftrightarrow> r = p" if "r < length xs" for r
        using nth_eq_iff_index_eq [OF d, of r p] p that by simp
      then show ?thesis using iff [OF l q(2)] l sh(2) mp by (cases q) auto
    qed
    then show ?thesis using shape_find [OF sh(1) m cut, of ?Q True] mp by (simp add: zslGetRank_def)
  qed
qed

lemma rank_cuts:
  assumes "shape_ok z ns" "\<And>r n. P r n \<longleftrightarrow> r \<le> t" "m = nat t \<or> (m = length ns - 1 \<and> int m \<le> t)"
  shows "cuts P (zheap z) ns m"
  unfolding cuts_def
proof (intro allI impI)
  fix q assume q: "q < length ns"
  then have "P (int q) n \<longleftrightarrow> q \<le> m" if "0 < q" for n using assms(2,3) that by auto
  then show "\<exists>n. zheap z (ns ! q) = Some n \<and> (0 < q \<longrightarrow> P (int q) n = (q \<le> m))" using shape_alloc [OF assms(1) q] by auto
qed

lemma zslGetElementByRank_rep:
  assumes rep: "zsl_rep z ns xs" and r: "0 \<le> r"
  shows "zslGetElementByRank z r = Some (if r \<le> int (length xs) then Some (ns ! nat r) else None)"
proof -
  define m where "m = (if r \<le> int (length xs) then nat r else length xs)"
  have sh: "shape_ok z ns" "length ns = Suc (length xs)" using rep by (simp_all add: zsl_rep_def)
  have m: "m < length ns" using sh(2) by (auto simp: m_def)
  have cut: "cuts (\<lambda>k _. k \<le> r) (zheap z) ns m" by (rule rank_cuts [OF sh(1)]) (use sh(2) in \<open>auto simp: m_def\<close>)
  have "zsl_find (\<lambda>k _. k \<le> r) (\<lambda>k _. k = r) (zheap z) (zlevel z) (header z) 0
      = Some (if r \<le> int (length xs) then Some (ns ! m, int m) else None)"
    by (rule shape_find [OF sh(1) m cut]) (use r in \<open>auto simp: m_def\<close>)
  then show ?thesis by (simp add: zslGetElementByRank_def m_def)
qed

text \<open>Deleting the nodes from position \<open>m\<close> on, while the condition holds.\<close>

lemma drop_nth_more:
  assumes "m < length xs"
  shows "take m (drop_nth m xs) = take m xs" "drop (m + j) (drop_nth m xs) = drop (m + Suc j) xs"
    "m + q < length (drop_nth m xs) \<Longrightarrow> drop_nth m xs ! (m + q) = xs ! (m + Suc q)"
  using assms by (simp_all add: drop_nth_def nth_append min_def add.commute)

lemma updates_ok_free:
  assumes "updates_ok (zheap z) ns m k us" "x \<notin> set ns" "m < length ns"
  shows "updates_ok (zheap (zslFreeNode x z)) ns m k us"
proof -
  have "height ((zheap z)(x := None)) (ns ! q) = height (zheap z) (ns ! q)" if "q \<le> m" for q
    using assms(2,3) that nth_mem [of q ns] by (auto simp: height_def)
  then have "last_at ((zheap z)(x := None)) ns m i u = last_at (zheap z) ns m i u" for i u
    unfolding last_at_def by (metis)
  then show ?thesis using assms(1) by (simp add: updates_ok_def zslFreeNode_def)
qed

lemma zsl_delete_one:
  assumes rep: "zsl_rep z ns xs" and m: "m < length xs" and u: "updates_ok (zheap z) ns m (zlevel z) (take (zlevel z) us)"
  obtains z' where "zslDeleteNode z (ns ! Suc m) us = Some z'" "header z' = header z"
    "zsl_rep (zslFreeNode (ns ! Suc m) z') (drop_nth (Suc m) ns) (drop_nth m xs)"
    "updates_ok (zheap (zslFreeNode (ns ! Suc m) z')) (drop_nth (Suc m) ns) m (zlevel (zslFreeNode (ns ! Suc m) z')) (take (zlevel (zslFreeNode (ns ! Suc m) z')) us)"
    "dom (zheap (zslFreeNode (ns ! Suc m) z')) \<subseteq> dom (zheap z)"
proof -
  let ?x = "ns ! Suc m" and ?ns = "drop_nth (Suc m) ns" and ?xs = "drop_nth m xs"
  have sh: "length ns = Suc (length xs)" "distinct ns" using rep by (simp_all add: zsl_rep_def shape_ok_def)
  have mn: "Suc m < length ns" using m sh(1) by simp
  have ins: "insert_at m ?x ?ns = ns" "insert_key m (xs ! m) ?xs = xs" using drop_nth_insert(2) [OF mn] drop_nth_insert(1) [OF m] by simp_all
  have l: "m < length ?ns" "length ?ns = Suc (length ?xs)" using length_drop_nth [OF mn] length_drop_nth [OF m] m sh(1) by simp_all
  obtain z' where z': "zslDeleteNode z ?x us = Some z'" "zsl_rep z' ?ns ?xs" "header z' = header z"
    "updates_ok (zheap z') ?ns m (zlevel z') (take (zlevel z') us)" "\<And>b. (zheap z' b = None) = (zheap z b = None)"
    using zslDeleteNode_rep [of z m ?x ?ns "xs ! m" ?xs us] rep u l unfolding ins by blast
  have nx: "?x \<notin> set ?ns" using set_drop_nth [OF sh(2) mn] by simp
  have "dom (zheap z') = dom (zheap z)" using z'(5) by (simp add: dom_def)
  then show ?thesis
    using that [OF z'(1,3) zsl_rep_free [OF z'(2) nx]] updates_ok_free [OF z'(4) nx l(1)] by (auto simp: zslFreeNode_def)
qed

lemma restrict_all [simp]: "AList.restrict UNIV d = d"
  by (simp add: AList.restrict_eq)

lemma zsl_delete_while_rep:
  assumes "zsl_rep z ns xs" "updates_ok (zheap z) ns m (zlevel z) (take (zlevel z) us)" "m + j \<le> length xs"
    and K: "\<And>t n. z_ele n \<noteq> None \<Longrightarrow> C t n \<longleftrightarrow> K t (node_key n)"
    and "\<And>q. q < j \<Longrightarrow> K (t + int q) (xs ! (m + q))" "m + j < length xs \<Longrightarrow> \<not> K (t + int j) (xs ! (m + j))"
  shows "\<exists>z'. zsl_delete_while C us z (if m < length xs then Some (ns ! Suc m) else None) t d r
      = Some (z', AList.restrict (- (snd ` set (take j (drop m xs)))) d, r + j) \<and>
    zsl_rep z' (take (Suc m) ns @ drop (Suc m + j) ns) (take m xs @ drop (m + j) xs) \<and> header z' = header z \<and>
    dom (zheap z') \<subseteq> dom (zheap z)"
  using assms(1-3,5,6)
proof (induction j arbitrary: z ns xs t d r)
  case 0
  show ?case
  proof (cases "m < length xs")
    case True
    then obtain n where n: "zheap z (ns ! Suc m) = Some n" "z_ele n = Some (snd (xs ! m))" "z_score n = fst (xs ! m)"
      using zsl_rep_nodes [OF 0(1)] by metis
    have "\<not> C t n" using 0(5) True K [of n t] n by (simp add: node_key_def)
    then have "zsl_delete_while C us z (Some (ns ! Suc m)) t d r = Some (z, d, r)"
      using n(1) by (subst zsl_delete_while.simps) simp
    then show ?thesis using True 0(1) by simp
  next
    case False
    have "zsl_delete_while C us z None t d r = Some (z, d, r)" by (subst zsl_delete_while.simps) simp
    then show ?thesis using False 0(1) by simp
  qed
next
  case (Suc j)
  have m: "m < length xs" using Suc.prems(3) by simp
  have len: "length ns = Suc (length xs)" using Suc.prems(1) by (simp add: zsl_rep_def)
  then have mn: "Suc m < length ns" using m by simp
  let ?ns = "drop_nth (Suc m) ns" and ?xs = "drop_nth m xs" and ?x = "ns ! Suc m"
  obtain n where n: "zheap z ?x = Some n" "z_ele n = Some (snd (xs ! m))" "z_score n = fst (xs ! m)"
    using zsl_rep_nodes [OF Suc.prems(1) m] by metis
  obtain sp where nx: "znode_level (zheap z) ?x 0 = Some (if Suc m < length xs then Some (ns ! Suc (Suc m)) else None, sp)"
    using zsl_rep_next [OF Suc.prems(1) mn] by metis
  obtain z1 where z1: "zslDeleteNode z ?x us = Some z1" "header z1 = header z" "zsl_rep (zslFreeNode ?x z1) ?ns ?xs"
    "updates_ok (zheap (zslFreeNode ?x z1)) ?ns m (zlevel (zslFreeNode ?x z1)) (take (zlevel (zslFreeNode ?x z1)) us)"
    "dom (zheap (zslFreeNode ?x z1)) \<subseteq> dom (zheap z)"
    using zsl_delete_one [OF Suc.prems(1) m Suc.prems(2)] by metis
  have C: "C t n" using Suc.prems(4) [of 0] K [of n t] n by (simp add: node_key_def)
  have lx: "length ?xs = length xs - 1" using length_drop_nth [OF m] .
  have go: "m < length ?xs \<longleftrightarrow> Suc m < length xs" "m < length ?xs \<Longrightarrow> ?ns ! Suc m = ns ! Suc (Suc m)"
    using lx m drop_nth_more(3) [OF mn, of 0] length_drop_nth [OF mn] len by auto
  have nxt: "(if Suc m < length xs then Some (ns ! Suc (Suc m)) else None) = (if m < length ?xs then Some (?ns ! Suc m) else None)"
    using go by simp
  have ih: "\<exists>z'. zsl_delete_while C us (zslFreeNode ?x z1) (if m < length ?xs then Some (?ns ! Suc m) else None) (t + 1) (AList.delete (snd (xs ! m)) d) (r + 1)
      = Some (z', AList.restrict (- (snd ` set (take j (drop m ?xs)))) (AList.delete (snd (xs ! m)) d), r + 1 + j) \<and>
    zsl_rep z' (take (Suc m) ?ns @ drop (Suc m + j) ?ns) (take m ?xs @ drop (m + j) ?xs) \<and> header z' = header (zslFreeNode ?x z1) \<and>
    dom (zheap z') \<subseteq> dom (zheap (zslFreeNode ?x z1))"
  proof (rule Suc.IH [OF z1(3,4)])
    show "m + j \<le> length ?xs" using lx Suc.prems(3) by simp
    show "K (t + 1 + int q) (?xs ! (m + q))" if "q < j" for q
      using Suc.prems(4) [of "Suc q"] drop_nth_more(3) [OF m, of q] that lx Suc.prems(3) by (simp add: add.assoc)
    show "\<not> K (t + 1 + int j) (?xs ! (m + j))" if "m + j < length ?xs"
      using Suc.prems(5) drop_nth_more(3) [OF m that] that lx by (simp add: add.assoc)
  qed
  have run: "zsl_delete_while C us z (Some ?x) t d r = zsl_delete_while C us (zslFreeNode ?x z1)
      (if Suc m < length xs then Some (ns ! Suc (Suc m)) else None) (t + 1) (AList.delete (snd (xs ! m)) d) (r + 1)"
    using n C nx z1(1) by (subst zsl_delete_while.simps) simp
  have s: "take (Suc j) (drop m xs) = xs ! m # take j (drop m ?xs)"
    using Cons_nth_drop_Suc [OF m, symmetric] drop_nth_more(2) [OF m, of 0] by simp
  have "AList.restrict (- (snd ` set (take j (drop m ?xs)))) (AList.delete (snd (xs ! m)) d) = AList.restrict (- (snd ` set (take (Suc j) (drop m xs)))) d"
    unfolding s by (auto simp: AList.restrict_eq AList.delete_eq intro!: filter_cong)
  then show ?case
    using ih m drop_nth_more(1,2) [OF m] drop_nth_more(1,2) [OF mn] z1(2,5) unfolding run nxt [symmetric] by (auto simp: run zslFreeNode_def)
qed

lemma zassoc_segment:
  assumes "length ns = Suc (length xs)" "distinct xs" "m \<le> l" "l \<le> length xs"
  shows "zassoc (take (Suc m) ns @ drop (Suc l) ns) (take m xs @ drop l xs) = {(a, k). (a, k) \<in> zassoc ns xs \<and> k \<in> set (take m xs @ drop l xs)}"
proof -
  let ?Z = "zip (tl ns) xs"
  have ns: "tl (take (Suc m) ns @ drop (Suc l) ns) = take m (tl ns) @ drop l (tl ns)" "length (tl ns) = length xs"
    using assms(1) by (cases ns; simp)+
  have z: "zassoc (take (Suc m) ns @ drop (Suc l) ns) (take m xs @ drop l xs) = set (take m ?Z) \<union> set (drop l ?Z)"
    unfolding zassoc_def ns(1) using ns(2) by (simp add: take_zip drop_zip)
  have k: "map snd ?Z = xs" using ns(2) by simp
  have keys: "set (take m xs @ drop l xs) = snd ` (set (take m ?Z) \<union> set (drop l ?Z))"
    by (subst (1 2) k [symmetric]) (simp only: take_map drop_map set_append set_map image_Un)
  have inj: "inj_on snd (set ?Z)" using assms(2) k distinct_map [of snd ?Z] by simp
  have sub: "set (take m ?Z) \<union> set (drop l ?Z) \<subseteq> set ?Z" by (auto dest: in_set_takeD in_set_dropD)
  show ?thesis unfolding z keys
  proof (intro set_eqI iffI)
    fix p assume "p \<in> set (take m ?Z) \<union> set (drop l ?Z)"
    then show "p \<in> {(a, k). (a, k) \<in> zassoc ns xs \<and> k \<in> snd ` (set (take m ?Z) \<union> set (drop l ?Z))}"
      using sub by (cases p) (force simp: zassoc_def)
  next
    fix p assume "p \<in> {(a, k). (a, k) \<in> zassoc ns xs \<and> k \<in> snd ` (set (take m ?Z) \<union> set (drop l ?Z))}"
    then have p: "p \<in> set ?Z" "snd p \<in> snd ` (set (take m ?Z) \<union> set (drop l ?Z))" by (simp_all add: zassoc_def split: prod.splits)
    then obtain q where q: "q \<in> set (take m ?Z) \<union> set (drop l ?Z)" "snd q = snd p" by (metis imageE)
    have "q = p" using inj_onD [OF inj q(2)] sub q(1) p(1) by blast
    then show "p \<in> set (take m ?Z) \<union> set (drop l ?Z)" using q(1) by simp
  qed
qed

lemma zslDeleteRangeByRank_rep:
  assumes rep: "zsl_rep z ns xs" and st: "a < b" and small: "b < 2 ^ 32"
  shows "\<exists>z' ns'. zslDeleteRangeByRank z (int a + 1) (int b) d =
      Some (z', AList.restrict (- (snd ` set (drop a (take b xs)))) d, length (drop a (take b xs))) \<and>
    zsl_rep z' ns' (take a xs @ drop b xs) \<and> header z' = header z \<and> dom (zheap z') \<subseteq> dom (zheap z) \<and>
    zassoc ns' (take a xs @ drop b xs) = {(x, k). (x, k) \<in> zassoc ns xs \<and> k \<in> set (take a xs @ drop b xs)}"
proof -
  define m where "m = min a (length xs)"
  define j where "j = min b (length xs) - m"
  have sh: "shape_ok z ns" "length ns = Suc (length xs)" using rep by (simp_all add: zsl_rep_def)
  have m: "m < length ns" "m \<le> length xs" "m \<le> min b (length xs)" using sh(2) st by (auto simp: m_def)
  have cut: "cuts (\<lambda>k _. k < int a + 1) (zheap z) ns m"
    by (rule rank_cuts [OF sh(1), where t = "int a"]) (use sh(2) in \<open>auto simp: m_def\<close>)
  obtain us where us: "zsl_descend (\<lambda>r _. r < int a + 1) (zheap z) (zlevel z) (header z) 0 = Some us"
    "updates_ok (zheap z) ns m (zlevel z) us" "us ! 0 = (ns ! m, int m)"
    using shape_descend [OF sh(1) m(1) cut] .
  obtain sp where nx: "znode_level (zheap z) (ns ! m) 0 = Some (if m < length xs then Some (ns ! Suc m) else None, sp)"
    using zsl_rep_next [OF rep m(1)] .
  have u': "updates_ok (zheap z) ns m (zlevel z) (take (zlevel z) us)" using us(2) by (simp add: updates_ok_def)
  have mj: "m + j = min b (length xs)" using m(3) by (simp add: j_def)
  have "\<exists>z'. zsl_delete_while (\<lambda>t _. t \<le> int b) us z (if m < length xs then Some (ns ! Suc m) else None) (int m + 1) d 0
      = Some (z', AList.restrict (- (snd ` set (take j (drop m xs)))) d, 0 + j) \<and>
    zsl_rep z' (take (Suc m) ns @ drop (Suc m + j) ns) (take m xs @ drop (m + j) xs) \<and> header z' = header z \<and>
    dom (zheap z') \<subseteq> dom (zheap z)"
    by (rule zsl_delete_while_rep [OF rep u', where K = "\<lambda>t _. t \<le> int b"]) (use mj in linarith)+
  moreover have seg: "take j (drop m xs) = drop a (take b xs)"
  proof -
    have "take j (drop m xs) = drop m (take b xs)" using mj by (simp add: take_drop add.commute min_def)
    then show ?thesis by (cases "a \<le> length xs") (simp_all add: m_def)
  qed
  moreover have "take m xs = take a xs" "drop (m + j) xs = drop b xs" unfolding mj by (auto simp: m_def min_def)
  moreover have "length (drop a (take b xs)) = j" using mj m unfolding seg [symmetric] by simp
  moreover have "zassoc (take (Suc m) ns @ drop (Suc m + j) ns) (take m xs @ drop (m + j) xs)
      = {(x, k). (x, k) \<in> zassoc ns xs \<and> k \<in> set (take m xs @ drop (m + j) xs)}"
    using zassoc_segment [OF sh(2), of m "m + j"] mj rep by (simp add: zsl_rep_def strict_sorted_distinct)
  moreover have "(int a + 1) mod 2 ^ 32 = int a + 1" "int b mod 2 ^ 32 = int b" using st small by simp_all
  ultimately show ?thesis using us(1,3) nx by (auto simp: zslDeleteRangeByRank_def)
qed

text \<open>The pairs whose score is in a range, as a part of the ascending list.\<close>

definition in_zrange :: "'d :: linorder zrangespec \<Rightarrow> 'd \<times> bytes \<Rightarrow> bool" where
  "in_zrange spec k \<longleftrightarrow> zslValueGteMin (fst k) spec \<and> zslValueLteMax (fst k) spec"

definition below_zrange :: "'d :: linorder zrangespec \<Rightarrow> ('d \<times> bytes) list \<Rightarrow> nat" where
  "below_zrange spec xs = length (takeWhile (\<lambda>k. \<not> zslValueGteMin (fst k) spec) xs)"

definition upto_zrange :: "'d :: linorder zrangespec \<Rightarrow> ('d \<times> bytes) list \<Rightarrow> nat" where
  "upto_zrange spec xs = length (takeWhile (\<lambda>k. zslValueLteMax (fst k) spec) xs)"

lemma zrange_mono:
  fixes x y :: "'d :: linorder \<times> bytes"
  assumes "x < y"
  shows "\<not> zslValueGteMin (fst y) spec \<Longrightarrow> \<not> zslValueGteMin (fst x) spec"
    and "zslValueLteMax (fst y) spec \<Longrightarrow> zslValueLteMax (fst x) spec"
  using assms by (auto simp: zslValueGteMin_def zslValueLteMax_def less_prod_def' split: if_splits)

lemma zrange_nth:
  assumes "sorted_wrt (<) xs" "p < length xs"
  shows "zslValueGteMin (fst (xs ! p)) spec \<longleftrightarrow> below_zrange spec xs \<le> p"
    and "zslValueLteMax (fst (xs ! p)) spec \<longleftrightarrow> p < upto_zrange spec xs"
    and "in_zrange spec (xs ! p) \<longleftrightarrow> below_zrange spec xs \<le> p \<and> p < upto_zrange spec xs"
proof -
  show a: "zslValueGteMin (fst (xs ! p)) spec \<longleftrightarrow> below_zrange spec xs \<le> p"
  proof -
    have "\<not> zslValueGteMin (fst (xs ! p)) spec \<longleftrightarrow> p < below_zrange spec xs"
      unfolding below_zrange_def by (rule sorted_prefix [OF assms(1) zrange_mono(1) assms(2)])
    then show ?thesis by auto
  qed
  show b: "zslValueLteMax (fst (xs ! p)) spec \<longleftrightarrow> p < upto_zrange spec xs"
    unfolding upto_zrange_def by (rule sorted_prefix [OF assms(1) zrange_mono(2) assms(2)])
  show "in_zrange spec (xs ! p) \<longleftrightarrow> below_zrange spec xs \<le> p \<and> p < upto_zrange spec xs" using a b by (simp add: in_zrange_def)
qed

lemma zrange_le: "below_zrange spec xs \<le> length xs" "upto_zrange spec xs \<le> length xs"
  by (simp_all add: below_zrange_def upto_zrange_def length_takeWhile_le)

lemma filter_segment:
  assumes "\<And>p. p < length xs \<Longrightarrow> R (xs ! p) \<longleftrightarrow> m \<le> p \<and> p < l" "l \<le> length xs"
  shows "filter R xs = drop m (take l xs)" "m \<le> l \<Longrightarrow> filter (\<lambda>x. \<not> R x) xs = take m xs @ drop l xs"
proof -
  have no: "filter Q (drop l xs) = []" if "\<And>p. l \<le> p \<Longrightarrow> p < length xs \<Longrightarrow> \<not> Q (xs ! p)" for Q
    using that assms(2) by (auto simp: filter_empty_conv in_set_conv_nth)
  have no': "filter Q (take a xs) = []" if "\<And>p. p < a \<Longrightarrow> p < length xs \<Longrightarrow> \<not> Q (xs ! p)" for Q a
    using that by (auto simp: filter_empty_conv in_set_conv_nth)
  have mid: "R x" if "x \<in> set (drop m (take l xs))" for x
    using that assms by (auto simp: in_set_conv_nth)
  have sp: "xs = take l xs @ drop l xs" "take l xs = take m (take l xs) @ drop m (take l xs)" by (simp_all only: append_take_drop_id)
  have "filter R (take m (take l xs)) = []" using no' [of "min m l" R] assms(1) by (simp add: min.commute)
  then have "filter R (take l xs) = drop m (take l xs)" using mid by (subst sp(2)) (simp add: filter_id_conv)
  then show "filter R xs = drop m (take l xs)" using no [of R] assms(1) filter_append [of R "take l xs" "drop l xs"] by simp
  assume ml: "m \<le> l"
  have "filter (\<lambda>x. \<not> R x) (drop m (take l xs)) = []" using mid by (auto simp: filter_empty_conv)
  moreover have "filter (\<lambda>x. \<not> R x) (take m xs) = take m xs" "filter (\<lambda>x. \<not> R x) (drop l xs) = drop l xs"
    using assms by (auto simp: filter_id_conv in_set_conv_nth)
  moreover have "filter (\<lambda>x. \<not> R x) xs = filter (\<lambda>x. \<not> R x) (take m xs) @ filter (\<lambda>x. \<not> R x) (drop m (take l xs)) @ filter (\<lambda>x. \<not> R x) (drop l xs)"
    using ml by (metis append_assoc append_take_drop_id filter_append min.absorb1 take_take)
  ultimately show "filter (\<lambda>x. \<not> R x) xs = take m xs @ drop l xs" by simp
qed

lemma zrange_filter:
  assumes "sorted_wrt (<) xs"
  shows "filter (in_zrange spec) xs = drop (below_zrange spec xs) (take (upto_zrange spec xs) xs)"
    and "filter (\<lambda>k. \<not> in_zrange spec k) xs =
      take (below_zrange spec xs) xs @ drop (max (below_zrange spec xs) (upto_zrange spec xs)) xs"
proof -
  let ?m = "below_zrange spec xs" and ?l = "upto_zrange spec xs"
  show "filter (in_zrange spec) xs = drop ?m (take ?l xs)"
    using filter_segment(1) [of xs "in_zrange spec" ?m ?l] zrange_nth(3) [OF assms] zrange_le by blast
  show "filter (\<lambda>k. \<not> in_zrange spec k) xs = take ?m xs @ drop (max ?m ?l) xs"
    using filter_segment(2) [of xs "in_zrange spec" ?m "max ?m ?l"] zrange_nth(3) [OF assms] zrange_le by fastforce
qed

lemma zsl_rep_range_cuts:
  assumes "zsl_rep z ns xs"
  shows "cuts (\<lambda>_ n. \<not> zslValueGteMin (z_score n) spec) (zheap z) ns (below_zrange spec xs)"
    and "cuts (\<lambda>_ n. zslValueLteMax (z_score n) spec) (zheap z) ns (upto_zrange spec xs)"
proof -
  show "cuts (\<lambda>_ n. \<not> zslValueGteMin (z_score n) spec) (zheap z) ns (below_zrange spec xs)"
    unfolding below_zrange_def by (rule zsl_rep_cuts [OF assms zrange_mono(1)]) (simp_all add: node_key_def)
  show "cuts (\<lambda>_ n. zslValueLteMax (z_score n) spec) (zheap z) ns (upto_zrange spec xs)"
    unfolding upto_zrange_def by (rule zsl_rep_cuts [OF assms zrange_mono(2)]) (simp_all add: node_key_def)
qed

lemma zslDeleteRangeByScore_rep:
  assumes rep: "zsl_rep z ns xs"
  shows "\<exists>z' ns'. zslDeleteRangeByScore z spec d =
      Some (z', AList.restrict (- (snd ` set (filter (in_zrange spec) xs))) d, length (filter (in_zrange spec) xs)) \<and>
    zsl_rep z' ns' (filter (\<lambda>k. \<not> in_zrange spec k) xs) \<and> header z' = header z \<and> dom (zheap z') \<subseteq> dom (zheap z) \<and>
    zassoc ns' (filter (\<lambda>k. \<not> in_zrange spec k) xs) = {(x, k). (x, k) \<in> zassoc ns xs \<and> k \<in> set (filter (\<lambda>k. \<not> in_zrange spec k) xs)}"
proof -
  define m where "m = below_zrange spec xs"
  define l where "l = upto_zrange spec xs"
  have sh: "shape_ok z ns" "length ns = Suc (length xs)" "sorted_wrt (<) xs" using rep by (simp_all add: zsl_rep_def)
  have m: "m < length ns" "m \<le> length xs" "l \<le> length xs" using sh(2) zrange_le [of spec xs] by (simp_all add: m_def l_def)
  have lo: "(\<lambda>_ n. if zr_minex spec then z_score n \<le> zr_min spec else z_score n < zr_min spec)
      = (\<lambda>(_ :: int) n. \<not> zslValueGteMin (z_score n) spec)" by (auto simp: zslValueGteMin_def fun_eq_iff)
  have hi: "(\<lambda>_ n. if zr_maxex spec then z_score n < zr_max spec else z_score n \<le> zr_max spec)
      = (\<lambda>(_ :: int) n. zslValueLteMax (z_score n) spec)" by (auto simp: zslValueLteMax_def fun_eq_iff)
  obtain us where us: "zsl_descend (\<lambda>_ n. \<not> zslValueGteMin (z_score n) spec) (zheap z) (zlevel z) (header z) 0 = Some us"
    "updates_ok (zheap z) ns m (zlevel z) us" "us ! 0 = (ns ! m, int m)"
    using shape_descend [OF sh(1) m(1)] zsl_rep_range_cuts(1) [OF rep, of spec] unfolding m_def by blast
  obtain sp where nx: "znode_level (zheap z) (ns ! m) 0 = Some (if m < length xs then Some (ns ! Suc m) else None, sp)"
    using zsl_rep_next [OF rep m(1)] .
  have u': "updates_ok (zheap z) ns m (zlevel z) (take (zlevel z) us)" using us(2) by (simp add: updates_ok_def)
  have "\<exists>z'. zsl_delete_while (\<lambda>_ n. zslValueLteMax (z_score n) spec) us z (if m < length xs then Some (ns ! Suc m) else None) 0 d 0
      = Some (z', AList.restrict (- (snd ` set (take (l - m) (drop m xs)))) d, 0 + (l - m)) \<and>
    zsl_rep z' (take (Suc m) ns @ drop (Suc m + (l - m)) ns) (take m xs @ drop (m + (l - m)) xs) \<and> header z' = header z \<and>
    dom (zheap z') \<subseteq> dom (zheap z)"
  proof (rule zsl_delete_while_rep [OF rep u', where K = "\<lambda>_ k. zslValueLteMax (fst k) spec"])
    show "zslValueLteMax (fst (xs ! (m + q))) spec" if "q < l - m" for q
      using zrange_nth(2) [OF sh(3), of "m + q" spec] that m by (simp add: l_def)
    show "\<not> zslValueLteMax (fst (xs ! (m + (l - m)))) spec" if "m + (l - m) < length xs"
      using zrange_nth(2) [OF sh(3) that, of spec] by (simp add: l_def)
  qed (use m in \<open>simp_all add: node_key_def\<close>)
  moreover have "filter (in_zrange spec) xs = take (l - m) (drop m xs)" "filter (\<lambda>k. \<not> in_zrange spec k) xs = take m xs @ drop (m + (l - m)) xs"
    using zrange_filter [OF sh(3), of spec] by (simp_all add: m_def l_def drop_take max_def)
  moreover have "length (take (l - m) (drop m xs)) = l - m" using m by simp
  moreover have "zassoc (take (Suc m) ns @ drop (Suc m + (l - m)) ns) (take m xs @ drop (m + (l - m)) xs)
      = {(x, k). (x, k) \<in> zassoc ns xs \<and> k \<in> set (take m xs @ drop (m + (l - m)) xs)}"
    using zassoc_segment [OF sh(2), of m "m + (l - m)"] m strict_sorted_distinct [OF sh(3)] by simp
  ultimately show ?thesis using us(1,3) nx unfolding zslDeleteRangeByScore_def lo hi by auto
qed

text \<open>The emptiness test is only a shortcut: when it fails, no pair is in the range.\<close>

lemma zslIsInRange_rep:
  assumes rep: "zsl_rep z ns xs"
  shows "zslIsInRange z spec = Some False \<and> filter (in_zrange spec) xs = [] \<or>
    zslIsInRange z spec = Some True \<and> below_zrange spec xs < length xs \<and> 0 < upto_zrange spec xs"
proof (cases "(zr_min spec > zr_max spec \<or> (zr_min spec = zr_max spec \<and> (zr_minex spec \<or> zr_maxex spec))) \<or> xs = []")
  case True
  then have "\<not> in_zrange spec k" if "k \<in> set xs" for k using that
    by (auto simp: in_zrange_def zslValueGteMin_def zslValueLteMax_def split: if_splits)
  moreover have "tail z = None" if "xs = []" using rep that by (simp add: zsl_rep_def)
  ultimately show ?thesis using True by (auto simp: zslIsInRange_def filter_empty_conv)
next
  case False
  have sh: "sorted_wrt (<) xs" "length ns = Suc (length xs)" "ns ! 0 = header z" using rep by (simp_all add: zsl_rep_def shape_ok_def)
  have l: "length xs - 1 < length xs" "0 < length xs" "0 < length ns" using False sh(2) by auto
  have t: "tail z = Some (ns ! Suc (length xs - 1))" using rep False by (simp add: zsl_rep_def)
  obtain n where n: "zheap z (ns ! Suc (length xs - 1)) = Some n" "z_score n = fst (xs ! (length xs - 1))" using zsl_rep_nodes [OF rep l(1)] by metis
  obtain n0 where n0: "zheap z (ns ! Suc 0) = Some n0" "z_score n0 = fst (xs ! 0)" using zsl_rep_nodes [OF rep l(2)] by metis
  obtain sp where nx: "znode_level (zheap z) (header z) 0 = Some (Some (ns ! Suc 0), sp)"
    using zsl_rep_next [OF rep l(3)] l(2) sh(3) by auto
  note g = zrange_nth(1) [OF sh(1) l(1), of spec] and h = zrange_nth(2) [OF sh(1) l(2), of spec] and f = zrange_filter(1) [OF sh(1), of spec]
  show ?thesis
  proof (cases "zslValueGteMin (fst (xs ! (length xs - 1))) spec \<and> zslValueLteMax (fst (xs ! 0)) spec")
    case True
    moreover have "below_zrange spec xs < length xs" "0 < upto_zrange spec xs" using True g h l by linarith+
    ultimately show ?thesis using False t n n0 nx by (auto simp: zslIsInRange_def)
  next
    case c: False
    then have "filter (in_zrange spec) xs = []" using f g h by auto
    moreover have "zslIsInRange z spec = Some False" using False c t n n0 nx by (auto simp: zslIsInRange_def)
    ultimately show ?thesis by blast
  qed
qed

lemma zslFirstInRange_rep:
  assumes rep: "zsl_rep z ns xs"
  shows "\<exists>r. zslFirstInRange z spec = Some r \<and>
    (case r of None \<Rightarrow> filter (in_zrange spec) xs = []
     | Some x \<Rightarrow> filter (in_zrange spec) xs \<noteq> [] \<and> (x, List.hd (filter (in_zrange spec) xs)) \<in> zassoc ns xs)"
  using zslIsInRange_rep [OF rep, of spec]
proof (elim disjE conjE)
  let ?m = "below_zrange spec xs"
  have sh: "shape_ok z ns" "sorted_wrt (<) xs" "length ns = Suc (length xs)" using rep by (simp_all add: zsl_rep_def)
  assume r: "zslIsInRange z spec = Some True" "?m < length xs"
  then have m: "?m < length ns" using sh(3) by simp
  obtain us where us: "zsl_descend (\<lambda>_ n. \<not> zslValueGteMin (z_score n) spec) (zheap z) (zlevel z) (header z) 0 = Some us"
    "us ! 0 = (ns ! ?m, int ?m)" using shape_descend [OF sh(1) m zsl_rep_range_cuts(1) [OF rep]] .
  obtain sp where nx: "znode_level (zheap z) (ns ! ?m) 0 = Some (Some (ns ! Suc ?m), sp)" using zsl_rep_next [OF rep m] r(2) by auto
  obtain n where n: "zheap z (ns ! Suc ?m) = Some n" "z_score n = fst (xs ! ?m)" using zsl_rep_nodes [OF rep r(2)] by metis
  have run: "zslFirstInRange z spec = Some (if zslValueLteMax (fst (xs ! ?m)) spec then Some (ns ! Suc ?m) else None)"
    using r(1) us nx n by (simp add: zslFirstInRange_def)
  note f = zrange_filter(1) [OF sh(2), of spec] and b = zrange_nth(2) [OF sh(2) r(2), of spec]
  show ?thesis
  proof (cases "?m < upto_zrange spec xs")
    case True
    then have "?m < length (take (upto_zrange spec xs) xs)" using r(2) by simp
    then have "filter (in_zrange spec) xs \<noteq> []" "List.hd (filter (in_zrange spec) xs) = xs ! ?m" unfolding f using True by (simp_all add: hd_drop_conv_nth)
    moreover have "(ns ! Suc ?m, xs ! ?m) \<in> zassoc ns xs" unfolding zassoc_iff [OF sh(3)] using r(2) by blast
    ultimately show ?thesis using run b True by simp
  next
    case False
    then show ?thesis using run b f by simp
  qed
qed (simp add: zslFirstInRange_def)

lemma zslLastInRange_rep:
  assumes rep: "zsl_rep z ns xs"
  shows "\<exists>r. zslLastInRange z spec = Some r \<and>
    (case r of None \<Rightarrow> filter (in_zrange spec) xs = []
     | Some x \<Rightarrow> filter (in_zrange spec) xs \<noteq> [] \<and> (x, last (filter (in_zrange spec) xs)) \<in> zassoc ns xs)"
  using zslIsInRange_rep [OF rep, of spec]
proof (elim disjE conjE)
  let ?l = "upto_zrange spec xs"
  have sh: "shape_ok z ns" "sorted_wrt (<) xs" "length ns = Suc (length xs)" using rep by (simp_all add: zsl_rep_def)
  assume r: "zslIsInRange z spec = Some True" "0 < ?l"
  have l: "?l < length ns" "?l - 1 < length xs" "Suc (?l - 1) = ?l" using sh(3) zrange_le(2) [of spec xs] r(2) by auto
  obtain us where us: "zsl_descend (\<lambda>_ n. zslValueLteMax (z_score n) spec) (zheap z) (zlevel z) (header z) 0 = Some us"
    "us ! 0 = (ns ! ?l, int ?l)" using shape_descend [OF sh(1) l(1) zsl_rep_range_cuts(2) [OF rep]] .
  obtain n where n: "zheap z (ns ! ?l) = Some n" "z_score n = fst (xs ! (?l - 1))" using zsl_rep_nodes [OF rep l(2)] l(3) by metis
  have run: "zslLastInRange z spec = Some (if zslValueGteMin (fst (xs ! (?l - 1))) spec then Some (ns ! ?l) else None)"
    using r(1) us n by (simp add: zslLastInRange_def)
  note f = zrange_filter(1) [OF sh(2), of spec] and b = zrange_nth(1) [OF sh(2) l(2), of spec]
  show ?thesis
  proof (cases "below_zrange spec xs \<le> ?l - 1")
    case True
    then have "below_zrange spec xs < length (take ?l xs)" "take ?l xs \<noteq> []" "length (take ?l xs) = ?l"
      using r(2) l zrange_le(2) [of spec xs] by auto
    then have "filter (in_zrange spec) xs \<noteq> []" "last (filter (in_zrange spec) xs) = xs ! (?l - 1)"
      unfolding f using r(2) by (simp_all add: last_conv_nth)
    moreover have "(ns ! ?l, xs ! (?l - 1)) \<in> zassoc ns xs" unfolding zassoc_iff [OF sh(3)] using l(2,3) by metis
    ultimately show ?thesis using run b True by simp
  next
    case False
    then show ?thesis using run b f by simp
  qed
qed (simp add: zslLastInRange_def)

lemma zslCreate_rep: "zsl_rep (zslCreate a) [a] []"
  by (auto simp: zsl_rep_def shape_ok_def zslCreate_def zslCreateNode_def ZSKIPLIST_MAXLEVEL_def height_def levels_ok_def next_ok_def
      znode_level_def split: if_splits)

section \<open>Properties\<close>

lemma strict_sorted_unique: "sorted_wrt (<) xs \<Longrightarrow> sorted_wrt (<) ys \<Longrightarrow> set xs = set ys \<Longrightarrow> xs = (ys :: 'a :: linorder list)"
  by (meson sorted_distinct_set_unique strict_sorted_iff)

lemma insert_key_insort:
  assumes "sorted_wrt (<) xs" "k \<notin> set xs"
  shows "insert_key (keys_below k xs) k xs = insort k xs"
proof (rule strict_sorted_unique)
  show "sorted_wrt (<) (insert_key (keys_below k xs) k xs)" by (rule insert_key_sorted [OF assms])
  show "sorted_wrt (<) (insort k xs)" using assms by (simp add: strict_sorted_iff sorted_insort distinct_insort)
  have "keys_below k xs \<le> length xs" by (simp add: keys_below_def length_takeWhile_le)
  then show "set (insert_key (keys_below k xs) k xs) = set (insort k xs)" using insert_key_nth(5) [of _ xs k] by (simp add: set_insort_key)
qed

text \<open>C6: The skip list keeps its shape: after an insertion, with any random level, every level links
  the nodes that have it in ascending order of score and element, every span is the number of nodes
  it jumps over, and the backward pointers, tail, length and top level agree with the list, which
  holds the new pair in its place. Deleting the pair restores the list before.\<close>

theorem zskiplist_wellformed:
  assumes "zsl_rep z ns xs" "a \<notin> dom (zheap z)" "Suc (length xs) < 2 ^ 32" "(s, e) \<notin> set xs"
  shows "\<exists>z' z'' ns' ns''. zslInsert z s e rs a = Some z' \<and> zsl_rep z' ns' (insort (s, e) xs) \<and>
    zslDelete z' s e = Some (z'', True) \<and> zsl_rep z'' ns'' xs"
proof -
  have s: "sorted_wrt (<) xs" using assms(1) by (simp add: zsl_rep_def)
  obtain z' where z': "zslInsert z s e rs a = Some z'" "zsl_rep z' (insert_at (keys_below (s, e) xs) a ns) (insort (s, e) xs)"
    using zslInsert_rep [OF assms, of rs] insert_key_insort [OF s assms(4)] by auto
  let ?xs = "insort (s, e) xs" and ?m = "keys_below (s, e) (insort (s, e) xs)"
  have s': "sorted_wrt (<) ?xs" using z'(2) by (simp add: zsl_rep_def)
  have k: "(s, e) \<in> set ?xs" by (simp add: set_insort_key)
  obtain z'' where z'': "zslDelete z' s e = Some (z'', True)" "zsl_rep z'' (drop_nth (Suc ?m) (insert_at (keys_below (s, e) xs) a ns)) (drop_nth ?m ?xs)"
    using zslDelete_rep(2) [OF z'(2) k refl] by blast
  note p = sorted_keys_below [OF s' k]
  have "drop_nth ?m ?xs = xs"
  proof (rule strict_sorted_unique [OF _ s])
    show "sorted_wrt (<) (drop_nth ?m ?xs)" using z''(2) by (simp add: zsl_rep_def)
    show "set (drop_nth ?m ?xs) = set xs"
      using set_drop_nth [OF strict_sorted_distinct [OF s'] p(1)] p(2) assms(4) by (simp add: set_insort_key)
  qed
  then show ?thesis using z' z'' by auto
qed

definition demo_zsl :: "int zskiplist" where
  "demo_zsl = the (zslInsert (zslCreate 0) 5 [97] [0, 60000] 1)"

lemma demo_zsl_rep: "zsl_rep demo_zsl [0, 1] [(5, [97])]" "dom (zheap demo_zsl) = {0, 1}"
proof -
  have d: "dom (zheap (zslCreate 0 :: int zskiplist)) = {0}" by (simp add: zslCreate_def)
  have m: "keys_below (5 :: int, [97]) [] = 0" by (simp add: keys_below_def)
  have "\<exists>z'. zslInsert (zslCreate 0 :: int zskiplist) 5 [97] [0, 60000] 1 = Some z' \<and> header z' = header (zslCreate 0 :: int zskiplist) \<and>
      dom (zheap z') = insert 1 (dom (zheap (zslCreate 0 :: int zskiplist))) \<and>
      zsl_rep z' (insert_at (keys_below (5 :: int, [97]) []) 1 [0]) (insert_key (keys_below (5 :: int, [97]) []) (5, [97]) [])"
    by (rule zslInsert_rep [OF zslCreate_rep]) (simp_all add: d)
  then obtain z' where z': "zslInsert (zslCreate 0 :: int zskiplist) 5 [97] [0, 60000] 1 = Some z'" "dom (zheap z') = {0, 1}"
    "zsl_rep z' [0, 1] [(5, [97])]" unfolding m d by (auto simp: insert_at_def insert_key_def)
  have "demo_zsl = z'" unfolding demo_zsl_def z'(1) by simp
  then show "zsl_rep demo_zsl [0, 1] [(5, [97])]" "dom (zheap demo_zsl) = {0, 1}" using z'(2,3) by simp_all
qed

theorem zskiplist_wellformed_witness:
  "\<exists>z' z'' ns' ns''. zslInsert demo_zsl 3 [98] [60000] 2 = Some z' \<and> zsl_rep z' ns' [(3, [98]), (5, [97])] \<and>
    zslDelete z' 3 [98] = Some (z'', True) \<and> zsl_rep z'' ns'' [(5, [97])]"
  using zskiplist_wellformed [OF demo_zsl_rep(1), of 2 3 "[98]" "[60000]"] demo_zsl_rep(2) by simp

end
