(* ===== verification/Zset.thy ===== *)
theory Zset
  imports Interfaces Skiplist
begin

text \<open>
  Sorted sets in the encoding with a dictionary and a skip list (\<^verbatim>\<open>t_zset.c\<close>). An entry of the
  dictionary points to the score inside the node of the skip list, so an entry is the address of a
  node here, and its value is what the heap of the skip list has there. The dictionary is the list
  of its entries: \<open>Dict\<close> shows that the hash table behaves as a finite map, resizing included. Scores are any linear order,
  the addition of scores (which may give NaN, \<open>None\<close>) is an argument.
\<close>

section \<open>Sorted set objects\<close>

record 'd zset =
  zs_dict :: "(bytes \<times> nat) list"
  zs_zsl :: "'d zskiplist"

definition createZsetObject :: "nat \<Rightarrow> 'd :: zero zset" where
  "createZsetObject a = \<lparr>zs_dict = [], zs_zsl = zslCreate a\<rparr>"

definition zsetLength :: "'d zset \<Rightarrow> int" where
  "zsetLength zs = int (zlength (zs_zsl zs))"

text \<open>The score that an entry of the dictionary points to.\<close>

definition entry_score :: "'d zset \<Rightarrow> nat \<Rightarrow> 'd option" where
  "entry_score zs a = map_option z_score (zheap (zs_zsl zs) a)"

definition zsetScore :: "'d zset \<Rightarrow> bytes \<Rightarrow> 'd option option" where
  "zsetScore zs member =
     (case map_of (zs_dict zs) member of
        None \<Rightarrow> Some None
      | Some a \<Rightarrow> map_option Some (entry_score zs a))"

text \<open>The flags that \<^verbatim>\<open>zsetAdd\<close> answers with, of which at most one is set, and its return value: the
  boolean is false for an error. The last component is what is stored through \<^verbatim>\<open>newscore\<close>.\<close>

datatype zadd_flag = ZADD_NONE | ZADD_NAN | ZADD_NOP | ZADD_ADDED | ZADD_UPDATED

type_synonym 'd zadd_result = "'d zset \<times> bool \<times> zadd_flag \<times> 'd option"

definition zset_update ::
  "('d \<Rightarrow> 'd \<Rightarrow> 'd option) \<Rightarrow> 'd :: linorder zset \<Rightarrow> 'd \<Rightarrow> bytes \<Rightarrow> bool \<Rightarrow> nat \<Rightarrow> nat list \<Rightarrow> nat \<Rightarrow> 'd zadd_result option" where
  "zset_update fadd zs score ele incr de rs a = do {
     curscore \<leftarrow> entry_score zs de;
     case (if incr then fadd score curscore else Some score) of
       None \<Rightarrow> Some (zs, False, ZADD_NAN, None)
     | Some score \<Rightarrow>
         let newscore = (if incr then Some score else None) in
         if score \<noteq> curscore then do {
           (zsl, znode) \<leftarrow> zslUpdateScore (zs_zsl zs) curscore ele score rs a;
           Some (zs\<lparr>zs_dict := AList.update ele znode (zs_dict zs), zs_zsl := zsl\<rparr>, True, ZADD_UPDATED, newscore)
         } else Some (zs, True, ZADD_NONE, newscore)
   }"

definition zset_add_skiplist ::
  "('d \<Rightarrow> 'd \<Rightarrow> 'd option) \<Rightarrow> 'd :: linorder zset \<Rightarrow> 'd \<Rightarrow> bytes \<Rightarrow> bool \<Rightarrow> bool \<Rightarrow> bool \<Rightarrow> nat list \<Rightarrow> nat \<Rightarrow> 'd zadd_result option" where
  "zset_add_skiplist fadd zs score ele incr nx xx rs a =
     (case map_of (zs_dict zs) ele of
        Some de \<Rightarrow>
          if nx then Some (zs, True, ZADD_NOP, None) else zset_update fadd zs score ele incr de rs a
      | None \<Rightarrow>
          if \<not> xx then do {
            zsl \<leftarrow> zslInsert (zs_zsl zs) score ele rs a;
            Some (zs\<lparr>zs_dict := AList.update ele a (zs_dict zs), zs_zsl := zsl\<rparr>, True, ZADD_ADDED, Some score)
          } else Some (zs, True, ZADD_NOP, None))"

text \<open>A score that is not a number is \<open>None\<close>.\<close>

definition zsetAdd ::
  "('d \<Rightarrow> 'd \<Rightarrow> 'd option) \<Rightarrow> 'd :: linorder zset \<Rightarrow> 'd option \<Rightarrow> bytes \<Rightarrow> bool \<Rightarrow> bool \<Rightarrow> bool \<Rightarrow> nat list \<Rightarrow> nat \<Rightarrow> 'd zadd_result option" where
  "zsetAdd fadd zs score ele incr nx xx rs a =
     (case score of
        None \<Rightarrow> Some (zs, False, ZADD_NAN, None)
      | Some score \<Rightarrow> zset_add_skiplist fadd zs score ele incr nx xx rs a)"

text \<open>The assertion that the element is in the skip list is a failure here.\<close>

definition zsetDel :: "'d :: linorder zset \<Rightarrow> bytes \<Rightarrow> ('d zset \<times> bool) option" where
  "zsetDel zs ele =
     (case map_of (zs_dict zs) ele of
        None \<Rightarrow> Some (zs, False)
      | Some de \<Rightarrow> do {
          score \<leftarrow> entry_score zs de;
          (zsl, retval) \<leftarrow> zslDelete (zs_zsl zs) score ele;
          if retval then Some (zs\<lparr>zs_dict := AList.delete ele (zs_dict zs), zs_zsl := zsl\<rparr>, True) else None
        })"

definition zsetRank :: "'d :: linorder zset \<Rightarrow> bytes \<Rightarrow> bool \<Rightarrow> int option" where
  "zsetRank zs ele reverse =
     (case map_of (zs_dict zs) ele of
        None \<Rightarrow> Some (- 1)
      | Some de \<Rightarrow> do {
          score \<leftarrow> entry_score zs de;
          rank \<leftarrow> zslGetRank (zs_zsl zs) score ele;
          if rank = 0 then None else Some (if reverse then zsetLength zs - rank else rank - 1)
        })"

section \<open>Ranges\<close>

text \<open>The range of indexes that a command asks for, if it is not empty.\<close>

definition sanitize_range :: "int \<Rightarrow> int \<Rightarrow> int \<Rightarrow> (int \<times> int) option" where
  "sanitize_range llen start stop =
     (let start = (if start < 0 then llen + start else start);
          stop = (if stop < 0 then llen + stop else stop);
          start = (if start < 0 then 0 else start)
      in if start > stop \<or> start \<ge> llen then None
         else Some (start, if stop \<ge> llen then llen - 1 else stop))"

definition zsl_step :: "bool \<Rightarrow> 'd zheap \<Rightarrow> nat \<Rightarrow> nat option option" where
  "zsl_step reverse h x =
     (if reverse then map_option z_backward (h x) else map_option fst (znode_level h x 0))"

text \<open>The loop that emits a number of elements; that a node is missing fails an assertion.\<close>

primrec zrange_emit :: "bool \<Rightarrow> 'd zheap \<Rightarrow> nat \<Rightarrow> nat option \<Rightarrow> (bytes \<times> 'd) list option" where
  "zrange_emit reverse h 0 ln = Some []"
| "zrange_emit reverse h (Suc k) ln = do {
     x \<leftarrow> ln;
     n \<leftarrow> h x;
     ele \<leftarrow> z_ele n;
     nxt \<leftarrow> zsl_step reverse h x;
     rest \<leftarrow> zrange_emit reverse h k nxt;
     Some ((ele, z_score n) # rest)
   }"

definition zrange_start :: "'d zskiplist \<Rightarrow> int \<Rightarrow> int \<Rightarrow> bool \<Rightarrow> nat option option" where
  "zrange_start zsl llen start reverse =
     (if reverse then (if start > 0 then zslGetElementByRank zsl (llen - start) else Some (tail zsl))
      else if start > 0 then zslGetElementByRank zsl (start + 1)
      else map_option fst (znode_level (zheap zsl) (header zsl) 0))"

definition zrangeGeneric :: "'d zset \<Rightarrow> int \<Rightarrow> int \<Rightarrow> bool \<Rightarrow> (bytes \<times> 'd) list option" where
  "zrangeGeneric zs start stop reverse =
     (case sanitize_range (zsetLength zs) start stop of
        None \<Rightarrow> Some []
      | Some (start, stop) \<Rightarrow> do {
          ln \<leftarrow> zrange_start (zs_zsl zs) (zsetLength zs) start reverse;
          zrange_emit reverse (zheap (zs_zsl zs)) (nat (stop - start + 1)) ln
        })"

text \<open>A negative offset or limit never reaches zero.\<close>

partial_function (option) zrange_skip :: "bool \<Rightarrow> 'd zheap \<Rightarrow> int \<Rightarrow> nat option \<Rightarrow> nat option option" where
  "zrange_skip reverse h offset ln =
     (case ln of
        None \<Rightarrow> Some None
      | Some x \<Rightarrow>
          if offset = 0 then Some ln
          else Option.bind (zsl_step reverse h x) (zrange_skip reverse h (offset - 1)))"

partial_function (option) zrange_limited ::
  "('d \<Rightarrow> bool) \<Rightarrow> bool \<Rightarrow> 'd zheap \<Rightarrow> int \<Rightarrow> nat option \<Rightarrow> (bytes \<times> 'd) list option" where
  "zrange_limited inr reverse h limit ln =
     (case ln of
        None \<Rightarrow> Some []
      | Some x \<Rightarrow>
          if limit = 0 then Some []
          else Option.bind (h x) (\<lambda>n.
            if \<not> inr (z_score n) then Some []
            else Option.bind (z_ele n) (\<lambda>ele.
              Option.bind (zsl_step reverse h x) (\<lambda>nxt.
                Option.bind (zrange_limited inr reverse h (limit - 1) nxt) (\<lambda>rest.
                  Some ((ele, z_score n) # rest))))))"

declare zrange_skip.simps [code] zrange_limited.simps [code]

definition zrangebyscoreGeneric ::
  "'d :: linorder zset \<Rightarrow> 'd zrangespec \<Rightarrow> int \<Rightarrow> int \<Rightarrow> bool \<Rightarrow> (bytes \<times> 'd) list option" where
  "zrangebyscoreGeneric zs spec offset limit reverse = do {
     ln \<leftarrow> (if reverse then zslLastInRange (zs_zsl zs) spec else zslFirstInRange (zs_zsl zs) spec);
     ln \<leftarrow> zrange_skip reverse (zheap (zs_zsl zs)) offset ln;
     zrange_limited (\<lambda>s. if reverse then zslValueGteMin s spec else zslValueLteMax s spec) reverse (zheap (zs_zsl zs)) limit ln
   }"

definition node_rank :: "'d :: linorder zskiplist \<Rightarrow> nat \<Rightarrow> int option" where
  "node_rank zsl zn = do {
     n \<leftarrow> zheap zsl zn;
     ele \<leftarrow> z_ele n;
     zslGetRank zsl (z_score n) ele
   }"

text \<open>The count is an unsigned 64 bit number.\<close>

definition zcount :: "'d :: linorder zset \<Rightarrow> 'd zrangespec \<Rightarrow> int option" where
  "zcount zs spec = do {
     zn \<leftarrow> zslFirstInRange (zs_zsl zs) spec;
     case zn of
       None \<Rightarrow> Some 0
     | Some x \<Rightarrow> do {
         rank \<leftarrow> node_rank (zs_zsl zs) x;
         let count = (zsetLength zs - (rank - 1)) mod 2 ^ 64;
         zn \<leftarrow> zslLastInRange (zs_zsl zs) spec;
         case zn of
           None \<Rightarrow> Some count
         | Some y \<Rightarrow> do {
             rank \<leftarrow> node_rank (zs_zsl zs) y;
             Some ((count - (zsetLength zs - rank)) mod 2 ^ 64)
           }
       }
   }"

text \<open>Removal of a range; the result has the number of removed elements and whether the key is to be
  deleted because none is left.\<close>

definition zremrange_finish :: "'d zset \<Rightarrow> 'd zskiplist \<times> (bytes \<times> nat) list \<times> nat \<Rightarrow> 'd zset \<times> nat \<times> bool" where
  "zremrange_finish zs = (\<lambda>(zsl, d, deleted). (zs\<lparr>zs_zsl := zsl, zs_dict := d\<rparr>, deleted, length d = 0))"

definition zremrangebyrank :: "'d zset \<Rightarrow> int \<Rightarrow> int \<Rightarrow> ('d zset \<times> nat \<times> bool) option" where
  "zremrangebyrank zs start stop =
     (case sanitize_range (zsetLength zs) start stop of
        None \<Rightarrow> Some (zs, 0, False)
      | Some (start, stop) \<Rightarrow> map_option (zremrange_finish zs)
          (zslDeleteRangeByRank (zs_zsl zs) (start + 1) (stop + 1) (zs_dict zs)))"

definition zremrangebyscore :: "'d :: linorder zset \<Rightarrow> 'd zrangespec \<Rightarrow> ('d zset \<times> nat \<times> bool) option" where
  "zremrangebyscore zs spec = map_option (zremrange_finish zs) (zslDeleteRangeByScore (zs_zsl zs) spec (zs_dict zs))"

section \<open>The map of scores\<close>

text \<open>The elements and scores of a sorted set are a map; its nodes and the entries of its dictionary
  agree with it.\<close>

definition zset_nodes :: "'d :: linorder zset \<Rightarrow> (bytes \<rightharpoonup> 'd) \<Rightarrow> nat list \<Rightarrow> ('d \<times> bytes) list \<Rightarrow> bool" where
  "zset_nodes zs m ns xs \<longleftrightarrow> zsl_rep (zs_zsl zs) ns xs \<and> distinct (map fst (zs_dict zs)) \<and>
     (\<forall>e s. m e = Some s \<longleftrightarrow> (\<exists>a. (a, (s, e)) \<in> zassoc ns xs)) \<and>
     (\<forall>e a. map_of (zs_dict zs) e = Some a \<longleftrightarrow> (\<exists>s. (a, (s, e)) \<in> zassoc ns xs))"

definition zset_rep :: "'d :: linorder zset \<Rightarrow> (bytes \<rightharpoonup> 'd) \<Rightarrow> bool" where
  "zset_rep zs m \<longleftrightarrow> (\<exists>ns xs. zset_nodes zs m ns xs)"

text \<open>The elements in the order of their scores, and of their bytes where the scores are equal.\<close>

definition ranking :: "(bytes \<rightharpoonup> 'd :: linorder) \<Rightarrow> ('d \<times> bytes) list" where
  "ranking m = sorted_list_of_set {(s, e). m e = Some s}"

lemma zassoc_set:
  assumes "length ns = Suc (length xs)"
  shows "k \<in> set xs \<longleftrightarrow> (\<exists>a. (a, k) \<in> zassoc ns xs)"
  unfolding zassoc_iff [OF assms] in_set_conv_nth by blast

lemma zset_nodesD:
  assumes "zset_nodes zs m ns xs"
  shows "zsl_rep (zs_zsl zs) ns xs" "length ns = Suc (length xs)" "sorted_wrt (<) xs" "m e = Some s \<longleftrightarrow> (s, e) \<in> set xs"
    "distinct (map snd xs)" "length xs = card (dom m)" "ranking m = xs" "zsetLength zs = int (length xs)"
proof -
  show rep: "zsl_rep (zs_zsl zs) ns xs" using assms by (simp add: zset_nodes_def)
  then show l: "length ns = Suc (length xs)" and s: "sorted_wrt (<) xs" by (simp_all add: zsl_rep_def)
  show iff: "m e = Some s \<longleftrightarrow> (s, e) \<in> set xs" for e s using assms zassoc_set [OF l, of "(s, e)"] by (simp add: zset_nodes_def)
  have "inj_on snd (set xs)" using iff by (auto simp: inj_on_def) (metis option.inject)
  then show d: "distinct (map snd xs)" using strict_sorted_distinct [OF s] by (simp add: distinct_map)
  have "dom m = set (map snd xs)" using iff by force
  then show "length xs = card (dom m)" using distinct_card [OF d] by simp
  have "{(s, e). m e = Some s} = set xs" using iff by auto
  then show "ranking m = xs" unfolding ranking_def using sorted_list_of_set.idem_if_sorted_distinct [of xs] s
    by (simp add: strict_sorted_iff)
  show "zsetLength zs = int (length xs)" using rep by (simp add: zsl_rep_def shape_ok_def zsetLength_def)
qed

lemma zset_entry:
  assumes "zset_nodes zs m ns xs"
  shows "map_of (zs_dict zs) e = None \<longleftrightarrow> m e = None"
    and "map_of (zs_dict zs) e = Some a \<Longrightarrow> \<exists>s. m e = Some s \<and> (a, (s, e)) \<in> zassoc ns xs \<and> entry_score zs a = Some s"
proof -
  show "map_of (zs_dict zs) e = None \<longleftrightarrow> m e = None" using assms unfolding zset_nodes_def by (metis not_None_eq)
  assume "map_of (zs_dict zs) e = Some a"
  then obtain s where s: "(a, (s, e)) \<in> zassoc ns xs" "m e = Some s" using assms unfolding zset_nodes_def by blast
  obtain n where "zheap (zs_zsl zs) a = Some n" "node_key n = (s, e)"
    using zsl_rep_node [OF zset_nodesD(1) [OF assms] s(1)] by blast
  then show "\<exists>s. m e = Some s \<and> (a, (s, e)) \<in> zassoc ns xs \<and> entry_score zs a = Some s"
    using s by (auto simp: entry_score_def node_key_def)
qed

lemma zset_rep_finite: "zset_rep zs m \<Longrightarrow> finite (dom m)"
proof -
  assume "zset_rep zs m"
  then obtain ns xs where n: "zset_nodes zs m ns xs" by (auto simp: zset_rep_def)
  have "dom m \<subseteq> snd ` set xs" using zset_nodesD(4) [OF n] by force
  then show ?thesis using finite_subset by blast
qed

lemma createZsetObject_rep: "zset_rep (createZsetObject a) Map.empty"
  unfolding zset_rep_def zset_nodes_def
  by (intro exI [of _ "[a]"] exI [of _ "[]"]) (simp add: createZsetObject_def zslCreate_rep zassoc_def)

lemma zsetScore_rep: "zset_rep zs m \<Longrightarrow> zsetScore zs e = Some (m e)"
  unfolding zset_rep_def using zset_entry by (fastforce simp: zsetScore_def split: option.split)

lemma zset_same_entry:
  assumes "zset_nodes zs m ns xs" "(x, (c, e)) \<in> zassoc ns xs" "(y, (t, e)) \<in> zassoc ns xs"
  shows "y = x" "t = c"
  using assms unfolding zset_nodes_def by (metis option.inject)+

text \<open>Replacing the node of an element.\<close>

lemma zset_nodes_replace:
  assumes n: "zset_nodes zs m ns xs" and x: "(x, (c, e)) \<in> zassoc ns xs" and r: "zsl_rep z' ns' xs'"
    and a: "zassoc ns' xs' = insert (x', (s, e)) (zassoc ns xs - {(x, (c, e))})"
  shows "zset_nodes (zs\<lparr>zs_dict := AList.update e x' (zs_dict zs), zs_zsl := z'\<rparr>) (m(e \<mapsto> s)) ns' xs'"
proof -
  note same = zset_same_entry [OF n x]
  have "(\<exists>b. (b, (t, e')) \<in> zassoc ns' xs') \<longleftrightarrow> (m(e \<mapsto> s)) e' = Some t" for e' t
  proof (cases "e' = e")
    case True
    then show ?thesis unfolding a using same by auto
  next
    case False
    then show ?thesis unfolding a using n by (simp add: zset_nodes_def)
  qed
  moreover have "(\<exists>t. (b, (t, e')) \<in> zassoc ns' xs') \<longleftrightarrow> map_of (AList.update e x' (zs_dict zs)) e' = Some b" for e' b
  proof (cases "e' = e")
    case True
    then show ?thesis unfolding a update_conv' using same by auto
  next
    case False
    then show ?thesis unfolding a update_conv' using n by (simp add: zset_nodes_def)
  qed
  ultimately show ?thesis using r n by (simp add: zset_nodes_def AList.distinct_update)
qed

lemma zset_nodes_new:
  assumes n: "zset_nodes zs m ns xs" and e: "m e = None" and r: "zsl_rep z' ns' xs'"
    and a: "zassoc ns' xs' = insert (x, (s, e)) (zassoc ns xs)"
  shows "zset_nodes (zs\<lparr>zs_dict := AList.update e x (zs_dict zs), zs_zsl := z'\<rparr>) (m(e \<mapsto> s)) ns' xs'"
proof -
  have no: "(b, (t, e)) \<notin> zassoc ns xs" for b t using n e unfolding zset_nodes_def by (metis option.distinct(1))
  have "(\<exists>b. (b, (t, e')) \<in> zassoc ns' xs') \<longleftrightarrow> (m(e \<mapsto> s)) e' = Some t" for e' t
    unfolding a using no n by (cases "e' = e") (auto simp: zset_nodes_def)
  moreover have "(\<exists>t. (b, (t, e')) \<in> zassoc ns' xs') \<longleftrightarrow> map_of (AList.update e x (zs_dict zs)) e' = Some b" for e' b
    unfolding a update_conv' using no n by (cases "e' = e") (auto simp: zset_nodes_def)
  ultimately show ?thesis using r n by (simp add: zset_nodes_def AList.distinct_update)
qed

lemma zset_nodes_del:
  assumes n: "zset_nodes zs m ns xs" and x: "(x, (c, e)) \<in> zassoc ns xs" and r: "zsl_rep z' ns' xs'"
    and a: "zassoc ns' xs' = zassoc ns xs - {(x, (c, e))}"
  shows "zset_nodes (zs\<lparr>zs_dict := AList.delete e (zs_dict zs), zs_zsl := z'\<rparr>) (m(e := None)) ns' xs'"
proof -
  note same = zset_same_entry [OF n x]
  have "(\<exists>b. (b, (t, e')) \<in> zassoc ns' xs') \<longleftrightarrow> (m(e := None)) e' = Some t" for e' t
  proof (cases "e' = e")
    case True
    then show ?thesis unfolding a using same by auto
  next
    case False
    then show ?thesis unfolding a using n by (simp add: zset_nodes_def)
  qed
  moreover have "(\<exists>t. (b, (t, e')) \<in> zassoc ns' xs') \<longleftrightarrow> map_of (AList.delete e (zs_dict zs)) e' = Some b" for e' b
  proof (cases "e' = e")
    case True
    then show ?thesis unfolding a delete_conv' using same by auto
  next
    case False
    then show ?thesis unfolding a delete_conv' using n by (simp add: zset_nodes_def)
  qed
  ultimately show ?thesis using r n by (simp add: zset_nodes_def AList.distinct_delete)
qed

section \<open>Operations on the map\<close>

text \<open>What adding does to the map, with the answer of every branch.\<close>

definition add_spec ::
  "('d \<Rightarrow> 'd \<Rightarrow> 'd option) \<Rightarrow> (bytes \<rightharpoonup> 'd) \<Rightarrow> 'd option \<Rightarrow> bytes \<Rightarrow> bool \<Rightarrow> bool \<Rightarrow> bool \<Rightarrow>
    (bytes \<rightharpoonup> 'd) \<times> bool \<times> zadd_flag \<times> 'd option" where
  "add_spec fadd m score e incr nx xx =
     (case score of
        None \<Rightarrow> (m, False, ZADD_NAN, None)
      | Some s \<Rightarrow>
          (case m e of
             None \<Rightarrow> if xx then (m, True, ZADD_NOP, None) else (m(e \<mapsto> s), True, ZADD_ADDED, Some s)
           | Some c \<Rightarrow>
               if nx then (m, True, ZADD_NOP, None)
               else (case if incr then fadd s c else Some s of
                       None \<Rightarrow> (m, False, ZADD_NAN, None)
                     | Some t \<Rightarrow> (m(e \<mapsto> t), True, if t \<noteq> c then ZADD_UPDATED else ZADD_NONE, if incr then Some t else None))))"

definition zs_used :: "'d zset \<Rightarrow> nat set" where
  "zs_used zs = dom (zheap (zs_zsl zs))"

lemma zset_insert_new:
  assumes n: "zset_nodes zs m ns xs" and e: "m e = None" and a: "a \<notin> zs_used zs" and c: "Suc (card (dom m)) < 2 ^ 32"
  shows "\<exists>z' ns' xs'. zslInsert (zs_zsl zs) s e rs a = Some z' \<and> dom (zheap z') = insert a (zs_used zs) \<and>
    zset_nodes (zs\<lparr>zs_dict := AList.update e a (zs_dict zs), zs_zsl := z'\<rparr>) (m(e \<mapsto> s)) ns' xs'"
proof -
  note D = zset_nodesD [OF n]
  have "(s, e) \<notin> set xs" using D(4) [of e s] e by simp
  moreover have "Suc (length xs) < 2 ^ 32" using D(6) c by simp
  ultimately obtain z' where z': "zslInsert (zs_zsl zs) s e rs a = Some z'" "dom (zheap z') = insert a (zs_used zs)"
    "zsl_rep z' (insert_at (keys_below (s, e) xs) a ns) (insert_key (keys_below (s, e) xs) (s, e) xs)"
    using zslInsert_rep [OF D(1), of a s e rs] a unfolding zs_used_def by blast
  have "keys_below (s, e) xs \<le> length xs" by (simp add: keys_below_def length_takeWhile_le)
  then show ?thesis using zset_nodes_new [OF n e z'(3)] zassoc_insert [OF D(2)] z'(1,2) by blast
qed

lemma zset_update_rep:
  assumes n: "zset_nodes zs m ns xs" and x: "map_of (zs_dict zs) e = Some x" and mc: "m e = Some c"
    and a: "a \<notin> zs_used zs" and card: "card (dom m) < 2 ^ 32" and t: "(if incr then fadd s c else Some s) = Some t"
  shows "\<exists>zs'. zset_update fadd zs s e incr x rs a =
      Some (zs', True, if t \<noteq> c then ZADD_UPDATED else ZADD_NONE, if incr then Some t else None) \<and>
    zset_rep zs' (m(e \<mapsto> t)) \<and> zs_used zs' \<subseteq> insert a (zs_used zs)"
proof -
  note D = zset_nodesD [OF n]
  have xc: "(x, (c, e)) \<in> zassoc ns xs" "entry_score zs x = Some c" using zset_entry(2) [OF n x] mc by auto
  show ?thesis
  proof (cases "t = c")
    case True
    then have "zset_update fadd zs s e incr x rs a = Some (zs, True, ZADD_NONE, if incr then Some t else None)"
      using xc(2) t by (simp add: zset_update_def)
    moreover have "m(e \<mapsto> t) = m" using mc True by auto
    ultimately show ?thesis using n True by (auto simp: zset_rep_def)
  next
    case False
    have "t = c" if "(t, e) \<in> set xs" using D(4) [of e t] that mc by simp
    moreover have "length xs < 2 ^ 32" using D(6) card by simp
    ultimately obtain z' x' ns' xs' where u: "zslUpdateScore (zs_zsl zs) c e t rs a = Some (z', x')" "zsl_rep z' ns' xs'"
      "zassoc ns' xs' = insert (x', (t, e)) (zassoc ns xs - {(x, (c, e))})" "dom (zheap z') \<subseteq> insert a (zs_used zs)"
      using zslUpdateScore_rep [OF D(1) xc(1), of t a rs] a unfolding zs_used_def by blast
    let ?zs = "zs\<lparr>zs_dict := AList.update e x' (zs_dict zs), zs_zsl := z'\<rparr>"
    have "zset_update fadd zs s e incr x rs a = Some (?zs, True, ZADD_UPDATED, if incr then Some t else None)"
      using xc(2) t False u(1) by (simp add: zset_update_def)
    moreover have "zset_rep ?zs (m(e \<mapsto> t))" unfolding zset_rep_def using zset_nodes_replace [OF n xc(1) u(2,3)] by blast
    ultimately show ?thesis using u(4) False by (auto simp: zs_used_def)
  qed
qed

lemma zsetAdd_rep:
  assumes rep: "zset_rep zs m" and a: "a \<notin> zs_used zs" and card: "Suc (card (dom m)) < 2 ^ 32"
  shows "\<exists>zs'. zsetAdd fadd zs score e incr nx xx rs a = Some (zs', snd (add_spec fadd m score e incr nx xx)) \<and>
    zset_rep zs' (fst (add_spec fadd m score e incr nx xx)) \<and> zs_used zs' \<subseteq> insert a (zs_used zs)"
proof -
  obtain ns xs where n: "zset_nodes zs m ns xs" using rep by (auto simp: zset_rep_def)
  note E = zset_entry [OF n, of e]
  show ?thesis
  proof (cases score)
    case None
    then show ?thesis using rep by (auto simp: zsetAdd_def add_spec_def)
  next
    case (Some s)
    show ?thesis
    proof (cases "m e")
      case me: None
      then have d: "map_of (zs_dict zs) e = None" using E(1) by simp
      show ?thesis
      proof (cases xx)
        case True
        then show ?thesis using rep Some me d by (auto simp: zsetAdd_def add_spec_def zset_add_skiplist_def)
      next
        case False
        obtain z' ns' xs' where z': "zslInsert (zs_zsl zs) s e rs a = Some z'" "dom (zheap z') = insert a (zs_used zs)"
          "zset_nodes (zs\<lparr>zs_dict := AList.update e a (zs_dict zs), zs_zsl := z'\<rparr>) (m(e \<mapsto> s)) ns' xs'"
          using zset_insert_new [OF n me a card] by blast
        let ?zs = "zs\<lparr>zs_dict := AList.update e a (zs_dict zs), zs_zsl := z'\<rparr>"
        have "zsetAdd fadd zs score e incr nx xx rs a = Some (?zs, True, ZADD_ADDED, Some s)"
          using Some d False z'(1) by (simp add: zsetAdd_def zset_add_skiplist_def)
        moreover have "zset_rep ?zs (m(e \<mapsto> s))" using z'(3) by (auto simp: zset_rep_def)
        ultimately show ?thesis using Some me False z'(2) by (simp add: add_spec_def zs_used_def)
      qed
    next
      case me: (Some c)
      then obtain x where x: "map_of (zs_dict zs) e = Some x" using E(1) by (cases "map_of (zs_dict zs) e") auto
      then have ec: "entry_score zs x = Some c" using E(2) me by auto
      show ?thesis
      proof (cases "nx \<or> (if incr then fadd s c else Some s) = None")
        case True
        then show ?thesis using rep Some me x ec by (auto simp: zsetAdd_def add_spec_def zset_add_skiplist_def zset_update_def split: option.split if_splits)
      next
        case False
        then obtain t where t: "(if incr then fadd s c else Some s) = Some t" by auto
        show ?thesis
          using zset_update_rep [OF n x me a Suc_lessD [OF card], of incr fadd s t rs] Some me x False t
          by (simp add: zsetAdd_def zset_add_skiplist_def add_spec_def)
      qed
    qed
  qed
qed

lemma zsetDel_rep:
  assumes rep: "zset_rep zs m"
  shows "\<exists>zs'. zsetDel zs e = Some (zs', m e \<noteq> None) \<and> zset_rep zs' (m(e := None)) \<and> zs_used zs' \<subseteq> zs_used zs"
proof -
  obtain ns xs where n: "zset_nodes zs m ns xs" using rep by (auto simp: zset_rep_def)
  note D = zset_nodesD [OF n] and E = zset_entry [OF n, of e]
  show ?thesis
  proof (cases "map_of (zs_dict zs) e")
    case None
    then have "m e = None" using E(1) by simp
    then have "m(e := None) = m" by auto
    then show ?thesis using None rep \<open>m e = None\<close> by (simp add: zsetDel_def)
  next
    case (Some x)
    then obtain c where c: "m e = Some c" "(x, (c, e)) \<in> zassoc ns xs" "entry_score zs x = Some c" using E(2) by blast
    let ?m = "keys_below (c, e) xs"
    have k: "(c, e) \<in> set xs" using D(4) c(1) by blast
    note p = sorted_keys_below [OF D(3) k]
    obtain z' where z': "zslDelete (zs_zsl zs) c e = Some (z', True)" "zsl_rep z' (drop_nth (Suc ?m) ns) (drop_nth ?m xs)"
      "dom (zheap z') \<subseteq> zs_used zs" using zslDelete_rep(2) [OF D(1) k refl] unfolding zs_used_def by blast
    have "(ns ! Suc ?m, (c, e)) \<in> zassoc ns xs" unfolding zassoc_iff [OF D(2)] using p by blast
    then have x: "ns ! Suc ?m = x" using zset_same_entry(1) [OF n c(2)] by blast
    have "distinct ns" using D(1) by (simp add: zsl_rep_def shape_ok_def)
    then have "zassoc (drop_nth (Suc ?m) ns) (drop_nth ?m xs) = zassoc ns xs - {(x, (c, e))}"
      using zassoc_drop [OF D(2) p(1)] x p(2) by simp
    note fin = zset_nodes_del [OF n c(2) z'(2) this]
    let ?zs = "zs\<lparr>zs_dict := AList.delete e (zs_dict zs), zs_zsl := z'\<rparr>"
    have "zsetDel zs e = Some (?zs, True)" using Some c(3) z'(1) by (simp add: zsetDel_def)
    moreover have "zset_rep ?zs (m(e := None))" using fin by (auto simp: zset_rep_def)
    ultimately show ?thesis using c(1) z'(3) by (simp add: zs_used_def)
  qed
qed

section \<open>Walking along the elements\<close>

text \<open>The nodes and the pairs in the direction of a walk, and the pointer to a position.\<close>

definition walk_order :: "bool \<Rightarrow> 'a list \<Rightarrow> 'a list" where
  "walk_order reverse xs = (if reverse then rev xs else xs)"

definition ptr_at :: "nat list \<Rightarrow> nat \<Rightarrow> nat option" where
  "ptr_at N p = (if p < length N then Some (N ! p) else None)"

definition chained :: "bool \<Rightarrow> 'd zheap \<Rightarrow> nat list \<Rightarrow> ('d \<times> bytes) list \<Rightarrow> bool" where
  "chained reverse h N L \<longleftrightarrow> length N = length L \<and>
     (\<forall>p < length L. zsl_step reverse h (N ! p) = Some (ptr_at N (Suc p)) \<and>
        (\<exists>n. h (N ! p) = Some n \<and> z_ele n = Some (snd (L ! p)) \<and> z_score n = fst (L ! p)))"

lemma length_walk_order [simp]: "length (walk_order r xs) = length xs"
  by (simp add: walk_order_def)

lemma zsl_rep_chained:
  assumes rep: "zsl_rep z ns xs"
  shows "chained reverse (zheap z) (walk_order reverse (List.tl ns)) (walk_order reverse xs)"
proof -
  have len: "length (List.tl ns) = length xs" "length ns = Suc (length xs)" using rep by (simp_all add: zsl_rep_def)
  have tl: "List.tl ns ! p = ns ! Suc p" if "p < length xs" for p using that len by (simp add: nth_tl)
  have step: "zsl_step reverse (zheap z) (walk_order reverse (List.tl ns) ! p) = Some (ptr_at (walk_order reverse (List.tl ns)) (Suc p)) \<and>
      (\<exists>n. zheap z (walk_order reverse (List.tl ns) ! p) = Some n \<and> z_ele n = Some (snd (walk_order reverse xs ! p)) \<and>
        z_score n = fst (walk_order reverse xs ! p))" if p: "p < length xs" for p
  proof (cases reverse)
    case False
    obtain n where n: "zheap z (ns ! Suc p) = Some n" "z_ele n = Some (snd (xs ! p))" "z_score n = fst (xs ! p)"
      using zsl_rep_nodes [OF rep p] by metis
    have "Suc p < length ns" using p len(2) by simp
    then obtain sp where "znode_level (zheap z) (ns ! Suc p) 0 = Some (if Suc p < length xs then Some (ns ! Suc (Suc p)) else None, sp)"
      using zsl_rep_next [OF rep] by metis
    then show ?thesis using False n p len(1) tl by (simp add: walk_order_def zsl_step_def ptr_at_def)
  next
    case True
    define q where "q = length xs - Suc p"
    have q: "q < length xs" "rev xs ! p = xs ! q" "rev (List.tl ns) ! p = ns ! Suc q" using p len(1) tl by (simp_all add: q_def rev_nth)
    obtain n where n: "zheap z (ns ! Suc q) = Some n" "z_ele n = Some (snd (xs ! q))" "z_score n = fst (xs ! q)"
      "z_backward n = (if q = 0 then None else Some (ns ! q))" using zsl_rep_nodes [OF rep q(1)] by metis
    have "ptr_at (rev (List.tl ns)) (Suc p) = (if q = 0 then None else Some (ns ! q))"
    proof (cases "q = 0")
      case False
      then have "Suc p < length xs" "length xs - Suc (Suc p) = q - 1" "Suc (q - 1) = q" using q(1) by (simp_all add: q_def)
      then show ?thesis using False len(1) tl [of "q - 1"] by (simp add: ptr_at_def rev_nth)
    qed (use p len(1) in \<open>auto simp: q_def ptr_at_def\<close>)
    then show ?thesis using True n q by (simp add: walk_order_def zsl_step_def)
  qed
  then show ?thesis using len(1) by (simp add: chained_def)
qed

lemma ptr_at_end [simp]: "length N \<le> p \<Longrightarrow> ptr_at N p = None"
  by (simp add: ptr_at_def)

lemma chainedE:
  assumes "chained r h N L" "p < length L"
  obtains n where "ptr_at N p = Some (N ! p)" "zsl_step r h (N ! p) = Some (ptr_at N (Suc p))" "h (N ! p) = Some n"
    "z_ele n = Some (snd (L ! p))" "z_score n = fst (L ! p)"
  using assms unfolding chained_def ptr_at_def by metis

lemma zrange_emit_chained:
  assumes "chained r h N L" "p + k \<le> length L"
  shows "zrange_emit r h k (ptr_at N p) = Some (map prod.swap (take k (drop p L)))"
  using assms(2)
proof (induction k arbitrary: p)
  case (Suc k)
  then have p: "p < length L" by simp
  obtain n where n: "ptr_at N p = Some (N ! p)" "zsl_step r h (N ! p) = Some (ptr_at N (Suc p))" "h (N ! p) = Some n"
    "z_ele n = Some (snd (L ! p))" "z_score n = fst (L ! p)" using chainedE [OF assms(1) p] .
  have "zrange_emit r h k (ptr_at N (Suc p)) = Some (map prod.swap (take k (drop (Suc p) L)))" using Suc by simp
  moreover have "take (Suc k) (drop p L) = L ! p # take k (drop (Suc p) L)" using Cons_nth_drop_Suc [OF p] by (metis take_Suc_Cons)
  ultimately show ?case using n by (simp add: prod.swap_def)
qed simp

lemma zrange_skip_chained:
  assumes c: "chained r h N L"
  shows "zrange_skip r h off (ptr_at N p) = Some (if off < 0 then None else ptr_at N (p + nat off))"
proof (induction "length L - p" arbitrary: p off)
  case 0
  then have "length N \<le> p" using c by (simp add: chained_def)
  then have "ptr_at N p = None" "ptr_at N (p + nat off) = None" by simp_all
  then show ?case by (subst zrange_skip.simps) simp
next
  case (Suc k)
  then have p: "p < length L" by simp
  obtain n where n: "ptr_at N p = Some (N ! p)" "zsl_step r h (N ! p) = Some (ptr_at N (Suc p))" using chainedE [OF c p] by metis
  have ih: "zrange_skip r h (off - 1) (ptr_at N (Suc p)) = Some (if off - 1 < 0 then None else ptr_at N (Suc p + nat (off - 1)))"
    using Suc.hyps(1) [of "Suc p" "off - 1"] Suc.hyps(2) by simp
  show ?case
  proof (cases "off = 0")
    case True
    then show ?thesis using n by (subst zrange_skip.simps) simp
  next
    case False
    then have "zrange_skip r h off (ptr_at N p) = zrange_skip r h (off - 1) (ptr_at N (Suc p))"
      using n by (subst zrange_skip.simps) simp
    moreover have "ptr_at N (Suc p + nat (off - 1)) = ptr_at N (p + nat off)" if "\<not> off < 0"
      using that False by (intro arg_cong [where f = "ptr_at N"]) simp
    ultimately show ?thesis using ih False by auto
  qed
qed

text \<open>A negative limit is no limit.\<close>

definition limited :: "int \<Rightarrow> 'a list \<Rightarrow> 'a list" where
  "limited limit xs = (if limit < 0 then xs else take (nat limit) xs)"

lemma zrange_limited_chained:
  assumes c: "chained r h N L"
  shows "zrange_limited P r h limit (ptr_at N p) = Some (map prod.swap (limited limit (takeWhile (\<lambda>k. P (fst k)) (drop p L))))"
proof (induction "length L - p" arbitrary: p limit)
  case 0
  then have "length N \<le> p" using c by (simp add: chained_def)
  then have "ptr_at N p = None" by simp
  then show ?case using 0 by (subst zrange_limited.simps) (simp add: limited_def)
next
  case (Suc k)
  then have p: "p < length L" by simp
  obtain n where n: "ptr_at N p = Some (N ! p)" "zsl_step r h (N ! p) = Some (ptr_at N (Suc p))" "h (N ! p) = Some n"
    "z_ele n = Some (snd (L ! p))" "z_score n = fst (L ! p)" using chainedE [OF c p] .
  have ih: "zrange_limited P r h (limit - 1) (ptr_at N (Suc p))
      = Some (map prod.swap (limited (limit - 1) (takeWhile (\<lambda>k. P (fst k)) (drop (Suc p) L))))"
    using Suc.hyps(1) [of "Suc p"] Suc.hyps(2) by simp
  have dr: "drop p L = L ! p # drop (Suc p) L" using Cons_nth_drop_Suc [OF p] by simp
  show ?case
  proof (cases "limit = 0 \<or> \<not> P (fst (L ! p))")
    case True
    then show ?thesis using n dr by (subst zrange_limited.simps) (auto simp: limited_def)
  next
    case False
    then have "zrange_limited P r h limit (ptr_at N p)
        = Some ((snd (L ! p), fst (L ! p)) # map prod.swap (limited (limit - 1) (takeWhile (\<lambda>k. P (fst k)) (drop (Suc p) L))))"
      using n ih by (subst zrange_limited.simps) simp
    moreover have "limited limit (L ! p # ys) = L ! p # limited (limit - 1) ys" for ys
    proof (cases "0 < limit")
      case True
      then have "nat limit = Suc (nat (limit - 1))" by simp
      then show ?thesis using True by (simp add: limited_def)
    qed (use False in \<open>auto simp: limited_def\<close>)
    ultimately show ?thesis using False dr by (simp add: prod.swap_def)
  qed
qed

section \<open>Ranks and ranges of the map\<close>

text \<open>An index from the command line: negative ones count from the end.\<close>

definition zindex :: "nat \<Rightarrow> int \<Rightarrow> int" where
  "zindex n i = (if i < 0 then int n + i else i)"

definition index_slice :: "int \<Rightarrow> int \<Rightarrow> 'a list \<Rightarrow> 'a list" where
  "index_slice start stop xs = nths xs {p. zindex (length xs) start \<le> int p \<and> int p \<le> zindex (length xs) stop}"

lemma nths_cong_bound: "(\<And>p. p < length xs \<Longrightarrow> p \<in> A \<longleftrightarrow> p \<in> B) \<Longrightarrow> nths xs A = nths xs B"
  unfolding nths_def by (rule arg_cong [where f = "map fst"]) (auto intro!: filter_cong dest: set_zip_rightD)

lemma nths_interval: "nths xs {p. a \<le> p \<and> p < a + k} = take k (drop a xs)"
proof -
  have "(+) a ` {..<k} = {p. a \<le> p \<and> p < a + k}" by (auto simp: image_iff le_iff_add)
  then show ?thesis using nths_drop [of a xs "{..<k}"] nths_upt_eq_take [of "drop a xs" k] by simp
qed

lemma sanitize_slice:
  shows "sanitize_range (int (length xs)) start stop = None \<Longrightarrow> index_slice start stop xs = []"
    and "sanitize_range (int (length xs)) start stop = Some (a, b) \<Longrightarrow>
      0 \<le> a \<and> a \<le> b \<and> b < int (length xs) \<and> index_slice start stop xs = take (nat (b - a + 1)) (drop (nat a) xs)"
proof -
  assume none: "sanitize_range (int (length xs)) start stop = None"
  have no: "p \<notin> {p. zindex (length xs) start \<le> int p \<and> int p \<le> zindex (length xs) stop}" if "p < length xs" for p
    using none that by (auto simp: sanitize_range_def zindex_def Let_def split: if_splits)
  have "index_slice start stop xs = nths xs {}" unfolding index_slice_def by (rule nths_cong_bound) (use no in blast)
  then show "index_slice start stop xs = []" by simp
next
  assume s: "sanitize_range (int (length xs)) start stop = Some (a, b)"
  then have ab: "0 \<le> a" "a \<le> b" "b < int (length xs)"
    by (auto simp: sanitize_range_def Let_def split: if_splits)
  have "index_slice start stop xs = nths xs {p. nat a \<le> p \<and> p < nat a + nat (b - a + 1)}"
    unfolding index_slice_def
  proof (rule nths_cong_bound)
    fix p assume "p < length xs"
    then have "zindex (length xs) start \<le> int p \<and> int p \<le> zindex (length xs) stop \<longleftrightarrow> a \<le> int p \<and> int p \<le> b"
      using s by (auto simp: sanitize_range_def zindex_def Let_def split: if_splits)
    then show "p \<in> {p. zindex (length xs) start \<le> int p \<and> int p \<le> zindex (length xs) stop} \<longleftrightarrow> p \<in> {p. nat a \<le> p \<and> p < nat a + nat (b - a + 1)}"
      using ab by auto
  qed
  then show "0 \<le> a \<and> a \<le> b \<and> b < int (length xs) \<and> index_slice start stop xs = take (nat (b - a + 1)) (drop (nat a) xs)"
    using ab nths_interval by simp
qed

lemma zset_repE:
  assumes "zset_rep zs m"
  obtains ns where "zset_nodes zs m ns (ranking m)"
  using assms zset_nodesD(7) unfolding zset_rep_def by metis

lemma zrange_start_rep:
  assumes rep: "zsl_rep z ns xs" and s: "0 \<le> start" "start < int (length xs)"
  shows "zrange_start z (int (length xs)) start reverse = Some (ptr_at (walk_order reverse (List.tl ns)) (nat start))"
proof -
  have l: "length ns = Suc (length xs)" "ns ! 0 = header z" "length (List.tl ns) = length xs" using rep by (simp_all add: zsl_rep_def shape_ok_def)
  have tl: "List.tl ns ! p = ns ! Suc p" if "p < length xs" for p using that l by (simp add: nth_tl)
  have n: "nat start < length xs" using s by simp
  show ?thesis
  proof (cases reverse)
    case True
    have eq: "rev (List.tl ns) ! nat start = ns ! nat (int (length xs) - start)"
    proof -
      have "rev (List.tl ns) ! nat start = List.tl ns ! (length xs - Suc (nat start))" using n l(3) by (simp add: rev_nth)
      also have "\<dots> = ns ! Suc (length xs - Suc (nat start))" using tl n by simp
      also have "Suc (length xs - Suc (nat start)) = nat (int (length xs) - start)" using n s by linarith
      finally show ?thesis .
    qed
    moreover have "tail z = Some (ns ! length xs)" if "start = 0" using rep that n by (auto simp: zsl_rep_def)
    moreover have "zslGetElementByRank z (int (length xs) - start) = Some (Some (ns ! nat (int (length xs) - start)))"
      using zslGetElementByRank_rep [OF rep, of "int (length xs) - start"] s by simp
    ultimately show ?thesis using True n l(3) s by (auto simp: zrange_start_def walk_order_def ptr_at_def)
  next
    case False
    have "0 < length ns" using l(1) by simp
    then obtain sp where "znode_level (zheap z) (header z) 0 = Some (if 0 < length xs then Some (ns ! Suc 0) else None, sp)"
      using zsl_rep_next [OF rep] l(2) by metis
    moreover have "zslGetElementByRank z (start + 1) = Some (Some (ns ! Suc (nat start)))" if "0 < start"
      using zslGetElementByRank_rep [OF rep, of "start + 1"] s that by (simp add: nat_add_distrib)
    ultimately show ?thesis using False n l(3) s tl by (auto simp: zrange_start_def walk_order_def ptr_at_def)
  qed
qed

lemma zrangeGeneric_rep:
  assumes "zset_rep zs m"
  shows "zrangeGeneric zs start stop reverse = Some (map prod.swap (index_slice start stop (walk_order reverse (ranking m))))"
proof -
  obtain ns where n: "zset_nodes zs m ns (ranking m)" using zset_repE [OF assms] .
  note D = zset_nodesD [OF n] and c = zsl_rep_chained [OF zset_nodesD(1) [OF n], of reverse]
  let ?L = "walk_order reverse (ranking m)"
  show ?thesis
  proof (cases "sanitize_range (int (length ?L)) start stop")
    case None
    then show ?thesis using sanitize_slice(1) [of ?L start stop] D(8) by (simp add: zrangeGeneric_def)
  next
    case (Some ab)
    obtain a b where ab: "ab = (a, b)" by fastforce
    note s = sanitize_slice(2) [of ?L start stop a b, OF Some [unfolded ab]]
    have "zrange_start (zs_zsl zs) (zsetLength zs) a reverse = Some (ptr_at (walk_order reverse (List.tl ns)) (nat a))"
      using zrange_start_rep [OF D(1), of a reverse] s D(8) by simp
    moreover have "zrange_emit reverse (zheap (zs_zsl zs)) (nat (b - a + 1)) (ptr_at (walk_order reverse (List.tl ns)) (nat a))
        = Some (map prod.swap (take (nat (b - a + 1)) (drop (nat a) ?L)))"
    proof (rule zrange_emit_chained [OF c])
      show "nat a + nat (b - a + 1) \<le> length ?L" using s by simp linarith
    qed
    ultimately show ?thesis using Some ab s D(8) by (simp add: zrangeGeneric_def)
  qed
qed

text \<open>The rank of an element is the number of the elements before it, or after it in reverse.\<close>

lemma sorted_position_card:
  fixes xs :: "'a :: linorder list"
  assumes "sorted_wrt (<) xs" "p < length xs"
  shows "card {y \<in> set xs. y < xs ! p} = p" "card {y \<in> set xs. xs ! p < y} = length xs - Suc p"
proof -
  have d: "distinct xs" using strict_sorted_distinct [OF assms(1)] .
  have iff: "xs ! q < xs ! r \<longleftrightarrow> q < r" if "q < length xs" "r < length xs" for q r
    using sorted_wrt_nth_less [OF assms(1)] that by (metis linorder_neqE_nat not_less_iff_gr_or_eq)
  have "{y \<in> set xs. y < xs ! p} = set (take p xs)"
  proof (intro set_eqI iffI)
    fix y assume "y \<in> {y \<in> set xs. y < xs ! p}"
    then obtain q where "q < length xs" "y = xs ! q" "q < p" using iff assms(2) by (auto simp: in_set_conv_nth)
    then have "y = take p xs ! q" "q < length (take p xs)" by simp_all
    then show "y \<in> set (take p xs)" using nth_mem by metis
  qed (use iff assms(2) in \<open>auto simp: in_set_conv_nth intro: less_trans\<close>)
  then show "card {y \<in> set xs. y < xs ! p} = p" using distinct_card [of "take p xs"] d assms(2) by simp
  have "{y \<in> set xs. xs ! p < y} = set (drop (Suc p) xs)"
  proof (intro set_eqI iffI)
    fix y assume "y \<in> {y \<in> set xs. xs ! p < y}"
    then obtain q where "q < length xs" "y = xs ! q" "p < q" using iff assms(2) by (auto simp: in_set_conv_nth)
    then have "y = drop (Suc p) xs ! (q - Suc p)" "q - Suc p < length (drop (Suc p) xs)" by simp_all
    then show "y \<in> set (drop (Suc p) xs)" using nth_mem by metis
  qed (use iff assms(2) in \<open>auto simp: in_set_conv_nth intro!: exI [of _ "Suc (p + _)"]\<close>)
  then show "card {y \<in> set xs. xs ! p < y} = length xs - Suc p" using distinct_card [of "drop (Suc p) xs"] d by simp
qed

definition rank_spec :: "(bytes \<rightharpoonup> 'd :: linorder) \<Rightarrow> bytes \<Rightarrow> bool \<Rightarrow> int" where
  "rank_spec m e reverse =
     (case m e of
        None \<Rightarrow> - 1
      | Some s \<Rightarrow> int (card {(s', e'). m e' = Some s' \<and> (if reverse then (s, e) < (s', e') else (s', e') < (s, e))}))"

lemma zsetRank_rep:
  assumes "zset_rep zs m"
  shows "zsetRank zs e reverse = Some (rank_spec m e reverse)"
proof -
  obtain ns where n: "zset_nodes zs m ns (ranking m)" using zset_repE [OF assms] .
  note D = zset_nodesD [OF n] and E = zset_entry [OF n, of e]
  show ?thesis
  proof (cases "map_of (zs_dict zs) e")
    case None
    then show ?thesis using E(1) by (simp add: zsetRank_def rank_spec_def)
  next
    case (Some x)
    then obtain s where s: "m e = Some s" "entry_score zs x = Some s" using E(2) by blast
    then obtain p where p: "p < length (ranking m)" "ranking m ! p = (s, e)" using D(4) in_set_conv_nth by metis
    have "zslGetRank (zs_zsl zs) s e = Some (int p + 1)" using zslGetRank_rep(1) [OF D(1,5) p] .
    then have run: "zsetRank zs e reverse = Some (if reverse then int (length (ranking m)) - (int p + 1) else int p)"
      using Some s(2) D(8) by (simp add: zsetRank_def)
    have "{(s', e'). m e' = Some s' \<and> (s', e') < (s, e)} = {y \<in> set (ranking m). y < ranking m ! p}"
      "{(s', e'). m e' = Some s' \<and> (s, e) < (s', e')} = {y \<in> set (ranking m). ranking m ! p < y}" using D(4) p(2) by auto
    then show ?thesis using run s(1) sorted_position_card [OF D(3) p(1)] p(1) by (simp add: rank_spec_def del: less_prod_simp)
  qed
qed

text \<open>The first node of a walk over a range of scores, and where the walk leaves the range.\<close>

definition range_from :: "bool \<Rightarrow> 'd :: linorder zrangespec \<Rightarrow> ('d \<times> bytes) list \<Rightarrow> nat" where
  "range_from reverse spec xs = (if reverse then length xs - upto_zrange spec xs else below_zrange spec xs)"

definition range_upto :: "bool \<Rightarrow> 'd :: linorder zrangespec \<Rightarrow> ('d \<times> bytes) list \<Rightarrow> nat" where
  "range_upto reverse spec xs = (if reverse then length xs - below_zrange spec xs else upto_zrange spec xs)"

lemma walk_filter:
  assumes "sorted_wrt (<) xs"
  shows "walk_order reverse (filter (in_zrange spec) xs) = drop (range_from reverse spec xs) (take (range_upto reverse spec xs) (walk_order reverse xs))"
proof (cases reverse)
  case True
  have "rev (drop b (take u xs)) = drop (length xs - u) (take (length xs - b) (rev xs))" if u: "u \<le> length xs" for b u
  proof -
    have l: "length xs - b - (length xs - u) = u - b" "length (take u xs) = u" using u by simp_all
    have "rev (drop b (take u xs)) = take (u - b) (drop (length xs - u) (rev xs))" unfolding rev_drop l(2) rev_take ..
    then show ?thesis unfolding drop_take l(1) .
  qed
  then show ?thesis using True zrange_le(2) [of spec xs] zrange_filter(1) [OF assms, of spec] by (simp add: walk_order_def range_from_def range_upto_def)
next
  case False
  then show ?thesis using zrange_filter(1) [OF assms, of spec] by (simp add: walk_order_def range_from_def range_upto_def)
qed

lemma range_first_node:
  assumes rep: "zsl_rep z ns xs" and nonempty: "filter (in_zrange spec) xs \<noteq> []"
  shows "(if reverse then zslLastInRange z spec else zslFirstInRange z spec)
    = Some (ptr_at (walk_order reverse (List.tl ns)) (range_from reverse spec xs))"
proof -
  have s: "sorted_wrt (<) xs" "length ns = Suc (length xs)" "distinct xs" using rep by (simp_all add: zsl_rep_def strict_sorted_distinct)
  have tl: "length (List.tl ns) = length xs" "\<And>p. p < length xs \<Longrightarrow> List.tl ns ! p = ns ! Suc p" using s(2) by (simp_all add: nth_tl)
  note f = zrange_filter(1) [OF s(1), of spec]
  let ?b = "below_zrange spec xs" and ?u = "upto_zrange spec xs"
  have bu: "?b < ?u" "?u \<le> length xs" using nonempty f zrange_le(2) [of spec xs] by (auto simp: not_le [symmetric])
  have at: "x = ns ! Suc p" if m: "(x, xs ! p) \<in> zassoc ns xs" "p < length xs" for x p
  proof -
    obtain q where "q < length xs" "ns ! Suc q = x" "xs ! q = xs ! p" using m(1) unfolding zassoc_iff [OF s(2)] by blast
    then show ?thesis using nth_eq_iff_index_eq [OF s(3)] m(2) by auto
  qed
  show ?thesis
  proof (cases reverse)
    case True
    obtain x where x: "zslLastInRange z spec = Some (Some x)" "(x, last (filter (in_zrange spec) xs)) \<in> zassoc ns xs"
      using zslLastInRange_rep [OF rep, of spec] nonempty by (auto split: option.splits)
    have "last (filter (in_zrange spec) xs) = xs ! (?u - 1)" using f bu nonempty by (auto simp: last_conv_nth)
    then have xu: "x = ns ! ?u" using at [of x "?u - 1"] x(2) bu by simp
    have "rev (List.tl ns) ! (length xs - ?u) = List.tl ns ! (?u - 1)" using bu tl(1) by (simp add: rev_nth)
    also have "\<dots> = ns ! ?u" using tl(2) [of "?u - 1"] bu by simp
    finally show ?thesis using True x(1) xu bu tl(1) by (simp add: walk_order_def range_from_def ptr_at_def)
  next
    case False
    obtain x where x: "zslFirstInRange z spec = Some (Some x)" "(x, List.hd (filter (in_zrange spec) xs)) \<in> zassoc ns xs"
      using zslFirstInRange_rep [OF rep, of spec] nonempty by (auto split: option.splits)
    have "List.hd (filter (in_zrange spec) xs) = xs ! ?b" using f bu by (simp add: hd_drop_conv_nth)
    then have "x = ns ! Suc ?b" using at [of x ?b] x(2) bu by simp
    then show ?thesis using False x(1) bu tl by (simp add: walk_order_def range_from_def ptr_at_def)
  qed
qed

lemma range_leave:
  assumes "sorted_wrt (<) xs"
  shows "takeWhile (\<lambda>k. if reverse then zslValueGteMin (fst k) spec else zslValueLteMax (fst k) spec) (drop q (walk_order reverse xs))
    = take (range_upto reverse spec xs - q) (drop q (walk_order reverse xs))"
proof -
  have iff: "(if reverse then zslValueGteMin (fst (walk_order reverse xs ! p)) spec else zslValueLteMax (fst (walk_order reverse xs ! p)) spec)
      \<longleftrightarrow> p < range_upto reverse spec xs" if p: "p < length xs" for p
  proof (cases reverse)
    case True
    have "zslValueGteMin (fst (rev xs ! p)) spec \<longleftrightarrow> below_zrange spec xs \<le> length xs - Suc p"
      using zrange_nth(1) [OF assms, of "length xs - Suc p" spec] p by (simp add: rev_nth)
    then show ?thesis using True p zrange_le(1) [of spec xs] by (auto simp: walk_order_def range_upto_def)
  next
    case False
    then show ?thesis using zrange_nth(2) [OF assms p, of spec] by (simp add: walk_order_def range_upto_def)
  qed
  show ?thesis
  proof (rule takeWhile_eq_take_P_nth)
    fix i assume "i < range_upto reverse spec xs - q" "i < length (drop q (walk_order reverse xs))"
    then have "q + i < range_upto reverse spec xs" "q + i < length xs" by simp_all
    then show "if reverse then zslValueGteMin (fst (drop q (walk_order reverse xs) ! i)) spec else zslValueLteMax (fst (drop q (walk_order reverse xs) ! i)) spec"
      using iff [of "q + i"] by (cases reverse) simp_all
  next
    let ?i = "range_upto reverse spec xs - q"
    assume "?i < length (drop q (walk_order reverse xs))"
    then have "q + ?i < length xs" "\<not> q + ?i < range_upto reverse spec xs" by simp_all
    then show "\<not> (if reverse then zslValueGteMin (fst (drop q (walk_order reverse xs) ! ?i)) spec else zslValueLteMax (fst (drop q (walk_order reverse xs) ! ?i)) spec)"
      using iff [of "q + ?i"] by (cases reverse) simp_all
  qed
qed

text \<open>What LIMIT leaves of a list.\<close>

definition limit_spec :: "int \<Rightarrow> int \<Rightarrow> 'a list \<Rightarrow> 'a list" where
  "limit_spec offset limit xs = (if offset < 0 then [] else limited limit (drop (nat offset) xs))"

lemma zrangebyscore_rep:
  assumes "zset_rep zs m"
  shows "zrangebyscoreGeneric zs spec offset limit reverse
    = Some (map prod.swap (limit_spec offset limit (walk_order reverse (filter (in_zrange spec) (ranking m)))))"
proof -
  obtain ns where n: "zset_nodes zs m ns (ranking m)" using zset_repE [OF assms] .
  note D = zset_nodesD [OF n] and c = zsl_rep_chained [OF zset_nodesD(1) [OF n], of reverse]
  let ?xs = "ranking m" and ?N = "walk_order reverse (List.tl ns)" and ?h = "zheap (zs_zsl zs)"
  define P where "P = (\<lambda>s. if reverse then zslValueGteMin s spec else zslValueLteMax s spec)"
  have sk: "zrange_skip reverse ?h offset (ptr_at ?N p) = Some (if offset < 0 then None else ptr_at ?N (p + nat offset))" for p
    using zrange_skip_chained [OF c] .
  have none: "zrange_limited P reverse ?h limit None = Some []" by (subst zrange_limited.simps) simp
  show ?thesis
  proof (cases "filter (in_zrange spec) ?xs = []")
    case True
    have "(if reverse then zslLastInRange (zs_zsl zs) spec else zslFirstInRange (zs_zsl zs) spec) = Some None"
      using zslLastInRange_rep [OF D(1), of spec] zslFirstInRange_rep [OF D(1), of spec] True by (auto split: option.splits)
    moreover have "zrange_skip reverse ?h offset None = Some None" by (subst zrange_skip.simps) simp
    moreover have "limit_spec offset limit (walk_order reverse (filter (in_zrange spec) ?xs)) = []"
      unfolding True by (simp add: limit_spec_def limited_def walk_order_def)
    ultimately show ?thesis using none by (simp add: zrangebyscoreGeneric_def P_def [symmetric])
  next
    case False
    define p where "p = range_from reverse spec ?xs"
    note st = range_first_node [OF D(1) False, of reverse, folded p_def]
    have run: "zrangebyscoreGeneric zs spec offset limit reverse
        = zrange_limited P reverse ?h limit (if offset < 0 then None else ptr_at ?N (p + nat offset))"
      using st sk [of p] by (simp add: zrangebyscoreGeneric_def P_def)
    show ?thesis
    proof (cases "offset < 0")
      case True
      then show ?thesis using run none by (simp add: limit_spec_def)
    next
      case ge: False
      let ?q = "p + nat offset" and ?L = "walk_order reverse ?xs"
      have tw: "takeWhile (\<lambda>k. P (fst k)) (drop ?q ?L) = take (range_upto reverse spec ?xs - ?q) (drop ?q ?L)"
        unfolding P_def by (rule range_leave [OF D(3)])
      have "drop (nat offset) (walk_order reverse (filter (in_zrange spec) ?xs)) = take (range_upto reverse spec ?xs - ?q) (drop ?q ?L)"
        unfolding walk_filter [OF D(3)] p_def [symmetric] by (simp add: drop_take add.commute)
      then show ?thesis
        using zrange_limited_chained [OF c, of P limit ?q] run ge unfolding tw by (simp add: limit_spec_def)
    qed
  qed
qed

definition count_spec :: "(bytes \<rightharpoonup> 'd :: linorder) \<Rightarrow> 'd zrangespec \<Rightarrow> int" where
  "count_spec m spec = int (card {e. \<exists>s. m e = Some s \<and> in_zrange spec (s, e)})"

lemma filter_card:
  assumes "zset_nodes zs m ns xs"
  shows "{e. \<exists>s. m e = Some s \<and> R (s, e)} = snd ` set (filter R xs)" "card {e. \<exists>s. m e = Some s \<and> R (s, e)} = length (filter R xs)"
proof -
  note D = zset_nodesD [OF assms]
  show eq: "{e. \<exists>s. m e = Some s \<and> R (s, e)} = snd ` set (filter R xs)" using D(4) by force
  have "distinct (map snd (filter R xs))" using D(5) by (induction xs) auto
  then show "card {e. \<exists>s. m e = Some s \<and> R (s, e)} = length (filter R xs)"
    unfolding eq using distinct_card [of "map snd (filter R xs)"] by simp
qed

lemma node_rank_rep:
  assumes "zsl_rep z ns xs" "distinct (map snd xs)" "p < length xs" "(x, xs ! p) \<in> zassoc ns xs"
  shows "node_rank z x = Some (int p + 1)"
proof -
  obtain n where "zheap z x = Some n" "node_key n = xs ! p" "z_ele n = Some (snd (xs ! p))" using zsl_rep_node [OF assms(1,4)] .
  then show ?thesis using zslGetRank_rep(1) [OF assms(1,2,3), of "z_score n" "snd (xs ! p)"] by (auto simp: node_rank_def node_key_def)
qed

lemma zcount_rep:
  assumes "zset_rep zs m" "card (dom m) < 2 ^ 64"
  shows "zcount zs spec = Some (count_spec m spec)"
proof -
  obtain ns where n: "zset_nodes zs m ns (ranking m)" using zset_repE [OF assms(1)] .
  note D = zset_nodesD [OF n]
  let ?xs = "ranking m" and ?b = "below_zrange spec (ranking m)" and ?u = "upto_zrange spec (ranking m)"
  note f = zrange_filter(1) [OF D(3), of spec]
  have cs: "count_spec m spec = int (length (filter (in_zrange spec) ?xs))" using filter_card(2) [OF n] by (simp add: count_spec_def)
  show ?thesis
  proof (cases "filter (in_zrange spec) ?xs = []")
    case True
    then have "zslFirstInRange (zs_zsl zs) spec = Some None" using zslFirstInRange_rep [OF D(1), of spec] by (auto split: option.splits)
    then show ?thesis using True cs by (simp add: zcount_def)
  next
    case False
    have bu: "?b < ?u" "?u \<le> length ?xs" using False f zrange_le(2) [of spec ?xs] by (auto simp: not_le [symmetric])
    obtain x where x: "zslFirstInRange (zs_zsl zs) spec = Some (Some x)" "(x, List.hd (filter (in_zrange spec) ?xs)) \<in> zassoc ns ?xs"
      using zslFirstInRange_rep [OF D(1), of spec] False by (auto split: option.splits)
    obtain y where y: "zslLastInRange (zs_zsl zs) spec = Some (Some y)" "(y, last (filter (in_zrange spec) ?xs)) \<in> zassoc ns ?xs"
      using zslLastInRange_rep [OF D(1), of spec] False by (auto split: option.splits)
    have "List.hd (filter (in_zrange spec) ?xs) = ?xs ! ?b" using f bu by (simp add: hd_drop_conv_nth)
    then have rx: "node_rank (zs_zsl zs) x = Some (int ?b + 1)" using node_rank_rep [OF D(1,5), of ?b x] x(2) bu by simp
    have "last (filter (in_zrange spec) ?xs) = ?xs ! (?u - 1)" using f bu False by (auto simp: last_conv_nth)
    then have ry: "node_rank (zs_zsl zs) y = Some (int ?u)" using node_rank_rep [OF D(1,5), of "?u - 1" y] y(2) bu by (simp add: of_nat_diff)
    have len: "int (length (filter (in_zrange spec) ?xs)) = int ?u - int ?b" using f bu by (simp add: of_nat_diff)
    have small: "int (length ?xs) < 2 ^ 64" using assms(2) D(6) by (metis of_nat_less_iff of_nat_numeral of_nat_power)
    have "(int (length ?xs) - int ?b) mod 2 ^ 64 = int (length ?xs) - int ?b" using small bu by (intro mod_pos_pos_trivial) linarith+
    moreover have "(int ?u - int ?b) mod 2 ^ 64 = int ?u - int ?b" using small bu by (intro mod_pos_pos_trivial) linarith+
    ultimately show ?thesis using x(1) y(1) rx ry D(8) cs len by (simp add: zcount_def)
  qed
qed

section \<open>Removing ranges\<close>

lemma zset_nodes_restrict:
  assumes n: "zset_nodes zs m ns xs" and r: "zsl_rep z' ns' xs'"
    and a: "zassoc ns' xs' = {(x, k). (x, k) \<in> zassoc ns xs \<and> k \<in> set xs'}"
    and s: "set xs' = set xs - set gone" "set gone \<subseteq> set xs"
  shows "zset_nodes (zs\<lparr>zs_zsl := z', zs_dict := AList.restrict (- (snd ` set gone)) (zs_dict zs)\<rparr>) (m |` (- (snd ` set gone))) ns' xs'"
proof -
  note D = zset_nodesD [OF n]
  have keep: "(t, e) \<in> set xs' \<longleftrightarrow> e \<notin> snd ` set gone" if "(t, e) \<in> set xs" for t e
  proof -
    have mt: "m e = Some t" using D(4) [of e t] that by simp
    have same: "t' = t" if g: "(t', e) \<in> set gone" for t'
    proof -
      have "m e = Some t'" using D(4) [of e t'] g s(2) by blast
      then show ?thesis using mt by simp
    qed
    have "e \<in> snd ` set gone \<longleftrightarrow> (t, e) \<in> set gone"
    proof
      assume "e \<in> snd ` set gone"
      then obtain t' where "(t', e) \<in> set gone" by force
      then show "(t, e) \<in> set gone" using same [of t'] by simp
    qed force
    then show ?thesis using s(1) \<open>(t, e) \<in> set xs\<close> by simp
  qed
  have mem: "(b, (t, e)) \<in> zassoc ns' xs' \<longleftrightarrow> (b, (t, e)) \<in> zassoc ns xs \<and> e \<notin> snd ` set gone" for b t e
  proof -
    have "(t, e) \<in> set xs" if "(b, (t, e)) \<in> zassoc ns xs" using zassoc_set [OF D(2)] that by blast
    then show ?thesis unfolding a using keep by blast
  qed
  have "(\<exists>b. (b, (t, e)) \<in> zassoc ns' xs') \<longleftrightarrow> (m |` (- (snd ` set gone))) e = Some t" for t e
    unfolding mem using n by (auto simp: zset_nodes_def restrict_map_def)
  moreover have "(\<exists>t. (b, (t, e)) \<in> zassoc ns' xs') \<longleftrightarrow> map_of (AList.restrict (- (snd ` set gone)) (zs_dict zs)) e = Some b" for b e
    unfolding mem restr_conv' using n by (auto simp: zset_nodes_def restrict_map_def)
  ultimately show ?thesis using r n by (simp add: zset_nodes_def distinct_restr)
qed

text \<open>The answer of a removal: how many elements, and whether none is left.\<close>

definition remove_spec :: "(bytes \<rightharpoonup> 'd) \<Rightarrow> ('d \<times> bytes) list \<Rightarrow> (bytes \<rightharpoonup> 'd) \<times> nat \<times> bool" where
  "remove_spec m gone =
     (let m' = m |` (- (snd ` set gone)) in (m', length gone, gone \<noteq> [] \<and> m' = Map.empty))"

lemma zset_empty_dict:
  assumes "zset_nodes zs m ns xs"
  shows "zs_dict zs = [] \<longleftrightarrow> m = Map.empty"
proof
  assume "m = Map.empty"
  then have "map_of (zs_dict zs) = Map.empty" using zset_entry(1) [OF assms] by (simp add: fun_eq_iff)
  then show "zs_dict zs = []" by simp
next
  assume "zs_dict zs = []"
  then show "m = Map.empty" using zset_entry(1) [OF assms] by (auto simp: fun_eq_iff)
qed

lemma zremrange_finish_rep:
  assumes n: "zset_nodes zs m ns xs" and r: "zsl_rep z' ns' xs'"
    and a: "zassoc ns' xs' = {(x, k). (x, k) \<in> zassoc ns xs \<and> k \<in> set xs'}"
    and s: "set xs' = set xs - set gone" "set gone \<subseteq> set xs"
  shows "\<exists>zs'. zremrange_finish zs (z', AList.restrict (- (snd ` set gone)) (zs_dict zs), length gone) =
      (zs', length gone, m |` (- (snd ` set gone)) = Map.empty) \<and> zset_rep zs' (m |` (- (snd ` set gone))) \<and> zs_zsl zs' = z'"
proof -
  let ?zs = "zs\<lparr>zs_zsl := z', zs_dict := AList.restrict (- (snd ` set gone)) (zs_dict zs)\<rparr>"
  note n' = zset_nodes_restrict [OF assms]
  have "length (AList.restrict (- (snd ` set gone)) (zs_dict zs)) = 0 \<longleftrightarrow> m |` (- (snd ` set gone)) = Map.empty"
    using zset_empty_dict [OF n'] by simp
  then show ?thesis using n' by (auto simp: zremrange_finish_def zset_rep_def)
qed

lemma zremrangebyrank_rep:
  assumes "zset_rep zs m" and small: "card (dom m) < 2 ^ 32"
  shows "\<exists>zs'. zremrangebyrank zs start stop = Some (zs', snd (remove_spec m (index_slice start stop (ranking m)))) \<and>
    zset_rep zs' (fst (remove_spec m (index_slice start stop (ranking m)))) \<and> zs_used zs' \<subseteq> zs_used zs"
proof -
  obtain ns where n: "zset_nodes zs m ns (ranking m)" using zset_repE [OF assms(1)] .
  note D = zset_nodesD [OF n]
  let ?xs = "ranking m"
  show ?thesis
  proof (cases "sanitize_range (int (length ?xs)) start stop")
    case None
    then show ?thesis using sanitize_slice(1) [OF None] D(8) assms(1) by (simp add: zremrangebyrank_def remove_spec_def restrict_map_def)
  next
    case (Some ab)
    obtain a b where ab: "ab = (a, b)" by fastforce
    note s = sanitize_slice(2) [OF Some [unfolded ab]]
    define i where "i = nat a"
    define j where "j = nat b + 1"
    have ij: "i < j" "a + 1 = int i + 1" "b + 1 = int j" "j \<le> length ?xs" "nat (b - a + 1) = j - i"
      using s by (simp_all add: i_def j_def) linarith+
    have gone: "index_slice start stop ?xs = drop i (take j ?xs)" using s ij(5) unfolding i_def [symmetric] by (simp add: drop_take)
    have jb: "j < 2 ^ 32" using ij(4) small D(6) by simp
    let ?gone = "drop i (take j ?xs)" and ?xs' = "take i ?xs @ drop j ?xs"
    obtain z' ns' where z': "zslDeleteRangeByRank (zs_zsl zs) (int i + 1) (int j) (zs_dict zs) =
        Some (z', AList.restrict (- (snd ` set ?gone)) (zs_dict zs), length ?gone)" "zsl_rep z' ns' ?xs'"
      "dom (zheap z') \<subseteq> zs_used zs" "zassoc ns' ?xs' = {(x, k). (x, k) \<in> zassoc ns ?xs \<and> k \<in> set ?xs'}"
      using zslDeleteRangeByRank_rep [OF D(1) ij(1) jb, of "zs_dict zs"] unfolding zs_used_def by blast
    have sp: "?xs = take i ?xs @ ?gone @ drop j ?xs" using ij(1) by (metis append_take_drop_id append_assoc min.absorb1 less_imp_le take_take)
    have "distinct (take i ?xs @ ?gone @ drop j ?xs)" using sp strict_sorted_distinct [OF D(3)] by simp
    moreover have "set ?xs = set (take i ?xs) \<union> set ?gone \<union> set (drop j ?xs)" using arg_cong [OF sp, of set] by auto
    ultimately have st: "set ?xs' = set ?xs - set ?gone" "set ?gone \<subseteq> set ?xs" by auto
    obtain zs' where zs': "zremrange_finish zs (z', AList.restrict (- (snd ` set ?gone)) (zs_dict zs), length ?gone) =
        (zs', length ?gone, m |` (- (snd ` set ?gone)) = Map.empty)" "zset_rep zs' (m |` (- (snd ` set ?gone)))" "zs_zsl zs' = z'"
      using zremrange_finish_rep [OF n z'(2,4) st] by blast
    have ne: "?gone \<noteq> []" using ij by simp
    have "zremrangebyrank zs start stop = Some (zs', length ?gone, m |` (- (snd ` set ?gone)) = Map.empty)"
      using Some ab D(8) ij(2,3) z'(1) zs'(1) by (simp add: zremrangebyrank_def)
    then show ?thesis unfolding gone using zs' z'(3) ne by (simp add: remove_spec_def zs_used_def Let_def)
  qed
qed

text \<open>Removal by score finds no element left also when it removes none.\<close>

lemma zremrangebyscore_rep:
  assumes "zset_rep zs m" and g: "gone = filter (in_zrange spec) (ranking m)"
  shows "\<exists>zs'. zremrangebyscore zs spec = Some (zs', length gone, fst (remove_spec m gone) = Map.empty) \<and>
    zset_rep zs' (fst (remove_spec m gone)) \<and> zs_used zs' \<subseteq> zs_used zs"
proof -
  obtain ns where n: "zset_nodes zs m ns (ranking m)" using zset_repE [OF assms(1)] .
  note D = zset_nodesD [OF n]
  let ?xs = "ranking m" and ?xs' = "filter (\<lambda>k. \<not> in_zrange spec k) (ranking m)"
  obtain z' ns' where z': "zslDeleteRangeByScore (zs_zsl zs) spec (zs_dict zs) =
      Some (z', AList.restrict (- (snd ` set gone)) (zs_dict zs), length gone)" "zsl_rep z' ns' ?xs'"
    "dom (zheap z') \<subseteq> zs_used zs" "zassoc ns' ?xs' = {(x, k). (x, k) \<in> zassoc ns ?xs \<and> k \<in> set ?xs'}"
    using zslDeleteRangeByScore_rep [OF D(1), of spec "zs_dict zs"] unfolding zs_used_def g by blast
  have st: "set ?xs' = set ?xs - set gone" "set gone \<subseteq> set ?xs" unfolding g by auto
  obtain zs' where "zremrange_finish zs (z', AList.restrict (- (snd ` set gone)) (zs_dict zs), length gone) =
      (zs', length gone, m |` (- (snd ` set gone)) = Map.empty)" "zset_rep zs' (m |` (- (snd ` set gone)))" "zs_zsl zs' = z'"
    using zremrange_finish_rep [OF n z'(2,4) st] by blast
  then show ?thesis using z'(1,3) by (simp add: zremrangebyscore_def remove_spec_def zs_used_def Let_def)
qed

section \<open>Sequences of operations\<close>

datatype 'd zset_op =
    ZAdd "'d option" bytes bool bool bool "nat list" nat
  | ZDel bytes
  | ZScore bytes
  | ZCard
  | ZRank bytes bool
  | ZRange int int bool
  | ZRangeByScore "'d zrangespec" int int bool
  | ZCount "'d zrangespec"
  | ZRemByRank int int
  | ZRemByScore "'d zrangespec"

datatype 'd zset_answer =
    Added bool zadd_flag "'d option"
  | Deleted bool
  | Score "'d option"
  | Number int
  | Elements "(bytes \<times> 'd) list"
  | Removed nat bool

fun zset_step :: "('d \<Rightarrow> 'd \<Rightarrow> 'd option) \<Rightarrow> 'd :: linorder zset_op \<Rightarrow> 'd zset \<Rightarrow> ('d zset \<times> 'd zset_answer) option" where
  "zset_step fadd (ZAdd score e incr nx xx rs a) zs =
     map_option (\<lambda>(zs, ok, flag, new). (zs, Added ok flag new)) (zsetAdd fadd zs score e incr nx xx rs a)"
| "zset_step fadd (ZDel e) zs = map_option (\<lambda>(zs, b). (zs, Deleted b)) (zsetDel zs e)"
| "zset_step fadd (ZScore e) zs = map_option (\<lambda>s. (zs, Score s)) (zsetScore zs e)"
| "zset_step fadd ZCard zs = Some (zs, Number (zsetLength zs))"
| "zset_step fadd (ZRank e reverse) zs = map_option (\<lambda>r. (zs, Number r)) (zsetRank zs e reverse)"
| "zset_step fadd (ZRange start stop reverse) zs = map_option (\<lambda>r. (zs, Elements r)) (zrangeGeneric zs start stop reverse)"
| "zset_step fadd (ZRangeByScore spec offset limit reverse) zs =
     map_option (\<lambda>r. (zs, Elements r)) (zrangebyscoreGeneric zs spec offset limit reverse)"
| "zset_step fadd (ZCount spec) zs = map_option (\<lambda>r. (zs, Number r)) (zcount zs spec)"
| "zset_step fadd (ZRemByRank start stop) zs = map_option (\<lambda>(zs, k, b). (zs, Removed k b)) (zremrangebyrank zs start stop)"
| "zset_step fadd (ZRemByScore spec) zs = map_option (\<lambda>(zs, k, b). (zs, Removed k b)) (zremrangebyscore zs spec)"

fun zset_spec :: "('d \<Rightarrow> 'd \<Rightarrow> 'd option) \<Rightarrow> 'd :: linorder zset_op \<Rightarrow> (bytes \<rightharpoonup> 'd) \<Rightarrow> (bytes \<rightharpoonup> 'd) \<times> 'd zset_answer" where
  "zset_spec fadd (ZAdd score e incr nx xx rs a) m =
     (let (m', ok, flag, new) = add_spec fadd m score e incr nx xx in (m', Added ok flag new))"
| "zset_spec fadd (ZDel e) m = (m(e := None), Deleted (m e \<noteq> None))"
| "zset_spec fadd (ZScore e) m = (m, Score (m e))"
| "zset_spec fadd ZCard m = (m, Number (int (card (dom m))))"
| "zset_spec fadd (ZRank e reverse) m = (m, Number (rank_spec m e reverse))"
| "zset_spec fadd (ZRange start stop reverse) m =
     (m, Elements (map prod.swap (index_slice start stop (walk_order reverse (ranking m)))))"
| "zset_spec fadd (ZRangeByScore spec offset limit reverse) m =
     (m, Elements (map prod.swap (limit_spec offset limit (walk_order reverse (filter (in_zrange spec) (ranking m))))))"
| "zset_spec fadd (ZCount spec) m = (m, Number (count_spec m spec))"
| "zset_spec fadd (ZRemByRank start stop) m =
     (let (m', k, b) = remove_spec m (index_slice start stop (ranking m)) in (m', Removed k b))"
| "zset_spec fadd (ZRemByScore spec) m =
     (let (m', k, _) = remove_spec m (filter (in_zrange spec) (ranking m)) in (m', Removed k (m' = Map.empty)))"

fun zset_addrs :: "'d zset_op \<Rightarrow> nat set" where
  "zset_addrs (ZAdd _ _ _ _ _ _ a) = {a}"
| "zset_addrs _ = {}"

lemma zset_step_rep:
  assumes rep: "zset_rep zs m" and fr: "zset_addrs x \<inter> zs_used zs = {}" and card: "card (dom m) < 2 ^ 32 - 1"
  shows "\<exists>zs'. zset_step fadd x zs = Some (zs', snd (zset_spec fadd x m)) \<and> zset_rep zs' (fst (zset_spec fadd x m)) \<and>
    zs_used zs' \<subseteq> zs_used zs \<union> zset_addrs x"
proof (cases x)
  case (ZAdd score e incr nx xx rs a)
  then have "a \<notin> zs_used zs" using fr by simp
  moreover have "Suc (card (dom m)) < 2 ^ 32" using card by simp
  ultimately show ?thesis using zsetAdd_rep [OF rep, of a fadd score e incr nx xx rs] ZAdd by (auto simp: split_beta Let_def)
next
  case (ZDel e)
  then show ?thesis using zsetDel_rep [OF rep, of e] by auto
next
  case ZCard
  obtain ns where "zset_nodes zs m ns (ranking m)" using zset_repE [OF rep] .
  then show ?thesis using ZCard zset_nodesD(6,8) rep by fastforce
next
  case (ZCount spec)
  have "card (dom m) < 2 ^ 64" using card by simp
  then show ?thesis using ZCount zcount_rep [OF rep] rep by simp
next
  case (ZRemByRank start stop)
  then show ?thesis using zremrangebyrank_rep [OF rep, of start stop] card by (auto simp: split_beta Let_def)
next
  case (ZRemByScore spec)
  then show ?thesis using zremrangebyscore_rep [OF rep refl, of spec] by (auto simp: split_beta Let_def remove_spec_def)
qed (use rep in \<open>simp_all add: zsetScore_rep zsetRank_rep zrangeGeneric_rep zrangebyscore_rep\<close>)

lemma zset_spec_grows:
  assumes "zset_rep zs m"
  shows "card (dom (fst (zset_spec fadd x m))) \<le> Suc (card (dom m))"
proof -
  have fin: "finite (dom m)" using zset_rep_finite [OF assms] .
  have less: "card A \<le> Suc (card (dom m))" if "A \<subseteq> dom m" for A
    using card_mono [OF fin that] by simp
  show ?thesis
  proof (cases x)
    case (ZAdd score e incr nx xx rs a)
    have "dom (fst (add_spec fadd m score e incr nx xx)) \<subseteq> insert e (dom m)" by (auto simp: add_spec_def split: option.splits if_splits)
    then have "card (dom (fst (add_spec fadd m score e incr nx xx))) \<le> card (insert e (dom m))" using fin by (simp add: card_mono)
    also have "\<dots> \<le> Suc (card (dom m))" by (simp add: card_insert_le_m1 card_insert_if fin)
    finally show ?thesis using ZAdd by (simp add: split_beta Let_def)
  qed (auto simp: remove_spec_def Let_def intro!: less)
qed

interpretation zss: heap_structure "zset_step fadd" "zset_spec fadd" zset_rep zs_used zset_addrs "\<lambda>m. card (dom m)" "2 ^ 32 - 1"
  for fadd :: "'d :: linorder \<Rightarrow> 'd \<Rightarrow> 'd option"
  by unfold_locales (use zset_step_rep zset_spec_grows in auto)

section \<open>Properties\<close>

text \<open>A concrete map in order, for the witnesses.\<close>

lemma ranking_empty [simp]: "ranking Map.empty = []"
  by (simp add: ranking_def)

lemma ranking_upd:
  assumes "finite (dom m)" "m e = None"
  shows "ranking (m(e \<mapsto> s)) = insort (s, e) (ranking m)"
proof -
  have "{(s', e'). m e' = Some s'} \<subseteq> (\<lambda>e. (the (m e), e)) ` dom m" by force
  then have fin: "finite {(s', e'). m e' = Some s'}" using assms(1) finite_subset by blast
  have "{(s', e'). (m(e \<mapsto> s)) e' = Some s'} = insert (s, e) {(s', e'). m e' = Some s'}" using assms(2) by (auto split: if_splits)
  moreover have "(s, e) \<notin> {(s', e'). m e' = Some s'}" using assms(2) by simp
  ultimately show ?thesis unfolding ranking_def using sorted_list_of_set.fold_insort_key.insert [OF fin, of "(s, e)"] by simp
qed

text \<open>C5: Sorted sets refine a finite map from elements to scores. Every sequence of additions (with
  all combinations of the options and scores that are not numbers), removals, score and rank
  queries, ranges by index and by score, counts and removals of ranges on a new sorted set returns,
  gives exactly the answers that the map gives, and ends in a well-formed dictionary and skip list
  for the resulting map, whatever levels the random numbers give, if every addition gets an address
  that is not in use.\<close>

theorem zset_refines_map:
  fixes fadd :: "'d :: {linorder, zero} \<Rightarrow> 'd \<Rightarrow> 'd option"
  assumes "fresh_for zset_addrs {a} ops" "length ops < 2 ^ 32"
  shows "\<exists>zs. op_run (zset_step fadd) ops (createZsetObject a) = Some (zs, snd (op_run_spec (zset_spec fadd) ops Map.empty)) \<and>
    zset_rep zs (fst (op_run_spec (zset_spec fadd) ops Map.empty))"
  by (rule zss.run_rel [OF createZsetObject_rep]) (use assms in \<open>simp_all add: zs_used_def createZsetObject_def zslCreate_def\<close>)

definition demo_ops :: "int zset_op list" where
  "demo_ops =
     [ZAdd (Some 5) [97] False False False [0, 60000] 1,
      ZAdd (Some 3) [97] True False False [60000] 2,
      ZAdd (Some 3) [98] False False False [0, 60000] 3,
      ZAdd (Some 9) [97] False True False [] 4,
      ZAdd (Some 9) [99] False False True [] 5,
      ZAdd None [97] False False False [] 6,
      ZRange 0 (- 1) True,
      ZDel [99],
      ZScore [97],
      ZCard]"

theorem zset_refines_map_witness:
  "\<exists>zs. op_run (zset_step (\<lambda>x y. Some (x + y))) demo_ops (createZsetObject 0) =
     Some (zs, [Added True ZADD_ADDED (Some 5), Added True ZADD_UPDATED (Some 8), Added True ZADD_ADDED (Some 3),
       Added True ZADD_NOP None, Added True ZADD_NOP None, Added False ZADD_NAN None,
       Elements [([97], 8), ([98], 3)], Deleted False, Score (Some 8), Number 2])"
proof -
  have "fresh_for zset_addrs {0} demo_ops" "length demo_ops < 2 ^ 32" by (simp_all add: demo_ops_def)
  note run = zset_refines_map [OF this, of "\<lambda>x y. Some (x + y)"]
  have rk: "ranking [[97] \<mapsto> 8 :: int, [98] \<mapsto> 3] = [(3, [98]), (8, [97])]" by (simp add: ranking_upd)
  have "{p. p = 0 \<or> p = Suc 0} = {..<2}" by auto
  then have sl: "index_slice 0 (- 1) [(8 :: int, [97 :: u8]), (3, [98])] = [(8, [97]), (3, [98])]"
    by (simp add: index_slice_def zindex_def nths_Cons)
  have "snd (op_run_spec (zset_spec (\<lambda>x y. Some (x + y))) demo_ops Map.empty) =
      [Added True ZADD_ADDED (Some 5), Added True ZADD_UPDATED (Some 8), Added True ZADD_ADDED (Some 3),
       Added True ZADD_NOP None, Added True ZADD_NOP None, Added False ZADD_NAN None,
       Elements [([97], 8), ([98], 3)], Deleted False, Score (Some 8), Number 2]"
    by (simp add: demo_ops_def add_spec_def rk walk_order_def sl)
  then show ?thesis using run by auto
qed

text \<open>A sorted set with two elements.\<close>

definition demo_zset :: "int zset" where
  "demo_zset = fst (the (op_run (zset_step (\<lambda>x y. Some (x + y)))
     [ZAdd (Some 5) [97] False False False [0, 60000] 1, ZAdd (Some 3) [98] False False False [60000] 2] (createZsetObject 0)))"

lemma demo_zset_rep: "zset_rep demo_zset [[97] \<mapsto> 5, [98] \<mapsto> 3]"
proof -
  let ?ops = "[ZAdd (Some 5) [97] False False False [0, 60000] 1, ZAdd (Some 3) [98] False False False [60000] 2] :: int zset_op list"
  have u: "zs_used (createZsetObject 0 :: int zset) = {0}" by (simp add: zs_used_def createZsetObject_def zslCreate_def)
  have "\<exists>zs. op_run (zset_step (\<lambda>x y. Some (x + y))) ?ops (createZsetObject 0) = Some (zs, snd (op_run_spec (zset_spec (\<lambda>x y. Some (x + y))) ?ops Map.empty)) \<and>
    zset_rep zs (fst (op_run_spec (zset_spec (\<lambda>x y. Some (x + y))) ?ops Map.empty))"
    by (rule zss.run_rel [OF createZsetObject_rep]) (simp_all add: u)
  then show ?thesis by (auto simp: demo_zset_def add_spec_def)
qed

lemma demo_ranking: "ranking [[97] \<mapsto> 5 :: int, [98] \<mapsto> 3] = [(3, [98]), (5, [97])]"
  by (simp add: ranking_upd)

text \<open>C19: The rank of an element is the number of pairs of score and element that are smaller, counted
  from the other end in reverse; an element that is not stored has rank -1.\<close>

theorem zsetRank_correct:
  assumes "zset_rep zs m"
  shows "zsetRank zs e reverse = Some
    (case m e of
       None \<Rightarrow> - 1
     | Some s \<Rightarrow> int (card {(s', e'). m e' = Some s' \<and>
         (if reverse then s < s' \<or> s = s' \<and> e < e' else s' < s \<or> s' = s \<and> e' < e)}))"
  using zsetRank_rep [OF assms, of e reverse]
  by (auto simp: rank_spec_def less_prod_def' split: option.split intro!: arg_cong [where f = card])

theorem zsetRank_correct_witness:
  "zsetRank demo_zset [99] False = Some (- 1) \<and> zsetRank demo_zset [97] False = Some 1 \<and> zsetRank demo_zset [98] True = Some 1"
proof -
  have a: "{(s', e'). [[97 :: u8] \<mapsto> 5 :: int, [98] \<mapsto> 3] e' = Some s' \<and> (s' < 5 \<or> s' = 5 \<and> e' < [97])} = {(3, [98])}"
    "{(s', e'). [[97 :: u8] \<mapsto> 5 :: int, [98] \<mapsto> 3] e' = Some s' \<and> (3 < s' \<or> 3 = s' \<and> [98] < e')} = {(5, [97])}" by (auto split: if_splits)
  show ?thesis
    using zsetRank_correct [OF demo_zset_rep, of "[99]" False] zsetRank_correct [OF demo_zset_rep, of "[97]" False]
      zsetRank_correct [OF demo_zset_rep, of "[98]" True] a by simp
qed

text \<open>C20: ZRANGE and ZREVRANGE emit the elements whose position in the order of scores (reversed for
  ZREVRANGE) lies between the two indexes, where a negative index counts from the end; indexes out
  of range are clipped, and the assertion that a node exists never fails.\<close>

theorem zrange_correct:
  assumes "zset_rep zs m" and "L = (if reverse then rev (ranking m) else ranking m)" and "n = int (length L)"
  shows "zrangeGeneric zs start stop reverse =
    Some (map prod.swap (nths L {p. (if start < 0 then n + start else start) \<le> int p \<and> int p \<le> (if stop < 0 then n + stop else stop)}))"
  using zrangeGeneric_rep [OF assms(1), of start stop reverse] assms(2,3) by (simp add: walk_order_def index_slice_def zindex_def)

theorem zrange_correct_witness:
  "zrangeGeneric demo_zset (- 5) (- 2) True = Some [([97], 5)]"
  using zrange_correct [OF demo_zset_rep refl refl, of "- 5" "- 2" True] by (simp add: demo_ranking nths_Cons)

text \<open>C18: ZRANGEBYSCORE and ZREVRANGEBYSCORE emit the elements with a score in the range, in order (or
  in reverse), from the offset on and as many as the limit allows; a negative limit is none, a
  negative offset gives the empty list. Both loops end and no node is missing.\<close>

theorem zrangebyscore_correct:
  assumes "zset_rep zs m" and "L = filter (\<lambda>(s, e). zslValueGteMin s spec \<and> zslValueLteMax s spec) (ranking m)"
    and "L' = (if reverse then rev L else L)"
  shows "zrangebyscoreGeneric zs spec offset limit reverse =
    Some (map prod.swap (if offset < 0 then [] else if limit < 0 then drop (nat offset) L' else take (nat limit) (drop (nat offset) L')))"
proof -
  have "L = filter (in_zrange spec) (ranking m)" unfolding assms(2) by (rule filter_cong) (auto simp: in_zrange_def)
  then show ?thesis using zrangebyscore_rep [OF assms(1), of spec offset limit reverse] assms(3)
    by (simp add: walk_order_def limit_spec_def limited_def)
qed

theorem zrangebyscore_correct_witness:
  "zrangebyscoreGeneric demo_zset \<lparr>zr_min = 3, zr_max = 9, zr_minex = False, zr_maxex = True\<rparr> 1 (- 1) True = Some [([98], 3)]"
  using zrangebyscore_correct [OF demo_zset_rep refl refl, of "\<lparr>zr_min = 3, zr_max = 9, zr_minex = False, zr_maxex = True\<rparr>" 1 "- 1" True]
  by (simp add: demo_ranking zslValueGteMin_def zslValueLteMax_def)

text \<open>C21: ZREMRANGEBYSCORE removes exactly the elements with a score in the range from both the
  dictionary and the skip list, counts them, and reports an empty sorted set.\<close>

theorem zremrangebyscore_correct:
  assumes "zset_rep zs m" and "gone = {e. \<exists>s. m e = Some s \<and> zslValueGteMin s spec \<and> zslValueLteMax s spec}"
  shows "\<exists>zs'. zremrangebyscore zs spec = Some (zs', card gone, m |` (- gone) = Map.empty) \<and> zset_rep zs' (m |` (- gone))"
proof -
  obtain ns where n: "zset_nodes zs m ns (ranking m)" using zset_repE [OF assms(1)] .
  have "gone = {e. \<exists>s. m e = Some s \<and> in_zrange spec (s, e)}" using assms(2) by (simp add: in_zrange_def)
  then show ?thesis using zremrangebyscore_rep [OF assms(1) refl, of spec] filter_card [OF n, of "in_zrange spec"] by (auto simp: remove_spec_def)
qed

theorem zremrangebyscore_correct_witness:
  "\<exists>zs'. zremrangebyscore demo_zset \<lparr>zr_min = 4, zr_max = 9, zr_minex = False, zr_maxex = True\<rparr> = Some (zs', 1, False) \<and> zset_rep zs' [[98] \<mapsto> 3]"
proof -
  let ?spec = "\<lparr>zr_min = 4 :: int, zr_max = 9, zr_minex = False, zr_maxex = True\<rparr>"
  have g: "{[97 :: u8]} = {e. \<exists>s. [[97] \<mapsto> 5, [98] \<mapsto> 3] e = Some s \<and> zslValueGteMin s ?spec \<and> zslValueLteMax s ?spec}"
    by (auto simp: zslValueGteMin_def zslValueLteMax_def split: if_splits)
  have m: "[[97 :: u8] \<mapsto> 5 :: int, [98] \<mapsto> 3] |` (- {[97]}) = [[98] \<mapsto> 3]" by (auto simp: restrict_map_def fun_eq_iff)
  show ?thesis using zremrangebyscore_correct [OF demo_zset_rep g] unfolding m by simp
qed

end
