(* ===== verification/Lzf.thy ===== *)
theory Lzf
  imports Prelude
begin

text \<open>
  The LZF compression that snapshots and lists use (\<^verbatim>\<open>lzf_c.c\<close>, \<^verbatim>\<open>lzf_d.c\<close>), with the settings of
  \<^verbatim>\<open>lzfP.h\<close>: offsets in the hash table (which starts with whatever is on the stack, the argument
  \<open>htab\<close>), \<^verbatim>\<open>VERY_FAST\<close> and checked input. Pointers are offsets into the input and the output
  buffer; an access outside a buffer makes an operation \<open>None\<close>. A pointer may stand behind the end
  of the output buffer as long as nothing is written there.
\<close>

section \<open>Compression\<close>

definition put_byte :: "bytes \<Rightarrow> nat \<Rightarrow> u8 \<Rightarrow> bytes option" where
  "put_byte m i b = (if i < length m then Some (m[i := b]) else None)"

definition MAX_LIT :: nat where "MAX_LIT = 32"
definition MAX_OFF :: nat where "MAX_OFF = 8192"
definition MAX_REF :: nat where "MAX_REF = 264"

definition FRST :: "bytes \<Rightarrow> nat \<Rightarrow> u32 option" where
  "FRST inp p = do {
     a \<leftarrow> mem_byte inp p;
     b \<leftarrow> mem_byte inp (p + 1);
     Some (push_bit 8 (ucast a) OR ucast b)
   }"

definition NEXT :: "u32 \<Rightarrow> bytes \<Rightarrow> nat \<Rightarrow> u32 option" where
  "NEXT v inp p = do {
     c \<leftarrow> mem_byte inp (p + 2);
     Some (push_bit 8 v OR ucast c)
   }"

definition IDX :: "u32 \<Rightarrow> u32" where
  "IDX h = (drop_bit 8 h - h * 5) AND 0xFFFF"

record lzf_state =
  l_ip :: nat
  l_op :: nat
  l_lit :: nat
  l_hval :: u32
  l_htab :: "u32 \<Rightarrow> u32"
  l_out :: bytes

text \<open>The distance to a reference, a 64 bit number without sign.\<close>

definition lzf_off :: "nat \<Rightarrow> nat \<Rightarrow> nat" where
  "lzf_off ip ref = nat ((int ip - int ref - 1) mod 2 ^ 64)"

definition lzf_hit :: "bytes \<Rightarrow> nat \<Rightarrow> nat \<Rightarrow> bool option" where
  "lzf_hit inp ip ref =
     (if lzf_off ip ref < MAX_OFF \<and> ref > 0 then do {
        r2 \<leftarrow> mem_byte inp (ref + 2);
        i2 \<leftarrow> mem_byte inp (ip + 2);
        if r2 \<noteq> i2 then Some False
        else do {
          r \<leftarrow> mem_rd inp ref 2;
          i \<leftarrow> mem_rd inp ip 2;
          Some (r = i)
        }
      } else Some False)"

text \<open>The unrolled steps of the comparison; the boolean tells that a difference was found.\<close>

primrec lzf_unrolled :: "nat \<Rightarrow> bytes \<Rightarrow> nat \<Rightarrow> nat \<Rightarrow> nat \<Rightarrow> (nat \<times> bool) option" where
  "lzf_unrolled 0 inp ref ip len = Some (len, False)"
| "lzf_unrolled (Suc k) inp ref ip len = do {
     a \<leftarrow> mem_byte inp (ref + (len + 1));
     b \<leftarrow> mem_byte inp (ip + (len + 1));
     if a \<noteq> b then Some (len + 1, True) else lzf_unrolled k inp ref ip (len + 1)
   }"

function lzf_extend :: "bytes \<Rightarrow> nat \<Rightarrow> nat \<Rightarrow> nat \<Rightarrow> nat \<Rightarrow> nat option" where
  "lzf_extend inp ref ip maxlen len =
     (if len + 1 < maxlen then do {
        a \<leftarrow> mem_byte inp (ref + (len + 1));
        b \<leftarrow> mem_byte inp (ip + (len + 1));
        if a = b then lzf_extend inp ref ip maxlen (len + 1) else Some (len + 1)
      } else Some (len + 1))"
  by pat_completeness auto

termination by (relation "measure (\<lambda>(inp, ref, ip, maxlen, len). maxlen - len)") auto

declare lzf_extend.simps [simp del]

definition lzf_match_len :: "bytes \<Rightarrow> nat \<Rightarrow> nat \<Rightarrow> nat option" where
  "lzf_match_len inp ref ip =
     (let maxlen = length inp - ip - 2;
          maxlen = (if maxlen > MAX_REF then MAX_REF else maxlen)
      in if maxlen > 16 then do {
           (len, differ) \<leftarrow> lzf_unrolled 16 inp ref ip 2;
           if differ then Some len else lzf_extend inp ref ip maxlen len
         } else lzf_extend inp ref ip maxlen 2)"

text \<open>The length of a run of literals is written in front of it.\<close>

definition stop_run :: "bytes \<Rightarrow> nat \<Rightarrow> nat \<Rightarrow> bytes option" where
  "stop_run out op lit = (if lit + 1 \<le> op then put_byte out (op - lit - 1) (word_of_int (int lit - 1)) else None)"

text \<open>The control bytes of a reference; \<open>len\<close> is the number of bytes less two.\<close>

definition put_ref :: "bytes \<Rightarrow> nat \<Rightarrow> nat \<Rightarrow> nat \<Rightarrow> (bytes \<times> nat) option" where
  "put_ref out op off len =
     (if len < 7 then do {
        out \<leftarrow> put_byte out op (word_of_nat (off div 256 + len * 32));
        out \<leftarrow> put_byte out (op + 1) (word_of_nat off);
        Some (out, op + 2)
      } else do {
        out \<leftarrow> put_byte out op (word_of_nat (off div 256 + 7 * 32));
        out \<leftarrow> put_byte out (op + 1) (word_of_nat (len - 7));
        out \<leftarrow> put_byte out (op + 2) (word_of_nat off);
        Some (out, op + 3)
      })"

datatype lzf_outcome = Continue lzf_state | Break lzf_state | TooBig

definition lzf_reference :: "bytes \<Rightarrow> nat \<Rightarrow> lzf_state \<Rightarrow> lzf_outcome option" where
  "lzf_reference inp ref st =
     (let op = l_op st; lit = l_lit st; ip = l_ip st; undo = (if lit = 0 then 1 else 0) in
      if op + 3 + 1 \<ge> length (l_out st) \<and> op - undo + 3 + 1 \<ge> length (l_out st) then Some TooBig
      else do {
        out \<leftarrow> stop_run (l_out st) op lit;
        len \<leftarrow> lzf_match_len inp ref ip;
        (out, op) \<leftarrow> put_ref out (op - undo) (lzf_off ip ref) (len - 2);
        let ip = ip + len;
        let st = st\<lparr>l_ip := ip, l_op := op + 1, l_lit := 0, l_out := out\<rparr>;
        if ip + 2 \<ge> length inp then Some (Break st)
        else do {
          hval \<leftarrow> FRST inp (ip - 2);
          hval \<leftarrow> NEXT hval inp (ip - 2);
          let htab = (l_htab st)(IDX hval := word_of_nat (ip - 2));
          hval \<leftarrow> NEXT hval inp (ip - 1);
          let htab = htab(IDX hval := word_of_nat (ip - 1));
          Some (Continue (st\<lparr>l_hval := hval, l_htab := htab\<rparr>))
        }
      })"

text \<open>One more literal, and the end of a full run.\<close>

definition put_literal :: "bytes \<Rightarrow> lzf_state \<Rightarrow> lzf_state option" where
  "put_literal inp st = do {
     b \<leftarrow> mem_byte inp (l_ip st);
     out \<leftarrow> put_byte (l_out st) (l_op st) b;
     let st = st\<lparr>l_ip := l_ip st + 1, l_op := l_op st + 1, l_lit := l_lit st + 1, l_out := out\<rparr>;
     if l_lit st = MAX_LIT then do {
       out \<leftarrow> stop_run (l_out st) (l_op st) (l_lit st);
       Some (st\<lparr>l_out := out, l_lit := 0, l_op := l_op st + 1\<rparr>)
     } else Some st
   }"

definition lzf_round :: "bytes \<Rightarrow> lzf_state \<Rightarrow> lzf_outcome option" where
  "lzf_round inp st = do {
     hval \<leftarrow> NEXT (l_hval st) inp (l_ip st);
     let ref = unat (l_htab st (IDX hval));
     let st = st\<lparr>l_hval := hval, l_htab := (l_htab st)(IDX hval := word_of_nat (l_ip st))\<rparr>;
     hit \<leftarrow> lzf_hit inp (l_ip st) ref;
     if hit then lzf_reference inp ref st
     else if l_op st \<ge> length (l_out st) then Some TooBig
     else map_option Continue (put_literal inp st)
   }"

partial_function (option) lzf_loop :: "bytes \<Rightarrow> lzf_state \<Rightarrow> lzf_outcome option" where
  "lzf_loop inp st =
     (if l_ip st + 2 < length inp then
        Option.bind (lzf_round inp st) (\<lambda>r.
          case r of Continue st \<Rightarrow> lzf_loop inp st | Break st \<Rightarrow> Some (Break st) | TooBig \<Rightarrow> Some TooBig)
      else Some (Break st))"

partial_function (option) lzf_tail :: "bytes \<Rightarrow> lzf_state \<Rightarrow> lzf_state option" where
  "lzf_tail inp st =
     (if l_ip st < length inp then Option.bind (put_literal inp st) (lzf_tail inp) else Some st)"

declare lzf_loop.simps [code] lzf_tail.simps [code]

definition lzf_finish :: "bytes \<Rightarrow> lzf_state \<Rightarrow> (bytes \<times> nat) option" where
  "lzf_finish inp st =
     (if l_op st + 3 > length (l_out st) then Some (l_out st, 0)
      else do {
        st \<leftarrow> lzf_tail inp st;
        out \<leftarrow> stop_run (l_out st) (l_op st) (l_lit st);
        Some (out, l_op st - (if l_lit st = 0 then 1 else 0))
      })"

text \<open>The result is the output buffer and the number of bytes used, zero when the output would not
  fit (the buffer is not used then). \<open>out\<close> is the output buffer as it is passed in.\<close>

definition lzf_compress :: "(u32 \<Rightarrow> u32) \<Rightarrow> bytes \<Rightarrow> bytes \<Rightarrow> (bytes \<times> nat) option" where
  "lzf_compress htab inp out =
     (if length inp = 0 \<or> length out = 0 then Some (out, 0)
      else do {
        hval \<leftarrow> FRST inp 0;
        r \<leftarrow> lzf_loop inp \<lparr>l_ip = 0, l_op = 1, l_lit = 0, l_hval = hval, l_htab = htab, l_out = out\<rparr>;
        case r of
          TooBig \<Rightarrow> Some (out, 0)
        | Continue st \<Rightarrow> lzf_finish inp st
        | Break st \<Rightarrow> lzf_finish inp st
      })"

section \<open>Decompression\<close>

datatype lzf_error = E2BIG | EINVAL

primrec copy_bytes :: "nat \<Rightarrow> bytes \<Rightarrow> nat \<Rightarrow> nat \<Rightarrow> bytes option" where
  "copy_bytes 0 out op ref = Some out"
| "copy_bytes (Suc n) out op ref = do {
     b \<leftarrow> mem_byte out ref;
     out \<leftarrow> put_byte out op b;
     copy_bytes n out (op + 1) (ref + 1)
   }"

definition lzf_literals :: "bytes \<Rightarrow> nat \<Rightarrow> bytes \<Rightarrow> nat \<Rightarrow> nat \<Rightarrow> (lzf_error + nat \<times> bytes \<times> nat) option" where
  "lzf_literals inp ip out op ctrl =
     (if op + ctrl > length out then Some (Inl E2BIG)
      else if ip + ctrl > length inp then Some (Inl EINVAL)
      else do {
        bs \<leftarrow> mem_rd inp ip ctrl;
        out \<leftarrow> mem_wr out op bs;
        Some (Inr (ip + ctrl, out, op + ctrl))
      })"

text \<open>Long references between disjoint areas are copied at once.\<close>

definition lzf_copy :: "bytes \<Rightarrow> nat \<Rightarrow> nat \<Rightarrow> nat \<Rightarrow> bytes option" where
  "lzf_copy out op ref len =
     (if len \<ge> 10 \<and> op \<ge> ref + (len + 2) then mem_move out op ref (len + 2)
      else copy_bytes (len + 2) out op ref)"

text \<open>The reference is a pointer that may lie before the output buffer.\<close>

definition lzf_backref :: "bytes \<Rightarrow> nat \<Rightarrow> bytes \<Rightarrow> nat \<Rightarrow> nat \<Rightarrow> (lzf_error + nat \<times> bytes \<times> nat) option" where
  "lzf_backref inp ip out op ctrl =
     (let ref = int op - int (ctrl mod 32 * 256) - 1 in
      if ip \<ge> length inp then Some (Inl EINVAL)
      else do {
        (ip, len) \<leftarrow> (if ctrl div 32 = 7 then map_option (\<lambda>b. (ip + 1, 7 + unat b)) (mem_byte inp ip)
                      else Some (ip, ctrl div 32));
        if ctrl div 32 = 7 \<and> ip \<ge> length inp then Some (Inl EINVAL)
        else do {
          b \<leftarrow> mem_byte inp ip;
          let ref = ref - int (unat b);
          if op + len + 2 > length out then Some (Inl E2BIG)
          else if ref < 0 then Some (Inl EINVAL)
          else do {
            out \<leftarrow> lzf_copy out op (nat ref) len;
            Some (Inr (ip + 1, out, op + (len + 2)))
          }
        }
      })"

partial_function (option) lzf_dloop :: "bytes \<Rightarrow> nat \<Rightarrow> bytes \<Rightarrow> nat \<Rightarrow> (lzf_error + bytes \<times> nat) option" where
  "lzf_dloop inp ip out op =
     Option.bind (mem_byte inp ip) (\<lambda>b.
       Option.bind (if unat b < 32 then lzf_literals inp (ip + 1) out op (unat b + 1) else lzf_backref inp (ip + 1) out op (unat b)) (\<lambda>r.
         case r of
           Inl e \<Rightarrow> Some (Inl e)
         | Inr (ip, out, op) \<Rightarrow> if ip < length inp then lzf_dloop inp ip out op else Some (Inr (out, op))))"

declare lzf_dloop.simps [code]

definition lzf_decompress :: "bytes \<Rightarrow> bytes \<Rightarrow> (lzf_error + bytes \<times> nat) option" where
  "lzf_decompress inp out = lzf_dloop inp 0 out 0"

section \<open>The format\<close>

text \<open>A compressed block is a sequence of runs of literals and of references back into what has been
  decompressed, each with its offset and its number of bytes less two.\<close>

datatype lz_token = Lits bytes | Ref nat nat

fun lz_copy :: "nat \<Rightarrow> nat \<Rightarrow> bytes \<Rightarrow> bytes" where
  "lz_copy off 0 acc = acc"
| "lz_copy off (Suc n) acc = lz_copy off n (acc @ [acc ! (length acc - off - 1)])"

fun lz_expand :: "lz_token \<Rightarrow> bytes \<Rightarrow> bytes" where
  "lz_expand (Lits bs) acc = acc @ bs"
| "lz_expand (Ref off len) acc = lz_copy off (len + 2) acc"

fun lz_enc :: "lz_token \<Rightarrow> bytes" where
  "lz_enc (Lits bs) = word_of_nat (length bs - 1) # bs"
| "lz_enc (Ref off len) =
     (if len < 7 then [word_of_nat (off div 256 + len * 32), word_of_nat off]
      else [word_of_nat (off div 256 + 7 * 32), word_of_nat (len - 7), word_of_nat off])"

fun lz_ok :: "lz_token \<Rightarrow> bytes \<Rightarrow> bool" where
  "lz_ok (Lits bs) acc = (1 \<le> length bs \<and> length bs \<le> 32)"
| "lz_ok (Ref off len) acc = (off < 8192 \<and> off < length acc \<and> 1 \<le> len \<and> len \<le> 262)"

fun lz_run :: "lz_token list \<Rightarrow> bytes \<Rightarrow> bytes" where
  "lz_run [] acc = acc"
| "lz_run (t # ts) acc = lz_run ts (lz_expand t acc)"

fun lz_oks :: "lz_token list \<Rightarrow> bytes \<Rightarrow> bool" where
  "lz_oks [] acc = True"
| "lz_oks (t # ts) acc = (lz_ok t acc \<and> lz_oks ts (lz_expand t acc))"

lemma lz_run_append [simp]: "lz_run (ts @ us) acc = lz_run us (lz_run ts acc)"
  by (induction ts arbitrary: acc) auto

lemma lz_oks_append [simp]: "lz_oks (ts @ us) acc \<longleftrightarrow> lz_oks ts acc \<and> lz_oks us (lz_run ts acc)"
  by (induction ts arbitrary: acc) auto

lemma lz_copy_extends: "\<exists>bs. lz_copy off n acc = acc @ bs \<and> length bs = n"
proof (induction n arbitrary: acc)
  case (Suc n)
  obtain bs where "lz_copy off n (acc @ [acc ! (length acc - off - 1)]) = (acc @ [acc ! (length acc - off - 1)]) @ bs" "length bs = n"
    using Suc.IH by blast
  then show ?case by auto
qed auto

lemma length_lz_copy [simp]: "length (lz_copy off n acc) = length acc + n"
  using lz_copy_extends [of off n acc] by auto

lemma lz_expand_grows: "length acc \<le> length (lz_expand t acc)"
  by (cases t) auto

lemma lz_run_grows: "length acc \<le> length (lz_run ts acc)"
  by (induction ts arbitrary: acc) (auto intro: order_trans [OF lz_expand_grows])

lemma lz_run_pos: "lz_oks ts [] \<Longrightarrow> ts \<noteq> [] \<Longrightarrow> 0 < length (lz_run ts [])"
proof (cases ts)
  case (Cons t us)
  assume "lz_oks ts []"
  then have "0 < length (lz_expand t [])" using Cons by (cases t) auto
  then show ?thesis using lz_run_grows [of "lz_expand t []" us] unfolding Cons lz_run.simps by linarith
qed simp

section \<open>Decompression\<close>

lemma put_byte_append: "i = length a \<Longrightarrow> put_byte (a @ x # c) i b = Some (a @ b # c)"
  by (simp add: put_byte_def)

lemma copy_bytes_lz:
  assumes "off < length acc" "n \<le> length rest"
  shows "copy_bytes n (acc @ rest) (length acc) (length acc - off - 1) = Some (lz_copy off n acc @ drop n rest)"
  using assms
proof (induction n arbitrary: acc rest)
  case (Suc n)
  then obtain x c where rest: "rest = x # c" by (cases rest) auto
  define b where "b = acc ! (length acc - off - 1)"
  have "length acc - off - 1 < length acc" using Suc.prems(1) by simp
  then have "mem_byte (acc @ rest) (length acc - off - 1) = Some b" by (simp add: mem_byte_def nth_append b_def)
  moreover have "put_byte (acc @ rest) (length acc) b = Some ((acc @ [b]) @ c)" using put_byte_append [of _ acc x c b] rest by simp
  moreover have "copy_bytes n ((acc @ [b]) @ c) (length (acc @ [b])) (length (acc @ [b]) - off - 1) = Some (lz_copy off n (acc @ [b]) @ drop n c)"
    by (rule Suc.IH) (use Suc.prems rest in auto)
  moreover have "length (acc @ [b]) - off - 1 = length acc - off - 1 + 1" "length (acc @ [b]) = length acc + 1" using Suc.prems(1) by auto
  ultimately show ?case using rest by (simp add: b_def)
qed simp

text \<open>A disjoint copy does the same at once.\<close>

lemma lz_copy_disjoint:
  assumes "off < length acc" "n \<le> off + 1"
  shows "lz_copy off n acc = acc @ take n (drop (length acc - off - 1) acc)"
  using assms
proof (induction n arbitrary: acc)
  case (Suc n)
  define b where "b = acc ! (length acc - off - 1)"
  have "lz_copy off n (acc @ [b]) = (acc @ [b]) @ take n (drop (length (acc @ [b]) - off - 1) (acc @ [b]))"
    by (rule Suc.IH) (use Suc.prems in auto)
  moreover have "length (acc @ [b]) - off - 1 = Suc (length acc - off - 1)" using Suc.prems(1) by simp
  moreover have "take n (drop (Suc (length acc - off - 1)) (acc @ [b])) = take n (drop (Suc (length acc - off - 1)) acc)"
    using Suc.prems by simp
  moreover have "take (Suc n) (drop (length acc - off - 1) acc) = b # take n (drop (Suc (length acc - off - 1)) acc)"
    using Cons_nth_drop_Suc [of "length acc - off - 1" acc] Suc.prems(1) by (simp add: b_def flip: Cons_nth_drop_Suc)
  ultimately show ?case by (simp add: b_def)
qed simp

lemma lzf_copy_lz:
  assumes "off < length acc" "len + 2 \<le> length rest"
  shows "lzf_copy (acc @ rest) (length acc) (length acc - off - 1) len = Some (lz_copy off (len + 2) acc @ drop (len + 2) rest)"
proof (cases "len \<ge> 10 \<and> length acc \<ge> (length acc - off - 1) + (len + 2)")
  case True
  then have d: "len + 2 \<le> off + 1" using assms(1) by linarith
  have "mem_rd (acc @ rest) (length acc - off - 1) (len + 2) = Some (take (len + 2) (drop (length acc - off - 1) acc))"
    using d assms(1) by (simp add: mem_rd_def)
  moreover have "length (take (len + 2) (drop (length acc - off - 1) acc)) = len + 2" using d assms(1) by simp
  ultimately have "mem_move (acc @ rest) (length acc) (length acc - off - 1) (len + 2)
      = Some (acc @ take (len + 2) (drop (length acc - off - 1) acc) @ drop (len + 2) rest)"
    using assms(2) by (simp add: mem_move_def mem_wr_def)
  then show ?thesis using True lz_copy_disjoint [OF assms(1) d] by (simp add: lzf_copy_def)
next
  case False
  show ?thesis unfolding lzf_copy_def if_not_P [OF False] by (rule copy_bytes_lz [OF assms])
qed

lemma unat_small: "n < 256 \<Longrightarrow> unat (word_of_nat n :: u8) = n"
  by simp

lemma lzf_backref_lz:
  assumes ok: "lz_ok (Ref off len) acc" and fit: "length acc + (len + 2) \<le> length acc + length rest"
    and inp: "inp = pre @ lz_enc (Ref off len) @ post"
  shows "\<exists>b. mem_byte inp (length pre) = Some b \<and> \<not> unat b < 32 \<and>
    lzf_backref inp (length pre + 1) (acc @ rest) (length acc) (unat b)
      = Some (Inr (length pre + length (lz_enc (Ref off len)), lz_copy off (len + 2) acc @ drop (len + 2) rest, length acc + (len + 2)))"
proof -
  define q where "q = off div 256"
  have q: "q < 32" "off = q * 256 + off mod 256" using ok by (auto simp: q_def)
  have ref: "int (length acc) - int (q * 256) - 1 - int (off mod 256) = int (length acc - off - 1)" using ok q(2) by simp
  define out' where "out' = lz_copy off (len + 2) acc @ drop (len + 2) rest"
  have cp: "lzf_copy (acc @ rest) (length acc) (length acc - off - 1) len = Some out'"
    unfolding out'_def by (rule lzf_copy_lz) (use ok fit in auto)
  have lo: "uint (word_of_nat off :: u8) = int (off mod 256)" by (simp add: uint_nat)
  show ?thesis
  proof (cases "len < 7")
    case True
    define c where "c = q + len * 32"
    have "c < 256" using True q(1) by (simp add: c_def)
    note c0 = unat_small [OF this]
    have c: "unat (word_of_nat c :: u8) = c" "c div 32 = len" "c mod 32 = q" "\<not> c < 32" by (rule c0) (use True q(1) ok in \<open>simp_all add: c_def\<close>)
    have i: "inp = pre @ word_of_nat c # word_of_nat off # post" using inp True by (simp add: q_def c_def)
    have m: "mem_byte inp (length pre) = Some (word_of_nat c)" "mem_byte inp (length pre + 1) = Some (word_of_nat off)"
      "length pre + 1 < length inp" unfolding i by (simp_all add: mem_byte_def nth_append)
    have "lzf_backref inp (length pre + 1) (acc @ rest) (length acc) c
        = Some (Inr (length pre + 2, out', length acc + (len + 2)))"
      using m(2,3) c(2,3) True lo ref cp fit by (simp add: lzf_backref_def Let_def)
    then show ?thesis using m(1) c(1,4) True unfolding out'_def by (simp only: lz_enc.simps if_True) simp
  next
    case False
    define c where "c = q + 7 * 32"
    have "c < 256" using q(1) by (simp add: c_def)
    note c0 = unat_small [OF this]
    have c: "unat (word_of_nat c :: u8) = c" "c div 32 = 7" "c mod 32 = q" "\<not> c < 32" by (rule c0) (use q(1) in \<open>unfold c_def, presburger+\<close>)
    have l: "unat (word_of_nat (len - 7) :: u8) = len - 7" by (rule unat_small) (use ok in auto)
    have i: "inp = pre @ word_of_nat c # word_of_nat (len - 7) # word_of_nat off # post" using inp False by (simp add: q_def c_def)
    have m: "mem_byte inp (length pre) = Some (word_of_nat c)" "mem_byte inp (length pre + 1) = Some (word_of_nat (len - 7))"
      "mem_byte inp (length pre + 2) = Some (word_of_nat off)" "length pre + 2 < length inp" unfolding i by (simp_all add: mem_byte_def nth_append)
    have "7 + (len - 7) = len" using False by simp
    then have "lzf_backref inp (length pre + 1) (acc @ rest) (length acc) c
        = Some (Inr (length pre + 3, out', length acc + (len + 2)))"
      using m(2,3,4) c(2,3) lo l ref cp fit by (simp add: lzf_backref_def Let_def)
    then show ?thesis using m(1) c(1,4) False unfolding out'_def by (simp only: lz_enc.simps if_False) simp
  qed
qed

lemma lzf_literals_lz:
  assumes ok: "lz_ok (Lits bs) acc" and fit: "length bs \<le> length rest" and inp: "inp = pre @ lz_enc (Lits bs) @ post"
  shows "\<exists>b. mem_byte inp (length pre) = Some b \<and> unat b < 32 \<and>
    lzf_literals inp (length pre + 1) (acc @ rest) (length acc) (unat b + 1)
      = Some (Inr (length pre + length (lz_enc (Lits bs)), (acc @ bs) @ drop (length bs) rest, length acc + length bs))"
proof -
  have u: "unat (word_of_nat (length bs - 1) :: u8) = length bs - 1" by (rule unat_small) (use ok in auto)
  have "length bs - 1 + 1 = length bs" using ok by auto
  moreover have "mem_rd inp (length pre + 1) (length bs) = Some bs"
    using mem_rd_append [of _ "pre @ [word_of_nat (length bs - 1)]" "length bs" bs post] inp by simp
  ultimately have "lzf_literals inp (length pre + 1) (acc @ rest) (length acc) (length bs - 1 + 1)
      = Some (Inr (length pre + length (lz_enc (Lits bs)), (acc @ bs) @ drop (length bs) rest, length acc + length bs))"
    using fit inp by (simp add: lzf_literals_def mem_wr_def)
  moreover have "mem_byte inp (length pre) = Some (word_of_nat (length bs - 1))" using inp by (simp add: mem_byte_append)
  moreover have "length bs - 1 < 32" using ok by auto
  ultimately show ?thesis using u by metis
qed

lemma lzf_round_lz:
  assumes ok: "lz_ok t acc" and fit: "length (lz_expand t acc) \<le> length acc + length rest" and inp: "inp = pre @ lz_enc t @ post"
  shows "\<exists>b. mem_byte inp (length pre) = Some b \<and>
    (if unat b < 32 then lzf_literals inp (length pre + 1) (acc @ rest) (length acc) (unat b + 1)
     else lzf_backref inp (length pre + 1) (acc @ rest) (length acc) (unat b))
      = Some (Inr (length pre + length (lz_enc t), lz_expand t acc @ drop (length (lz_expand t acc) - length acc) rest,
          length (lz_expand t acc)))"
proof (cases t)
  case (Lits bs)
  have f: "length bs \<le> length rest" using fit Lits by simp
  obtain b where b: "mem_byte inp (length pre) = Some b" "unat b < 32"
    "lzf_literals inp (length pre + 1) (acc @ rest) (length acc) (unat b + 1)
      = Some (Inr (length pre + length (lz_enc t), (acc @ bs) @ drop (length bs) rest, length acc + length bs))"
    using lzf_literals_lz [of bs acc rest inp pre post] ok f inp Lits by auto
  then show ?thesis using Lits by (intro exI [of _ b]) simp
next
  case (Ref off len)
  have f: "len + 2 \<le> length rest" using fit Ref by simp
  obtain b where b: "mem_byte inp (length pre) = Some b" "\<not> unat b < 32"
    "lzf_backref inp (length pre + 1) (acc @ rest) (length acc) (unat b)
      = Some (Inr (length pre + length (lz_enc t), lz_copy off (len + 2) acc @ drop (len + 2) rest, length acc + (len + 2)))"
    using lzf_backref_lz [of off len acc rest inp pre post] ok f inp Ref by auto
  have e: "lz_expand t acc = lz_copy off (len + 2) acc" "length (lz_expand t acc) = length acc + (len + 2)" using Ref by simp_all
  have "length (lz_expand t acc) - length acc = len + 2" using e(2) by simp
  then show ?thesis using b unfolding e(1) [symmetric] e(2) [symmetric]
    by (intro exI [of _ b]) (simp only: if_False simp_thms)
qed

text \<open>Decompressing the encoding of a sequence of tokens expands them into the beginning of the output
  buffer and leaves the rest of it alone.\<close>

lemma lzf_dloop_lz:
  assumes "ts \<noteq> []" "lz_oks ts acc" "inp = pre @ concat (map lz_enc ts)" "length (lz_run ts acc) \<le> length (acc @ rest)"
  shows "lzf_dloop inp (length pre) (acc @ rest) (length acc) =
    Some (Inr (lz_run ts acc @ drop (length (lz_run ts acc) - length acc) rest, length (lz_run ts acc)))"
  using assms
proof (induction ts arbitrary: acc rest pre)
  case (Cons t ts)
  let ?acc = "lz_expand t acc" and ?rest = "drop (length (lz_expand t acc) - length acc) rest"
  have grow: "length acc \<le> length ?acc" "length ?acc \<le> length (lz_run ts ?acc)"
    using lz_expand_grows lz_run_grows by blast+
  have fit: "length ?acc \<le> length acc + length rest" using grow Cons.prems(4) by simp
  have inp: "inp = pre @ lz_enc t @ concat (map lz_enc ts)" using Cons.prems(3) by simp
  obtain b where b: "mem_byte inp (length pre) = Some b"
    "(if unat b < 32 then lzf_literals inp (length pre + 1) (acc @ rest) (length acc) (unat b + 1)
      else lzf_backref inp (length pre + 1) (acc @ rest) (length acc) (unat b))
     = Some (Inr (length pre + length (lz_enc t), ?acc @ ?rest, length ?acc))"
    using lzf_round_lz [OF _ fit inp] Cons.prems(2) by auto
  have run: "lzf_dloop inp (length pre) (acc @ rest) (length acc) =
      (if length (pre @ lz_enc t) < length inp then lzf_dloop inp (length (pre @ lz_enc t)) (?acc @ ?rest) (length ?acc)
       else Some (Inr (?acc @ ?rest, length ?acc)))"
    by (subst lzf_dloop.simps) (simp only: b Option.bind.simps sum.case prod.case length_append)
  show ?case
  proof (cases "ts = []")
    case True
    then show ?thesis using run inp by simp
  next
    case False
    then obtain u us where us: "ts = u # us" by (cases ts) auto
    have "0 < length (lz_enc u)" by (cases u) auto
    then have "length (pre @ lz_enc t) < length inp" using inp us by simp
    moreover have "lzf_dloop inp (length (pre @ lz_enc t)) (?acc @ ?rest) (length ?acc) =
        Some (Inr (lz_run ts ?acc @ drop (length (lz_run ts ?acc) - length ?acc) ?rest, length (lz_run ts ?acc)))"
      by (rule Cons.IH [OF False]) (use Cons.prems grow fit in auto)
    ultimately show ?thesis using run grow by simp
  qed
qed simp

text \<open>On any input, decompression stays inside its buffers and ends.\<close>

lemma copy_bytes_safe: "ref < op \<Longrightarrow> op + n \<le> length out \<Longrightarrow> \<exists>out'. copy_bytes n out op ref = Some out' \<and> length out' = length out"
proof (induction n arbitrary: out op ref)
  case (Suc n)
  have "mem_byte out ref = Some (out ! ref)" "put_byte out op (out ! ref) = Some (out[op := out ! ref])"
    using Suc.prems by (simp_all add: mem_byte_def put_byte_def)
  then show ?case using Suc.IH [of "ref + 1" "op + 1" "out[op := out ! ref]"] Suc.prems by simp
qed simp

lemma lzf_copy_safe:
  assumes "ref < op" "op + (len + 2) \<le> length out"
  shows "\<exists>out'. lzf_copy out op ref len = Some out' \<and> length out' = length out"
proof (cases "len \<ge> 10 \<and> op \<ge> ref + (len + 2)")
  case True
  have "mem_rd out ref (len + 2) = Some (take (len + 2) (drop ref out))" using True assms by (simp add: mem_rd_def)
  moreover have "length (take (len + 2) (drop ref out)) = len + 2" using True assms by (simp, linarith)
  ultimately show ?thesis using True assms by (simp add: lzf_copy_def mem_move_def mem_wr_def)
next
  case False
  show ?thesis unfolding lzf_copy_def if_not_P [OF False] by (rule copy_bytes_safe [OF assms])
qed

lemma lzf_literals_safe:
  "\<exists>r. lzf_literals inp ip out op (Suc k) = Some r \<and>
    (\<forall>ip' out' op'. r = Inr (ip', out', op') \<longrightarrow> ip < ip' \<and> length out' = length out \<and> op' \<le> length out)"
  by (auto simp: lzf_literals_def mem_rd_def mem_wr_def)

lemma lzf_backref_safe:
  "\<exists>r. lzf_backref inp ip out op ctrl = Some r \<and>
    (\<forall>ip' out' op'. r = Inr (ip', out', op') \<longrightarrow> ip < ip' \<and> length out' = length out \<and> op' \<le> length out)"
proof (cases "ip < length inp")
  case True
  define i where "i = (if ctrl div 32 = 7 then ip + 1 else ip)"
  define len where "len = (if ctrl div 32 = 7 then 7 + unat (inp ! ip) else ctrl div 32)"
  have st: "(if ctrl div 32 = 7 then map_option (\<lambda>b. (ip + 1, 7 + unat b)) (mem_byte inp ip) else Some (ip, ctrl div 32)) = Some (i, len)"
    using True by (simp add: i_def len_def mem_byte_def)
  show ?thesis
  proof (cases "i < length inp")
    case in_i: True
    define ref where "ref = int op - int (ctrl mod 32 * 256) - 1 - int (unat (inp ! i))"
    have m: "mem_byte inp i = Some (inp ! i)" using in_i by (simp add: mem_byte_def)
    have run: "lzf_backref inp ip out op ctrl =
      (if op + len + 2 > length out then Some (Inl E2BIG) else if ref < 0 then Some (Inl EINVAL)
       else Option.bind (lzf_copy out op (nat ref) len) (\<lambda>out. Some (Inr (i + 1, out, op + (len + 2)))))"
      unfolding lzf_backref_def Let_def st Option.bind.simps prod.case m using True in_i by (simp add: ref_def)
    show ?thesis
    proof (cases "op + len + 2 > length out \<or> ref < 0")
      case False
      have "int (unat (inp ! i)) \<ge> 0" "int (ctrl mod 32 * 256) \<ge> 0" by simp_all
      then have "nat ref < op" using False unfolding ref_def by linarith
      then obtain out' where "lzf_copy out op (nat ref) len = Some out'" "length out' = length out" using lzf_copy_safe [of "nat ref" op len out] False by auto
      then show ?thesis using run False by (simp add: i_def)
    qed (use run in auto)
  next
    case False
    then have "ctrl div 32 = 7" using True by (auto simp: i_def split: if_splits)
    then show ?thesis unfolding lzf_backref_def Let_def st Option.bind.simps prod.case using True False by simp
  qed
qed (simp add: lzf_backref_def)

lemma lzf_dloop_safe:
  "ip < length inp \<Longrightarrow> \<exists>r. lzf_dloop inp ip out op = Some r \<and> (\<forall>out' op'. r = Inr (out', op') \<longrightarrow> length out' = length out \<and> op' \<le> length out)"
proof (induction "length inp - ip" arbitrary: ip out op rule: less_induct)
  case less
  have m: "mem_byte inp ip = Some (inp ! ip)" using less.prems by (simp add: mem_byte_def)
  obtain r where r: "(if unat (inp ! ip) < 32 then lzf_literals inp (ip + 1) out op (unat (inp ! ip) + 1) else lzf_backref inp (ip + 1) out op (unat (inp ! ip))) = Some r"
    "\<forall>ip' out' op'. r = Inr (ip', out', op') \<longrightarrow> ip + 1 < ip' \<and> length out' = length out \<and> op' \<le> length out"
    using lzf_literals_safe [of inp "ip + 1" out op "unat (inp ! ip)"] lzf_backref_safe [of inp "ip + 1" out op "unat (inp ! ip)"] by (cases "unat (inp ! ip) < 32") auto
  have run: "lzf_dloop inp ip out op = (case r of Inl e \<Rightarrow> Some (Inl e)
      | Inr (ip, out, op) \<Rightarrow> if ip < length inp then lzf_dloop inp ip out op else Some (Inr (out, op)))"
    by (subst lzf_dloop.simps) (simp only: m r(1) Option.bind.simps)
  show ?case
  proof (cases r)
    case (Inr q)
    obtain ip' out' op' where q: "q = (ip', out', op')" by (cases q) auto
    then have q': "ip + 1 < ip'" "length out' = length out" "op' \<le> length out" using r(2) Inr by auto
    show ?thesis
    proof (cases "ip' < length inp")
      case True
      then have "length inp - ip' < length inp - ip" using q'(1) less.prems by simp
      from less.hyps [OF this True, of out' op'] show ?thesis using run Inr q True q'(2) by simp
    qed (use run Inr q q' in simp)
  qed (use run in simp)
qed

section \<open>Compression\<close>

lemma lzf_off_small:
  assumes "lzf_off ip ref < MAX_OFF" "ip < 2 ^ 63" "ref < 2 ^ 32"
  shows "ref < ip \<and> lzf_off ip ref = ip - ref - 1"
proof (cases "ref < ip")
  case True
  have "(int ip - int ref - 1) mod 2 ^ 64 = int ip - int ref - 1" using True assms(2) by (intro mod_pos_pos_trivial) auto
  then show ?thesis using True by (simp add: lzf_off_def nat_diff_distrib)
next
  case False
  let ?d = "int ip - int ref - 1"
  have d: "- (2 ^ 33) \<le> ?d" "?d < 0" using False assms(3) by auto
  then have "(?d + 2 ^ 64) mod 2 ^ 64 = ?d + 2 ^ 64" by (intro mod_pos_pos_trivial) auto
  moreover have "(?d + 2 ^ 64) mod 2 ^ 64 = ?d mod 2 ^ 64" by (rule mod_add_self2)
  ultimately have "?d mod 2 ^ 64 = ?d + 2 ^ 64" by linarith
  then show ?thesis using assms(1) d by (simp add: lzf_off_def MAX_OFF_def)
qed

lemma lzf_hit_ok:
  assumes "ip + 2 < length inp" "ip < 2 ^ 63" "ref < 2 ^ 32"
  shows "\<exists>b. lzf_hit inp ip ref = Some b \<and>
    (b \<longrightarrow> ref < ip \<and> lzf_off ip ref = ip - ref - 1 \<and> lzf_off ip ref < MAX_OFF \<and> (\<forall>k \<le> 2. inp ! (ref + k) = inp ! (ip + k)))"
proof (cases "lzf_off ip ref < MAX_OFF \<and> ref > 0")
  case True
  then have off: "ref < ip" "lzf_off ip ref = ip - ref - 1" using lzf_off_small assms by blast+
  have m: "mem_byte inp (ref + 2) = Some (inp ! (ref + 2))" "mem_byte inp (ip + 2) = Some (inp ! (ip + 2))"
    "mem_rd inp ref 2 = Some [inp ! ref, inp ! (ref + 1)]" "mem_rd inp ip 2 = Some [inp ! ip, inp ! (ip + 1)]"
    using off(1) assms(1) by (simp_all add: mem_byte_def mem_rd_def numeral_2_eq_2 take_Suc_conv_app_nth)
  have k: "(\<forall>k \<le> 2. P k) \<longleftrightarrow> P 0 \<and> P 1 \<and> P (2 :: nat)" for P by (auto simp: numeral_2_eq_2 le_Suc_eq)
  show ?thesis unfolding lzf_hit_def m Option.bind.simps k using True off by auto
qed (auto simp: lzf_hit_def)

lemma lzf_unrolled_ok:
  assumes "ip + (len + k) < length inp" "ref < ip" "\<forall>j \<le> len. inp ! (ref + j) = inp ! (ip + j)"
  shows "\<exists>len' d. lzf_unrolled k inp ref ip len = Some (len', d) \<and> len \<le> len' \<and> len' \<le> len + k \<and>
    (d \<longrightarrow> len < len' \<and> (\<forall>j < len'. inp ! (ref + j) = inp ! (ip + j))) \<and>
    (\<not> d \<longrightarrow> len' = len + k \<and> (\<forall>j \<le> len'. inp ! (ref + j) = inp ! (ip + j)))"
  using assms(1,3)
proof (induction k arbitrary: len)
  case (Suc k)
  have m: "mem_byte inp (ref + (len + 1)) = Some (inp ! (ref + (len + 1)))" "mem_byte inp (ip + (len + 1)) = Some (inp ! (ip + (len + 1)))"
    using Suc.prems(1) assms(2) by (simp_all add: mem_byte_def)
  show ?case
  proof (cases "inp ! (ref + (len + 1)) = inp ! (ip + (len + 1))")
    case True
    then have eq: "\<forall>j \<le> len + 1. inp ! (ref + j) = inp ! (ip + j)" using Suc.prems(2) by (auto simp: le_Suc_eq)
    have "lzf_unrolled (Suc k) inp ref ip len = lzf_unrolled k inp ref ip (len + 1)" using m True by simp
    then show ?thesis using Suc.IH [of "len + 1"] Suc.prems(1) eq by fastforce
  next
    case False
    then have "lzf_unrolled (Suc k) inp ref ip len = Some (len + 1, True)" using m by simp
    then show ?thesis using Suc.prems(2) by (auto simp: less_Suc_eq_le)
  qed
qed auto

lemma lzf_extend_ok:
  assumes "ip + maxlen \<le> length inp" "ref < ip" "\<forall>j \<le> len. inp ! (ref + j) = inp ! (ip + j)"
  shows "\<exists>len'. lzf_extend inp ref ip maxlen len = Some len' \<and> len < len' \<and> len' \<le> max (len + 1) maxlen \<and>
    (\<forall>j < len'. inp ! (ref + j) = inp ! (ip + j))"
  using assms(3)
proof (induction "maxlen - len" arbitrary: len rule: less_induct)
  case less
  show ?case
  proof (cases "len + 1 < maxlen")
    case True
    have m: "mem_byte inp (ref + (len + 1)) = Some (inp ! (ref + (len + 1)))" "mem_byte inp (ip + (len + 1)) = Some (inp ! (ip + (len + 1)))"
      using True assms(1,2) by (simp_all add: mem_byte_def)
    show ?thesis
    proof (cases "inp ! (ref + (len + 1)) = inp ! (ip + (len + 1))")
      case eq: True
      then have "\<forall>j \<le> len + 1. inp ! (ref + j) = inp ! (ip + j)" using less.prems by (auto simp: le_Suc_eq)
      moreover have "maxlen - (len + 1) < maxlen - len" using True by simp
      moreover have "lzf_extend inp ref ip maxlen len = lzf_extend inp ref ip maxlen (len + 1)"
        by (subst lzf_extend.simps) (simp only: True if_True m Option.bind.simps eq refl)
      ultimately show ?thesis using less.hyps [of "len + 1"] True by fastforce
    next
      case False
      then have "lzf_extend inp ref ip maxlen len = Some (len + 1)"
        by (subst lzf_extend.simps) (simp only: True if_True m Option.bind.simps if_False)
      then show ?thesis using less.prems by (auto simp: less_Suc_eq_le)
    qed
  next
    case False
    then have "lzf_extend inp ref ip maxlen len = Some (len + 1)" by (subst lzf_extend.simps) simp
    then show ?thesis using less.prems by (auto simp: less_Suc_eq_le)
  qed
qed

lemma lzf_match_len_ok:
  assumes "ip + 2 < length inp" "ref < ip" "\<forall>j \<le> 2. inp ! (ref + j) = inp ! (ip + j)"
  shows "\<exists>len. lzf_match_len inp ref ip = Some len \<and> 3 \<le> len \<and> ip + len \<le> length inp \<and> len \<le> 264 \<and>
    (\<forall>j < len. inp ! (ref + j) = inp ! (ip + j))"
proof -
  define maxlen where "maxlen = (if length inp - ip - 2 > MAX_REF then MAX_REF else length inp - ip - 2)"
  have mx: "ip + maxlen \<le> length inp" "maxlen \<le> 264" "ip + (maxlen + 2) \<le> length inp" using assms(1) by (auto simp: maxlen_def MAX_REF_def)
  have df: "lzf_match_len inp ref ip = (if maxlen > 16 then Option.bind (lzf_unrolled 16 inp ref ip 2)
      (\<lambda>(len, differ). if differ then Some len else lzf_extend inp ref ip maxlen len) else lzf_extend inp ref ip maxlen 2)"
    unfolding lzf_match_len_def Let_def maxlen_def [symmetric] by simp
  show ?thesis
  proof (cases "maxlen > 16")
    case False
    obtain len where "lzf_extend inp ref ip maxlen 2 = Some len" "2 < len" "len \<le> max 3 maxlen" "\<forall>j < len. inp ! (ref + j) = inp ! (ip + j)"
      using lzf_extend_ok [OF mx(1) assms(2,3)] by auto
    then show ?thesis using df False mx assms(1) by auto
  next
    case True
    have "ip + (2 + 16) < length inp" using True mx(3) by simp
    from lzf_unrolled_ok [OF this assms(2,3)] obtain len d where u: "lzf_unrolled 16 inp ref ip 2 = Some (len, d)" "len \<le> 18"
      "d \<longrightarrow> 2 < len \<and> (\<forall>j < len. inp ! (ref + j) = inp ! (ip + j))"
      "\<not> d \<longrightarrow> len = 18 \<and> (\<forall>j \<le> len. inp ! (ref + j) = inp ! (ip + j))" by auto
    show ?thesis
    proof (cases d)
      case d: True
      then show ?thesis using df True u mx by auto
    next
      case d: False
      then obtain len' where "lzf_extend inp ref ip maxlen len = Some len'" "len < len'" "len' \<le> max (len + 1) maxlen"
        "\<forall>j < len'. inp ! (ref + j) = inp ! (ip + j)" using lzf_extend_ok [OF mx(1) assms(2), of len] u(4) by blast
      then show ?thesis using df True u d mx by auto
    qed
  qed
qed

text \<open>A reference to equal bytes expands to them.\<close>

lemma lz_copy_matches:
  assumes "off = ip - ref - 1" "ref < ip" "ip + n \<le> length inp" "\<forall>j < n. inp ! (ref + j) = inp ! (ip + j)"
  shows "lz_copy off n (take ip inp) = take (ip + n) inp"
  using assms
proof (induction n arbitrary: ip ref)
  case (Suc n)
  have l: "length (take ip inp) = ip" using Suc.prems(3) by simp
  have "take ip inp ! (ip - off - 1) = inp ! ref" using Suc.prems(1,2) by simp
  also have "\<dots> = inp ! ip" using Suc.prems(4) by force
  finally have "take ip inp @ [take ip inp ! (length (take ip inp) - off - 1)] = take (ip + 1) inp"
    unfolding l using Suc.prems(3) by (simp add: take_Suc_conv_app_nth)
  moreover have "lz_copy off n (take (ip + 1) inp) = take (ip + 1 + n) inp"
  proof (rule Suc.IH [of "ip + 1" "ref + 1"])
    show "\<forall>j < n. inp ! (ref + 1 + j) = inp ! (ip + 1 + j)" using Suc.prems(4) by auto
  qed (use Suc.prems in auto)
  ultimately show ?case by simp
qed simp

text \<open>What has been written so far is the encoding of tokens that expand to the input read so far, but
  for an open run of literals. Only a full run of literals makes it longer than the input.\<close>

definition lzf_inv :: "bytes \<Rightarrow> lz_token list \<Rightarrow> lzf_state \<Rightarrow> bool" where
  "lzf_inv inp ts st \<longleftrightarrow>
     (let E = concat (map lz_enc ts); ip = l_ip st; lit = l_lit st; out = l_out st in
      lz_oks ts [] \<and> lz_run ts [] = take (ip - lit) inp \<and> lit \<le> ip \<and> ip \<le> length inp \<and> lit \<le> 32 \<and>
      l_op st = length E + 1 + lit \<and> length E \<le> length out \<and> (0 < lit \<longrightarrow> l_op st \<le> length out) \<and>
      take (length E) out = E \<and> take lit (drop (length E + 1) out) = take lit (drop (ip - lit) inp) \<and>
      length E \<le> (ip - lit) + (ip - lit) div 32)"

text \<open>Room enough for any input of this length.\<close>

definition lzf_room :: "nat \<Rightarrow> nat \<Rightarrow> bool" where
  "lzf_room n room \<longleftrightarrow> n + n div 32 + 4 \<le> room"

lemma lzf_inv_op:
  assumes "lzf_inv inp ts st"
  shows "l_op st = length (concat (map lz_enc ts)) + 1 + l_lit st" "l_lit st \<le> l_ip st"
    "length (concat (map lz_enc ts)) \<le> (l_ip st - l_lit st) + (l_ip st - l_lit st) div 32" "l_op st \<le> l_ip st + 1 + length inp div 32"
proof -
  show o: "l_op st = length (concat (map lz_enc ts)) + 1 + l_lit st" "l_lit st \<le> l_ip st"
    "length (concat (map lz_enc ts)) \<le> (l_ip st - l_lit st) + (l_ip st - l_lit st) div 32"
    using assms unfolding lzf_inv_def Let_def by blast+
  have "l_ip st \<le> length inp" using assms by (simp add: lzf_inv_def Let_def)
  then have "(l_ip st - l_lit st) div 32 \<le> length inp div 32" by (intro div_le_mono) simp
  then show "l_op st \<le> l_ip st + 1 + length inp div 32" using o by linarith
qed

lemma put_byte_take:
  assumes "take (length E) out = E" "length E < length out"
  shows "\<exists>out'. put_byte out (length E) b = Some out' \<and> length out' = length out \<and> take (length (E @ [b])) out' = E @ [b] \<and>
    drop (length E + 1) out' = drop (length E + 1) out"
  using assms by (auto simp: put_byte_def take_Suc_conv_app_nth)

lemma put_ref_ok:
  assumes "take (length E) out = E" "length E + 3 \<le> length out"
  shows "\<exists>out'. put_ref out (length E) off len = Some (out', length (E @ lz_enc (Ref off len))) \<and> length out' = length out \<and>
    take (length (E @ lz_enc (Ref off len))) out' = E @ lz_enc (Ref off len)"
proof (cases "len < 7")
  case True
  define a :: u8 where "a = word_of_nat (off div 256 + len * 32)"
  define b :: u8 where "b = word_of_nat off"
  obtain o1 where o1: "put_byte out (length E) a = Some o1" "length o1 = length out" "take (length (E @ [a])) o1 = E @ [a]"
    using put_byte_take [OF assms(1), of a] assms(2) by auto
  obtain o2 where "put_byte o1 (length (E @ [a])) b = Some o2" "length o2 = length out" "take (length ((E @ [a]) @ [b])) o2 = (E @ [a]) @ [b]"
    using put_byte_take [OF o1(3), of b] o1(2) assms(2) by auto
  then show ?thesis using True o1 unfolding put_ref_def lz_enc.simps a_def [symmetric] b_def [symmetric] by simp
next
  case False
  define a :: u8 where "a = word_of_nat (off div 256 + 7 * 32)"
  define c :: u8 where "c = word_of_nat (len - 7)"
  define b :: u8 where "b = word_of_nat off"
  obtain o1 where o1: "put_byte out (length E) a = Some o1" "length o1 = length out" "take (length (E @ [a])) o1 = E @ [a]"
    using put_byte_take [OF assms(1), of a] assms(2) by auto
  obtain o2 where o2: "put_byte o1 (length (E @ [a])) c = Some o2" "length o2 = length out" "take (length ((E @ [a]) @ [c])) o2 = (E @ [a]) @ [c]"
    using put_byte_take [OF o1(3), of c] o1(2) assms(2) by auto
  obtain o3 where "put_byte o2 (length ((E @ [a]) @ [c])) b = Some o3" "length o3 = length out"
    "take (length (((E @ [a]) @ [c]) @ [b])) o3 = ((E @ [a]) @ [c]) @ [b]"
    using put_byte_take [OF o2(3), of b] o2(2) assms(2) by auto
  then show ?thesis using False o1 o2 unfolding put_ref_def lz_enc.simps a_def [symmetric] b_def [symmetric] c_def [symmetric] by simp
qed

definition lz_closed :: "bytes \<Rightarrow> lz_token list \<Rightarrow> lzf_state \<Rightarrow> lz_token list" where
  "lz_closed inp ts st = (if l_lit st = 0 then ts else ts @ [Lits (take (l_lit st) (drop (l_ip st - l_lit st) inp))])"

text \<open>Stopping the run completes the tokens.\<close>

lemma stop_run_ok:
  assumes inv: "lzf_inv inp ts st" and fit: "length (concat (map lz_enc ts)) < length (l_out st)"
    and E: "E = concat (map lz_enc (lz_closed inp ts st))"
  shows "\<exists>out. stop_run (l_out st) (l_op st) (l_lit st) = Some out \<and> length out = length (l_out st) \<and>
    lz_oks (lz_closed inp ts st) [] \<and> lz_run (lz_closed inp ts st) [] = take (l_ip st) inp \<and>
    length E = l_op st - (if l_lit st = 0 then 1 else 0) \<and> take (length E) out = E"
proof -
  define E0 where "E0 = concat (map lz_enc ts)"
  define lit where "lit = l_lit st"
  define ip where "ip = l_ip st"
  have i: "lz_oks ts []" "lz_run ts [] = take (ip - lit) inp" "lit \<le> ip" "ip \<le> length inp" "lit \<le> 32" "l_op st = length E0 + 1 + lit"
    "0 < lit \<longrightarrow> l_op st \<le> length (l_out st)" "take (length E0) (l_out st) = E0" "take lit (drop (length E0 + 1) (l_out st)) = take lit (drop (ip - lit) inp)"
    using inv unfolding lzf_inv_def Let_def E0_def lit_def ip_def by blast+
  define b :: u8 where "b = word_of_int (int lit - 1)"
  obtain out where out: "put_byte (l_out st) (length E0) b = Some out" "length out = length (l_out st)" "take (length (E0 @ [b])) out = E0 @ [b]"
    "drop (length E0 + 1) out = drop (length E0 + 1) (l_out st)" using put_byte_take [OF i(8)] fit by (auto simp: E0_def)
  have run: "stop_run (l_out st) (l_op st) (l_lit st) = Some out" using out(1) i(6) by (simp add: stop_run_def lit_def b_def)
  show ?thesis
  proof (cases "lit = 0")
    case True
    then have "E = E0" using E by (simp add: lz_closed_def E0_def lit_def)
    moreover have "take (length E0) out = take (length E0) (take (length (E0 @ [b])) out)" by simp
    then have "take (length E0) out = E0" unfolding out(3) by simp
    ultimately show ?thesis using run out(2) i(1,2,6) True by (simp add: lz_closed_def lit_def ip_def)
  next
    case False
    define L where "L = take lit (drop (ip - lit) inp)"
    have L: "length L = lit" using i(3,4) by (simp add: L_def)
    have "b = word_of_nat (lit - 1)" using False by (simp add: b_def of_nat_diff)
    then have Eq: "E = E0 @ [b] @ L" using E False L by (simp add: lz_closed_def E0_def L_def lit_def ip_def)
    have "take (length E) out = take (length (E0 @ [b])) out @ take lit (drop (length E0 + 1) out)"
      using Eq L take_add [of "length (E0 @ [b])" lit out] by simp
    also have "\<dots> = E" unfolding out(3,4) i(9) Eq L_def by simp
    finally have t: "take (length E) out = E" .
    have "take (ip - lit) inp @ L = take ip inp" using take_add [of "ip - lit" lit inp] i(3) by (simp add: L_def)
    then show ?thesis using run out(2) i(1,2,5,6) False L Eq t by (simp add: lz_closed_def L_def lit_def ip_def)
  qed
qed

lemma put_literal_ok:
  assumes inv: "lzf_inv inp ts st" and lit: "l_lit st < 32" and ip: "l_ip st < length inp" and op: "l_op st < length (l_out st)"
  shows "\<exists>st' ts'. put_literal inp st = Some st' \<and> lzf_inv inp ts' st' \<and> l_lit st' < 32 \<and> l_ip st' = l_ip st + 1 \<and>
    length (l_out st') = length (l_out st) \<and>
    (if l_lit st = 31 then l_op st' = l_op st + 2 \<and> l_lit st' = 0 else l_op st' = l_op st + 1 \<and> l_lit st' = l_lit st + 1)"
proof -
  define E where "E = concat (map lz_enc ts)"
  have i: "lz_oks ts []" "lz_run ts [] = take (l_ip st - l_lit st) inp" "l_lit st \<le> l_ip st" "l_op st = length E + 1 + l_lit st"
    "take (length E) (l_out st) = E" "take (l_lit st) (drop (length E + 1) (l_out st)) = take (l_lit st) (drop (l_ip st - l_lit st) inp)"
    using inv by (simp_all add: lzf_inv_def Let_def E_def)
  have i7: "length E \<le> (l_ip st - l_lit st) + (l_ip st - l_lit st) div 32" using lzf_inv_op(3) [OF inv] by (simp only: E_def)
  define st1 where "st1 = st\<lparr>l_ip := l_ip st + 1, l_op := l_op st + 1, l_lit := l_lit st + 1, l_out := (l_out st)[l_op st := inp ! l_ip st]\<rparr>"
  have run: "put_literal inp st = (if l_lit st1 = MAX_LIT then
       Option.bind (stop_run (l_out st1) (l_op st1) (l_lit st1)) (\<lambda>out. Some (st1\<lparr>l_out := out, l_lit := 0, l_op := l_op st1 + 1\<rparr>)) else Some st1)"
    using ip op by (simp add: put_literal_def mem_byte_def put_byte_def st1_def)
  have lits: "take (l_lit st + 1) (drop (length E + 1) ((l_out st)[l_op st := inp ! l_ip st])) = take (l_lit st + 1) (drop (l_ip st - l_lit st) inp)"
  proof -
    have d: "drop (length E + 1) ((l_out st)[l_op st := b]) = (drop (length E + 1) (l_out st))[l_lit st := b]" for b
      using i(4) by (simp add: drop_update_swap)
    have "l_lit st < length (drop (length E + 1) (l_out st))" using op i(4) by simp
    then have "take (l_lit st + 1) ((drop (length E + 1) (l_out st))[l_lit st := inp ! l_ip st])
        = take (l_lit st) (drop (length E + 1) (l_out st)) @ [inp ! l_ip st]" by (simp add: take_Suc_conv_app_nth)
    also have "\<dots> = take (l_lit st + 1) (drop (l_ip st - l_lit st) inp)" unfolding i(6) using i(3) ip by (simp add: take_Suc_conv_app_nth)
    finally show ?thesis unfolding d .
  qed
  have "length E \<le> l_ip st + (l_ip st - l_lit st) div 32 - l_lit st" using i7 i(3) by linarith
  then have inv1: "lzf_inv inp ts st1"
    using i lits lit ip op by (simp add: lzf_inv_def Let_def st1_def E_def [symmetric])
  show ?thesis
  proof (cases "l_lit st = 31")
    case False
    then show ?thesis using run inv1 lit by (auto simp: st1_def MAX_LIT_def)
  next
    case True
    have "length (concat (map lz_enc ts)) < length (l_out st1)" using op i(4) by (simp add: st1_def E_def)
    from stop_run_ok [OF inv1 this refl] obtain out where out: "stop_run (l_out st1) (l_op st1) (l_lit st1) = Some out" "length out = length (l_out st1)"
      "lz_oks (lz_closed inp ts st1) []" "lz_run (lz_closed inp ts st1) [] = take (l_ip st1) inp"
      "length (concat (map lz_enc (lz_closed inp ts st1))) = l_op st1"
      "take (length (concat (map lz_enc (lz_closed inp ts st1)))) out = concat (map lz_enc (lz_closed inp ts st1))"
      by (auto simp: st1_def)
    let ?st = "st1\<lparr>l_out := out, l_lit := 0, l_op := l_op st1 + 1\<rparr>"
    have le: "l_op st1 \<le> length out" "l_ip st1 \<le> length inp" using out(2) op ip by (simp_all add: st1_def)
    have "l_ip st1 = (l_ip st - l_lit st) + 32" "l_op st1 = length E + 33" using True i(3,4) by (simp_all add: st1_def)
    then have "l_op st1 \<le> l_ip st1 + l_ip st1 div 32" using i7 by simp
    with out(3-6) le have "lzf_inv inp (lz_closed inp ts st1) ?st" by (simp add: lzf_inv_def Let_def)
    moreover have "put_literal inp st = Some ?st" using run True out(1) by (simp add: st1_def MAX_LIT_def)
    ultimately show ?thesis using out(2) True by (intro exI [of _ ?st] exI [of _ "lz_closed inp ts st1"]) (simp add: st1_def)
  qed
qed

lemma lzf_hash_reads:
  assumes "ip + 2 < length inp"
  shows "\<exists>h. FRST inp ip = Some h" "\<exists>h. NEXT v inp ip = Some h"
  using assms by (simp_all add: FRST_def NEXT_def mem_byte_def)

definition lzf_good :: "bytes \<Rightarrow> lzf_state \<Rightarrow> lzf_state \<Rightarrow> bool" where
  "lzf_good inp st st' \<longleftrightarrow> (\<exists>ts. lzf_inv inp ts st') \<and> l_lit st' < 32 \<and> l_ip st < l_ip st' \<and> length (l_out st') = length (l_out st)"

lemma lzf_reference_ok:
  assumes inv: "lzf_inv inp ts st" and ip: "l_ip st + 2 < length inp" and ref: "ref < l_ip st"
    and off: "lzf_off (l_ip st) ref = l_ip st - ref - 1" "lzf_off (l_ip st) ref < MAX_OFF" and eq: "\<forall>k \<le> 2. inp ! (ref + k) = inp ! (l_ip st + k)"
  shows "\<exists>r. lzf_reference inp ref st = Some r \<and> (case r of TooBig \<Rightarrow> \<not> lzf_room (length inp) (length (l_out st)) | Continue st' \<Rightarrow> lzf_good inp st st' | Break st' \<Rightarrow> lzf_good inp st st' \<and> length inp \<le> l_ip st' + 2)"
proof -
  define undo where "undo = (if l_lit st = 0 then 1 else 0 :: nat)"
  define E0 where "E0 = concat (map lz_enc ts)"
  note op = lzf_inv_op(1-3) [OF inv, folded E0_def]
  have small: "l_op st + 4 \<le> length inp + length inp div 32 + 2" using lzf_inv_op(4) [OF inv] ip by linarith
  show ?thesis
  proof (cases "l_op st + 3 + 1 \<ge> length (l_out st) \<and> l_op st - undo + 3 + 1 \<ge> length (l_out st)")
    case True
    then have "\<not> lzf_room (length inp) (length (l_out st))" using small by (simp add: lzf_room_def)
    then show ?thesis using True by (simp add: lzf_reference_def Let_def undo_def)
  next
    case False
    then have room: "l_op st - undo + 4 < length (l_out st)" by auto
    define E where "E = concat (map lz_enc (lz_closed inp ts st))"
    have "length (concat (map lz_enc ts)) < length (l_out st)" using room op(1) by (auto simp: E0_def undo_def split: if_splits)
    from stop_run_ok [OF inv this E_def] obtain out where out: "stop_run (l_out st) (l_op st) (l_lit st) = Some out" "length out = length (l_out st)"
      "lz_oks (lz_closed inp ts st) []" "lz_run (lz_closed inp ts st) [] = take (l_ip st) inp" "length E = l_op st - undo" "take (length E) out = E"
      unfolding undo_def by blast
    obtain len where len: "lzf_match_len inp ref (l_ip st) = Some len" "3 \<le> len" "l_ip st + len \<le> length inp" "len \<le> 264"
      "\<forall>j < len. inp ! (ref + j) = inp ! (l_ip st + j)" using lzf_match_len_ok [OF ip ref eq] by blast
    define t where "t = Ref (lzf_off (l_ip st) ref) (len - 2)"
    have "length E + 3 \<le> length out" using out(2,5) room by simp
    then obtain out' where out': "put_ref out (length E) (lzf_off (l_ip st) ref) (len - 2) = Some (out', length (E @ lz_enc t))" "length out' = length out"
      "take (length (E @ lz_enc t)) out' = E @ lz_enc t" using put_ref_ok [OF out(6)] unfolding t_def by blast
    let ?ip = "l_ip st + len" and ?ts = "lz_closed inp ts st @ [t]"
    define st' where "st' = st\<lparr>l_ip := ?ip, l_op := length (E @ lz_enc t) + 1, l_lit := 0, l_out := out'\<rparr>"
    have "len - 2 + 2 = len" using len(2) by simp
    then have "lz_copy (lzf_off (l_ip st) ref) (len - 2 + 2) (take (l_ip st) inp) = take ?ip inp"
      using lz_copy_matches [OF off(1) ref len(3,5)] by (simp only:)
    then have "lz_expand t (take (l_ip st) inp) = take ?ip inp" by (simp only: t_def lz_expand.simps)
    then have r: "lz_run ?ts [] = take ?ip inp" using out(4) by simp
    have "lz_ok t (take (l_ip st) inp)" using off ref len(2,4) ip by (auto simp: t_def MAX_OFF_def)
    then have ok: "lz_oks ?ts []" using out(3,4) by simp
    have "length (E @ lz_enc t) \<le> length out'" using out'(2) room out(2,5) by (auto simp: t_def)
    moreover have "length (E @ lz_enc t) \<le> ?ip + ?ip div 32"
    proof -
      have "length (lz_enc t) + 1 \<le> len" using len(2) by (simp add: t_def) linarith
      then have "length (E @ lz_enc t) \<le> length E0 + l_lit st + len" using out(5) op(1) by (auto simp: undo_def split: if_splits)
      moreover have "(l_ip st - l_lit st) div 32 \<le> ?ip div 32" by (rule div_le_mono) simp
      ultimately show ?thesis using op(2,3) by linarith
    qed
    ultimately have inv': "lzf_inv inp ?ts st'" using r ok len(3) out'(3) by (simp add: lzf_inv_def Let_def st'_def E_def)
    have good: "lzf_good inp st st'" using inv' len(2) out'(2) out(2) by (auto simp: lzf_good_def st'_def)
    have run: "lzf_reference inp ref st = (if ?ip + 2 \<ge> length inp then Some (Break st')
        else Option.bind (FRST inp (?ip - 2)) (\<lambda>hval. Option.bind (NEXT hval inp (?ip - 2)) (\<lambda>hval.
          Option.bind (NEXT hval inp (?ip - 1)) (\<lambda>hval'. Some (Continue (st'\<lparr>l_hval := hval',
            l_htab := (l_htab st')(IDX hval := word_of_nat (?ip - 2), IDX hval' := word_of_nat (?ip - 1))\<rparr>))))))"
      using out(1,5) len(1) out'(1) unfolding lzf_reference_def Let_def undo_def [symmetric] if_not_P [OF False] by (simp add: st'_def)
    show ?thesis
    proof (cases "?ip + 2 \<ge> length inp")
      case True
      then show ?thesis using run good by (simp add: st'_def)
    next
      case False
      have b: "?ip - 2 + 2 < length inp" "?ip - 1 + 2 < length inp" using False by simp_all
      obtain h where "FRST inp (?ip - 2) = Some h" using lzf_hash_reads(1) [OF b(1)] by blast
      moreover obtain h1 where "NEXT h inp (?ip - 2) = Some h1" using lzf_hash_reads(2) [OF b(1)] by blast
      moreover obtain h2 where "NEXT h1 inp (?ip - 1) = Some h2" using lzf_hash_reads(2) [OF b(2)] by blast
      ultimately show ?thesis using run False good by (auto simp: lzf_good_def lzf_inv_def)
    qed
  qed
qed

lemma lzf_round_ok:
  assumes inv: "lzf_inv inp ts st" and lit: "l_lit st < 32" and ip: "l_ip st + 2 < length inp" "length inp < 2 ^ 32"
  shows "\<exists>r. lzf_round inp st = Some r \<and> (case r of TooBig \<Rightarrow> \<not> lzf_room (length inp) (length (l_out st)) | Continue st' \<Rightarrow> lzf_good inp st st' | Break st' \<Rightarrow> lzf_good inp st st' \<and> length inp \<le> l_ip st' + 2)"
proof -
  obtain h where h: "NEXT (l_hval st) inp (l_ip st) = Some h" using lzf_hash_reads(2) ip(1) by blast
  define ref where "ref = unat (l_htab st (IDX h))"
  define st1 where "st1 = st\<lparr>l_hval := h, l_htab := (l_htab st)(IDX h := word_of_nat (l_ip st))\<rparr>"
  have v: "l_ip st1 = l_ip st" "l_op st1 = l_op st" "l_lit st1 = l_lit st" "l_out st1 = l_out st" by (simp_all add: st1_def)
  have inv1: "lzf_inv inp ts st1" using inv by (simp add: lzf_inv_def v)
  have "ref < 2 ^ 32" using unsigned_less [of "l_htab st (IDX h)", where ?'a = nat] by (simp add: ref_def)
  then obtain b where b: "lzf_hit inp (l_ip st) ref = Some b"
    "b \<longrightarrow> ref < l_ip st \<and> lzf_off (l_ip st) ref = l_ip st - ref - 1 \<and> lzf_off (l_ip st) ref < MAX_OFF \<and> (\<forall>k \<le> 2. inp ! (ref + k) = inp ! (l_ip st + k))"
    using lzf_hit_ok [OF ip(1), of ref] ip by auto
  have run: "lzf_round inp st = (if b then lzf_reference inp ref st1 else if l_op st1 \<ge> length (l_out st1) then Some TooBig else map_option Continue (put_literal inp st1))"
    using h b(1) by (simp add: lzf_round_def ref_def st1_def)
  show ?thesis
  proof (cases b)
    case True
    have "lzf_good inp st1 = lzf_good inp st" by (simp add: lzf_good_def v fun_eq_iff)
    moreover have "lzf_round inp st = lzf_reference inp ref st1" using run True by simp
    moreover have "\<exists>r. lzf_reference inp ref st1 = Some r \<and>
        (case r of TooBig \<Rightarrow> \<not> lzf_room (length inp) (length (l_out st1)) | Continue st' \<Rightarrow> lzf_good inp st1 st' | Break st' \<Rightarrow> lzf_good inp st1 st' \<and> length inp \<le> l_ip st' + 2)"
      by (rule lzf_reference_ok [OF inv1]; use b(2) True ip(1) in \<open>unfold v, blast\<close>)
    ultimately show ?thesis by (simp only: v)
  next
    case False
    show ?thesis
    proof (cases "l_op st1 \<ge> length (l_out st1)")
      case f: False
      obtain st' ts' where "put_literal inp st1 = Some st'" "lzf_inv inp ts' st'" "l_lit st' < 32" "l_ip st' = l_ip st1 + 1" "length (l_out st') = length (l_out st1)"
        using put_literal_ok [OF inv1] lit ip(1) f by (auto simp: v)
      then show ?thesis using run False f v by (auto simp: lzf_good_def)
    next
      case True
      then have "\<not> lzf_room (length inp) (length (l_out st))" using lzf_inv_op(4) [OF inv] ip(1) by (simp add: lzf_room_def v)
      then show ?thesis using run False True by simp
    qed
  qed
qed

lemma lzf_loop_ok:
  assumes "lzf_inv inp ts st" "l_lit st < 32" "length inp < 2 ^ 32"
  shows "\<exists>r. lzf_loop inp st = Some r \<and> (case r of TooBig \<Rightarrow> \<not> lzf_room (length inp) (length (l_out st)) | Continue _ \<Rightarrow> False
    | Break st' \<Rightarrow> (\<exists>ts'. lzf_inv inp ts' st') \<and> l_lit st' < 32 \<and> length inp \<le> l_ip st' + 2 \<and> length (l_out st') = length (l_out st))"
  using assms(1,2)
proof (induction "length inp - l_ip st" arbitrary: st ts rule: less_induct)
  case less
  show ?case
  proof (cases "l_ip st + 2 < length inp")
    case False
    then have "lzf_loop inp st = Some (Break st)" by (subst lzf_loop.simps) simp
    then show ?thesis using less.prems False by auto
  next
    case True
    obtain r where r: "lzf_round inp st = Some r"
      "case r of TooBig \<Rightarrow> \<not> lzf_room (length inp) (length (l_out st)) | Continue st' \<Rightarrow> lzf_good inp st st' | Break st' \<Rightarrow> lzf_good inp st st' \<and> length inp \<le> l_ip st' + 2"
      using lzf_round_ok [OF less.prems True assms(3)] by blast
    have run: "lzf_loop inp st = (case r of Continue st \<Rightarrow> lzf_loop inp st | Break st \<Rightarrow> Some (Break st) | TooBig \<Rightarrow> Some TooBig)"
      by (subst lzf_loop.simps) (simp only: True if_True r(1) Option.bind.simps)
    show ?thesis
    proof (cases r)
      case (Continue st')
      then obtain ts' where st': "lzf_inv inp ts' st'" "l_lit st' < 32" "l_ip st < l_ip st'" "length (l_out st') = length (l_out st)"
        using r(2) by (auto simp: lzf_good_def)
      have "length inp - l_ip st' < length inp - l_ip st" using st'(3) True by simp
      from less.hyps [OF this st'(1,2)] have "\<exists>r. lzf_loop inp st' = Some r \<and> (case r of TooBig \<Rightarrow> \<not> lzf_room (length inp) (length (l_out st)) | Continue _ \<Rightarrow> False
          | Break st' \<Rightarrow> (\<exists>ts'. lzf_inv inp ts' st') \<and> l_lit st' < 32 \<and> length inp \<le> l_ip st' + 2 \<and> length (l_out st') = length (l_out st))"
        unfolding st'(4) .
      moreover have "lzf_loop inp st = lzf_loop inp st'" using run Continue by simp
      ultimately show ?thesis by simp
    qed (use run r(2) in \<open>auto simp: lzf_good_def\<close>)
  qed
qed

text \<open>At most two bytes are left for the last loop, which has three bytes of room.\<close>

lemma lzf_tail_ok:
  assumes "lzf_inv inp ts st" "l_lit st < 32" "length inp \<le> l_ip st + k"
    "k \<le> 2" "l_op st + k + (if l_lit st + k \<ge> 32 then 1 else 0) \<le> length (l_out st)"
  shows "\<exists>st' ts'. lzf_tail inp st = Some st' \<and> lzf_inv inp ts' st' \<and> l_ip st' = length inp \<and> length (l_out st') = length (l_out st) \<and>
    l_op st' \<le> length (l_out st)"
  using assms
proof (induction k arbitrary: st ts)
  case 0
  then have "l_ip st = length inp" by (simp add: lzf_inv_def Let_def)
  moreover have "lzf_tail inp st = Some st" using calculation by (subst lzf_tail.simps) simp
  ultimately show ?case using 0 by auto
next
  case (Suc k)
  show ?case
  proof (cases "l_ip st < length inp")
    case False
    then have "l_ip st = length inp" using Suc.prems(1) by (simp add: lzf_inv_def Let_def)
    moreover have "lzf_tail inp st = Some st" using calculation by (subst lzf_tail.simps) simp
    ultimately show ?thesis using Suc.prems by auto
  next
    case True
    have "l_op st < length (l_out st)" using Suc.prems(5) by simp
    from put_literal_ok [OF Suc.prems(1,2) True this] obtain st' ts' where st': "put_literal inp st = Some st'" "lzf_inv inp ts' st'" "l_lit st' < 32"
      "l_ip st' = l_ip st + 1" "length (l_out st') = length (l_out st)"
      "if l_lit st = 31 then l_op st' = l_op st + 2 \<and> l_lit st' = 0 else l_op st' = l_op st + 1 \<and> l_lit st' = l_lit st + 1" by blast
    have "lzf_tail inp st = lzf_tail inp st'" using True st'(1) by (subst lzf_tail.simps) simp
    moreover have "l_op st' + k + (if l_lit st' + k \<ge> 32 then 1 else 0) \<le> length (l_out st')"
      using Suc.prems(2,4,5) st'(5,6) by (auto split: if_splits)
    ultimately show ?thesis using Suc.IH [OF st'(2,3)] Suc.prems(3,4) st'(4,5) by simp
  qed
qed

lemma lzf_finish_ok:
  assumes "lzf_inv inp ts st" "l_lit st < 32" "length inp \<le> l_ip st + 2" "inp \<noteq> []"
  shows "\<exists>out n ts'. lzf_finish inp st = Some (out, n) \<and> length out = length (l_out st) \<and> n \<le> length out \<and>
    (n \<noteq> 0 \<longrightarrow> take n out = concat (map lz_enc ts') \<and> lz_oks ts' [] \<and> lz_run ts' [] = inp) \<and>
    (n = 0 \<longrightarrow> \<not> lzf_room (length inp) (length (l_out st)))"
proof (cases "l_op st + 3 > length (l_out st)")
  case False
  then have "l_op st + 2 + (if l_lit st + 2 \<ge> 32 then 1 else 0) \<le> length (l_out st)" by simp
  from lzf_tail_ok [OF assms(1-3) _ this] obtain st' ts' where st': "lzf_tail inp st = Some st'" "lzf_inv inp ts' st'" "l_ip st' = length inp"
    "length (l_out st') = length (l_out st)" "l_op st' \<le> length (l_out st)" by auto
  have "length (concat (map lz_enc ts')) < length (l_out st')" using st'(2,4,5) by (simp add: lzf_inv_def Let_def)
  from stop_run_ok [OF st'(2) this refl] obtain out where out: "stop_run (l_out st') (l_op st') (l_lit st') = Some out" "length out = length (l_out st')"
    "lz_oks (lz_closed inp ts' st') []" "lz_run (lz_closed inp ts' st') [] = take (l_ip st') inp"
    "length (concat (map lz_enc (lz_closed inp ts' st'))) = l_op st' - (if l_lit st' = 0 then 1 else 0)"
    "take (length (concat (map lz_enc (lz_closed inp ts' st')))) out = concat (map lz_enc (lz_closed inp ts' st'))" by blast
  let ?n = "l_op st' - (if l_lit st' = 0 then 1 else 0)"
  have "lzf_finish inp st = Some (out, ?n)" using False st'(1) out(1) by (simp add: lzf_finish_def)
  moreover have "take ?n out = concat (map lz_enc (lz_closed inp ts' st'))" using out(6) unfolding out(5) .
  moreover have "?n \<le> length out" using st'(4,5) out(2) by simp
  moreover have "lz_closed inp ts' st' \<noteq> []" using out(4) st'(3) assms(4) by auto
  then have "concat (map lz_enc (lz_closed inp ts' st')) \<noteq> []" by (cases "lz_closed inp ts' st'"; cases "hd (lz_closed inp ts' st')") auto
  then have "?n \<noteq> 0" using out(5) by (metis length_0_conv)
  ultimately show ?thesis using out(2,3,4) st'(3,4) by (intro exI [of _ out] exI [of _ ?n] exI [of _ "lz_closed inp ts' st'"]) simp
next
  case True
  have "l_ip st \<le> length inp" using assms(1) by (simp add: lzf_inv_def Let_def)
  then have "\<not> lzf_room (length inp) (length (l_out st))" using True lzf_inv_op(4) [OF assms(1)] by (simp add: lzf_room_def)
  then show ?thesis using True by (simp add: lzf_finish_def)
qed

lemma lzf_compress_ok:
  assumes "2 \<le> length inp" "length inp < 2 ^ 32"
  shows "\<exists>out' n ts. lzf_compress htab inp out = Some (out', n) \<and> length out' = length out \<and> n \<le> length out \<and>
    (n \<noteq> 0 \<longrightarrow> take n out' = concat (map lz_enc ts) \<and> lz_oks ts [] \<and> lz_run ts [] = inp) \<and>
    (n = 0 \<longrightarrow> \<not> lzf_room (length inp) (length out))"
proof (cases "length out = 0")
  case False
  obtain h where h: "FRST inp 0 = Some h" using assms(1) by (cases inp; cases "tl inp") (auto simp: FRST_def mem_byte_def)
  let ?st = "\<lparr>l_ip = 0, l_op = 1, l_lit = 0, l_hval = h, l_htab = htab, l_out = out\<rparr>"
  have "lzf_inv inp [] ?st" by (simp add: lzf_inv_def Let_def)
  from lzf_loop_ok [OF this _ assms(2)] obtain r where r: "lzf_loop inp ?st = Some r"
    "case r of TooBig \<Rightarrow> \<not> lzf_room (length inp) (length (l_out ?st)) | Continue _ \<Rightarrow> False
     | Break st' \<Rightarrow> (\<exists>ts'. lzf_inv inp ts' st') \<and> l_lit st' < 32 \<and> length inp \<le> l_ip st' + 2 \<and> length (l_out st') = length (l_out ?st)" by auto
  have run: "lzf_compress htab inp out = (case r of TooBig \<Rightarrow> Some (out, 0) | Continue st \<Rightarrow> lzf_finish inp st | Break st \<Rightarrow> lzf_finish inp st)"
    using False assms(1) h r(1) by (auto simp: lzf_compress_def)
  show ?thesis
  proof (cases r)
    case (Break st')
    then obtain ts' where st': "lzf_inv inp ts' st'" "l_lit st' < 32" "length inp \<le> l_ip st' + 2" "length (l_out st') = length out" using r(2) by auto
    have "inp \<noteq> []" using assms(1) by auto
    from lzf_finish_ok [OF st'(1-3) this] show ?thesis unfolding st'(4) using run Break by auto
  qed (use run r(2) in auto)
qed (simp add: lzf_compress_def lzf_room_def)

lemma lzf_decompress_tokens:
  assumes "lz_oks ts []" "ts \<noteq> []" "length (lz_run ts []) \<le> length buf"
  shows "lzf_decompress (concat (map lz_enc ts)) buf =
    Some (Inr (lz_run ts [] @ drop (length (lz_run ts [])) buf, length (lz_run ts [])))"
  using lzf_dloop_lz [of ts "[]" "concat (map lz_enc ts)" "[]" buf] assms by (simp add: lzf_decompress_def)

text \<open>C8: Compression (\<^verbatim>\<open>lzf_compress\<close>) of at least two bytes never reads or writes outside its buffers,
  whatever the hash table on the stack holds, and ends; it does not give up when the output has room for
  the input, a byte for every 32 and four more; and when it does not give up, decompressing what it wrote
  into a buffer of the right size returns the bytes that were compressed.\<close>

theorem lzf_roundtrip:
  assumes "2 \<le> length inp" "length inp < 2 ^ 32"
  shows "\<exists>out' n. lzf_compress htab inp out = Some (out', n) \<and> length out' = length out \<and> n \<le> length out \<and>
    (length inp + length inp div 32 + 4 \<le> length out \<longrightarrow> n \<noteq> 0) \<and>
    (n \<noteq> 0 \<longrightarrow> (\<forall>buf. length buf = length inp \<longrightarrow> lzf_decompress (take n out') buf = Some (Inr (inp, length inp))))"
proof -
  obtain out' n ts where c: "lzf_compress htab inp out = Some (out', n)" "length out' = length out" "n \<le> length out"
    "n \<noteq> 0 \<longrightarrow> take n out' = concat (map lz_enc ts) \<and> lz_oks ts [] \<and> lz_run ts [] = inp"
    "n = 0 \<longrightarrow> \<not> lzf_room (length inp) (length out)"
    using lzf_compress_ok [OF assms] by blast
  have "ts \<noteq> []" if "n \<noteq> 0" using c(4) that assms(1) by auto
  then have "lzf_decompress (take n out') buf = Some (Inr (inp, length inp))" if "n \<noteq> 0" "length buf = length inp" for buf
    using lzf_decompress_tokens [of ts buf] c(4) that by simp
  with c show ?thesis unfolding lzf_room_def by blast
qed

theorem lzf_roundtrip_witness:
  "\<exists>out' n. lzf_compress (\<lambda>_. 7) (replicate 9 0x61) (replicate 20 0) = Some (out', n) \<and> n \<noteq> 0 \<and>
    lzf_decompress (take n out') (replicate 9 0) = Some (Inr (replicate 9 0x61, 9))"
proof -
  obtain out' n where r: "lzf_compress (\<lambda>_. 7) (replicate 9 0x61) (replicate 20 0) = Some (out', n)"
    "length (replicate 9 (0x61 :: u8)) + length (replicate 9 (0x61 :: u8)) div 32 + 4 \<le> length (replicate 20 (0 :: u8)) \<longrightarrow> n \<noteq> 0"
    "n \<noteq> 0 \<longrightarrow> (\<forall>buf. length buf = length (replicate 9 (0x61 :: u8)) \<longrightarrow>
      lzf_decompress (take n out') buf = Some (Inr (replicate 9 0x61, length (replicate 9 (0x61 :: u8)))))"
    using lzf_roundtrip [of "replicate 9 0x61" "\<lambda>_. 7" "replicate 20 0"] by auto
  from r(2) have "n \<noteq> 0" by simp
  with r(1,3) show ?thesis by (metis length_replicate)
qed

text \<open>C15: Decompression (\<^verbatim>\<open>lzf_decompress\<close>) of any bytes that are not empty, valid or not, ends without
  reading or writing outside its two buffers: it reports an error or tells how many bytes of the output
  buffer it filled.\<close>

theorem lzf_decompress_safe:
  assumes "inp \<noteq> []"
  shows "\<exists>r. lzf_decompress inp out = Some r \<and> (\<forall>out' n. r = Inr (out', n) \<longrightarrow> length out' = length out \<and> n \<le> length out)"
  using lzf_dloop_safe [of 0 inp out 0] assms by (simp add: lzf_decompress_def)

theorem lzf_decompress_safe_witness:
  "\<exists>r. lzf_decompress [0xE5, 0xFF, 0x10] (replicate 4 0) = Some r \<and>
    (\<forall>out' n. r = Inr (out', n) \<longrightarrow> length out' = length (replicate 4 (0 :: u8)) \<and> n \<le> length (replicate 4 (0 :: u8)))"
  by (rule lzf_decompress_safe) simp

text \<open>A single byte must not be compressed: the hash of the first two bytes reads behind it.\<close>

lemma lzf_compress_one_byte: "out \<noteq> [] \<Longrightarrow> lzf_compress htab [b] out = None"
  by (simp add: lzf_compress_def FRST_def mem_byte_def)

end
