(* ===== verification/Rio.thy ===== *)
theory Rio
  imports Util
begin

text \<open>
  The streams that snapshots are written to and read from (\<^verbatim>\<open>rio.h\<close>, \<^verbatim>\<open>rio.c\<close>): a record of
  function pointers with flags for errors, a checksum, a count of bytes and a largest chunk. The
  operations of a target change its state \<open>'io\<close>; a write returns whether it succeeded, a read the bytes
  or nothing. The contracts \<open>rio_sink\<close> and \<open>rio_source\<close> say what writing and reading promise; they
  are interpreted on the buffer in memory. Files, pipes and connections are system calls.
\<close>

section \<open>Streams\<close>

record 'io rio =
  rio_read :: "'io \<Rightarrow> nat \<Rightarrow> bytes option \<times> 'io"
  rio_write :: "'io \<Rightarrow> bytes \<Rightarrow> bool \<times> 'io"
  rio_update_cksum :: "(u64 \<Rightarrow> bytes \<Rightarrow> u64) option"
  rio_cksum :: u64
  rio_read_error :: bool
  rio_write_error :: bool
  rio_processed_bytes :: u64
  rio_max_processing_chunk :: nat
  rio_io :: 'io

definition rio_chunk :: "'io rio \<Rightarrow> nat \<Rightarrow> nat" where
  "rio_chunk r len =
     (if rio_max_processing_chunk r \<noteq> 0 \<and> rio_max_processing_chunk r < len then rio_max_processing_chunk r else len)"

definition rio_checksum :: "'io rio \<Rightarrow> bytes \<Rightarrow> 'io rio" where
  "rio_checksum r bs = (case rio_update_cksum r of None \<Rightarrow> r | Some f \<Rightarrow> r\<lparr>rio_cksum := f (rio_cksum r) bs\<rparr>)"

function rioWrite_loop :: "'io rio \<Rightarrow> bytes \<Rightarrow> bool \<times> 'io rio" where
  "rioWrite_loop r buf =
     (if buf = [] then (True, r)
      else
        let n = rio_chunk r (length buf);
            r = rio_checksum r (take n buf);
            (ok, io) = rio_write r (rio_io r) (take n buf);
            r = r\<lparr>rio_io := io\<rparr>
        in if \<not> ok then (False, r\<lparr>rio_write_error := True\<rparr>)
           else rioWrite_loop (r\<lparr>rio_processed_bytes := rio_processed_bytes r + word_of_nat n\<rparr>) (drop n buf))"
  by pat_completeness auto

termination by (relation "measure (\<lambda>(r, buf). length buf)") (auto simp: rio_chunk_def)

declare rioWrite_loop.simps [simp del]

definition rioWrite :: "'io rio \<Rightarrow> bytes \<Rightarrow> bool \<times> 'io rio" where
  "rioWrite r buf = (if rio_write_error r then (False, r) else rioWrite_loop r buf)"

text \<open>A read that fails leaves a part of the destination filled, which no caller looks at.\<close>

function rioRead_loop :: "'io rio \<Rightarrow> nat \<Rightarrow> bytes option \<times> 'io rio" where
  "rioRead_loop r len =
     (if len = 0 then (Some [], r)
      else
        let n = rio_chunk r len;
            (bs, io) = rio_read r (rio_io r) n;
            r = r\<lparr>rio_io := io\<rparr>
        in case bs of
             None \<Rightarrow> (None, r\<lparr>rio_read_error := True\<rparr>)
           | Some bs \<Rightarrow>
               let r = rio_checksum r bs;
                   r = r\<lparr>rio_processed_bytes := rio_processed_bytes r + word_of_nat n\<rparr>;
                   (rest, r) = rioRead_loop r (len - n)
               in (map_option (\<lambda>rest. bs @ rest) rest, r))"
  by pat_completeness auto

termination by (relation "measure (\<lambda>(r, len). len)") (auto simp: rio_chunk_def)

declare rioRead_loop.simps [simp del]

definition rioRead :: "'io rio \<Rightarrow> nat \<Rightarrow> bytes option \<times> 'io rio" where
  "rioRead r len = (if rio_read_error r then (None, r) else rioRead_loop r len)"

subsection \<open>The buffer in memory\<close>

record rio_buffer =
  buf_ptr :: bytes
  buf_pos :: nat

definition rioBufferWrite :: "rio_buffer \<Rightarrow> bytes \<Rightarrow> bool \<times> rio_buffer" where
  "rioBufferWrite b bs = (True, b\<lparr>buf_ptr := buf_ptr b @ bs, buf_pos := buf_pos b + length bs\<rparr>)"

text \<open>The position is never behind the end of the buffer, so that the difference of the two lengths does not wrap.\<close>

definition rioBufferRead :: "rio_buffer \<Rightarrow> nat \<Rightarrow> bytes option \<times> rio_buffer" where
  "rioBufferRead b len =
     (if length (buf_ptr b) - buf_pos b < len then (None, b)
      else (Some (take len (drop (buf_pos b) (buf_ptr b))), b\<lparr>buf_pos := buf_pos b + len\<rparr>))"

definition rioInitWithBuffer :: "bytes \<Rightarrow> rio_buffer rio" where
  "rioInitWithBuffer s = \<lparr>rio_read = rioBufferRead, rio_write = rioBufferWrite, rio_update_cksum = None, rio_cksum = 0,
     rio_read_error = False, rio_write_error = False, rio_processed_bytes = 0, rio_max_processing_chunk = 0,
     rio_io = \<lparr>buf_ptr = s, buf_pos = 0\<rparr>\<rparr>"

section \<open>Contracts\<close>

lemma rio_checksum_fields [simp]:
  "rio_read (rio_checksum r bs) = rio_read r" "rio_write (rio_checksum r bs) = rio_write r" "rio_io (rio_checksum r bs) = rio_io r"
  "rio_write_error (rio_checksum r bs) = rio_write_error r" "rio_read_error (rio_checksum r bs) = rio_read_error r"
  by (simp_all add: rio_checksum_def split: option.splits)

lemma rio_chunk_pos: "0 < len \<Longrightarrow> 0 < rio_chunk r len" "rio_chunk r len \<le> len"
  by (simp_all add: rio_chunk_def)

definition sink_fails :: "('io \<Rightarrow> bytes \<Rightarrow> bool \<times> 'io) \<Rightarrow> bool" where
  "sink_fails put \<longleftrightarrow> (\<exists>x bs. \<not> fst (put x bs))"

text \<open>A write that succeeds appends to what has been written; nothing is known after one that fails.\<close>

locale rio_sink =
  fixes put :: "'io \<Rightarrow> bytes \<Rightarrow> bool \<times> 'io"
    and written :: "'io \<Rightarrow> bytes"
  assumes put_written: "put x bs = (True, x') \<Longrightarrow> written x' = written x @ bs"
begin

lemma rioWrite_loop_written:
  assumes "rio_write r = put" "\<not> rio_write_error r"
  shows "\<exists>ok r'. rioWrite_loop r bs = (ok, r') \<and> rio_write r' = put \<and> rio_write_error r' = (\<not> ok) \<and>
    (ok \<longrightarrow> written (rio_io r') = written (rio_io r) @ bs) \<and> (\<not> ok \<longrightarrow> sink_fails put)"
  using assms
proof (induction r bs rule: rioWrite_loop.induct)
  case (1 r buf)
  show ?case
  proof (cases "buf = []")
    case True
    then show ?thesis using "1.prems" by (intro exI [of _ True] exI [of _ r]) (simp add: rioWrite_loop.simps)
  next
    case False
    define n where "n = rio_chunk r (length buf)"
    obtain ok x where x: "put (rio_io r) (take n buf) = (ok, x)" by (cases "put (rio_io r) (take n buf)")
    define r1 where "r1 = rio_checksum r (take n buf)"
    define r2 where "r2 = r1\<lparr>rio_io := x\<rparr>"
    define r3 where "r3 = r2\<lparr>rio_processed_bytes := rio_processed_bytes r2 + word_of_nat n\<rparr>"
    have w: "rio_write r1 (rio_io r1) (take n buf) = (ok, x)" using x "1.prems"(1) by (simp add: r1_def)
    have run: "rioWrite_loop r buf = (if \<not> ok then (False, r2\<lparr>rio_write_error := True\<rparr>) else rioWrite_loop r3 (drop n buf))"
      using False w by (subst rioWrite_loop.simps) (simp add: Let_def n_def r1_def r2_def r3_def)
    show ?thesis
    proof (cases ok)
      case True
      have p: "rio_write r3 = put" "\<not> rio_write_error r3" using "1.prems" by (simp_all add: r3_def r2_def r1_def)
      have "(ok, x) = rio_write r1 (rio_io r1) (take n buf)" using w by simp
      then have "\<exists>ok r'. rioWrite_loop r3 (drop n buf) = (ok, r') \<and> rio_write r' = put \<and> rio_write_error r' = (\<not> ok) \<and>
          (ok \<longrightarrow> written (rio_io r') = written (rio_io r3) @ drop n buf) \<and> (\<not> ok \<longrightarrow> sink_fails put)"
        using "1.IH" [OF False n_def r1_def _ refl r2_def] True p unfolding r3_def by blast
      moreover have "written x = written (rio_io r) @ take n buf" by (rule put_written) (use x True in simp)
      then have "written (rio_io r3) @ drop n buf = written (rio_io r) @ buf" by (simp add: r3_def r2_def)
      ultimately show ?thesis using run True by simp
    next
      case False
      moreover have "sink_fails put" using x False unfolding sink_fails_def by (metis fst_conv)
      ultimately show ?thesis using run "1.prems"(1) by (intro exI [of _ False] exI [of _ "r2\<lparr>rio_write_error := True\<rparr>"]) (simp add: r2_def r1_def)
    qed
  qed
qed

lemma rioWrite_written:
  assumes "rio_write r = put"
  shows "\<exists>ok r'. rioWrite r bs = (ok, r') \<and> rio_write r' = put \<and> rio_write_error r' = (\<not> ok) \<and>
    (ok \<longrightarrow> \<not> rio_write_error r \<and> written (rio_io r') = written (rio_io r) @ bs) \<and> (\<not> ok \<longrightarrow> rio_write_error r \<or> sink_fails put)"
proof (cases "rio_write_error r")
  case True
  then show ?thesis using assms by (intro exI [of _ False] exI [of _ r]) (simp add: rioWrite_def)
next
  case False
  then have eq: "rioWrite r bs = rioWrite_loop r bs" by (simp add: rioWrite_def)
  obtain ok r' where "rioWrite_loop r bs = (ok, r')" "rio_write r' = put" "rio_write_error r' = (\<not> ok)"
    "ok \<longrightarrow> written (rio_io r') = written (rio_io r) @ bs" "\<not> ok \<longrightarrow> sink_fails put"
    using rioWrite_loop_written [OF assms False, of bs] by blast
  then show ?thesis unfolding eq using False by (intro exI [of _ ok] exI [of _ r'] conjI) simp_all
qed

end

text \<open>A read returns the next bytes when there are enough of them.\<close>

locale rio_source =
  fixes get :: "'io \<Rightarrow> nat \<Rightarrow> bytes option \<times> 'io"
    and remaining :: "'io \<Rightarrow> bytes"
  assumes get_enough: "n \<le> length (remaining x) \<Longrightarrow> \<exists>x'. get x n = (Some (take n (remaining x)), x') \<and> remaining x' = drop n (remaining x)"
    and get_short: "length (remaining x) < n \<Longrightarrow> fst (get x n) = None"
begin

lemma rioRead_loop_enough:
  assumes "rio_read r = get" "\<not> rio_read_error r" "n \<le> length (remaining (rio_io r))"
  shows "\<exists>r'. rioRead_loop r n = (Some (take n (remaining (rio_io r))), r') \<and> rio_read r' = get \<and> \<not> rio_read_error r' \<and>
    remaining (rio_io r') = drop n (remaining (rio_io r))"
  using assms
proof (induction n arbitrary: r rule: less_induct)
  case (less len)
  show ?case
  proof (cases "len = 0")
    case True
    then show ?thesis using less.prems by (simp add: rioRead_loop.simps)
  next
    case False
    define n where "n = rio_chunk r len"
    have n: "0 < n" "n \<le> len" using rio_chunk_pos [where len = len and r = r] False by (simp_all add: n_def)
    define m where "m = remaining (rio_io r)"
    obtain x where x: "get (rio_io r) n = (Some (take n m), x)" "remaining x = drop n m"
      using get_enough [of n "rio_io r"] n(2) less.prems(3) by (auto simp: m_def)
    define r1 where "r1 = rio_checksum (r\<lparr>rio_io := x\<rparr>) (take n m)"
    define r2 where "r2 = r1\<lparr>rio_processed_bytes := rio_processed_bytes r1 + word_of_nat n\<rparr>"
    have r2: "rio_read r2 = get" "\<not> rio_read_error r2" "rio_io r2 = x" using less.prems by (simp_all add: r2_def r1_def)
    have "len - n < len" "len - n \<le> length (remaining (rio_io r2))" using n less.prems(3) x(2) r2(3) by (simp_all add: m_def)
    from less.IH [OF this(1) r2(1,2) this(2)] obtain r' where r': "rioRead_loop r2 (len - n) = (Some (take (len - n) (drop n m)), r')"
      "rio_read r' = get" "\<not> rio_read_error r'" "remaining (rio_io r') = drop (len - n) (drop n m)" unfolding r2(3) x(2) by blast
    have "rioRead_loop r len = (Some (take n m @ take (len - n) (drop n m)), r')"
      using False x(1) less.prems(1) r'(1) by (subst rioRead_loop.simps) (simp add: Let_def n_def [symmetric] r1_def [symmetric] r2_def [symmetric])
    then show ?thesis using r' n take_add [of n "len - n" m] by (simp add: m_def)
  qed
qed

lemma rioRead_enough:
  assumes "rio_read r = get" "\<not> rio_read_error r" "remaining (rio_io r) = bs @ rest" "n = length bs"
  shows "\<exists>r'. rioRead r n = (Some bs, r') \<and> rio_read r' = get \<and> \<not> rio_read_error r' \<and> remaining (rio_io r') = rest"
  using rioRead_loop_enough [OF assms(1,2), of n] assms(2-4) by (simp add: rioRead_def)

end

interpretation bufs: rio_sink rioBufferWrite buf_ptr
  by unfold_locales (auto simp: rioBufferWrite_def)

interpretation bufr: rio_source rioBufferRead "\<lambda>b. drop (buf_pos b) (buf_ptr b)"
  by unfold_locales (auto simp: rioBufferRead_def add.commute)

text \<open>A buffer never refuses a write.\<close>

lemma buffer_never_fails: "\<not> sink_fails rioBufferWrite"
  by (simp add: sink_fails_def rioBufferWrite_def)

end
