(* ===== verification/Rdb.thy ===== *)
theory Rdb
  imports Keyspace Lzf Rio
begin

text \<open>
  The encoding of lengths, integers, times and strings in snapshots (\<^verbatim>\<open>rdb.c\<close>), on top of streams
  and compression. A function that saves returns the number of bytes, or -1 after a write error, and the
  stream; it may be called without a stream to measure the length (the argument \<open>None\<close>). A function
  that loads returns \<open>Ret v\<close> or ends the process on a corrupt file (\<open>Exit\<close>); a null pointer is
  \<open>None\<close> in \<open>v\<close>. Reading or writing outside of a buffer makes the whole operation \<open>None\<close>. The machine
  is little endian; conversions to network order are written out.
\<close>

section \<open>Types, times and lengths\<close>

datatype 'a outcome = Ret 'a | Exit

definition RDB_6BITLEN :: u8 where "RDB_6BITLEN = 0"
definition RDB_14BITLEN :: u8 where "RDB_14BITLEN = 1"
definition RDB_32BITLEN :: u8 where "RDB_32BITLEN = 0x80"
definition RDB_64BITLEN :: u8 where "RDB_64BITLEN = 0x81"
definition RDB_ENCVAL :: u8 where "RDB_ENCVAL = 3"
definition RDB_LENERR :: nat where "RDB_LENERR = 2 ^ 64 - 1"
definition RDB_ENC_INT8 :: nat where "RDB_ENC_INT8 = 0"
definition RDB_ENC_INT16 :: nat where "RDB_ENC_INT16 = 1"
definition RDB_ENC_INT32 :: nat where "RDB_ENC_INT32 = 2"
definition RDB_ENC_LZF :: nat where "RDB_ENC_LZF = 3"

definition rdbWriteRaw :: "'io rio option \<Rightarrow> bytes \<Rightarrow> int \<times> 'io rio option" where
  "rdbWriteRaw rdb p =
     (case rdb of
        None \<Rightarrow> (wrap32 (int (length p)), None)
      | Some r \<Rightarrow> let (ok, r) = rioWrite r p in (if \<not> ok then - 1 else wrap32 (int (length p)), Some r))"

definition rdbSaveType :: "'io rio option \<Rightarrow> u8 \<Rightarrow> int \<times> 'io rio option" where
  "rdbSaveType rdb type = rdbWriteRaw rdb [type]"

definition rdbLoadType :: "'io rio \<Rightarrow> int \<times> 'io rio" where
  "rdbLoadType rdb = (let (bs, rdb) = rioRead rdb 1 in (case bs of None \<Rightarrow> - 1 | Some bs \<Rightarrow> int (unat (hd bs)), rdb))"

definition rdbSaveMillisecondTime :: "'io rio option \<Rightarrow> int \<Rightarrow> int \<times> 'io rio option" where
  "rdbSaveMillisecondTime rdb t = rdbWriteRaw rdb (le_enc 8 (nat (t mod 2 ^ 64)))"

text \<open>On a little endian machine the version makes no difference.\<close>

definition rdbLoadMillisecondTime :: "'io rio \<Rightarrow> int \<times> 'io rio" where
  "rdbLoadMillisecondTime rdb =
     (let (bs, rdb) = rioRead rdb 8 in
      (case bs of None \<Rightarrow> LLONG_MAX | Some bs \<Rightarrow> signed_take_bit 63 (int (le_dec bs)), rdb))"

definition rdbSaveLen :: "'io rio option \<Rightarrow> nat \<Rightarrow> int \<times> 'io rio option" where
  "rdbSaveLen rdb len =
     (if len < 2 ^ 6 then
        let (n, rdb) = rdbWriteRaw rdb [word_of_nat len OR push_bit 6 RDB_6BITLEN] in
        (if n = - 1 then - 1 else 1, rdb)
      else if len < 2 ^ 14 then
        let (n, rdb) = rdbWriteRaw rdb [word_of_nat (len div 256) OR push_bit 6 RDB_14BITLEN, word_of_nat len] in
        (if n = - 1 then - 1 else 2, rdb)
      else if len < 2 ^ 32 then
        let (n, rdb) = rdbWriteRaw rdb [RDB_32BITLEN] in
        if n = - 1 then (- 1, rdb)
        else let (n, rdb) = rdbWriteRaw rdb (rev (le_enc 4 len)) in (if n = - 1 then - 1 else 1 + 4, rdb)
      else
        let (n, rdb) = rdbWriteRaw rdb [RDB_64BITLEN] in
        if n = - 1 then (- 1, rdb)
        else let (n, rdb) = rdbWriteRaw rdb (rev (le_enc 8 len)) in (if n = - 1 then - 1 else 1 + 8, rdb))"

text \<open>The results are whether an encoding follows and the length or encoding, or an error.\<close>

definition rdbLoadLenByRef :: "'io rio \<Rightarrow> (bool \<times> nat option) outcome \<times> 'io rio" where
  "rdbLoadLenByRef rdb =
     (case rioRead rdb 1 of
        (None, rdb) \<Rightarrow> (Ret (False, None), rdb)
      | (Some bs, rdb) \<Rightarrow>
          let b = hd bs; type = drop_bit 6 (b AND 0xC0) in
          if type = RDB_ENCVAL then (Ret (True, Some (unat (b AND 0x3F))), rdb)
          else if type = RDB_6BITLEN then (Ret (False, Some (unat (b AND 0x3F))), rdb)
          else if type = RDB_14BITLEN then
            (case rioRead rdb 1 of
               (None, rdb) \<Rightarrow> (Ret (False, None), rdb)
             | (Some bs, rdb) \<Rightarrow> (Ret (False, Some (unat (b AND 0x3F) * 256 + unat (hd bs))), rdb))
          else if b = RDB_32BITLEN then
            (case rioRead rdb 4 of
               (None, rdb) \<Rightarrow> (Ret (False, None), rdb)
             | (Some bs, rdb) \<Rightarrow> (Ret (False, Some (le_dec (rev bs))), rdb))
          else if b = RDB_64BITLEN then
            (case rioRead rdb 8 of
               (None, rdb) \<Rightarrow> (Ret (False, None), rdb)
             | (Some bs, rdb) \<Rightarrow> (Ret (False, Some (le_dec (rev bs))), rdb))
          else (Exit, rdb))"

definition rdbLoadLen :: "'io rio \<Rightarrow> (bool \<times> nat) outcome \<times> 'io rio" where
  "rdbLoadLen rdb =
     (case rdbLoadLenByRef rdb of
        (Ret (isencoded, None), rdb) \<Rightarrow> (Ret (isencoded, RDB_LENERR), rdb)
      | (Ret (isencoded, Some len), rdb) \<Rightarrow> (Ret (isencoded, len), rdb)
      | (Exit, rdb) \<Rightarrow> (Exit, rdb))"

section \<open>Integers\<close>

text \<open>The bytes written to the buffer; an empty list is the result zero.\<close>

definition rdbEncodeInteger :: "int \<Rightarrow> bytes" where
  "rdbEncodeInteger v =
     (if v \<ge> - (2 ^ 7) \<and> v \<le> 2 ^ 7 - 1 then
        [push_bit 6 RDB_ENCVAL OR word_of_nat RDB_ENC_INT8, word_of_int v]
      else if v \<ge> - (2 ^ 15) \<and> v \<le> 2 ^ 15 - 1 then
        [push_bit 6 RDB_ENCVAL OR word_of_nat RDB_ENC_INT16, word_of_int v, word_of_int (v div 2 ^ 8)]
      else if v \<ge> - (2 ^ 31) \<and> v \<le> 2 ^ 31 - 1 then
        [push_bit 6 RDB_ENCVAL OR word_of_nat RDB_ENC_INT32, word_of_int v, word_of_int (v div 2 ^ 8),
         word_of_int (v div 2 ^ 16), word_of_int (v div 2 ^ 24)]
      else [])"

text \<open>The string ends at its first NUL, as for \<^verbatim>\<open>strtoll\<close>.\<close>

definition rdbTryIntegerEncoding :: "bytes \<Rightarrow> bytes option" where
  "rdbTryIntegerEncoding s =
     (let (v, endptr) = strtoll (takeWhile (\<lambda>c. c \<noteq> 0) s) in
      if endptr \<noteq> [] then Some []
      else do {
        (_, buf) \<leftarrow> ll2string (replicate 32 0) 32 v;
        let buf = takeWhile (\<lambda>c. c \<noteq> 0) buf;
        if length buf \<noteq> length s \<or> buf \<noteq> s then Some [] else Some (rdbEncodeInteger v)
      })"

text \<open>\<^verbatim>\<open>sdsfromlonglong\<close> of \<^verbatim>\<open>sds.c\<close>: the digits are produced in reverse.\<close>

function sds_digits :: "nat \<Rightarrow> bytes" where
  "sds_digits v = (0x30 + word_of_nat (v mod 10)) # (if v div 10 = 0 then [] else sds_digits (v div 10))"
  by pat_completeness auto

termination by (relation "measure id") auto

declare sds_digits.simps [simp del]

definition sdsll2str :: "int \<Rightarrow> bytes" where
  "sdsll2str v = rev (sds_digits (nat \<bar>v\<bar>) @ (if v < 0 then [0x2D] else []))"

text \<open>What loading returns: bytes, in a plain or a dynamic string, or an object.\<close>

datatype rdb_val = RBytes bytes | RObj robj

definition RDB_LOAD_NONE :: nat where "RDB_LOAD_NONE = 0"
definition RDB_LOAD_ENC :: nat where "RDB_LOAD_ENC = 1"
definition RDB_LOAD_PLAIN :: nat where "RDB_LOAD_PLAIN = 2"
definition RDB_LOAD_SDS :: nat where "RDB_LOAD_SDS = 4"

definition rdb_make_integer :: "int \<Rightarrow> nat \<Rightarrow> rdb_val option" where
  "rdb_make_integer v flags =
     (if flags AND RDB_LOAD_PLAIN \<noteq> 0 \<or> flags AND RDB_LOAD_SDS \<noteq> 0 then do {
        (len, buf) \<leftarrow> ll2string (replicate 21 0) 21 v;
        Some (RBytes (take len buf))
      }
      else if flags AND RDB_LOAD_ENC \<noteq> 0 then Some (RObj (IntEnc v))
      else Some (RObj (Raw (sdsll2str v))))"

definition rdbLoadIntegerObject :: "'io rio \<Rightarrow> nat \<Rightarrow> nat \<Rightarrow> (rdb_val option outcome \<times> 'io rio) option" where
  "rdbLoadIntegerObject rdb enctype flags =
     (if enctype = RDB_ENC_INT8 then
        (case rioRead rdb 1 of
           (None, rdb) \<Rightarrow> Some (Ret None, rdb)
         | (Some enc, rdb) \<Rightarrow> map_option (\<lambda>v. (Ret (Some v), rdb)) (rdb_make_integer (signed_take_bit 7 (int (le_dec enc))) flags))
      else if enctype = RDB_ENC_INT16 then
        (case rioRead rdb 2 of
           (None, rdb) \<Rightarrow> Some (Ret None, rdb)
         | (Some enc, rdb) \<Rightarrow> map_option (\<lambda>v. (Ret (Some v), rdb)) (rdb_make_integer (signed_take_bit 15 (int (le_dec enc))) flags))
      else if enctype = RDB_ENC_INT32 then
        (case rioRead rdb 4 of
           (None, rdb) \<Rightarrow> Some (Ret None, rdb)
         | (Some enc, rdb) \<Rightarrow> map_option (\<lambda>v. (Ret (Some v), rdb)) (rdb_make_integer (signed_take_bit 31 (int (le_dec enc))) flags))
      else Some (Exit, rdb))"

section \<open>Strings\<close>

text \<open>The setting for compression, and what fresh memory and the hash table on the stack hold.\<close>

record rdb_env =
  rdb_compression :: bool
  fresh :: "nat \<Rightarrow> u8"
  stack_htab :: "u32 \<Rightarrow> u32"

definition rdbSaveLzfBlob :: "'io rio option \<Rightarrow> bytes \<Rightarrow> nat \<Rightarrow> int \<times> 'io rio option" where
  "rdbSaveLzfBlob rdb data original_len =
     (let (n1, rdb) = rdbWriteRaw rdb [push_bit 6 RDB_ENCVAL OR word_of_nat RDB_ENC_LZF] in
      if n1 = - 1 then (- 1, rdb)
      else let (n2, rdb) = rdbSaveLen rdb (length data) in
        if n2 = - 1 then (- 1, rdb)
        else let (n3, rdb) = rdbSaveLen rdb original_len in
          if n3 = - 1 then (- 1, rdb)
          else let (n4, rdb) = rdbWriteRaw rdb data in
            if n4 = - 1 then (- 1, rdb) else (n1 + n2 + n3 + n4, rdb))"

text \<open>The lengths are passed as 32 bit integers.\<close>

definition rdbSaveLzfStringObject :: "rdb_env \<Rightarrow> 'io rio option \<Rightarrow> bytes \<Rightarrow> (int \<times> 'io rio option) option" where
  "rdbSaveLzfStringObject env rdb s =
     (if length s \<le> 4 then Some (0, rdb)
      else do {
        let outlen = length s - 4;
        let out = map (fresh env) [0..<outlen + 1];
        (out, comprlen) \<leftarrow> lzf_compress (stack_htab env) (take (length s mod 2 ^ 32) s) (take (outlen mod 2 ^ 32) out);
        if comprlen = 0 then Some (0, rdb) else Some (rdbSaveLzfBlob rdb (take comprlen out) (length s))
      })"

definition rdbSaveRawString :: "rdb_env \<Rightarrow> 'io rio option \<Rightarrow> bytes \<Rightarrow> (int \<times> 'io rio option) option" where
  "rdbSaveRawString env rdb s = do {
     enc \<leftarrow> (if length s \<le> 11 then rdbTryIntegerEncoding s else Some []);
     if enc \<noteq> [] then
       let (n, rdb) = rdbWriteRaw rdb enc in Some (if n = - 1 then - 1 else int (length enc), rdb)
     else do {
       (n, rdb) \<leftarrow> (if rdb_compression env \<and> length s > 20 then rdbSaveLzfStringObject env rdb s else Some (0, rdb));
       if n = - 1 then Some (- 1, rdb)
       else if n > 0 then Some (n, rdb)
       else let (n, rdb) = rdbSaveLen rdb (length s) in
         if n = - 1 then Some (- 1, rdb)
         else if length s > 0 then
           let (m, rdb) = rdbWriteRaw rdb s in Some (if m = - 1 then - 1 else n + int (length s), rdb)
         else Some (n, rdb)
     }
   }"

text \<open>The assertion that the digits fit the buffer makes the operation \<open>None\<close> when it fails.\<close>

definition rdbSaveLongLongAsStringObject :: "'io rio option \<Rightarrow> int \<Rightarrow> (int \<times> 'io rio option) option" where
  "rdbSaveLongLongAsStringObject rdb v =
     (let enc = rdbEncodeInteger v in
      if enc \<noteq> [] then Some (rdbWriteRaw rdb enc)
      else do {
        (enclen, buf) \<leftarrow> ll2string (replicate 32 0) 32 v;
        if \<not> enclen < 32 then None
        else let (n, rdb) = rdbSaveLen rdb enclen in
          if n = - 1 then Some (- 1, rdb)
          else let (m, rdb) = rdbWriteRaw rdb (take enclen buf) in
            if m = - 1 then Some (- 1, rdb) else Some (n + m, rdb)
      })"

definition rdbSaveStringObject :: "rdb_env \<Rightarrow> 'io rio option \<Rightarrow> robj \<Rightarrow> (int \<times> 'io rio option) option" where
  "rdbSaveStringObject env rdb obj =
     (case obj of
        IntEnc v \<Rightarrow> rdbSaveLongLongAsStringObject rdb v
      | Raw s \<Rightarrow> rdbSaveRawString env rdb s
      | Embstr s \<Rightarrow> rdbSaveRawString env rdb s
      | Ptr _ _ \<Rightarrow> None)"

definition rdb_make_string :: "bytes \<Rightarrow> nat \<Rightarrow> rdb_val" where
  "rdb_make_string s flags =
     (if flags AND RDB_LOAD_PLAIN \<noteq> 0 \<or> flags AND RDB_LOAD_SDS \<noteq> 0 then RBytes s else RObj (Raw s))"

text \<open>The decompressed bytes replace the beginning of a fresh string. An error of the decompression ends
  the process; that it filled less than the string is not an error. An allocation of the stated length that
  the machine cannot serve, which only a corrupt file asks for, ends the real process and is not modelled.\<close>

definition rdbLoadLzfStringObject :: "rdb_env \<Rightarrow> 'io rio \<Rightarrow> nat \<Rightarrow> (rdb_val option outcome \<times> 'io rio) option" where
  "rdbLoadLzfStringObject env rdb flags =
     (case rdbLoadLen rdb of
        (Exit, rdb) \<Rightarrow> Some (Exit, rdb)
      | (Ret (_, clen), rdb) \<Rightarrow>
          if clen = RDB_LENERR then Some (Ret None, rdb)
          else case rdbLoadLen rdb of
            (Exit, rdb) \<Rightarrow> Some (Exit, rdb)
          | (Ret (_, len), rdb) \<Rightarrow>
              if len = RDB_LENERR then Some (Ret None, rdb)
              else case rioRead rdb clen of
                (None, rdb) \<Rightarrow> Some (Ret None, rdb)
              | (Some c, rdb) \<Rightarrow> do {
                  let val = map (fresh env) [0..<len];
                  r \<leftarrow> lzf_decompress (take (clen mod 2 ^ 32) c) (take (len mod 2 ^ 32) val);
                  case r of
                    Inl _ \<Rightarrow> Some (Exit, rdb)
                  | Inr (out, n) \<Rightarrow>
                      if n = 0 then Some (Exit, rdb)
                      else Some (Ret (Some (rdb_make_string (out @ drop (len mod 2 ^ 32) val) flags)), rdb)
                })"

definition rdbGenericLoadStringObject :: "rdb_env \<Rightarrow> 'io rio \<Rightarrow> nat \<Rightarrow> (rdb_val option outcome \<times> 'io rio) option" where
  "rdbGenericLoadStringObject env rdb flags =
     (case rdbLoadLen rdb of
        (Exit, rdb) \<Rightarrow> Some (Exit, rdb)
      | (Ret (isencoded, len), rdb) \<Rightarrow>
          if isencoded then
            if len = RDB_ENC_INT8 \<or> len = RDB_ENC_INT16 \<or> len = RDB_ENC_INT32 then rdbLoadIntegerObject rdb len flags
            else if len = RDB_ENC_LZF then rdbLoadLzfStringObject env rdb flags
            else Some (Exit, rdb)
          else if len = RDB_LENERR then Some (Ret None, rdb)
          else
            case (if len \<noteq> 0 then rioRead rdb len else (Some [], rdb)) of
              (None, rdb) \<Rightarrow> Some (Ret None, rdb)
            | (Some s, rdb) \<Rightarrow>
                Some (Ret (Some (
                  if flags AND RDB_LOAD_PLAIN \<noteq> 0 \<or> flags AND RDB_LOAD_SDS \<noteq> 0 then RBytes s
                  else if flags AND RDB_LOAD_ENC \<noteq> 0 then RObj (createStringObject s) else RObj (Raw s))), rdb))"

section \<open>Bytes\<close>

lemma low_bits: "unat ((b :: u8) AND 0x3F) = unat b mod 64"
proof -
  have "b AND 0x3F = take_bit 6 b" by (simp only: take_bit_eq_mask) (simp add: mask_numeral)
  then have "unat (b AND 0x3F) = take_bit 6 (unat b)" by (simp only: unsigned_take_bit_eq)
  then show ?thesis by (simp add: take_bit_eq_mod)
qed

lemma high_bits: "drop_bit 6 ((b :: u8) AND 0xC0) = word_of_nat (unat b div 64)"
proof -
  have "drop_bit 6 (b AND 0xC0) = drop_bit 6 b AND drop_bit 6 0xC0" by (rule drop_bit_and)
  also have "\<dots> = drop_bit 6 b AND 3" by simp
  also have "\<dots> = take_bit 2 (drop_bit 6 b)" by (simp add: take_bit_eq_mask mask_numeral)
  also have "\<dots> = drop_bit 6 (take_bit 8 b)" by (simp add: take_bit_drop_bit)
  also have "take_bit 8 b = b" by (rule bit_word_eqI) (simp add: bit_take_bit_iff)
  finally have "unat (drop_bit 6 (b AND 0xC0)) = drop_bit 6 (take_bit 8 (unat b))" by (simp only: unsigned_drop_bit_eq) simp
  also have "unat b < 256" using unsigned_less [of b, where ?'a = nat] by simp
  then have "drop_bit 6 (take_bit 8 (unat b)) = unat b div 64" by (simp add: take_bit_eq_mod drop_bit_eq_div)
  finally have "unat (drop_bit 6 (b AND 0xC0)) = unat b div 64" .
  then show ?thesis by (rule word_eq_of_nat)
qed

lemma set_bit6: "x < 64 \<Longrightarrow> word_of_nat x OR push_bit 6 1 = (word_of_nat (x + 64) :: u8)"
proof -
  assume x: "x < 64"
  have "x = take_bit 6 x" using x by (simp add: take_bit_eq_mod)
  then have "bit x n \<Longrightarrow> n < 6" for n using bit_take_bit_iff [of 6 x n] by auto
  then have "word_of_nat x + (push_bit 6 1 :: u8) = word_of_nat x OR push_bit 6 1"
    by (intro disjunctive_add) (simp only: bit_push_bit_iff bit_of_nat_iff bit_1_iff, auto)
  then show ?thesis by simp
qed

section \<open>Saving\<close>

definition rdb_sink :: "('io \<Rightarrow> bytes \<Rightarrow> bool \<times> 'io) \<Rightarrow> 'io rio option \<Rightarrow> bool" where
  "rdb_sink put rdb \<longleftrightarrow> (\<forall>r. rdb = Some r \<longrightarrow> rio_write r = put)"

text \<open>Either all of \<open>bs\<close> has been appended, or the stream has failed and says so.\<close>

definition rdb_saved :: "('io \<Rightarrow> bytes \<Rightarrow> bool \<times> 'io) \<Rightarrow> ('io \<Rightarrow> bytes) \<Rightarrow> 'io rio option \<Rightarrow> int \<Rightarrow> 'io rio option \<Rightarrow> bytes \<Rightarrow> bool" where
  "rdb_saved put written rdb n rdb' bs \<longleftrightarrow> rdb_sink put rdb' \<and>
     (if n = - 1 then \<exists>r r'. rdb = Some r \<and> rdb' = Some r' \<and> rio_write_error r' \<and> (rio_write_error r \<or> sink_fails put)
      else n = int (length bs) \<and>
        (case rdb of None \<Rightarrow> rdb' = None
         | Some r \<Rightarrow> \<not> rio_write_error r \<and> (\<exists>r'. rdb' = Some r' \<and> \<not> rio_write_error r' \<and> written (rio_io r') = written (rio_io r) @ bs)))"

lemma rdb_saved_fail: "rdb_saved put written rdb (- 1) rdb' bs \<Longrightarrow> rdb_saved put written rdb (- 1) rdb' cs"
  by (simp add: rdb_saved_def)

lemma rdb_saved_sink: "rdb_saved put written rdb n rdb' bs \<Longrightarrow> rdb_sink put rdb'"
  by (simp add: rdb_saved_def)

lemma rdb_saved_length: "rdb_saved put written rdb n rdb' bs \<Longrightarrow> n \<noteq> - 1 \<Longrightarrow> n = int (length bs)"
  by (simp add: rdb_saved_def)

lemma rdb_saved_append:
  assumes "rdb_saved put written rdb n rdb1 bs" "n \<noteq> - 1" "rdb_saved put written rdb1 m rdb2 cs"
  shows "rdb_saved put written rdb (if m = - 1 then - 1 else n + m) rdb2 (bs @ cs)"
proof (cases rdb)
  case None
  then show ?thesis using assms by (auto simp: rdb_saved_def split: if_splits)
next
  case (Some r)
  then obtain r1 where "\<not> rio_write_error r" "rdb1 = Some r1" "\<not> rio_write_error r1" "written (rio_io r1) = written (rio_io r) @ bs" "n = int (length bs)"
    using assms(1,2) by (auto simp: rdb_saved_def)
  then show ?thesis using assms(3) Some by (cases "m = - 1") (auto simp: rdb_saved_def)
qed

lemma wrap32_small: "n < 2 ^ 31 \<Longrightarrow> wrap32 (int n) = int n"
proof -
  assume "n < 2 ^ 31"
  then have "int n < 2 ^ 31" by simp
  then have "signed_take_bit 31 (int n) = int n" by (intro signed_take_bit_int_eq_self) simp_all
  then show ?thesis unfolding wrap32_def int_word_sint by (simp add: signed_take_bit_eq_take_bit_shift take_bit_eq_mod)
qed

fun rdb_len_enc :: "nat \<Rightarrow> bytes" where
  "rdb_len_enc len =
     (if len < 2 ^ 6 then [word_of_nat len]
      else if len < 2 ^ 14 then [word_of_nat (len div 256 + 64), word_of_nat len]
      else if len < 2 ^ 32 then 0x80 # rev (le_enc 4 len)
      else 0x81 # rev (le_enc 8 len))"

declare rdb_len_enc.simps [simp del]

context rio_sink
begin

lemma rdbWriteRaw_saved:
  assumes "rdb_sink put rdb" "length p < 2 ^ 31"
  shows "\<exists>n rdb'. rdbWriteRaw rdb p = (n, rdb') \<and> rdb_saved put written rdb n rdb' p"
proof (cases rdb)
  case None
  then show ?thesis using wrap32_small [OF assms(2)] by (simp add: rdbWriteRaw_def rdb_saved_def rdb_sink_def)
next
  case (Some r)
  obtain ok r' where w: "rioWrite r p = (ok, r')" "rio_write r' = put" "rio_write_error r' = (\<not> ok)"
    "ok \<longrightarrow> \<not> rio_write_error r \<and> written (rio_io r') = written (rio_io r) @ p" "\<not> ok \<longrightarrow> rio_write_error r \<or> sink_fails put"
    using rioWrite_written [of r p] assms(1) Some by (auto simp: rdb_sink_def)
  then show ?thesis using wrap32_small [OF assms(2)] Some by (cases ok) (auto simp: rdbWriteRaw_def rdb_saved_def rdb_sink_def)
qed

lemma rdbSaveLen_saved:
  assumes "rdb_sink put rdb"
  shows "\<exists>n rdb'. rdbSaveLen rdb len = (n, rdb') \<and> rdb_saved put written rdb n rdb' (rdb_len_enc len)"
proof -
  have two: "\<exists>n rdb'. (let (n, rdb) = rdbWriteRaw rdb [b] in if n = - 1 then (- 1, rdb)
        else let (n, rdb) = rdbWriteRaw rdb bs in (if n = - 1 then - 1 else k, rdb)) = (n, rdb') \<and> rdb_saved put written rdb n rdb' (b # bs)"
    if k: "k = 1 + int (length bs)" and l: "length bs < 2 ^ 31" for b bs k
  proof -
    obtain n rdb1 where 1: "rdbWriteRaw rdb [b] = (n, rdb1)" "rdb_saved put written rdb n rdb1 [b]"
      using rdbWriteRaw_saved [OF assms, of "[b]"] by auto
    obtain m rdb2 where 2: "rdbWriteRaw rdb1 bs = (m, rdb2)" "rdb_saved put written rdb1 m rdb2 bs"
      using rdbWriteRaw_saved [OF rdb_saved_sink [OF 1(2)] l] by auto
    show ?thesis
    proof (cases "n = - 1")
      case True
      then show ?thesis using 1 rdb_saved_fail by auto
    next
      case False
      have "n = 1" "m \<noteq> - 1 \<Longrightarrow> m = int (length bs)" using rdb_saved_length [OF 1(2) False] rdb_saved_length [OF 2(2)] by auto
      then show ?thesis using rdb_saved_append [OF 1(2) False 2(2)] 1(1) 2(1) False k by (cases "m = - 1") auto
    qed
  qed
  have one: "\<exists>n rdb'. (let (n, rdb) = rdbWriteRaw rdb bs in (if n = - 1 then - 1 else k, rdb)) = (n, rdb') \<and> rdb_saved put written rdb n rdb' bs"
    if k: "k = int (length bs)" and l: "length bs < 2 ^ 31" for bs k
  proof -
    obtain n rdb' where w: "rdbWriteRaw rdb bs = (n, rdb')" "rdb_saved put written rdb n rdb' bs" using rdbWriteRaw_saved [OF assms l] by blast
    show ?thesis using w rdb_saved_length [OF w(2)] k by (cases "n = - 1") auto
  qed
  consider "len < 2 ^ 6" | "2 ^ 6 \<le> len" "len < 2 ^ 14" | "2 ^ 14 \<le> len" "len < 2 ^ 32" | "2 ^ 32 \<le> len" by linarith
  then show ?thesis
  proof cases
    case 1
    then show ?thesis using one [where k = 1 and bs = "[word_of_nat len]"] by (simp add: rdbSaveLen_def rdb_len_enc.simps RDB_6BITLEN_def)
  next
    case 2
    have "word_of_nat (len div 256) OR push_bit 6 RDB_14BITLEN = (word_of_nat (len div 256 + 64) :: u8)"
      unfolding RDB_14BITLEN_def by (rule set_bit6) (use 2 in simp)
    moreover have "2 = int (length [word_of_nat (len div 256 + 64) :: u8, word_of_nat len])" by simp
    ultimately show ?thesis using one [where k = 2 and bs = "[word_of_nat (len div 256 + 64), word_of_nat len]"] 2 unfolding rdbSaveLen_def rdb_len_enc.simps
      by (simp only: not_less [symmetric] if_False if_True) simp
  next
    case 3
    have k: "1 + 4 = 1 + int (length (rev (le_enc 4 len)))" "length (rev (le_enc 4 len)) < 2 ^ 31" by simp_all
    show ?thesis using two [OF k, of "0x80"] 3 unfolding rdbSaveLen_def rdb_len_enc.simps RDB_32BITLEN_def
      by (simp only: not_less [symmetric] if_False if_True) (simp del: le_enc_numeral)
  next
    case 4
    have k: "1 + 8 = 1 + int (length (rev (le_enc 8 len)))" "length (rev (le_enc 8 len)) < 2 ^ 31" by simp_all
    show ?thesis using two [OF k, of "0x81"] 4 unfolding rdbSaveLen_def rdb_len_enc.simps RDB_64BITLEN_def
      by (simp only: not_less [symmetric] if_False if_True) (simp del: le_enc_numeral)
  qed
qed

lemma rdbSaveLzfBlob_saved:
  assumes "rdb_sink put rdb" "length data < 2 ^ 31"
  shows "\<exists>n rdb'. rdbSaveLzfBlob rdb data len = (n, rdb') \<and>
    rdb_saved put written rdb n rdb' (0xC3 # rdb_len_enc (length data) @ rdb_len_enc len @ data)"
proof -
  obtain n1 rdb1 where 1: "rdbWriteRaw rdb [0xC3] = (n1, rdb1)" "rdb_saved put written rdb n1 rdb1 [0xC3]"
    using rdbWriteRaw_saved [OF assms(1), of "[0xC3]"] by auto
  obtain n2 rdb2 where 2: "rdbSaveLen rdb1 (length data) = (n2, rdb2)" "rdb_saved put written rdb1 n2 rdb2 (rdb_len_enc (length data))"
    using rdbSaveLen_saved [OF rdb_saved_sink [OF 1(2)]] by blast
  obtain n3 rdb3 where 3: "rdbSaveLen rdb2 len = (n3, rdb3)" "rdb_saved put written rdb2 n3 rdb3 (rdb_len_enc len)"
    using rdbSaveLen_saved [OF rdb_saved_sink [OF 2(2)]] by blast
  obtain n4 rdb4 where 4: "rdbWriteRaw rdb3 data = (n4, rdb4)" "rdb_saved put written rdb3 n4 rdb4 data"
    using rdbWriteRaw_saved [OF rdb_saved_sink [OF 3(2)] assms(2)] by blast
  have b: "push_bit 6 RDB_ENCVAL OR word_of_nat RDB_ENC_LZF = (0xC3 :: u8)" by (simp add: RDB_ENCVAL_def RDB_ENC_LZF_def)
  have run: "rdbSaveLzfBlob rdb data len = (if n1 = - 1 then (- 1, rdb1) else if n2 = - 1 then (- 1, rdb2) else if n3 = - 1 then (- 1, rdb3)
      else if n4 = - 1 then (- 1, rdb4) else (n1 + n2 + n3 + n4, rdb4))"
    unfolding rdbSaveLzfBlob_def b using 1(1) 2(1) 3(1) 4(1) by simp
  show ?thesis
  proof (cases "n1 = - 1 \<or> n2 = - 1 \<or> n3 = - 1")
    case True
    then consider "n1 = - 1" | "n1 \<noteq> - 1" "n2 = - 1" | "n1 \<noteq> - 1" "n2 \<noteq> - 1" "n3 = - 1" by blast
    then show ?thesis
    proof cases
      case c1: 1
      then show ?thesis using run 1(2) rdb_saved_fail by auto
    next
      case c2: 2
      then show ?thesis using run rdb_saved_append [OF 1(2) _ 2(2)] rdb_saved_fail by auto
    next
      case c3: 3
      have ne: "n1 + n2 \<noteq> - 1" using rdb_saved_length [OF 1(2) c3(1)] rdb_saved_length [OF 2(2) c3(2)] by simp
      show ?thesis using run c3 rdb_saved_append [OF rdb_saved_append [OF 1(2) c3(1) 2(2), unfolded if_not_P [OF c3(2)]] ne 3(2)] rdb_saved_fail by auto
    qed
  next
    case False
    then have n: "n1 \<noteq> - 1" "n2 \<noteq> - 1" "n3 \<noteq> - 1" by simp_all
    have ne: "n1 + n2 \<noteq> - 1" "n1 + n2 + n3 \<noteq> - 1" using rdb_saved_length [OF 1(2) n(1)] rdb_saved_length [OF 2(2) n(2)] rdb_saved_length [OF 3(2) n(3)] by simp_all
    note s2 = rdb_saved_append [OF 1(2) n(1) 2(2), unfolded if_not_P [OF n(2)]]
    note s3 = rdb_saved_append [OF s2 ne(1) 3(2), unfolded if_not_P [OF n(3)]]
    show ?thesis using run n rdb_saved_append [OF s3 ne(2) 4(2)] by (cases "n4 = - 1") auto
  qed
qed

end

section \<open>Integers\<close>

text \<open>Conversions by \<^verbatim>\<open>ll2string\<close> and \<^verbatim>\<open>sdsll2str\<close> are the decimal notation.\<close>

lemma sds_digits_dec: "rev (sds_digits n) = dec n"
proof (induction n rule: sds_digits.induct)
  case (1 n)
  show ?case
  proof (cases "n < 10")
    case True
    then show ?thesis by (subst sds_digits.simps, subst dec.simps) simp
  next
    case False
    then have "n div 10 \<noteq> 0" by linarith
    then show ?thesis using 1 False by (subst sds_digits.simps, subst dec.simps) simp
  qed
qed

lemma sdsll2str_sdec: "sdsll2str v = sdec v"
  using sds_digits_dec by (simp add: sdsll2str_def sdec_def)

lemma rdbTryIntegerEncoding_sdec:
  "\<exists>e. rdbTryIntegerEncoding s = Some e \<and> (e \<noteq> [] \<longrightarrow> (\<exists>v. s = sdec v \<and> is_ll v \<and> e = rdbEncodeInteger v))"
proof -
  obtain v p where st: "strtoll (takeWhile (\<lambda>c. c \<noteq> 0) s) = (v, p)" by (cases "strtoll (takeWhile (\<lambda>c. c \<noteq> 0) s)")
  have ll: "is_ll v" using st by (auto simp: strtoll_def is_ll_def ll_defs Let_def split: prod.splits if_splits)
  then have len: "length (sdec v) < 32" using length_sdec [OF ll] by simp
  have w: "ll2string (replicate 32 0) 32 v = Some (length (sdec v), sdec v @ 0 # drop (length (sdec v) + 1) (replicate 32 0))"
    by (rule ll2string_sdec [OF ll len]) simp
  have nz: "takeWhile (\<lambda>c. c \<noteq> 0) (sdec v @ 0 # q) = sdec v" for q
    using sdec_no_nul by (subst takeWhile_append2) auto
  have "rdbTryIntegerEncoding s = Some (if p = [] \<and> sdec v = s then rdbEncodeInteger v else [])"
    using w st by (simp add: rdbTryIntegerEncoding_def Let_def nz)
  then show ?thesis using ll by auto
qed

section \<open>Strings\<close>

text \<open>The encodings of a string: as an integer, compressed, or as it is.\<close>

inductive rdb_code :: "bytes \<Rightarrow> bytes \<Rightarrow> bool" where
  code_int: "is_ll v \<Longrightarrow> rdbEncodeInteger v \<noteq> [] \<Longrightarrow> rdb_code (rdbEncodeInteger v) (sdec v)"
| code_lzf: "lz_oks ts [] \<Longrightarrow> ts \<noteq> [] \<Longrightarrow> c = concat (map lz_enc ts) \<Longrightarrow> length c < 2 ^ 32 \<Longrightarrow>
    rdb_code (0xC3 # rdb_len_enc (length c) @ rdb_len_enc (length (lz_run ts [])) @ c) (lz_run ts [])"
| code_raw: "rdb_code (rdb_len_enc (length s) @ s) s"

definition rdb_saved_code :: "('io \<Rightarrow> bytes \<Rightarrow> bool \<times> 'io) \<Rightarrow> ('io \<Rightarrow> bytes) \<Rightarrow> 'io rio option \<Rightarrow> (int \<times> 'io rio option) option \<Rightarrow> bytes \<Rightarrow> bool" where
  "rdb_saved_code put written rdb res s \<longleftrightarrow> (\<exists>n rdb' e. res = Some (n, rdb') \<and> rdb_code e s \<and> rdb_saved put written rdb n rdb' e)"

lemma length_rdbEncodeInteger: "length (rdbEncodeInteger v) \<le> 5"
  by (simp add: rdbEncodeInteger_def)

lemma rdb_len_enc_pos: "0 < length (rdb_len_enc n)"
  by (simp add: rdb_len_enc.simps)

context rio_sink
begin

lemma rdbSaveLzfStringObject_saved:
  assumes sink: "rdb_sink put rdb" and len: "20 < length s" "length s < 2 ^ 31"
  shows "\<exists>n rdb'. rdbSaveLzfStringObject env rdb s = Some (n, rdb') \<and>
    (if n = 0 then rdb' = rdb else \<exists>e. rdb_code e s \<and> rdb_saved put written rdb n rdb' e)"
proof -
  define out where "out = map (fresh env) [0..<length s - 4]"
  have m: "length s mod 2 ^ 32 = length s" "(length s - 4) mod 2 ^ 32 = length s - 4" using len by simp_all
  have t: "take (length s) s = s" "take (length s - 4) (map (fresh env) [0..<length s - 4 + 1]) = out" by (simp_all add: out_def)
  have "2 \<le> length s" "length s < 2 ^ 32" using len by simp_all
  then obtain out' n ts where c: "lzf_compress (stack_htab env) s out = Some (out', n)" "length out' = length out" "n \<le> length out"
    "n \<noteq> 0 \<longrightarrow> take n out' = concat (map lz_enc ts) \<and> lz_oks ts [] \<and> lz_run ts [] = s"
    using lzf_compress_ok [of s "stack_htab env" out] by blast
  have run: "rdbSaveLzfStringObject env rdb s = (if n = 0 then Some (0, rdb) else Some (rdbSaveLzfBlob rdb (take n out') (length s)))"
    using len(1) c(1) unfolding rdbSaveLzfStringObject_def Let_def m t by simp
  show ?thesis
  proof (cases "n = 0")
    case False
    then have ts: "take n out' = concat (map lz_enc ts)" "lz_oks ts []" "lz_run ts [] = s" using c(4) by simp_all
    have l: "length (take n out') < 2 ^ 31" using c(2,3) len(2) by (simp add: out_def)
    obtain k rdb' where k: "rdbSaveLzfBlob rdb (take n out') (length s) = (k, rdb')"
      "rdb_saved put written rdb k rdb' (0xC3 # rdb_len_enc (length (take n out')) @ rdb_len_enc (length s) @ take n out')"
      using rdbSaveLzfBlob_saved [OF sink l] by blast
    have "ts \<noteq> []" using ts(3) len(1) by auto
    then have "rdb_code (0xC3 # rdb_len_enc (length (take n out')) @ rdb_len_enc (length s) @ take n out') s"
      using code_lzf [OF ts(2) _ ts(1)] l unfolding ts(3) by simp
    moreover have "k \<noteq> 0" using rdb_saved_length [OF k(2)] by auto
    ultimately show ?thesis using run False k by auto
  qed (use run in simp)
qed

lemma rdb_raw_saved:
  assumes "rdb_sink put rdb" "length s < 2 ^ 31"
  shows "rdb_saved_code put written rdb (let (n, rdb) = rdbSaveLen rdb (length s) in
         if n = - 1 then Some (- 1, rdb)
         else if length s > 0 then
           let (m, rdb) = rdbWriteRaw rdb s in Some (if m = - 1 then - 1 else n + int (length s), rdb)
         else Some (n, rdb)) s"
proof -
  obtain n1 rdb1 where 1: "rdbSaveLen rdb (length s) = (n1, rdb1)" "rdb_saved put written rdb n1 rdb1 (rdb_len_enc (length s))"
    using rdbSaveLen_saved [OF assms(1)] by blast
  obtain n2 rdb2 where 2: "rdbWriteRaw rdb1 s = (n2, rdb2)" "rdb_saved put written rdb1 n2 rdb2 s"
    using rdbWriteRaw_saved [OF rdb_saved_sink [OF 1(2)] assms(2)] by blast
  show ?thesis
  proof (cases "n1 = - 1")
    case True
    then have "rdb_saved put written rdb (- 1) rdb1 (rdb_len_enc (length s) @ s)" using 1(2) rdb_saved_fail by blast
    then show ?thesis using True 1(1) code_raw [of s] by (auto simp: rdb_saved_code_def)
  next
    case False
    show ?thesis
    proof (cases "s = []")
      case True
      then show ?thesis using False 1 code_raw [of s] by (auto simp: rdb_saved_code_def)
    next
      case ne: False
      have "rdb_saved put written rdb (if n2 = - 1 then - 1 else n1 + int (length s)) rdb2 (rdb_len_enc (length s) @ s)"
        using rdb_saved_append [OF 1(2) False 2(2)] rdb_saved_length [OF 2(2)] by (cases "n2 = - 1") auto
      then show ?thesis using False ne 1(1) 2(1) code_raw [of s] by (auto simp: rdb_saved_code_def)
    qed
  qed
qed

lemma rdb_int_saved:
  assumes "rdb_sink put rdb" "is_ll v" "rdbEncodeInteger v \<noteq> []"
  shows "\<exists>n rdb'. rdbWriteRaw rdb (rdbEncodeInteger v) = (n, rdb') \<and> rdb_saved put written rdb n rdb' (rdbEncodeInteger v)"
    and "rdb_code (rdbEncodeInteger v) (sdec v)"
proof -
  have "length (rdbEncodeInteger v) < 2 ^ 31" using length_rdbEncodeInteger [of v] by simp
  then show "\<exists>n rdb'. rdbWriteRaw rdb (rdbEncodeInteger v) = (n, rdb') \<and> rdb_saved put written rdb n rdb' (rdbEncodeInteger v)"
    by (rule rdbWriteRaw_saved [OF assms(1)])
  show "rdb_code (rdbEncodeInteger v) (sdec v)" by (rule code_int [OF assms(2,3)])
qed

lemma rdbSaveRawString_saved:
  assumes "rdb_sink put rdb" "length s < 2 ^ 31"
  shows "rdb_saved_code put written rdb (rdbSaveRawString env rdb s) s"
proof -
  define e where "e = (if length s \<le> 11 then rdbTryIntegerEncoding s else Some [])"
  obtain enc where enc: "e = Some enc" "enc \<noteq> [] \<longrightarrow> (\<exists>v. s = sdec v \<and> is_ll v \<and> enc = rdbEncodeInteger v)"
  proof (cases "length s \<le> 11")
    case True
    then have "e = rdbTryIntegerEncoding s" by (simp add: e_def)
    then show ?thesis using that rdbTryIntegerEncoding_sdec [of s] by metis
  qed (use that in \<open>simp add: e_def\<close>)
  show ?thesis
  proof (cases "enc = []")
    case False
    then obtain v where v: "s = sdec v" "is_ll v" "enc = rdbEncodeInteger v" using enc(2) by blast
    obtain n rdb' where n: "rdbWriteRaw rdb enc = (n, rdb')" "rdb_saved put written rdb n rdb' enc"
      using rdb_int_saved(1) [OF assms(1) v(2)] False v(3) by blast
    have "rdb_code enc s" using rdb_int_saved(2) [OF assms(1) v(2)] False v(1,3) by simp
    moreover have "rdbSaveRawString env rdb s = Some (if n = - 1 then - 1 else int (length enc), rdb')"
      unfolding rdbSaveRawString_def e_def [symmetric] using enc(1) False n(1) by simp
    moreover have "(if n = - 1 then - 1 else int (length enc)) = n" using rdb_saved_length [OF n(2)] by auto
    ultimately show ?thesis using n(2) by (auto simp: rdb_saved_code_def)
  next
    case True
    note run = rdbSaveRawString_def [of env rdb s, unfolded e_def [symmetric] enc(1) True]
    show ?thesis
    proof (cases "rdb_compression env \<and> length s > 20")
      case False
      show ?thesis using rdb_raw_saved [OF assms] unfolding run if_not_P [OF False] by simp
    next
      case c: True
      obtain n rdb' where n: "rdbSaveLzfStringObject env rdb s = Some (n, rdb')"
        "if n = 0 then rdb' = rdb else \<exists>e. rdb_code e s \<and> rdb_saved put written rdb n rdb' e"
        using rdbSaveLzfStringObject_saved [OF assms(1) _ assms(2)] c by blast
      show ?thesis
      proof (cases "n = 0")
        case True
        then show ?thesis using rdb_raw_saved [OF assms] n unfolding run if_P [OF c] by simp
      next
        case False
        then obtain e where e: "rdb_code e s" "rdb_saved put written rdb n rdb' e" using n(2) by auto
        then have "n = - 1 \<or> n > 0" using rdb_saved_length [OF e(2)] False by (cases "n = - 1") auto
        then show ?thesis using n(1) e unfolding run if_P [OF c] by (auto simp: rdb_saved_code_def)
      qed
    qed
  qed
qed

lemma rdbSaveStringObject_saved:
  assumes "rdb_sink put rdb" "otype_of ob = OBJ_STRING" "\<forall>v. ob = IntEnc v \<longrightarrow> is_ll v" "\<forall>t p. ob \<noteq> Ptr t p" "length (getDecodedObject ob) < 2 ^ 31"
  shows "rdb_saved_code put written rdb (rdbSaveStringObject env rdb ob) (getDecodedObject ob)"
proof (cases ob)
  case (IntEnc v)
  then have v: "is_ll v" using assms(3) by simp
  have d: "getDecodedObject ob = sdec v" using decode_int [OF v] IntEnc by simp
  show ?thesis
  proof (cases "rdbEncodeInteger v = []")
    case False
    obtain n rdb' where "rdbWriteRaw rdb (rdbEncodeInteger v) = (n, rdb')" "rdb_saved put written rdb n rdb' (rdbEncodeInteger v)"
      using rdb_int_saved(1) [OF assms(1) v False] by blast
    then show ?thesis using rdb_int_saved(2) [OF assms(1) v False] False d IntEnc
      by (auto simp: rdbSaveStringObject_def rdbSaveLongLongAsStringObject_def rdb_saved_code_def)
  next
    case True
    have l: "length (sdec v) < 32" using length_sdec [OF v] by simp
    have w: "ll2string (replicate 32 0) 32 v = Some (length (sdec v), sdec v @ 0 # drop (length (sdec v) + 1) (replicate 32 0))"
      by (rule ll2string_sdec [OF v l]) simp
    obtain n1 rdb1 where 1: "rdbSaveLen rdb (length (sdec v)) = (n1, rdb1)" "rdb_saved put written rdb n1 rdb1 (rdb_len_enc (length (sdec v)))"
      using rdbSaveLen_saved [OF assms(1)] by blast
    have "length (sdec v) < 2 ^ 31" using l by simp
    then obtain n2 rdb2 where 2: "rdbWriteRaw rdb1 (sdec v) = (n2, rdb2)" "rdb_saved put written rdb1 n2 rdb2 (sdec v)"
      using rdbWriteRaw_saved [OF rdb_saved_sink [OF 1(2)]] by blast
    have run: "rdbSaveStringObject env rdb ob = Some (if n1 = - 1 then (- 1, rdb1) else if n2 = - 1 then (- 1, rdb2) else (n1 + n2, rdb2))"
      using IntEnc True w l 1(1) 2(1) by (simp add: rdbSaveStringObject_def rdbSaveLongLongAsStringObject_def Let_def)
    show ?thesis
    proof (cases "n1 = - 1")
      case True
      then have "rdb_saved put written rdb (- 1) rdb1 (rdb_len_enc (length (sdec v)) @ sdec v)" using 1(2) rdb_saved_fail by blast
      then show ?thesis using run True d code_raw [of "sdec v"] by (auto simp: rdb_saved_code_def)
    next
      case False
      show ?thesis using run False d code_raw [of "sdec v"] rdb_saved_append [OF 1(2) False 2(2)]
        by (cases "n2 = - 1") (auto simp: rdb_saved_code_def)
    qed
  qed
qed (use assms rdbSaveRawString_saved in \<open>auto simp: rdbSaveStringObject_def getDecodedObject_def\<close>)

end

section \<open>Loading\<close>

lemma unat_byte_lt: "unat (b :: u8) < 256"
  using unsigned_less [of b, where ?'a = nat] by simp

lemma len_byte: "n < 256 \<Longrightarrow> unat (word_of_nat n AND 0x3F :: u8) = n mod 64"
  "n < 256 \<Longrightarrow> drop_bit 6 (word_of_nat n AND 0xC0 :: u8) = word_of_nat (n div 64)"
  by (simp add: low_bits, simp only: high_bits unat_byte mod_less)

definition rdb_at :: "('io \<Rightarrow> nat \<Rightarrow> bytes option \<times> 'io) \<Rightarrow> ('io \<Rightarrow> bytes) \<Rightarrow> 'io rio \<Rightarrow> bytes \<Rightarrow> bool" where
  "rdb_at get remaining r bs \<longleftrightarrow> rio_read r = get \<and> \<not> rio_read_error r \<and> remaining (rio_io r) = bs"

text \<open>What the flags ask for, with the contents \<open>s\<close>.\<close>

definition rdb_val_ok :: "nat \<Rightarrow> bytes \<Rightarrow> rdb_val \<Rightarrow> bool" where
  "rdb_val_ok flags s w \<longleftrightarrow>
     (case w of
        RBytes b \<Rightarrow> (flags AND RDB_LOAD_PLAIN \<noteq> 0 \<or> flags AND RDB_LOAD_SDS \<noteq> 0) \<and> b = s
      | RObj ob \<Rightarrow> flags AND RDB_LOAD_PLAIN = 0 \<and> flags AND RDB_LOAD_SDS = 0 \<and> otype_of ob = OBJ_STRING \<and> getDecodedObject ob = s)"

lemma rdb_make_integer_ok:
  assumes "is_ll v"
  shows "\<exists>w. rdb_make_integer v flags = Some w \<and> rdb_val_ok flags (sdec v) w"
proof -
  have "ll2string (replicate 21 0) 21 v = Some (length (sdec v), sdec v @ 0 # drop (length (sdec v) + 1) (replicate 21 0))"
    by (rule ll2string_sdec [OF assms]) (use length_sdec [OF assms] in simp_all)
  then show ?thesis using decode_int [OF assms] sdsll2str_sdec
    by (simp add: rdb_make_integer_def rdb_val_ok_def otype_of_def getDecodedObject_def)
qed

text \<open>A signed integer of some bytes.\<close>

lemma word_of_int_byte: "unat (word_of_int v :: u8) = nat (v mod 256)"
  by (simp add: unsigned_of_int take_bit_eq_mod)

lemma signed_low: "- (2 ^ k) \<le> v \<Longrightarrow> v < 2 ^ k \<Longrightarrow> signed_take_bit k (v mod 2 ^ (k + 1)) = (v :: int)"
proof -
  assume v: "- (2 ^ k) \<le> v" "v < 2 ^ k"
  have "signed_take_bit k (take_bit (Suc k) v) = signed_take_bit k v" by (simp add: signed_take_bit_take_bit)
  then show ?thesis using signed_take_bit_int_eq_self [OF v] by (simp add: take_bit_eq_mod)
qed

lemma le_dec_step:
  assumes "int (le_dec xs) = (v div 2 ^ 8) mod k" "k > 0"
  shows "int (le_dec (word_of_int v # xs)) = v mod (2 ^ 8 * k)"
  using zmod_zmult2_eq [of k v "2 ^ 8"] assms by (simp add: word_of_int_byte)

lemma le_bytes_int:
  "int (le_dec [word_of_int v]) = v mod 2 ^ 8"
  "int (le_dec [word_of_int v, word_of_int (v div 2 ^ 8)]) = v mod 2 ^ 16"
  "int (le_dec [word_of_int v, word_of_int (v div 2 ^ 8), word_of_int (v div 2 ^ 16), word_of_int (v div 2 ^ 24)]) = v mod 2 ^ 32"
proof -
  have b: "int (le_dec [word_of_int v]) = v mod 2 ^ 8" for v using le_dec_step [of "[]" v 1] by simp
  show "int (le_dec [word_of_int v]) = v mod 2 ^ 8" by (rule b)
  show "int (le_dec [word_of_int v, word_of_int (v div 2 ^ 8)]) = v mod 2 ^ 16" using le_dec_step [OF b, of v] by simp
  have d1: "v div 2 ^ 16 = v div 2 ^ 8 div 2 ^ 8" using zdiv_zmult2_eq [of "2 ^ 8" v "2 ^ 8"] by simp
  have d2: "v div 2 ^ 24 = v div 2 ^ 16 div 2 ^ 8" using zdiv_zmult2_eq [of "2 ^ 8" v "2 ^ 16"] by simp
  have "int (le_dec [word_of_int (v div 2 ^ 24)]) = v div 2 ^ 16 div 2 ^ 8 mod 2 ^ 8" unfolding d2 by (rule b)
  from le_dec_step [OF this] have "int (le_dec [word_of_int (v div 2 ^ 16), word_of_int (v div 2 ^ 24)]) = v div 2 ^ 8 div 2 ^ 8 mod (2 ^ 8 * 2 ^ 8)"
    unfolding d1 by simp
  from le_dec_step [OF this] have "int (le_dec [word_of_int (v div 2 ^ 8), word_of_int (v div 2 ^ 16), word_of_int (v div 2 ^ 24)])
      = v div 2 ^ 8 mod (2 ^ 8 * (2 ^ 8 * 2 ^ 8))" by simp
  from le_dec_step [OF this] show "int (le_dec [word_of_int v, word_of_int (v div 2 ^ 8), word_of_int (v div 2 ^ 16), word_of_int (v div 2 ^ 24)]) = v mod 2 ^ 32"
    by simp
qed

context rio_source
begin

lemma rioRead_at:
  assumes "rdb_at get remaining r (bs @ rest)" "n = length bs"
  shows "\<exists>r'. rioRead r n = (Some bs, r') \<and> rdb_at get remaining r' rest"
  using rioRead_enough [of r bs rest n] assms by (simp add: rdb_at_def)

lemma rdbLoadLen_at:
  assumes "rdb_at get remaining r (rdb_len_enc len @ rest)" "len < 2 ^ 64"
  shows "\<exists>r'. rdbLoadLen r = (Ret (False, len), r') \<and> rdb_at get remaining r' rest"
proof -
  have one: "\<exists>r'. rioRead r 1 = (Some [b], r') \<and> rdb_at get remaining r' bs" if "rdb_len_enc len @ rest = b # bs" for b bs
    using rioRead_at [of r "[b]" bs 1] assms(1) that by simp
  consider "len < 2 ^ 6" | "\<not> len < 2 ^ 6" "len < 2 ^ 14" | "\<not> len < 2 ^ 6" "\<not> len < 2 ^ 14" "len < 2 ^ 32" | "\<not> len < 2 ^ 6" "\<not> len < 2 ^ 14" "\<not> len < 2 ^ 32" by blast
  then show ?thesis
  proof cases
    case 1
    then obtain r' where r': "rioRead r 1 = (Some [word_of_nat len], r')" "rdb_at get remaining r' rest"
      using one [of "word_of_nat len" rest] by (auto simp: rdb_len_enc.simps)
    then show ?thesis using 1 len_byte [of len]
      by (simp add: rdbLoadLen_def rdbLoadLenByRef_def RDB_ENCVAL_def RDB_6BITLEN_def Let_def)
  next
    case 2
    define q where "q = len div 256 + 64"
    have q: "q < 128" "64 \<le> q" "q mod 64 = len div 256" "q div 64 = 1" using 2 by (simp_all add: q_def)
    have e: "rdb_len_enc len = [word_of_nat q, word_of_nat len]" using 2 by (simp add: rdb_len_enc.simps q_def)
    obtain r' where r': "rioRead r 1 = (Some [word_of_nat q], r')" "rdb_at get remaining r' (word_of_nat len # rest)"
      using one [of "word_of_nat q" "word_of_nat len # rest"] e by auto
    obtain r2 where r2: "rioRead r' 1 = (Some [word_of_nat len], r2)" "rdb_at get remaining r2 rest"
      using rioRead_at [of r' "[word_of_nat len]" rest 1] r'(2) by auto
    have "len div 256 * 256 + len mod 256 = len" by simp
    then show ?thesis using r' r2 q len_byte [of q]
      by (simp add: rdbLoadLen_def rdbLoadLenByRef_def RDB_ENCVAL_def RDB_6BITLEN_def RDB_14BITLEN_def Let_def)
  next
    case 3
    have e: "rdb_len_enc len = 0x80 # rev (le_enc 4 len)" using 3 by (simp add: rdb_len_enc.simps)
    obtain r' where r': "rioRead r 1 = (Some [0x80], r')" "rdb_at get remaining r' (rev (le_enc 4 len) @ rest)"
      using one [of "0x80" "rev (le_enc 4 len) @ rest"] e by auto
    obtain r2 where r2: "rioRead r' 4 = (Some (rev (le_enc 4 len)), r2)" "rdb_at get remaining r2 rest"
      using rioRead_at [OF r'(2), of 4] by auto
    have "le_dec (rev (rev (le_enc 4 len))) = len" using 3 by (simp del: le_enc_numeral)
    then show ?thesis using r' r2 
      by (simp add: rdbLoadLen_def rdbLoadLenByRef_def RDB_ENCVAL_def RDB_6BITLEN_def RDB_14BITLEN_def RDB_32BITLEN_def Let_def del: le_enc_numeral)
  next
    case 4
    have e: "rdb_len_enc len = 0x81 # rev (le_enc 8 len)" using 4 by (simp add: rdb_len_enc.simps)
    obtain r' where r': "rioRead r 1 = (Some [0x81], r')" "rdb_at get remaining r' (rev (le_enc 8 len) @ rest)"
      using one [of "0x81" "rev (le_enc 8 len) @ rest"] e by auto
    obtain r2 where r2: "rioRead r' 8 = (Some (rev (le_enc 8 len)), r2)" "rdb_at get remaining r2 rest"
      using rioRead_at [OF r'(2), of 8] by auto
    have "le_dec (rev (rev (le_enc 8 len))) = len" using assms(2) by (simp del: le_enc_numeral)
    then show ?thesis using r' r2
      by (simp add: rdbLoadLen_def rdbLoadLenByRef_def RDB_ENCVAL_def RDB_6BITLEN_def RDB_14BITLEN_def RDB_32BITLEN_def RDB_64BITLEN_def Let_def del: le_enc_numeral)
  qed
qed

lemma rdbLoadLen_encoded:
  assumes "rdb_at get remaining r (b # rest)" "unat b = 192 + k" 
  shows "\<exists>r'. rdbLoadLen r = (Ret (True, k), r') \<and> rdb_at get remaining r' rest"
proof -
  obtain r' where r': "rioRead r 1 = (Some [b], r')" "rdb_at get remaining r' rest"
    using rioRead_at [of r "[b]" rest 1] assms(1) by auto
  have "k < 64" using assms(2) unat_byte_lt [of b] by simp
  moreover have "192 + k = k + 64 * 3" by simp
  ultimately have "(192 + k) div 64 = 3" "(192 + k) mod 64 = k" by (simp_all only: div_mult_self2 mod_mult_self2 div_less mod_less)
  then show ?thesis using r' by (simp add: rdbLoadLen_def rdbLoadLenByRef_def RDB_ENCVAL_def Let_def low_bits high_bits assms(2) del: drop_bit_and)
qed

end

lemmas rdb_codes = RDB_ENC_INT8_def RDB_ENC_INT16_def RDB_ENC_INT32_def RDB_ENC_LZF_def

definition rdb_loads :: "('io \<Rightarrow> nat \<Rightarrow> bytes option \<times> 'io) \<Rightarrow> ('io \<Rightarrow> bytes) \<Rightarrow> (rdb_val option outcome \<times> 'io rio) option \<Rightarrow> nat \<Rightarrow> bytes \<Rightarrow> bytes \<Rightarrow> bool" where
  "rdb_loads get remaining res flags s rest \<longleftrightarrow>
     (\<exists>w r'. res = Some (Ret (Some w), r') \<and> rdb_val_ok flags s w \<and> rdb_at get remaining r' rest)"

context rio_source
begin

lemma rdb_load_int:
  assumes "is_ll v" "rdbEncodeInteger v \<noteq> []" "rdb_at get remaining r (rdbEncodeInteger v @ rest)"
  shows "rdb_loads get remaining (rdbGenericLoadStringObject env r flags) flags (sdec v) rest"
proof -
  obtain w where w: "rdb_make_integer v flags = Some w" "rdb_val_ok flags (sdec v) w" using rdb_make_integer_ok [OF assms(1)] by blast
  have step: "rdb_loads get remaining (rdbGenericLoadStringObject env r flags) flags (sdec v) rest"
    if e: "rdbEncodeInteger v = b # enc" and b: "unat b = 192 + k" and len: "length enc = m"
      and load: "\<And>r' :: 'io rio. rdbLoadIntegerObject r' k flags = (case rioRead r' m of (None, rdb) \<Rightarrow> Some (Ret None, rdb)
         | (Some enc, rdb) \<Rightarrow> map_option (\<lambda>v. (Ret (Some v), rdb)) (rdb_make_integer (signed_take_bit j (int (le_dec enc))) flags))"
      and dec: "signed_take_bit j (int (le_dec enc)) = v" and k: "k < 3" for b enc k m j
  proof -
    obtain r1 where r1: "rdbLoadLen r = (Ret (True, k), r1)" "rdb_at get remaining r1 (enc @ rest)"
      using rdbLoadLen_encoded [of r b "enc @ rest" k] assms(3) e b by auto
    obtain r2 where r2: "rioRead r1 m = (Some enc, r2)" "rdb_at get remaining r2 rest" using rioRead_at [OF r1(2)] len by metis
    have "rdbGenericLoadStringObject env r flags = rdbLoadIntegerObject r1 k flags"
      using r1(1) k by (auto simp: rdbGenericLoadStringObject_def rdb_codes)
    also have "\<dots> = Some (Ret (Some w), r2)" unfolding load r2(1) by (simp add: dec w(1))
    finally show ?thesis using w(2) r2(2) by (simp add: rdb_loads_def)
  qed
  have c: "push_bit 6 RDB_ENCVAL OR word_of_nat RDB_ENC_INT8 = (0xC0 :: u8)" "push_bit 6 RDB_ENCVAL OR word_of_nat RDB_ENC_INT16 = (0xC1 :: u8)"
    "push_bit 6 RDB_ENCVAL OR word_of_nat RDB_ENC_INT32 = (0xC2 :: u8)" by (simp_all add: RDB_ENCVAL_def rdb_codes)
  consider "v \<ge> - (2 ^ 7)" "v \<le> 2 ^ 7 - 1" | "\<not> (v \<ge> - (2 ^ 7) \<and> v \<le> 2 ^ 7 - 1)" "v \<ge> - (2 ^ 15)" "v \<le> 2 ^ 15 - 1"
    | "\<not> (v \<ge> - (2 ^ 7) \<and> v \<le> 2 ^ 7 - 1)" "\<not> (v \<ge> - (2 ^ 15) \<and> v \<le> 2 ^ 15 - 1)" "v \<ge> - (2 ^ 31)" "v \<le> 2 ^ 31 - 1"
    using assms(2) unfolding rdbEncodeInteger_def by (auto split: if_splits)
  then show ?thesis
  proof cases
    case 1
    have e: "rdbEncodeInteger v = 0xC0 # [word_of_int v]" unfolding rdbEncodeInteger_def c using 1 by (simp only: if_P simp_thms)
    show ?thesis
    proof (rule step [OF e, where k = 0 and m = 1 and j = 7])
      show "signed_take_bit 7 (int (le_dec [word_of_int v])) = v" unfolding le_bytes_int using signed_low [of 7 v] 1 by simp
    qed (simp_all add: rdbLoadIntegerObject_def rdb_codes)
  next
    case 2
    have e: "rdbEncodeInteger v = 0xC1 # [word_of_int v, word_of_int (v div 2 ^ 8)]" unfolding rdbEncodeInteger_def c using 2 by (simp only: if_not_P if_P simp_thms)
    show ?thesis
    proof (rule step [OF e, where k = 1 and m = 2 and j = 15])
      show "signed_take_bit 15 (int (le_dec [word_of_int v, word_of_int (v div 2 ^ 8)])) = v" unfolding le_bytes_int using signed_low [of 15 v] 2 by simp
    qed (simp_all add: rdbLoadIntegerObject_def rdb_codes)
  next
    case 3
    have e: "rdbEncodeInteger v = 0xC2 # [word_of_int v, word_of_int (v div 2 ^ 8), word_of_int (v div 2 ^ 16), word_of_int (v div 2 ^ 24)]"
      unfolding rdbEncodeInteger_def c using 3 by (simp only: if_not_P if_P simp_thms)
    show ?thesis
    proof (rule step [OF e, where k = 2 and m = 4 and j = 31])
      show "signed_take_bit 31 (int (le_dec [word_of_int v, word_of_int (v div 2 ^ 8), word_of_int (v div 2 ^ 16), word_of_int (v div 2 ^ 24)])) = v"
        unfolding le_bytes_int using signed_low [of 31 v] 3 by simp
    qed (simp_all add: rdbLoadIntegerObject_def rdb_codes)
  qed
qed

lemma rdb_load_raw:
  assumes "length s < 2 ^ 32" "rdb_at get remaining r (rdb_len_enc (length s) @ s @ rest)"
  shows "rdb_loads get remaining (rdbGenericLoadStringObject env r flags) flags s rest"
proof -
  have "length s < 2 ^ 64" using assms(1) by simp
  then obtain r1 where r1: "rdbLoadLen r = (Ret (False, length s), r1)" "rdb_at get remaining r1 (s @ rest)"
    using rdbLoadLen_at [OF assms(2)] by blast
  obtain r2 where r2: "(if length s \<noteq> 0 then rioRead r1 (length s) else (Some [], r1)) = (Some s, r2)" "rdb_at get remaining r2 rest"
    using rioRead_at [OF r1(2) refl] r1(2) by (cases "s = []") auto
  have ne: "length s \<noteq> RDB_LENERR" using assms(1) by (simp add: RDB_LENERR_def)
  have "rdbGenericLoadStringObject env r flags = Some (Ret (Some (
      if flags AND RDB_LOAD_PLAIN \<noteq> 0 \<or> flags AND RDB_LOAD_SDS \<noteq> 0 then RBytes s
      else if flags AND RDB_LOAD_ENC \<noteq> 0 then RObj (createStringObject s) else RObj (Raw s))), r2)"
    using ne unfolding rdbGenericLoadStringObject_def r1(1) by (simp only: r2(1) outcome.case prod.case option.case if_False)
  then show ?thesis using r2(2)
    by (simp add: rdb_loads_def rdb_val_ok_def otype_of_def getDecodedObject_def createStringObject_def)
qed

text \<open>A compressed string of any stated length that is long enough: what decompression does not fill is the
  fresh memory.\<close>

lemma rdb_load_lzf:
  assumes "lz_oks ts []" "ts \<noteq> []" "c = concat (map lz_enc ts)" "length c < 2 ^ 32" "lz_run ts [] = s" "length s \<le> len" "len < 2 ^ 32"
    and at: "rdb_at get remaining r (0xC3 # rdb_len_enc (length c) @ rdb_len_enc len @ c @ rest)"
  shows "rdb_loads get remaining (rdbGenericLoadStringObject env r flags) flags (s @ map (fresh env) [length s..<len]) rest"
proof -
  obtain r0 where r0: "rdbLoadLen r = (Ret (True, 3), r0)" "rdb_at get remaining r0 (rdb_len_enc (length c) @ rdb_len_enc len @ c @ rest)"
    using rdbLoadLen_encoded [OF at, of 3] by auto
  have l: "length c < 2 ^ 64" "len < 2 ^ 64" "length c \<noteq> RDB_LENERR" "len \<noteq> RDB_LENERR" using assms(4,7) by (simp_all add: RDB_LENERR_def)
  obtain r1 where r1: "rdbLoadLen r0 = (Ret (False, length c), r1)" "rdb_at get remaining r1 (rdb_len_enc len @ c @ rest)"
    using rdbLoadLen_at [OF r0(2) l(1)] by blast
  obtain r2 where r2: "rdbLoadLen r1 = (Ret (False, len), r2)" "rdb_at get remaining r2 (c @ rest)"
    using rdbLoadLen_at [OF r1(2) l(2)] by blast
  obtain r3 where r3: "rioRead r2 (length c) = (Some c, r3)" "rdb_at get remaining r3 rest" using rioRead_at [OF r2(2) refl] by blast
  have m: "take (length c mod 2 ^ 32) c = c" "len mod 2 ^ 32 = len" using assms(4,7) by simp_all
  have pos: "length s \<noteq> 0" using lz_run_pos [OF assms(1,2)] assms(5) by simp
  have d: "lzf_decompress c (take len (map (fresh env) [0..<len])) = Some (Inr (s @ map (fresh env) [length s..<len], length s))"
    using lzf_decompress_tokens [OF assms(1,2), of "map (fresh env) [0..<len]"] assms(3,5,6) by (simp add: drop_map)
  have "rdbGenericLoadStringObject env r flags = rdbLoadLzfStringObject env r0 flags"
    using r0(1) by (simp add: rdbGenericLoadStringObject_def rdb_codes)
  also have "\<dots> = Some (Ret (Some (rdb_make_string (s @ map (fresh env) [length s..<len]) flags)), r3)"
    unfolding rdbLoadLzfStringObject_def r1(1) r2(1) r3(1) outcome.case prod.case option.case Let_def m d using l pos by simp
  finally show ?thesis using r3(2)
    by (simp add: rdb_loads_def rdb_make_string_def rdb_val_ok_def otype_of_def getDecodedObject_def)
qed

lemma rdb_load_code:
  assumes "rdb_code e s" "rdb_at get remaining r (e @ rest)" "length s < 2 ^ 32"
  shows "rdb_loads get remaining (rdbGenericLoadStringObject env r flags) flags s rest"
  using assms
proof (cases rule: rdb_code.cases)
  case (code_int v)
  then show ?thesis using rdb_load_int assms(2) by simp
next
  case (code_lzf ts c)
  then show ?thesis using rdb_load_lzf [OF code_lzf(3,4,5,6) code_lzf(2) [symmetric] le_refl, of r rest] code_lzf(1,2) assms(2,3) by simp
next
  case code_raw
  then show ?thesis using rdb_load_raw [OF assms(3)] assms(2) by simp
qed

end

section \<open>Properties\<close>

text \<open>C7: A string object saved to a buffer (\<^verbatim>\<open>rdbSaveStringObject\<close>, with or without compression, as an
  integer or not, in chunks of any size) is appended to the buffer, the number of bytes is returned, and
  loading them (\<^verbatim>\<open>rdbGenericLoadStringObject\<close>, with any flags and whatever fresh memory holds) returns
  the same string, in the form that the flags ask for, and reads exactly those bytes.\<close>

theorem rdb_string_roundtrip:
  assumes "rio_write r = rioBufferWrite" "\<not> rio_write_error r"
    and "\<forall>t p. ob \<noteq> Ptr t p" "\<forall>v. ob = IntEnc v \<longrightarrow> is_ll v" "length (getDecodedObject ob) < 2 ^ 31"
  shows "\<exists>r' e. rdbSaveStringObject env (Some r) ob = Some (int (length e), Some r') \<and> buf_ptr (rio_io r') = buf_ptr (rio_io r) @ e \<and>
    (\<forall>env' flags rest q. rio_read q = rioBufferRead \<longrightarrow> \<not> rio_read_error q \<longrightarrow> drop (buf_pos (rio_io q)) (buf_ptr (rio_io q)) = e @ rest \<longrightarrow>
      (\<exists>w q'. rdbGenericLoadStringObject env' q flags = Some (Ret (Some w), q') \<and> rdb_val_ok flags (getDecodedObject ob) w \<and>
        drop (buf_pos (rio_io q')) (buf_ptr (rio_io q')) = rest))"
proof -
  have "otype_of ob = OBJ_STRING" using assms(3) by (cases ob) (simp_all add: otype_of_def)
  moreover have "rdb_sink rioBufferWrite (Some r)" using assms(1) by (simp add: rdb_sink_def)
  ultimately obtain n rdb' e where s: "rdbSaveStringObject env (Some r) ob = Some (n, rdb')" "rdb_code e (getDecodedObject ob)"
    "rdb_saved rioBufferWrite buf_ptr (Some r) n rdb' e"
    using bufs.rdbSaveStringObject_saved [of "Some r" ob env] assms(3-5) unfolding rdb_saved_code_def by blast
  have "n \<noteq> - 1" using s(3) assms(2) buffer_never_fails by (auto simp: rdb_saved_def)
  then obtain r' where r': "rdb' = Some r'" "n = int (length e)" "buf_ptr (rio_io r') = buf_ptr (rio_io r) @ e" using s(3) by (auto simp: rdb_saved_def)
  have "\<exists>w q'. rdbGenericLoadStringObject env' q flags = Some (Ret (Some w), q') \<and> rdb_val_ok flags (getDecodedObject ob) w \<and>
      drop (buf_pos (rio_io q')) (buf_ptr (rio_io q')) = rest"
    if q: "rio_read q = rioBufferRead" "\<not> rio_read_error q" "drop (buf_pos (rio_io q)) (buf_ptr (rio_io q)) = e @ rest" for env' flags rest q
  proof -
    have "rdb_at rioBufferRead (\<lambda>b. drop (buf_pos b) (buf_ptr b)) q (e @ rest)" using q by (simp add: rdb_at_def)
    from bufr.rdb_load_code [OF s(2) this, of env' flags] show ?thesis using assms(5) by (auto simp: rdb_loads_def rdb_at_def)
  qed
  then show ?thesis using s(1) r' by blast
qed

definition zero_env :: rdb_env where
  "zero_env = \<lparr>rdb_compression = True, fresh = \<lambda>_. 0, stack_htab = \<lambda>_. 0\<rparr>"

theorem rdb_string_roundtrip_witness:
  "\<exists>r' e. rdbSaveStringObject zero_env (Some (rioInitWithBuffer [9])) (Raw (replicate 40 0x61)) = Some (int (length e), Some r') \<and>
    (\<exists>w q'. rdbGenericLoadStringObject zero_env (rioInitWithBuffer (e @ [7])) RDB_LOAD_SDS = Some (Ret (Some w), q') \<and>
      rdb_val_ok RDB_LOAD_SDS (replicate 40 0x61) w \<and> drop (buf_pos (rio_io q')) (buf_ptr (rio_io q')) = [7])"
proof -
  obtain r' e where "rdbSaveStringObject zero_env (Some (rioInitWithBuffer [9])) (Raw (replicate 40 0x61)) = Some (int (length e), Some r')"
    "\<forall>env' flags rest q. rio_read q = rioBufferRead \<longrightarrow> \<not> rio_read_error q \<longrightarrow> drop (buf_pos (rio_io q)) (buf_ptr (rio_io q)) = e @ rest \<longrightarrow>
      (\<exists>w q'. rdbGenericLoadStringObject env' q flags = Some (Ret (Some w), q') \<and> rdb_val_ok flags (getDecodedObject (Raw (replicate 40 0x61))) w \<and>
        drop (buf_pos (rio_io q')) (buf_ptr (rio_io q')) = rest)"
    using rdb_string_roundtrip [of "rioInitWithBuffer [9]" "Raw (replicate 40 0x61)" zero_env]
    by (auto simp: rioInitWithBuffer_def getDecodedObject_def)
  moreover have "rio_read (rioInitWithBuffer (e @ [7])) = rioBufferRead" "\<not> rio_read_error (rioInitWithBuffer (e @ [7]))"
    "drop (buf_pos (rio_io (rioInitWithBuffer (e @ [7])))) (buf_ptr (rio_io (rioInitWithBuffer (e @ [7])))) = e @ [7]"
    by (simp_all add: rioInitWithBuffer_def)
  moreover have "getDecodedObject (Raw (replicate 40 0x61)) = replicate 40 0x61" by (simp add: getDecodedObject_def)
  ultimately show ?thesis by metis
qed

text \<open>C16: Write errors. On any target whose successful writes append their bytes (files, pipes and
  sockets), saving a string (\<^verbatim>\<open>rdbSaveRawString\<close>) either returns -1 with the sticky error flag of the
  stream set, or returns the number of bytes it has appended, which are one of the encodings of the string;
  on a stream that has failed before, it writes nothing and returns -1.\<close>

theorem rdbSaveRawString_errors:
  assumes "\<And>x bs x'. put x bs = (True, x') \<Longrightarrow> written x' = written x @ bs"
    and "rio_write r = put" "length s < 2 ^ 31"
  shows "\<exists>n r' e. rdbSaveRawString env (Some r) s = Some (n, Some r') \<and>
    (if rio_write_error r' then n = - 1 else n = int (length e) \<and> rdb_code e s \<and> written (rio_io r') = written (rio_io r) @ e) \<and>
    (rio_write_error r \<longrightarrow> rio_write_error r')"
proof -
  have "rio_sink put written" using assms(1) by unfold_locales blast
  moreover have "rdb_sink put (Some r)" using assms(2) by (simp add: rdb_sink_def)
  ultimately obtain n rdb' e where s: "rdbSaveRawString env (Some r) s = Some (n, rdb')" "rdb_code e s" "rdb_saved put written (Some r) n rdb' e"
    using rio_sink.rdbSaveRawString_saved [of put written "Some r" s env] assms(3) unfolding rdb_saved_code_def by blast
  show ?thesis
  proof (cases "n = - 1")
    case True
    then show ?thesis using s by (auto simp: rdb_saved_def)
  next
    case False
    then show ?thesis using s by (auto simp: rdb_saved_def)
  qed
qed

text \<open>A file that has room for four bytes.\<close>

definition small_file :: "bytes \<Rightarrow> bytes \<Rightarrow> bool \<times> bytes" where
  "small_file x bs = (if length x + length bs \<le> 4 then (True, x @ bs) else (False, take 4 (x @ bs)))"

definition small_rio :: "bytes rio" where
  "small_rio = \<lparr>rio_read = \<lambda>x n. (None, x), rio_write = small_file, rio_update_cksum = None, rio_cksum = 0, rio_read_error = False,
     rio_write_error = False, rio_processed_bytes = 0, rio_max_processing_chunk = 3, rio_io = []\<rparr>"

theorem rdbSaveRawString_errors_witness:
  "\<exists>n r' e. rdbSaveRawString zero_env (Some small_rio) (str ''abc'') = Some (n, Some r') \<and>
    (if rio_write_error r' then n = - 1 else n = int (length e) \<and> rdb_code e (str ''abc'') \<and> id (rio_io r') = id (rio_io small_rio) @ e) \<and>
    (rio_write_error small_rio \<longrightarrow> rio_write_error r')"
proof (rule rdbSaveRawString_errors [of small_file])
  show "id x' = id x @ bs" if "small_file x bs = (True, x')" for x bs x' using that by (simp add: small_file_def split: if_splits)
qed (simp_all add: small_rio_def)

text \<open>C40: Any compressed string whose stated length is more than it expands to is accepted
  (\<^verbatim>\<open>rdbLoadLzfStringObject\<close> only checks that decompression did not fail): whatever the flags, the string
  that is loaded is the expansion followed by whatever the fresh memory held.\<close>

theorem rdb_lzf_uninitialised:
  assumes "lz_oks ts []" "ts \<noteq> []" "c = concat (map lz_enc ts)" "length c < 2 ^ 32" "length (lz_run ts []) < len" "len < 2 ^ 32"
    "rio_read q = rioBufferRead" "\<not> rio_read_error q"
    "drop (buf_pos (rio_io q)) (buf_ptr (rio_io q)) = 0xC3 # rdb_len_enc (length c) @ rdb_len_enc len @ c @ rest"
  shows "\<exists>w q'. rdbGenericLoadStringObject env q flags = Some (Ret (Some w), q') \<and>
    rdb_val_ok flags (lz_run ts [] @ map (fresh env) [length (lz_run ts [])..<len]) w \<and>
    drop (buf_pos (rio_io q')) (buf_ptr (rio_io q')) = rest"
  using bufr.rdb_load_lzf [OF assms(1-4) refl, of len q rest env flags] assms(5-9)
  by (auto simp: rdb_loads_def rdb_at_def)

theorem rdb_lzf_uninitialised_witness:
  "\<exists>q'. rdbGenericLoadStringObject (zero_env\<lparr>fresh := word_of_nat\<rparr>) (rioInitWithBuffer [0xC3, 2, 5, 0, 0x41]) RDB_LOAD_SDS =
    Some (Ret (Some (RBytes [0x41, 1, 2, 3, 4])), q')"
proof -
  have "[1..<5] = [1, 2, 3, 4 :: nat]" by (simp add: upt_conv_Cons)
  then obtain w q' where w: "rdbGenericLoadStringObject (zero_env\<lparr>fresh := word_of_nat\<rparr>) (rioInitWithBuffer [0xC3, 2, 5, 0, 0x41]) RDB_LOAD_SDS =
      Some (Ret (Some w), q')" "rdb_val_ok RDB_LOAD_SDS [0x41, 1, 2, 3, 4] w"
    using rdb_lzf_uninitialised [of "[Lits [0x41]]" "[0, 0x41]" 5 "rioInitWithBuffer [0xC3, 2, 5, 0, 0x41]" "[]"
        "zero_env\<lparr>fresh := word_of_nat\<rparr>" RDB_LOAD_SDS]
    by (auto simp: rioInitWithBuffer_def rdb_len_enc.simps)
  from w(2) have "w = RBytes [0x41, 1, 2, 3, 4]" by (cases w) (simp_all add: rdb_val_ok_def RDB_LOAD_SDS_def)
  then show ?thesis using w(1) by blast
qed

end
