(* ===== verification/Spec2Isabelle.thy ===== *)
theory Spec2Isabelle
  imports Intset Dict Session Zset Rdb
begin

text \<open>
  A verification library for the Redis 6.0.5 server under
  \<^verbatim>\<open>src/lwj-redis/redis-6.0.5/src\<close>. The server keeps a number of databases, each a hash table
  from keys to objects with a second table of times to live, and runs the commands of its clients
  one after the other in a single thread. Commands look keys up (which deletes a key that has
  expired), store and delete them, and signal every key they change to the clients that watch it;
  a client may queue commands in a transaction and run them together unless a watched key has
  changed.

  The theories, in the order of their imports:

  \<^item> \<open>Prelude\<close>: bytes, machine words, little endian memory and the lemmas on them that the byte
    level components share.
  \<^item> \<open>Interfaces\<close>: the contracts, as locales: \<open>member_set\<close> (a set with insertion, removal and
    membership), \<open>bounded_map\<close> (a finite map with a bound on its size, with runs of operations)
    and \<open>heap_structure\<close> (operations that allocate and refine an abstract state). They are
    interpreted on the models of \<^verbatim>\<open>intset.c\<close>, \<^verbatim>\<open>dict.c\<close> and the sorted sets of \<^verbatim>\<open>t_zset.c\<close>.
  \<^item> \<open>Intset\<close> (\<^verbatim>\<open>intset.c\<close>): the sorted array of integers with its three encodings, on bytes.
    Adding, removing and searching refine a finite set of integers of fewer than \<open>2 ^ 29\<close> members;
    the next insertion leaves the array, because its size is computed in 32 bits.
  \<^item> \<open>Util\<close> (\<^verbatim>\<open>util.c\<close>): glob matching against a reference semantics on parsed patterns, the conversions between
    integers and strings (exact and inverse to each other), and sizes with units.
  \<^item> \<open>Dict\<close> (\<^verbatim>\<open>dict.c\<close>): the hash table with two tables, incremental rehashing and the stateless
    scan. It refines a finite map, rehashing ends, and a scan reports every key that stays.
  \<^item> \<open>Server\<close> (\<^verbatim>\<open>object.c\<close>, \<^verbatim>\<open>db.c\<close>, \<^verbatim>\<open>multi.c\<close>): objects, databases, clients and the server as
    records, the primitives that commands are built from, the invariant \<open>server_ok\<close>, and
    \<open>kstep X s s'\<close>, which says that a step keeps the invariant and that every changed key outside
    \<open>X\<close> has been signalled. The rules of the collection \<open>kstep_intros\<close> compose steps.
  \<^item> \<open>Strings\<close> (\<^verbatim>\<open>t_string.c\<close>): the string commands. SET and GET are inverse, increments are exact
    or refused, SETRANGE and APPEND write what they should byte by byte and refuse more than 512 MB; two
    overflows are shown.
  \<^item> \<open>Keyspace\<close> (\<^verbatim>\<open>db.c\<close>, \<^verbatim>\<open>expire.c\<close>): deletion, renaming, moving, flushing and swapping, times
    to live, and the expiry of the keys of writable replicas, which is shown to end.
  \<^item> \<open>Multi\<close> (\<^verbatim>\<open>multi.c\<close>, \<^verbatim>\<open>server.c\<close>): watched keys, transactions, \<^verbatim>\<open>call\<close> and
    \<^verbatim>\<open>processCommand\<close>, and the server as a step relation, with the invariant of all reachable
    states, the correctness of transactions as optimistic locks, and the deadline that EXPIRE gives a
    key as the commands run by \<^verbatim>\<open>call\<close> see it.
  \<^item> \<open>Protocol\<close> (\<^verbatim>\<open>sds.c\<close>, \<^verbatim>\<open>networking.c\<close>, \<^verbatim>\<open>aof.c\<close>): quoting and splitting of lines, the part of
    the client that reading uses, the inline and the multibulk parser, the loop over the query
    buffer and the reads from the socket, with the execution of a command as an argument under the
    contract \<open>command_executor\<close>. The loop ends because every round consumes bytes.
  \<^item> \<open>Session\<close>: \<^verbatim>\<open>processCommand\<close> as the executor, on which the contract is interpreted. A stream of
    requests runs the commands it encodes however the network cuts it; any bytes at all keep the
    parser inside its buffer and the server inside its invariant; the stream of a master is
    accounted for byte by byte.
  \<^item> \<open>Skiplist\<close> (\<^verbatim>\<open>t_zset.c\<close>): the skip list on a heap of nodes. \<open>zsl_rep z ns xs\<close> says that the nodes
    \<open>ns\<close> are linked on all their levels with the right spans and store the ascending pairs \<open>xs\<close>;
    searches stop at the position of their condition, and insertion, deletion, the update of a score
    and the deletion of ranges keep the representation.
  \<^item> \<open>Zset\<close> (\<^verbatim>\<open>t_zset.c\<close>): sorted sets as a dictionary whose entries point into a skip list. All
    operations refine a finite map from elements to scores (the contract \<open>heap_structure\<close>); ranks,
    ranges by index and by score, counts and removals are those of the ordered list of the map.
  \<^item> \<open>Lzf\<close> (\<^verbatim>\<open>lzf_c.c\<close>, \<^verbatim>\<open>lzf_d.c\<close>): the compression of strings. \<open>lz_token\<close> is the format as data,
    runs of literals and references back; the compressor is shown to write the encoding of tokens that
    expand to its input, the decompressor to expand them, and to stay inside its buffers on any input.
  \<^item> \<open>Rio\<close> (\<^verbatim>\<open>rio.h\<close>, \<^verbatim>\<open>rio.c\<close>): streams as records of function pointers, with the contracts \<open>rio_sink\<close>
    and \<open>rio_source\<close> of a target, interpreted on the buffer in memory.
  \<^item> \<open>Rdb\<close> (\<^verbatim>\<open>rdb.c\<close>): lengths, integers, times and strings in snapshots. \<open>rdb_code e s\<close> are the encodings
    of a string; saving appends one of them or reports an error on any target, and loading inverts it;
    a compressed string with too large a length is completed from fresh memory.

  Conventions. Machine integers are words, or integers with the wrap-around written out
  (\<open>wrap64\<close>, \<open>wrap32\<close>); a pointer or lookup that fails is \<open>None\<close>; memory accesses outside an
  allocation make an operation \<open>None\<close>; an assertion of the server that fails sets the flag
  \<open>aborted\<close>, after which nothing runs. Loops are structural recursions over the data they walk;
  where a loop is bounded by fuel, the fuel is the number of buckets or bytes it can visit, or a
  theorem gives the number of rounds that is enough (\<open>dictRehash_completes\<close>,
  \<open>expireSlaveKeys_returns\<close>).

  Parameters. The hash function of the dictionaries and the contents of fresh memory are arguments
  of the models; so are the random numbers and the addresses of new nodes, the addition of scores,
  the random choice of keys, the time limit of the expiry loop, and the
  decisions of the parts that can refuse a command (authentication, access control, disk errors,
  number of replicas, publish and subscribe mode, replication link).

  Not modelled: reference counts and memory management, output buffers and the event loop, whole snapshots and the append only file,
  replication, cluster and sentinel, scripting and modules, the
  commands on lists, sets, hashes and streams and the packed structures that store them, the
  packed encoding of sorted sets and their ranges by bytes, unions and intersections, blocking commands, eviction, and the sampling of the active expire cycle (its deletion
  step is modelled).
\<close>

end
